(* ===== verification/Prelude.thy ===== *)
theory Prelude
  imports Main "HOL-Library.Word" "HOL-Library.Signed_Division"
begin

text \<open>
  What every component of the development shares: the names of the machine types, the
  results of C code (a value, or the way the process stops), byte buffers with the accesses
  that stay inside an object, the counted loops of the C code, and the byte orders it uses.
\<close>

unbundle bit_operations_syntax

section \<open>Lemma collections\<close>

named_theorems len_simps \<open>lengths of buffers, tables and command blocks\<close>
named_theorems io_simps \<open>unfolding of the I/O operations on records\<close>
named_theorems range_intros \<open>bounds of offsets, indices and ticket numbers\<close>

section \<open>Machine types\<close>

text \<open>
  The fixed-width types of \<open>stdint.h\<close> are words. A C \<open>int\<close> is an \<^typ>\<open>int\<close> holding a value
  of the 32-bit range: signed overflow is undefined in C and no result is claimed for it;
  conversions from unsigned types to \<open>int\<close> go through \<^const>\<open>sint\<close>, conversions to unsigned types
  through \<^const>\<open>word_of_int\<close>, as gcc does them.
\<close>

type_synonym u8 = "8 word"
type_synonym u16 = "16 word"
type_synonym u32 = "32 word"
type_synonym u64 = "64 word"
type_synonym u48 = "48 word"
type_synonym bytes = "8 word list"

abbreviation u32_of_int :: "int \<Rightarrow> u32" where "u32_of_int \<equiv> word_of_int"
abbreviation u64_of_int :: "int \<Rightarrow> u64" where "u64_of_int \<equiv> word_of_int"
abbreviation int_of_u32 :: "u32 \<Rightarrow> int" where "int_of_u32 \<equiv> sint"

section \<open>Results of C code\<close>

text \<open>
  A C function returns, or the process exits with a status (after the lines it wrote to
  \<open>stderr\<close>), or it accesses memory outside the object it was given, or it divides by zero, or it
  waits for a semaphore nobody has posted. The faults are values here, so that every exit of the
  code is a branch of the model and a memory error cannot go unnoticed. \<open>OutOfFuel\<close> is not the
  code's: it marks the end of the fuel given to a loop that need not end.
\<close>

datatype fault = Exited int "string list" | OutOfBounds | DivByZero | Blocked | OutOfFuel

type_synonym 'a res = "fault + 'a"

definition bind_res :: "'a res \<Rightarrow> ('a \<Rightarrow> 'b res) \<Rightarrow> 'b res" where
  "bind_res r f = (case r of Inl e \<Rightarrow> Inl e | Inr x \<Rightarrow> f x)"

lemma bind_res_simps [simp]:
  "bind_res (Inl e) f = Inl e"
  "bind_res (Inr x) f = f x"
  by (simp_all add: bind_res_def)

lemma bind_res_Inr_iff: "bind_res r f = Inr y \<longleftrightarrow> (\<exists>x. r = Inr x \<and> f x = Inr y)"
  by (cases r) auto

lemma bind_res_InrE:
  assumes "bind_res r f = Inr y" obtains x where "r = Inr x" "f x = Inr y"
  using assms by (auto simp: bind_res_Inr_iff)

lemma bind_res_pairE:
  assumes "bind_res r (\<lambda>(x, y). f x y) = Inr z" obtains x y where "r = Inr (x, y)" "f x y = Inr z"
  using assms by (auto simp: bind_res_Inr_iff)

lemma bind_res_Inl_iff: "bind_res r f = Inl e \<longleftrightarrow> r = Inl e \<or> (\<exists>x. r = Inr x \<and> f x = Inl e)"
  by (cases r) auto

text \<open>Checked division of unsigned and of signed numbers.\<close>

definition udiv :: "u64 \<Rightarrow> u64 \<Rightarrow> u64 res" where
  "udiv a b = (if b = 0 then Inl DivByZero else Inr (a div b))"

definition umod :: "u64 \<Rightarrow> u64 \<Rightarrow> u64 res" where
  "umod a b = (if b = 0 then Inl DivByZero else Inr (a mod b))"

definition idiv :: "int \<Rightarrow> int \<Rightarrow> int res" where
  "idiv a b = (if b = 0 then Inl DivByZero else Inr (a sdiv b))"

section \<open>Counted loops\<close>

text \<open>A loop body run over a list of indices, stopping at the first fault.\<close>

fun loop_res :: "('i \<Rightarrow> 's \<Rightarrow> 's res) \<Rightarrow> 'i list \<Rightarrow> 's \<Rightarrow> 's res" where
  "loop_res f [] s = Inr s"
| "loop_res f (i # is) s = bind_res (f i s) (loop_res f is)"

text \<open>\<open>for (i = 0; i < n; i += step)\<close> visits these indices.\<close>

definition offsets :: "nat \<Rightarrow> nat \<Rightarrow> nat list" where
  "offsets step n = map (\<lambda>k. k * step) [0 ..< (n + step - 1) div step]"

definition c_for :: "nat \<Rightarrow> nat \<Rightarrow> (nat \<Rightarrow> 's \<Rightarrow> 's res) \<Rightarrow> 's \<Rightarrow> 's res" where
  "c_for step n f s = loop_res f (offsets step n) s"

lemma loop_res_append:
  "loop_res f (xs @ ys) s = bind_res (loop_res f xs s) (loop_res f ys)"
  by (induction xs arbitrary: s) (auto simp: bind_res_def split: sum.splits)

text \<open>
  The rule for total correctness of a counted loop: an invariant of the visited prefix that
  every iteration keeps, without a fault, holds of all indices at the end.
\<close>

lemma loop_res_rule:
  assumes "I [] s"
    and "\<And>ys i zs t. xs = ys @ i # zs \<Longrightarrow> I ys t \<Longrightarrow> \<exists>t'. f i t = Inr t' \<and> I (ys @ [i]) t'"
  shows "\<exists>t. loop_res f xs s = Inr t \<and> I xs t"
  using assms
proof (induction xs rule: rev_induct)
  case Nil
  then show ?case by simp
next
  case (snoc x xs)
  have "\<exists>t. loop_res f xs s = Inr t \<and> I xs t"
    by (rule snoc.IH) (use snoc.prems in \<open>auto\<close>)
  then obtain t where "loop_res f xs s = Inr t" "I xs t" by blast
  with snoc.prems(2) [of xs x "[]" t] show ?case
    by (auto simp: loop_res_append)
qed

lemma ceil_div_bound: "0 < d \<Longrightarrow> k < (n + d - 1) div d \<longleftrightarrow> k * d < (n::nat)"
proof -
  assume d: "0 < d"
  have "k < (n + d - 1) div d \<longleftrightarrow> Suc k \<le> (n + d - 1) div d" by (rule Suc_le_eq [symmetric])
  also have "\<dots> \<longleftrightarrow> Suc k * d \<le> n + d - 1" using d by (simp add: less_eq_div_iff_mult_less_eq)
  also have "\<dots> \<longleftrightarrow> k * d < n" using d by auto
  finally show ?thesis .
qed

lemma in_offsets:
  assumes "0 < d"
  shows "i \<in> set (offsets d n) \<longleftrightarrow> i < n \<and> d dvd i"
proof
  assume "i \<in> set (offsets d n)"
  then obtain k where "k < (n + d - 1) div d" "i = k * d" unfolding offsets_def by auto
  with assms show "i < n \<and> d dvd i" by (simp only: ceil_div_bound) simp
next
  assume "i < n \<and> d dvd i"
  then obtain k where "i = k * d" "k * d < n" by (metis dvdE mult.commute)
  then show "i \<in> set (offsets d n)" using assms unfolding offsets_def
    by (simp only: ceil_div_bound [OF assms, symmetric]) simp
qed

lemma offsets_0 [simp]: "offsets d 0 = []"
  by (cases d) (auto simp: offsets_def)

lemma offsets_Suc_block:
  assumes "0 < d"
  shows "offsets d (n + d) = 0 # map (\<lambda>i. i + d) (offsets d n)"
proof -
  have "(n + d + d - 1) div d = Suc ((n + d - 1) div d)"
  proof -
    have "n + d + d - 1 = (n + d - 1) + d" using assms by simp
    then show ?thesis using assms by (metis Suc_eq_plus1 div_add_self2 less_numeral_extra(3))
  qed
  then show ?thesis
    by (simp add: offsets_def upt_conv_Cons map_Suc_upt [symmetric] comp_def add.commute
        del: upt_Suc)
qed

lemma offsets_prefix:
  assumes "offsets d n = ys @ i # zs"
  shows "ys = offsets d i" "i = length ys * d"
proof -
  have len: "length ys < (n + d - 1) div d"
    using arg_cong [OF assms, of length] by (simp add: offsets_def)
  from assms have "offsets d n ! length ys = i" by simp
  with len show i: "i = length ys * d" by (simp add: offsets_def)
  have "ys = take (length ys) (offsets d n)" using assms by simp
  also have "\<dots> = map (\<lambda>k. k * d) [0 ..< length ys]"
    using len by (simp add: offsets_def take_map min_def)
  finally have ys: "ys = map (\<lambda>k. k * d) [0 ..< length ys]" .
  show "ys = offsets d i"
  proof (cases "d = 0")
    case True
    then show ?thesis using len by simp
  next
    case False
    have "i + d - 1 = (d - 1) + length ys * d" unfolding i using False by simp
    also have "\<dots> div d = length ys + (d - 1) div d" using False by (rule div_mult_self1)
    finally have "(i + d - 1) div d = length ys" using False by simp
    with ys show ?thesis by (simp add: offsets_def)
  qed
qed

text \<open>
  The rule for \<^const>\<open>c_for\<close>: an invariant indexed by the value of the loop counter. The counter ends at
  the bound, rounded up to a multiple of the step.
\<close>

lemma c_for_rule:
  assumes d: "0 < d" and init: "I 0 s"
    and step: "\<And>i t. i < n \<Longrightarrow> d dvd i \<Longrightarrow> I i t \<Longrightarrow> \<exists>t'. f i t = Inr t' \<and> I (i + d) t'"
  shows "\<exists>t. c_for d n f s = Inr t \<and> I ((n + d - 1) div d * d) t"
proof -
  let ?J = "\<lambda>ys t. I (length ys * d) t"
  have "\<exists>t. loop_res f (offsets d n) s = Inr t \<and> ?J (offsets d n) t"
  proof (rule loop_res_rule)
    show "?J [] s" using init by simp
  next
    fix ys i zs t
    assume split: "offsets d n = ys @ i # zs" and J: "?J ys t"
    have "i \<in> set (offsets d n)" using split by simp
    then have "i < n" "d dvd i" using in_offsets [OF d] by auto
    moreover have "i = length ys * d" using split by (rule offsets_prefix)
    ultimately show "\<exists>t'. f i t = Inr t' \<and> ?J (ys @ [i]) t'"
      using step [of i t] J by (simp add: add.commute)
  qed
  then show ?thesis by (simp add: c_for_def offsets_def)
qed

lemma round_up_ge: "0 < d \<Longrightarrow> n \<le> (n + d - 1) div d * (d::nat)"
  by (metis ceil_div_bound less_irrefl not_le)

lemma round_up_dvd: "d dvd n \<Longrightarrow> 0 < d \<Longrightarrow> (n + d - 1) div d * d = (n::nat)"
proof -
  assume "d dvd n" and d: "0 < d"
  then obtain k where n: "n = k * d" by (metis dvdE mult.commute)
  have "n + d - 1 = (d - 1) + k * d" unfolding n using d by simp
  also have "\<dots> div d = k + (d - 1) div d" using d by (intro div_mult_self1) simp
  finally show ?thesis using d n by simp
qed

lemma dvd_add_le:
  assumes "d dvd a" "d dvd b" "a < (b::nat)"
  shows "a + d \<le> b"
  using assms by (metis dvd_diff_nat dvd_imp_le le_add_diff_inverse less_imp_le nat_add_left_cancel_le zero_less_diff)

section \<open>Buffers\<close>

text \<open>
  A memory object of the code (a buffer, a data table) is the list of its bytes. Reading and
  writing a range is a fault unless the range lies inside the object.
\<close>

definition load :: "bytes \<Rightarrow> nat \<Rightarrow> nat \<Rightarrow> bytes res" where
  "load buf off n = (if off + n \<le> length buf then Inr (take n (drop off buf)) else Inl OutOfBounds)"

definition store :: "bytes \<Rightarrow> nat \<Rightarrow> bytes \<Rightarrow> bytes res" where
  "store buf off xs =
     (if off + length xs \<le> length buf
      then Inr (take off buf @ xs @ drop (off + length xs) buf) else Inl OutOfBounds)"

text \<open>\<open>memset\<close> and \<open>memcpy\<close>.\<close>

definition memset :: "bytes \<Rightarrow> nat \<Rightarrow> u8 \<Rightarrow> nat \<Rightarrow> bytes res" where
  "memset buf off c n = store buf off (replicate n c)"

definition memcpy :: "bytes \<Rightarrow> nat \<Rightarrow> bytes \<Rightarrow> nat \<Rightarrow> nat \<Rightarrow> bytes res" where
  "memcpy dst doff src soff n = bind_res (load src soff n) (store dst doff)"

lemma store_in: "off + length xs \<le> length buf \<Longrightarrow>
    store buf off xs = Inr (take off buf @ xs @ drop (off + length xs) buf)"
  by (simp add: store_def)

lemma store_length [len_simps]: "store buf off xs = Inr b \<Longrightarrow> length b = length buf"
  by (auto simp: store_def split: if_splits)

lemma store_nth:
  assumes "store buf off xs = Inr b" "i < length buf"
  shows "b ! i = (if off \<le> i \<and> i < off + length xs then xs ! (i - off) else buf ! i)"
  using assms by (auto simp: store_def nth_append split: if_splits)

lemma store_fault_iff: "store buf off xs = Inl e \<longleftrightarrow> length buf < off + length xs \<and> e = OutOfBounds"
  by (auto simp: store_def)

lemma store_defined: "off + length xs \<le> length buf \<Longrightarrow> \<exists>b. store buf off xs = Inr b"
  by (simp add: store_def)

lemma store_ex:
  assumes "off + length xs \<le> length buf"
  shows "\<exists>b. store buf off xs = Inr b \<and> length b = length buf \<and>
    (\<forall>i < length buf. b ! i = (if off \<le> i \<and> i < off + length xs then xs ! (i - off) else buf ! i))"
  using store_defined [OF assms] store_length store_nth by blast

lemma memset_ex:
  assumes "off + n \<le> length buf"
  shows "\<exists>b. memset buf off c n = Inr b \<and> length b = length buf \<and>
    (\<forall>i < length buf. b ! i = (if off \<le> i \<and> i < off + n then c else buf ! i))"
proof -
  have "off + length (replicate n c) \<le> length buf" using assms by simp
  from store_ex [OF this] obtain b where b: "store buf off (replicate n c) = Inr b"
    "length b = length buf"
    "\<forall>i < length buf. b ! i =
       (if off \<le> i \<and> i < off + n then replicate n c ! (i - off) else buf ! i)"
    by auto
  have "b ! i = (if off \<le> i \<and> i < off + n then c else buf ! i)" if "i < length buf" for i
    using b(3) that by auto
  with b(1,2) show ?thesis by (auto simp: memset_def)
qed

lemma sector_fits:
  assumes "i < n" "512 dvd i" "n \<le> L" "512 dvd (L :: nat)"
  shows "i + 512 \<le> L"
  using assms dvd_add_le [of 512 i L] by linarith

lemma memcpy_ex:
  assumes "soff + n \<le> length src" "doff + n \<le> length dst"
  shows "\<exists>b. memcpy dst doff src soff n = Inr b \<and> length b = length dst \<and>
    (\<forall>i < length dst. b ! i = (if doff \<le> i \<and> i < doff + n then src ! (soff + (i - doff)) else dst ! i))"
proof -
  let ?xs = "take n (drop soff src)"
  have len: "length ?xs = n" using assms(1) by simp
  have "memcpy dst doff src soff n = store dst doff ?xs"
    using assms(1) by (simp add: memcpy_def load_def)
  moreover have "doff + length ?xs \<le> length dst" using len assms(2) by simp
  from store_ex [OF this] obtain b where "store dst doff ?xs = Inr b" "length b = length dst"
    "\<forall>i < length dst. b ! i = (if doff \<le> i \<and> i < doff + n then ?xs ! (i - doff) else dst ! i)"
    unfolding len by blast
  moreover have "?xs ! (i - doff) = src ! (soff + (i - doff))" if "doff \<le> i" "i < doff + n" for i
    using that assms(1) by simp
  ultimately show ?thesis by auto
qed

section \<open>Byte order\<close>

text \<open>
  A 64-bit header is stored through a \<open>uint64_t *\<close>, little-endian on the machines the tools run
  on; command blocks are built big-endian, byte by byte.
\<close>

definition le64 :: "u64 \<Rightarrow> bytes" where
  "le64 w = map (\<lambda>i. ucast (drop_bit (8 * i) w)) [0 ..< 8]"

definition le32 :: "u32 \<Rightarrow> bytes" where
  "le32 w = map (\<lambda>i. ucast (drop_bit (8 * i) w)) [0 ..< 4]"

definition of_le64 :: "bytes \<Rightarrow> u64" where
  "of_le64 bs = foldr (\<lambda>b a. push_bit 8 a OR ucast b) (take 8 bs) 0"

definition of_be :: "bytes \<Rightarrow> nat" where
  "of_be bs = foldl (\<lambda>a b. 256 * a + unat b) 0 bs"

lemma length_le64 [simp, len_simps]: "length (le64 w) = 8"
  by (simp add: le64_def)

lemma length_le32 [simp, len_simps]: "length (le32 w) = 4"
  by (simp add: le32_def)

lemma glue_bits: "push_bit n (take_bit m (drop_bit n w)) OR take_bit n w = take_bit (n + m) (w :: 'a::len word)"
  by (rule bit_word_eqI) (auto simp: bit_simps)

lemma ucast_u8: "(ucast (ucast w :: u8) :: 'a::len word) = take_bit 8 w"
  by (rule bit_word_eqI) (auto simp: bit_simps)

lemma le_decode:
  "foldr (\<lambda>b a. push_bit 8 a OR ucast b) (map (\<lambda>i. ucast (drop_bit (8 * i) w) :: u8) [0..<k])
     (0 :: 'a::len word) = take_bit (8 * k) w"
proof (induction k arbitrary: w)
  case (Suc k)
  have "map (\<lambda>i. ucast (drop_bit (8 * i) w) :: u8) [0..<Suc k]
      = ucast w # map (\<lambda>i. ucast (drop_bit (8 * i) (drop_bit 8 w))) [0..<k]"
    by (simp add: upt_conv_Cons map_Suc_upt [symmetric] comp_def drop_bit_drop_bit add.commute del: upt_Suc)
  then show ?case
    using Suc.IH [of "drop_bit 8 w"] glue_bits [of 8 "8 * k" w] by (simp add: ucast_u8)
qed simp

lemma of_le64_le64: "of_le64 (le64 w) = w"
proof -
  have "take 8 (le64 w) = le64 w" by simp
  then show ?thesis
    using le_decode [of w 8] by (simp add: of_le64_def le64_def take_bit_word_eq_self del: upt_conv_Cons)
qed

section \<open>Shared counters\<close>

text \<open>\<open>__sync_fetch_and_add\<close> on a 64-bit counter: the old value, and the counter moved on.\<close>

definition fetch_and_add :: "u64 \<Rightarrow> u64 \<Rightarrow> u64 \<times> u64" where
  "fetch_and_add v k = (v, v + k)"

fun draw_n :: "('s \<Rightarrow> 'a \<times> 's) \<Rightarrow> nat \<Rightarrow> 's \<Rightarrow> 'a list \<times> 's" where
  "draw_n f 0 s = ([], s)"
| "draw_n f (Suc n) s = (let (x, t) = f s; (xs, u) = draw_n f n t in (x # xs, u))"

text \<open>
  The contract of a shared counter that threads take numbers from: a take returns the counter and
  moves it on by one. Whoever takes, and in whatever order, the numbers handed out are consecutive
  and therefore distinct, until the 64-bit counter wraps.
\<close>

locale ticket_counter =
  fixes take_ticket :: "'s \<Rightarrow> u64 \<times> 's" and counter :: "'s \<Rightarrow> u64"
  assumes ticket: "fst (take_ticket s) = counter s"
    and advance: "counter (snd (take_ticket s)) = counter s + 1"
begin

lemma tickets_consecutive:
  "unat (counter s) + n < 2 ^ 64 \<Longrightarrow>
   map unat (fst (draw_n take_ticket n s)) = [unat (counter s) ..< unat (counter s) + n]
   \<and> unat (counter (snd (draw_n take_ticket n s))) = unat (counter s) + n"
proof (induction n arbitrary: s)
  case (Suc n)
  obtain x t where t: "take_ticket s = (x, t)" by (cases "take_ticket s")
  then have x: "x = counter s" and ct: "counter t = counter s + 1"
    using ticket [of s] advance [of s] by simp_all
  have "unat (counter t) = unat (counter s) + 1"
    using Suc.prems unat_add_lem [of "counter s" 1] unfolding ct by simp
  with Suc.IH [of t] Suc.prems t x show ?case
    by (auto simp: upt_conv_Cons split: prod.split)
qed simp

lemma tickets_distinct:
  assumes "unat (counter s) + n < 2 ^ 64"
  shows "distinct (fst (draw_n take_ticket n s))"
  using tickets_consecutive [OF assms] by (metis distinct_map distinct_upt)

end

interpretation raw_counter: ticket_counter "\<lambda>v. fetch_and_add v 1" id
  by unfold_locales (simp_all add: fetch_and_add_def)

lemma unat_ucast_u32: "unat (ucast (w :: u32) :: u64) = unat w"
proof -
  have "unat w < 2 ^ 32" using unsigned_less [of w] by simp
  then show ?thesis by (simp add: unsigned_ucast_eq take_bit_nat_eq_self)
qed

text \<open>Sums, products and sign changes that do not wrap.\<close>

lemma unat_add_small: "unat (a :: u64) + unat b < 2 ^ 64 \<Longrightarrow> unat (a + b) = unat a + unat b"
  using unat_add_lem [of a b] by simp

lemma unat_mult_small: "unat (a :: u64) * unat b < 2 ^ 64 \<Longrightarrow> unat (a * b) = unat a * unat b"
  using unat_mult_lem [of a b] by simp

lemma sint_of_small:
  assumes "unat (w :: u32) < 2 ^ 31"
  shows "int_of_u32 w = int (unat w)"
proof -
  obtain n where n: "unat w = n" by blast
  have "w = of_nat n" unfolding n [symmetric] by simp
  moreover have "n < 2 ^ 31" using assms n by simp
  ultimately show ?thesis unfolding n by (simp only: signed_of_nat) (simp add: signed_take_bit_int_eq_self)
qed

text \<open>Counting and adding up over a list in which one place changes.\<close>

lemma count_update:
  "i < length xs \<Longrightarrow> length (filter P (xs[i := x])) + (if P (xs ! i) then 1 else 0)
     = length (filter P xs) + (if P x then 1 else 0)"
proof (induction xs arbitrary: i)
  case (Cons y ys)
  then show ?case
  proof (cases i)
    case (Suc j)
    with Cons.prems Cons.IH [of j] show ?thesis by auto
  qed auto
qed simp

lemma sum_update:
  "i < length xs \<Longrightarrow> sum_list (map w (xs[i := x])) + w (xs ! i) = sum_list (map w xs) + (w x :: nat)"
  by (induction xs arbitrary: i) (auto split: nat.splits)

end
