(* ===== verification/CLib.thy ===== *)
theory CLib
  imports Prelude Complex_Main
begin

text \<open>
  The parts of the C library the tools compute with: the \<open>drand48\<close> family of pseudo-random
  generators, the number parsers behind \<open>iob_strtoul\<close>, \<open>iob_strtoull\<close> and \<open>iob_strtod\<close>, and the
  two option scanners \<open>getopt\<close> (GNU, with its permutation of operands) and \<open>getsubopt\<close>. They are
  written as the POSIX and glibc manuals define them; doubles are rational numbers with the
  rounding to 53 bits written out (\<open>rnd\<close>). Infinities, NaN, overflow and subnormal results of double
  arithmetic are not modelled: no value the tools compute reaches them, but a user can spell
  them in a \<open>pct=\<close> option.
\<close>

section \<open>The 48-bit generator\<close>

definition rand48_step :: "u48 \<Rightarrow> u48" where
  "rand48_step x = 0x5DEECE66D * x + 0xB"

definition srand48 :: "u32 \<Rightarrow> u48" where
  "srand48 seed = push_bit 16 (ucast seed) OR 0x330E"

definition seed48 :: "u16 \<Rightarrow> u16 \<Rightarrow> u16 \<Rightarrow> u48" where
  "seed48 s0 s1 s2 = push_bit 32 (ucast s2) OR push_bit 16 (ucast s1) OR ucast s0"

text \<open>\<open>lrand48\<close>: the 31 high bits; \<open>mrand48\<close>: the 32 high bits, signed; \<open>drand48\<close>: all 48 bits as a
  fraction.\<close>

definition lrand48 :: "u48 \<Rightarrow> nat \<times> u48" where
  "lrand48 x = (let y = rand48_step x in (unat (drop_bit 17 y), y))"

definition mrand48_bits :: "u48 \<Rightarrow> u32 \<times> u48" where
  "mrand48_bits x = (let y = rand48_step x in (ucast (drop_bit 16 y), y))"

definition mrand48 :: "u48 \<Rightarrow> int \<times> u48" where
  "mrand48 x = (let (w, y) = mrand48_bits x in (sint w, y))"

definition drand48 :: "u48 \<Rightarrow> rat \<times> u48" where
  "drand48 x = (let y = rand48_step x in (of_nat (unat y) / 2 ^ 48, y))"

lemma lrand48_bound [range_intros]: "fst (lrand48 x) < 2 ^ 31"
proof -
  have "unat (drop_bit 17 (rand48_step x)) = unat (rand48_step x) div 2 ^ 17"
    by (simp add: drop_bit_eq_div unat_div)
  also have "\<dots> < 2 ^ 31"
    using unsigned_less [of "rand48_step x", where ?'a = nat] by (simp add: less_mult_imp_div_less)
  finally show ?thesis by (simp add: lrand48_def Let_def)
qed

lemma drand48_bounds: "0 \<le> fst (drand48 x)" "fst (drand48 x) < 1"
proof -
  have "unat (rand48_step x) < 2 ^ 48"
    using unsigned_less [of "rand48_step x", where ?'a = nat] by simp
  then have "(of_nat (unat (rand48_step x)) :: rat) < of_nat (2 ^ 48)"
    by (simp only: of_nat_less_iff)
  then show "fst (drand48 x) < 1" by (simp add: drand48_def Let_def)
qed (simp only: drand48_def Let_def fst_conv zero_le_divide_iff of_nat_0_le_iff, simp)

text \<open>
  The contract the data generators rely on: a draw is below a bound, whatever the state, so a
  draw reduced modulo a table's page count selects a whole page of the table.
\<close>

locale bounded_draw =
  fixes draw :: "'s \<Rightarrow> nat \<times> 's" and bound :: nat
  assumes draw_less: "fst (draw s) < bound"
begin

lemma draw_page_in_table:
  assumes "0 < pages"
  shows "fst (draw s) mod pages * page + page \<le> pages * page"
proof -
  have "fst (draw s) mod pages + 1 \<le> pages" using assms by (simp add: Suc_le_eq)
  then have "(fst (draw s) mod pages + 1) * page \<le> pages * page" by (rule mult_le_mono1)
  then show ?thesis by (simp add: algebra_simps)
qed

lemma draw_mod_fits: "0 < m \<Longrightarrow> fst (draw s) mod m < min m bound"
  using le_less_trans [OF mod_less_eq_dividend draw_less] by simp

end

interpretation lrand: bounded_draw lrand48 "2 ^ 31"
  by unfold_locales (rule lrand48_bound)

section \<open>Integers from text\<close>

definition is_space :: "char \<Rightarrow> bool" where
  "is_space c = (let n = (of_char c :: nat) in n = 32 \<or> 9 \<le> n \<and> n \<le> 13)"

definition digit_val :: "nat \<Rightarrow> char \<Rightarrow> nat option" where
  "digit_val base c =
     (let n = (of_char c :: nat);
          d = (if 48 \<le> n \<and> n \<le> 57 then n - 48
               else if 65 \<le> n \<and> n \<le> 90 then n - 55
               else if 97 \<le> n \<and> n \<le> 122 then n - 87 else base)
      in if d < base then Some d else None)"

fun scan_digits :: "nat \<Rightarrow> string \<Rightarrow> nat \<Rightarrow> nat" where
  "scan_digits base [] acc = acc"
| "scan_digits base (c # cs) acc =
     (case digit_val base c of None \<Rightarrow> acc | Some d \<Rightarrow> scan_digits base cs (acc * base + d))"

definition skip_sign :: "string \<Rightarrow> bool \<times> string" where
  "skip_sign s = (case s of [] \<Rightarrow> (False, [])
     | c # cs \<Rightarrow> if c = CHR ''-'' then (True, cs) else if c = CHR ''+'' then (False, cs)
                else (False, s))"

text \<open>Base 0: a leading \<open>0x\<close> selects 16, a leading \<open>0\<close> selects 8.\<close>

fun detect_base :: "string \<Rightarrow> nat \<times> string" where
  "detect_base (c # d # cs) =
     (if c = CHR ''0'' then if d = CHR ''x'' \<or> d = CHR ''X'' then (16, cs) else (8, d # cs)
      else (10, c # d # cs))"
| "detect_base s = (10, s)"

text \<open>\<open>strtoul\<close> and \<open>strtoull\<close> with base 0, both 64 bits wide: saturating, and negated modulo
  \<open>2 ^ 64\<close> after a minus sign.\<close>

definition strtoull :: "string \<Rightarrow> u64" where
  "strtoull s =
     (let (neg, t) = skip_sign (dropWhile is_space s);
          (base, ds) = detect_base t;
          n = scan_digits base ds 0
      in if 2 ^ 64 \<le> n then - 1 else if neg then - of_nat n else of_nat n)"

section \<open>Doubles\<close>

text \<open>
  \<open>rnd x\<close> is the double nearest to \<open>x\<close>, ties to even: \<open>x\<close> is scaled to a 53-bit integer, that
  integer is rounded, and the result is scaled back.
\<close>

definition round_even :: "rat \<Rightarrow> int" where
  "round_even x =
     (let f = \<lfloor>x\<rfloor>; d = x - of_int f
      in if d < 1 / 2 then f else if 1 / 2 < d then f + 1 else if even f then f else f + 1)"

text \<open>The scaling loops: \<open>x\<close> is halved or doubled until it lies in \<open>[2 ^ 52, 2 ^ 53)\<close>; the fuel bounds
  the exponent range of a double (at most 1075 steps either way).\<close>

fun scale_down :: "nat \<Rightarrow> rat \<Rightarrow> rat \<Rightarrow> rat" where
  "scale_down 0 x u = u"
| "scale_down (Suc k) x u = (if 2 ^ 53 * u \<le> x then scale_down k x (2 * u) else u)"

fun scale_up :: "nat \<Rightarrow> rat \<Rightarrow> rat \<Rightarrow> rat" where
  "scale_up 0 x u = u"
| "scale_up (Suc k) x u = (if x < 2 ^ 52 * u then scale_up k x (u / 2) else u)"

definition ulp_of :: "rat \<Rightarrow> rat" where
  "ulp_of x = (if x < 2 ^ 52 then scale_up 1075 x 1 else scale_down 1075 x 1)"

definition rnd :: "rat \<Rightarrow> rat" where
  "rnd x = (if x = 0 then 0
            else let u = ulp_of \<bar>x\<bar> in sgn x * (of_int (round_even (\<bar>x\<bar> / u)) * u))"

definition dbl_of_u64 :: "u64 \<Rightarrow> rat" where "dbl_of_u64 w = rnd (of_nat (unat w))"
definition dbl_mult :: "rat \<Rightarrow> rat \<Rightarrow> rat" where "dbl_mult x y = rnd (x * y)"
definition dbl_minus :: "rat \<Rightarrow> rat \<Rightarrow> rat" where "dbl_minus x y = rnd (x - y)"
definition dbl_div :: "rat \<Rightarrow> rat \<Rightarrow> rat" where "dbl_div x y = rnd (x / y)"

text \<open>\<open>(uint64_t)x\<close> for a non-negative double below \<open>2 ^ 64\<close> truncates.\<close>

definition u64_of_dbl :: "rat \<Rightarrow> u64" where "u64_of_dbl x = of_int \<lfloor>x\<rfloor>"

text \<open>\<open>strtod\<close> on a decimal number: digits, an optional fraction, an optional exponent.\<close>

fun count_digits :: "string \<Rightarrow> nat" where
  "count_digits [] = 0"
| "count_digits (c # cs) = (if digit_val 10 c = None then 0 else Suc (count_digits cs))"

definition scan_exponent :: "string \<Rightarrow> int" where
  "scan_exponent s = (case s of [] \<Rightarrow> 0
     | c # cs \<Rightarrow> if c = CHR ''e'' \<or> c = CHR ''E''
                then let (neg, ds) = skip_sign cs; n = int (scan_digits 10 ds 0)
                     in if neg then - n else n
                else 0)"

definition pow10 :: "int \<Rightarrow> rat" where
  "pow10 e = (if 0 \<le> e then 10 ^ nat e else 1 / 10 ^ nat (- e))"

definition strtod :: "string \<Rightarrow> rat" where
  "strtod s =
     (let (neg, t) = skip_sign (dropWhile is_space s);
          k = count_digits t; r = drop k t;
          frac = (case r of [] \<Rightarrow> [] | c # cs \<Rightarrow> if c = CHR ''.'' then cs else []);
          m = count_digits frac;
          r' = (case r of [] \<Rightarrow> [] | c # cs \<Rightarrow> if c = CHR ''.'' then drop m cs else r);
          v = (if k + m = 0 then 0
               else of_nat (scan_digits 10 (take k t @ take m frac) 0) *
                    pow10 (scan_exponent r' - int m))
      in rnd (if neg then - v else v))"

section \<open>Suboptions\<close>

text \<open>
  \<open>getsubopt\<close>: the next comma-separated token of the option string, looked up by the text
  before its first \<open>=\<close>. The result is the token's index in the table (\<open>None\<close> is -1), the value
  after the \<open>=\<close> (\<open>None\<close> is a null pointer), and the rest of the string.
\<close>

fun find_index :: "string list \<Rightarrow> string \<Rightarrow> nat option" where
  "find_index [] s = None"
| "find_index (t # ts) s = (if t = s then Some 0 else map_option Suc (find_index ts s))"

definition getsubopt :: "string list \<Rightarrow> string \<Rightarrow> nat option \<times> string option \<times> string" where
  "getsubopt tokens s =
     (let tok = takeWhile (\<lambda>c. c \<noteq> CHR '','') s;
          rest = drop (Suc (length tok)) s;
          name = takeWhile (\<lambda>c. c \<noteq> CHR ''='') tok
      in case find_index tokens name of
           Some i \<Rightarrow> (Some i, if length name < length tok then Some (drop (Suc (length name)) tok)
                             else None, rest)
         | None \<Rightarrow> (None, Some tok, rest))"

lemma getsubopt_shorter:
  assumes "s \<noteq> []"
  shows "length (snd (snd (getsubopt tokens s))) < length s"
proof -
  have "length (drop (Suc (length (takeWhile (\<lambda>c. c \<noteq> CHR '','') s))) s) < length s"
    using assms by simp
  then show ?thesis by (simp add: getsubopt_def Let_def split: option.split)
qed

text \<open>The loop every suboption parser of the tools runs: \<open>while (*options != '\0') switch
  (getsubopt(...))\<close>, with the body of the switch as a parameter.\<close>

function subopt_loop ::
    "string list \<Rightarrow> (nat option \<Rightarrow> string option \<Rightarrow> 's \<Rightarrow> 's res) \<Rightarrow> string \<Rightarrow> 's \<Rightarrow> 's res" where
  "subopt_loop tokens h s st =
     (if s = [] then Inr st
      else bind_res (h (fst (getsubopt tokens s)) (fst (snd (getsubopt tokens s))) st)
             (subopt_loop tokens h (snd (snd (getsubopt tokens s)))))"
  by pat_completeness auto
termination
  by (relation "measure (\<lambda>(tokens, h, s, st). length s)") (auto simp: getsubopt_shorter)

declare subopt_loop.simps [simp del]

lemma subopt_loop_Nil [simp]: "subopt_loop tokens h [] st = Inr st"
  by (simp add: subopt_loop.simps)

lemma subopt_loop_step:
  "s \<noteq> [] \<Longrightarrow> getsubopt tokens s = (i, v, rest) \<Longrightarrow>
   subopt_loop tokens h s st = bind_res (h i v st) (subopt_loop tokens h rest)"
  by (subst subopt_loop.simps) simp

text \<open>
  What a suboption handler owes its loop: every option it accepts keeps the parser's
  invariant. Then a parser that returns has kept it.
\<close>

locale subopt_handler =
  fixes tokens :: "string list" and handle :: "nat option \<Rightarrow> string option \<Rightarrow> 's \<Rightarrow> 's res"
    and inv :: "'s \<Rightarrow> bool"
  assumes handle_inv: "inv st \<Longrightarrow> handle i v st = Inr st' \<Longrightarrow> inv st'"
begin

lemma loop_inv: "inv st \<Longrightarrow> subopt_loop tokens handle s st = Inr st' \<Longrightarrow> inv st'"
proof (induction s arbitrary: st rule: measure_induct_rule [of length])
  case (less s)
  obtain i v rest where g: "getsubopt tokens s = (i, v, rest)" by (metis prod_cases3)
  show ?case
  proof (cases "s = []")
    case True
    with less.prems show ?thesis by simp
  next
    case False
    with less.prems(2) g obtain st1 where h1: "handle i v st = Inr st1"
      and rest: "subopt_loop tokens handle rest st1 = Inr st'"
      by (auto simp: subopt_loop_step bind_res_Inr_iff)
    have "length rest < length s" using getsubopt_shorter [OF False, of tokens] g by simp
    then show ?thesis using handle_inv [OF less.prems(1) h1] rest by (rule less.IH)
  qed
qed

end

section \<open>Command lines\<close>

text \<open>Tabs and newlines of the texts the tools print.\<close>

definition tabs :: "nat \<Rightarrow> string" where "tabs n = replicate n (CHR 0x09)"

abbreviation nl :: string where "nl \<equiv> [CHR 0x0A]"

text \<open>Decimal numbers, as \<open>%d\<close> prints them.\<close>

fun dec_nat :: "nat \<Rightarrow> string" where
  "dec_nat n = (if n < 10 then [char_of (48 + n)] else dec_nat (n div 10) @ [char_of (48 + n mod 10)])"

declare dec_nat.simps [simp del]

definition dec_int :: "int \<Rightarrow> string" where
  "dec_int i = (if i < 0 then CHR ''-'' # dec_nat (nat (- i)) else dec_nat (nat i))"

text \<open>
  \<open>getopt\<close>, as the GNU library does it: options are taken wherever they stand, several flags can share
  one dash, an argument is the rest of its word or the next word, \<open>--\<close> ends the options, and the
  words left over are the operands, in their order. An unknown option, or one whose argument is
  missing, gives \<open>'?'\<close> with the letter in \<open>optopt\<close>.
\<close>

datatype optev = OptArg char string | OptFlag char | OptBad char

fun opt_kind :: "string \<Rightarrow> char \<Rightarrow> bool option" where
  "opt_kind [] c = None"
| "opt_kind (d # ds) c = (if d = c \<and> c \<noteq> CHR '':'' then Some (ds \<noteq> [] \<and> hd ds = CHR '':'') else opt_kind ds c)"

fun cluster :: "string \<Rightarrow> string \<Rightarrow> string list \<Rightarrow> optev list \<times> string list" where
  "cluster spec [] rest = ([], rest)"
| "cluster spec (c # cs) rest =
     (case opt_kind spec c of
        Some True \<Rightarrow> (if cs \<noteq> [] then ([OptArg c cs], rest)
                      else case rest of [] \<Rightarrow> ([OptBad c], []) | a # as \<Rightarrow> ([OptArg c a], as))
      | Some False \<Rightarrow> (let (evs, r) = cluster spec cs rest in (OptFlag c # evs, r))
      | None \<Rightarrow> (let (evs, r) = cluster spec cs rest in (OptBad c # evs, r)))"

lemma cluster_rest: "length (snd (cluster spec cs rest)) \<le> length rest"
  by (induction spec cs rest rule: cluster.induct)
    (auto split: option.split bool.split list.split prod.split)

function getopt :: "string \<Rightarrow> string list \<Rightarrow> optev list \<times> string list" where
  "getopt spec [] = ([], [])"
| "getopt spec (a # as) =
     (if a = ''--'' then ([], as)
      else if 1 < length a \<and> hd a = CHR ''-'' then
        (let (evs, rest) = cluster spec (tl a) as; (evs', ops) = getopt spec rest in (evs @ evs', ops))
      else (let (evs, ops) = getopt spec as in (evs, a # ops)))"
  by pat_completeness auto
termination
proof (relation "measure (\<lambda>(spec, as). length as)", goal_cases)
  case (2 spec a as x evs rest)
  then show ?case using cluster_rest [of spec "tl a" as] by (metis case_prod_conv in_measure length_Cons less_Suc_eq_le snd_conv)
qed auto

subsection \<open>Printing and reading back\<close>

abbreviation digit :: "nat \<Rightarrow> char" where "digit d \<equiv> char_of (48 + d)"

lemma digit_val_digit: "d < 10 \<Longrightarrow> digit_val 10 (digit d) = Some d"
  by (simp add: digit_val_def Let_def)

lemma dec_nat_digits: "c \<in> set (dec_nat n) \<Longrightarrow> \<exists>d < 10. c = digit d"
proof (induction n rule: dec_nat.induct)
  case (1 n)
  show ?case
  proof (cases "n < 10")
    case True
    then have "c = digit n" using 1(2) by (simp add: dec_nat.simps [of n])
    with True show ?thesis by blast
  next
    case False
    then have "c = digit (n mod 10) \<or> c \<in> set (dec_nat (n div 10))"
      using 1(2) by (simp add: dec_nat.simps [of n] disj_commute)
    moreover have "n mod 10 < 10" by simp
    ultimately show ?thesis using 1(1) [OF False] by blast
  qed
qed

lemma dec_nat_nonempty [simp]: "dec_nat n \<noteq> []"
  by (subst dec_nat.simps) simp

lemma hd_dec_nat: "n \<noteq> 0 \<Longrightarrow> \<exists>d < 10. d \<noteq> 0 \<and> hd (dec_nat n) = digit d"
proof (induction n rule: dec_nat.induct)
  case (1 n)
  show ?case
  proof (cases "n < 10")
    case True
    then show ?thesis using 1(2) by (auto simp: dec_nat.simps [of n])
  next
    case False
    then have "n div 10 \<noteq> 0" by simp
    with 1(1) False show ?thesis by (subst dec_nat.simps) simp
  qed
qed

lemma scan_digits_append:
  "\<forall>c \<in> set xs. \<exists>d < 10. c = digit d \<Longrightarrow>
   scan_digits 10 (xs @ ys) acc = scan_digits 10 ys (scan_digits 10 xs acc)"
  by (induction xs arbitrary: acc) (auto simp: digit_val_digit)

lemma scan_dec_nat: "scan_digits 10 (dec_nat n) 0 = n"
proof (induction n rule: dec_nat.induct)
  case (1 n)
  show ?case
  proof (cases "n < 10")
    case True
    then show ?thesis by (subst dec_nat.simps) (simp add: digit_val_digit)
  next
    case False
    have d: "\<forall>c \<in> set (dec_nat (n div 10)). \<exists>d < 10. c = digit d" using dec_nat_digits by blast
    have "dec_nat n = dec_nat (n div 10) @ [digit (n mod 10)]"
      using False by (subst dec_nat.simps) simp
    then have "scan_digits 10 (dec_nat n) 0
        = scan_digits 10 [digit (n mod 10)] (scan_digits 10 (dec_nat (n div 10)) 0)"
      using scan_digits_append [OF d] by simp
    then show ?thesis using 1 False by (simp add: digit_val_digit)
  qed
qed

lemma digit_char_props:
  assumes "d < 10"
  shows "\<not> is_space (digit d)" "digit d \<noteq> CHR ''-''" "digit d \<noteq> CHR ''+''"
    "digit d \<noteq> CHR '',''" "digit d \<noteq> CHR ''=''"
    "d \<noteq> 0 \<Longrightarrow> digit d \<noteq> CHR ''0''"
proof -
  let ?c = "digit d"
  have v: "(of_char ?c :: nat) = 48 + d" using assms by simp
  show "\<not> is_space ?c" using v by (simp add: is_space_def Let_def)
  have ne: "?c \<noteq> k" if "(of_char k :: nat) \<noteq> 48 + d" for k using that v by auto
  show "?c \<noteq> CHR ''-''" "?c \<noteq> CHR ''+''" "?c \<noteq> CHR '',''" by (rule ne, simp)+
  show "?c \<noteq> CHR ''=''" by (rule ne) (use assms in simp)
  show "d \<noteq> 0 \<Longrightarrow> ?c \<noteq> CHR ''0''" by (rule ne) simp
qed

lemma strtoull_dec_nat:
  assumes "n < 2 ^ 64"
  shows "strtoull (dec_nat n) = of_nat n"
proof -
  obtain c cs where s: "dec_nat n = c # cs" by (cases "dec_nat n") auto
  then obtain d where d: "d < 10" "c = digit d" using dec_nat_digits [of c n] by auto
  note p = digit_char_props [OF d(1)]
  have sp: "dropWhile is_space (dec_nat n) = dec_nat n" using s d p(1) by simp
  have sg: "skip_sign (dec_nat n) = (False, dec_nat n)" using s d p(2,3) by (simp add: skip_sign_def)
  have "detect_base (dec_nat n) = (10, dec_nat n)"
  proof (cases cs)
    case (Cons e es)
    have "n \<noteq> 0"
    proof
      assume "n = 0"
      then have "dec_nat n = [digit 0]" by (subst dec_nat.simps) simp
      with s Cons show False by simp
    qed
    then obtain d' where d': "d' < 10" "d' \<noteq> 0" "hd (dec_nat n) = digit d'" using hd_dec_nat by blast
    have "digit d' \<noteq> CHR ''0''" by (rule digit_char_props(6)) fact+
    then have "c \<noteq> CHR ''0''" using d'(3) s by (metis list.sel(1))
    then show ?thesis using s Cons by simp
  qed (simp add: s)
  then show ?thesis unfolding strtoull_def Let_def sp sg prod.case using assms by (simp add: scan_dec_nat)
qed

lemma getsubopt_value:
  assumes "\<forall>c \<in> set name. c \<noteq> CHR '','' \<and> c \<noteq> CHR ''=''" "find_index tokens name = Some i"
  shows "getsubopt tokens (name @ CHR ''='' # dec_nat n) = (Some i, Some (dec_nat n), [])"
proof -
  have "\<forall>c \<in> set (dec_nat n). c \<noteq> CHR '',''"
  proof
    fix c assume "c \<in> set (dec_nat n)"
    then obtain d where "d < 10" "c = digit d" using dec_nat_digits by blast
    then show "c \<noteq> CHR '',''" using digit_char_props(4) by simp
  qed
  then have tok: "takeWhile (\<lambda>c. c \<noteq> CHR '','') (name @ CHR ''='' # dec_nat n) = name @ CHR ''='' # dec_nat n"
    using assms(1) by (auto simp: takeWhile_eq_all_conv)
  have nm: "takeWhile (\<lambda>c. c \<noteq> CHR ''='') (name @ CHR ''='' # dec_nat n) = name"
    using assms(1) by (simp add: takeWhile_append2)
  show ?thesis unfolding getsubopt_def Let_def tok nm using assms(2) by simp
qed

end
