(* ===== verification/IobLib.thy ===== *)
theory IobLib
  imports CLib
begin

text \<open>
  \<open>lib/iob_lib.c\<close> with the constants of \<open>lib/iobenchlibext.h\<close>: start-up and error exits, memory,
  the clock, the option value parsers, and the data generators. The two static tables of
  \<open>lib/iob_vmdata.c\<close> and \<open>lib/iob_pstdata.c\<close> (4,096,000 bytes each) enter as byte lists whose length is
  the one the declarations fix; nothing depends on their contents.
\<close>

section \<open>Constants\<close>

definition IOB_NSEC_TO_SEC :: u64 where [simp]: "IOB_NSEC_TO_SEC = 1000000000"
definition IOB_SECTOR :: nat where [simp]: "IOB_SECTOR = 512"
definition IOB_PAGE :: nat where [simp]: "IOB_PAGE = 4096"
definition IOB_NDATAPAGES :: nat where [simp]: "IOB_NDATAPAGES = 1000"

definition IOB_DT_ZEROS :: int where [simp]: "IOB_DT_ZEROS = 0x01"
definition IOB_DT_ONES :: int where [simp]: "IOB_DT_ONES = 0x02"
definition IOB_DT_PATTERN1 :: int where [simp]: "IOB_DT_PATTERN1 = 0x03"
definition IOB_DT_UNCOMPRESSIBLE :: int where [simp]: "IOB_DT_UNCOMPRESSIBLE = 0x10"
definition IOB_DT_COMPRESSIBLE :: int where [simp]: "IOB_DT_COMPRESSIBLE = 0x11"
definition IOB_DT_HCOMPRESSIBLE :: int where [simp]: "IOB_DT_HCOMPRESSIBLE = 0x12"
definition IOB_DT_PST :: int where [simp]: "IOB_DT_PST = 0x13"
definition IOB_DT_VM :: int where [simp]: "IOB_DT_VM = 0x14"
definition IOB_DT_H20COMPRESSIBLE :: int where [simp]: "IOB_DT_H20COMPRESSIBLE = 0x15"
definition IOB_DT_H10COMPRESSIBLE :: int where [simp]: "IOB_DT_H10COMPRESSIBLE = 0x16"
definition IOB_DT_H40COMPRESSIBLE :: int where [simp]: "IOB_DT_H40COMPRESSIBLE = 0x17"

definition IOB_IS_DEDUPABLE :: "int \<Rightarrow> bool" where
  "IOB_IS_DEDUPABLE dtype = (dtype AND 0x10 \<noteq> 0)"

text \<open>
  \<open>IOB_RAND64()\<close> adds two draws of \<open>mrand48\<close>, each sign-extended to 64 bits; C leaves the order of
  the two calls open, the model draws the high half first.
\<close>

definition IOB_RAND64 :: "u48 \<Rightarrow> u64 \<times> u48" where
  "IOB_RAND64 x =
     (let (h, x1) = mrand48 x; (l, x2) = mrand48 x1
      in (push_bit 32 (u64_of_int h) + u64_of_int l, x2))"

section \<open>Process state, errors and memory\<close>

text \<open>
  The library's globals: the command name, the usage function (the lines it prints before it
  exits with status 1), and what the C allocator will still hand out.
\<close>

record libstate =
  iob_cmdname :: string
  usage_func :: "string list"
  heap_limit :: nat

definition iob_libinit :: "string \<Rightarrow> string list \<Rightarrow> nat \<Rightarrow> libstate" where
  "iob_libinit cmdname ufunc limit =
     \<lparr>iob_cmdname = cmdname, usage_func = ufunc, heap_limit = limit\<rparr>"

definition iob_errlog :: "libstate \<Rightarrow> bool \<Rightarrow> string \<Rightarrow> fault" where
  "iob_errlog lib uflag fmt =
     Exited 1 ((iob_cmdname lib @ '' '' @ fmt) # (if uflag then usage_func lib else []))"

definition iob_infolog :: "libstate \<Rightarrow> string \<Rightarrow> string list \<Rightarrow> string list" where
  "iob_infolog lib msg stdout = stdout @ [iob_cmdname lib @ '' '' @ msg]"

definition iob_malloc :: "libstate \<Rightarrow> int \<Rightarrow> bytes res" where
  "iob_malloc lib nbytes =
     (let n = unat (u64_of_int nbytes)
      in if heap_limit lib < n then Inl (iob_errlog lib False ''Error: Can't malloc'')
         else Inr (replicate n 0))"

text \<open>The callers that allocate a structure only need to know that there was memory for it.\<close>

definition malloc_struct :: "libstate \<Rightarrow> int \<Rightarrow> unit res" where
  "malloc_struct lib nbytes = bind_res (iob_malloc lib nbytes) (\<lambda>_. Inr ())"

lemma malloc_struct_eq:
  "malloc_struct lib nbytes =
     (if heap_limit lib < unat (u64_of_int nbytes)
      then Inl (iob_errlog lib False ''Error: Can't malloc'') else Inr ())"
  by (simp add: malloc_struct_def iob_malloc_def Let_def)

text \<open>
  \<open>iob_align_shmem\<close> rounds up to whole pages. A failing \<open>mmap\<close> returns \<open>MAP_FAILED\<close>, which is not
  the null pointer the code tests for: the following \<open>memset\<close> then writes through it. Only when
  no bytes were asked for is there nothing to write, and the caller gets a pointer to no memory.
\<close>

definition page_round :: "int \<Rightarrow> int" where
  "page_round nbytes = (nbytes + 4095) AND NOT 4095"

definition mmap_anon :: "libstate \<Rightarrow> int \<Rightarrow> bytes option" where
  "mmap_anon lib n = (if n \<le> 0 \<or> int (heap_limit lib) < n then None else Some (replicate (nat n) 0))"

definition iob_align_shmem :: "libstate \<Rightarrow> int \<Rightarrow> bytes res" where
  "iob_align_shmem lib nbytes =
     (case mmap_anon lib (page_round nbytes) of
        None \<Rightarrow> if page_round nbytes = 0 then Inr [] else Inl OutOfBounds
      | Some addr \<Rightarrow> memset addr 0 0 (nat (page_round nbytes)))"

definition iob_thr_create :: "libstate \<Rightarrow> int \<Rightarrow> unit res" where
  "iob_thr_create lib ret =
     (if ret \<noteq> 0 then Inl (iob_errlog lib False ''Error: Can't create thread'') else Inr ())"

lemma bind_thr_create [simp]:
  "bind_res (iob_thr_create lib r) f = Inr x \<longleftrightarrow> r = 0 \<and> f () = Inr x"
  "r = 0 \<Longrightarrow> bind_res (iob_thr_create lib r) f = f ()"
  "bind_res (iob_thr_create lib r) f = Inl Blocked \<longleftrightarrow> r = 0 \<and> f () = Inl Blocked"
  by (simp_all add: iob_thr_create_def iob_errlog_def)

section \<open>The environment of a running thread\<close>

text \<open>
  What the operating system answers is not the program's: the readings of the monotonic clock and
  the results of the data transfers are functions of how many of each have been asked for. The
  requests issued so far are recorded in order, with the bytes of a write. The generator
  state belongs to the process.
\<close>

datatype iocall = Pread int u32 u64 | Pwrite int bytes u64

record env =
  clk :: "nat \<Rightarrow> int \<times> int"          \<comment> \<open>\<open>clock_gettime\<close>: seconds and nanoseconds\<close>
  ticks :: nat
  dev :: "nat \<Rightarrow> iocall \<Rightarrow> int \<times> int"  \<comment> \<open>result and \<open>errno\<close> of the n-th transfer\<close>
  calls :: "iocall list"
  rng :: u48

definition timespec_ns :: "int \<Rightarrow> int \<Rightarrow> u64" where
  "timespec_ns tv_sec tv_nsec = u64_of_int tv_sec * IOB_NSEC_TO_SEC + u64_of_int tv_nsec"

definition iob_gettime :: "env \<Rightarrow> u64 \<times> env" where
  "iob_gettime e =
     (case clk e (ticks e) of (tv_sec, tv_nsec) \<Rightarrow>
        (timespec_ns tv_sec tv_nsec, e\<lparr>ticks := Suc (ticks e)\<rparr>))"

definition do_call :: "iocall \<Rightarrow> env \<Rightarrow> (int \<times> int) \<times> env" where
  "do_call c e = (dev e (length (calls e)) c, e\<lparr>calls := calls e @ [c]\<rparr>)"

definition iob_read :: "int \<Rightarrow> u32 \<Rightarrow> u64 \<Rightarrow> env \<Rightarrow> (int \<times> int) \<times> env" where
  "iob_read fd len offset = do_call (Pread fd len offset)"

definition iob_write :: "int \<Rightarrow> bytes \<Rightarrow> u32 \<Rightarrow> u64 \<Rightarrow> env \<Rightarrow> (int \<times> int) \<times> env" where
  "iob_write fd buf len offset = do_call (Pwrite fd (take (unat len) buf) offset)"

section \<open>Option values\<close>

definition iob_strtoul :: "libstate \<Rightarrow> string option \<Rightarrow> u32 res" where
  "iob_strtoul lib value = (case value of
     None \<Rightarrow> Inl (iob_errlog lib True ''Error: Optional argument parameter not specified'')
   | Some s \<Rightarrow> Inr (ucast (strtoull s)))"

definition iob_strtoull :: "libstate \<Rightarrow> string option \<Rightarrow> u64 res" where
  "iob_strtoull lib value = (case value of
     None \<Rightarrow> Inl (iob_errlog lib True ''Error: Optional argument parameter not specified'')
   | Some s \<Rightarrow> Inr (strtoull s))"

definition iob_strtod :: "libstate \<Rightarrow> string option \<Rightarrow> rat res" where
  "iob_strtod lib value = (case value of
     None \<Rightarrow> Inl (iob_errlog lib True ''Error: Optional argument parameter not specified'')
   | Some s \<Rightarrow> Inr (strtod s))"

definition iob_dtargparse :: "libstate \<Rightarrow> string option \<Rightarrow> int res" where
  "iob_dtargparse lib value = (case value of
     None \<Rightarrow> Inl (iob_errlog lib True ''Error: Optional argument parameter not specified'')
   | Some s \<Rightarrow>
       if s = ''c'' then Inr IOB_DT_COMPRESSIBLE
       else if s = ''u'' then Inr IOB_DT_UNCOMPRESSIBLE
       else if s = ''p'' then Inr IOB_DT_PATTERN1
       else if s = ''z'' then Inr IOB_DT_ZEROS
       else if s = ''o'' then Inr IOB_DT_ONES
       else if s = ''h40'' then Inr IOB_DT_H40COMPRESSIBLE
       else if s = ''h20'' then Inr IOB_DT_H20COMPRESSIBLE
       else if s = ''h10'' then Inr IOB_DT_H10COMPRESSIBLE
       else if s = ''h'' \<or> s = ''h01'' \<or> s = ''h1'' then Inr IOB_DT_HCOMPRESSIBLE
       else if s = ''e'' then Inr IOB_DT_PST
       else if s = ''v'' then Inr IOB_DT_VM
       else Inl (iob_errlog lib True ''Error: Invalid data type specified''))"

definition iob_dttostr :: "int \<Rightarrow> string" where
  "iob_dttostr dtype =
     (if dtype = IOB_DT_COMPRESSIBLE then ''Compressible''
      else if dtype = IOB_DT_UNCOMPRESSIBLE then ''Uncompressible''
      else if dtype = IOB_DT_HCOMPRESSIBLE then ''Highly Compressible to 1%''
      else if dtype = IOB_DT_H40COMPRESSIBLE then ''Highly Compressible to 40%''
      else if dtype = IOB_DT_H20COMPRESSIBLE then ''Highly Compressible to 20%''
      else if dtype = IOB_DT_H10COMPRESSIBLE then ''Highly Compressible to 10%''
      else if dtype = IOB_DT_PST then ''Email Data''
      else if dtype = IOB_DT_VM then ''Virtual Machine Data''
      else if dtype = IOB_DT_ZEROS then ''Zeros''
      else if dtype = IOB_DT_ONES then ''Ones''
      else if dtype = IOB_DT_PATTERN1 then ''One Byte Patterns''
      else ''Unknown'')"

definition iob_dttochr :: "int \<Rightarrow> string" where
  "iob_dttochr dtype =
     (if dtype = IOB_DT_COMPRESSIBLE then ''C''
      else if dtype = IOB_DT_UNCOMPRESSIBLE then ''U''
      else if dtype = IOB_DT_H40COMPRESSIBLE then ''H40''
      else if dtype = IOB_DT_H20COMPRESSIBLE then ''H20''
      else if dtype = IOB_DT_H10COMPRESSIBLE then ''H10''
      else if dtype = IOB_DT_HCOMPRESSIBLE then ''H01''
      else if dtype = IOB_DT_PST then ''E''
      else if dtype = IOB_DT_VM then ''VM''
      else if dtype = IOB_DT_ZEROS then ''Z''
      else if dtype = IOB_DT_ONES then ''O''
      else if dtype = IOB_DT_PATTERN1 then ''P''
      else '' '')"

section \<open>Data tables\<close>

record pools =
  uncdata :: bytes
  cdata :: bytes
  hcdata :: bytes
  hc40data :: bytes
  hc20data :: bytes
  hc10data :: bytes
  vm_data :: bytes
  pst_data :: bytes

definition table_size :: nat where [simp]: "table_size = IOB_NDATAPAGES * IOB_PAGE"

text \<open>One 32-bit word of the random tables.\<close>

definition init_word :: "nat \<Rightarrow> bytes \<times> bytes \<times> u48 \<Rightarrow> (bytes \<times> bytes \<times> u48) res" where
  "init_word i = (\<lambda>(unc, c, x).
     (let (w, x1) = mrand48_bits x in
      bind_res (store unc i (le32 w)) (\<lambda>unc'.
      let (v, x2) = mrand48_bits x1 in
      bind_res (store c i (le32 (v AND 0x3c3c3c3c))) (\<lambda>c'. Inr (unc', c', x2)))))"

text \<open>
  A sector of runs: \<open>count\<close> copies of a random byte, again and again, the last run cut at the
  sector's end. The code calls the loop with \<open>count\<close> 24, 10 and 6; with a \<open>count\<close> of 0 it would not
  advance, and the model stops.
\<close>

function fill_runs :: "nat \<Rightarrow> nat \<Rightarrow> nat \<Rightarrow> bytes \<times> u48 \<Rightarrow> (bytes \<times> u48) res" where
  "fill_runs i j count bx =
     (if j < IOB_SECTOR \<and> 0 < count then
        let (w, x') = mrand48_bits (snd bx);
            xbyte = ucast (w AND 0xff);
            count' = (if IOB_SECTOR < j + count then IOB_SECTOR - j else count)
        in bind_res (memset (fst bx) (i + j) xbyte count')
             (\<lambda>b. fill_runs i (j + count') count' (b, x'))
      else Inr bx)"
  by pat_completeness auto
termination
  by (relation "measure (\<lambda>(i, j, count, bx). 512 - j)") (auto split: if_splits)

declare fill_runs.simps [simp del]

definition init_sector ::
    "nat \<Rightarrow> (bytes \<times> bytes \<times> bytes \<times> bytes) \<times> u8 \<times> u48
        \<Rightarrow> ((bytes \<times> bytes \<times> bytes \<times> bytes) \<times> u8 \<times> u48) res" where
  "init_sector i = (\<lambda>((hc, h10, h20, h40), pbyte, x).
     bind_res (memset hc i pbyte IOB_SECTOR) (\<lambda>hc'.
     bind_res (fill_runs i 0 24 (h10, x)) (\<lambda>(h10', x1).
     bind_res (fill_runs i 0 10 (h20, x1)) (\<lambda>(h20', x2).
     bind_res (fill_runs i 0 6 (h40, x2)) (\<lambda>(h40', x3).
       Inr ((hc', h10', h20', h40'), pbyte + 1, x3))))))"

definition iob_initdata :: "libstate \<Rightarrow> bytes \<Rightarrow> bytes \<Rightarrow> (pools \<times> u48) res" where
  "iob_initdata lib iob_vm_data iob_pst_data =
     (let sz = int table_size in
      bind_res (iob_malloc lib sz) (\<lambda>unc.
      bind_res (iob_malloc lib sz) (\<lambda>c.
      bind_res (iob_malloc lib sz) (\<lambda>hc.
      bind_res (iob_malloc lib sz) (\<lambda>h40.
      bind_res (iob_malloc lib sz) (\<lambda>h20.
      bind_res (iob_malloc lib sz) (\<lambda>h10.
      bind_res (c_for 4 table_size init_word (unc, c, seed48 1234 35578 9568)) (\<lambda>(unc', c', x).
      bind_res (c_for IOB_SECTOR table_size init_sector ((hc, h10, h20, h40), 0x5E, x))
        (\<lambda>((hc', h10', h20', h40'), pbyte, x').
      Inr (\<lparr>uncdata = unc', cdata = c', hcdata = hc', hc40data = h40', hc20data = h20',
            hc10data = h10', vm_data = iob_vm_data, pst_data = iob_pst_data\<rparr>, x'))))))))))"

section \<open>Data generators\<close>

text \<open>The table a data type draws from; every type without a table of its own gets \<open>hcdata\<close>.\<close>

definition data_pool :: "pools \<Rightarrow> int \<Rightarrow> bytes" where
  "data_pool p dtype =
     (if dtype = IOB_DT_UNCOMPRESSIBLE then uncdata p
      else if dtype = IOB_DT_PST then pst_data p
      else if dtype = IOB_DT_VM then vm_data p
      else if dtype = IOB_DT_COMPRESSIBLE then cdata p
      else if dtype = IOB_DT_H40COMPRESSIBLE then hc40data p
      else if dtype = IOB_DT_H20COMPRESSIBLE then hc20data p
      else if dtype = IOB_DT_H10COMPRESSIBLE then hc10data p
      else hcdata p)"

text \<open>
  The loops over a request keep its offset in \<open>int off\<close> and compare it, as an unsigned number, with the size. From \<open>2 ^ 31\<close> on the
  offset has wrapped around: it is negative, still below the size, and the body addresses memory before the buffer.
\<close>

definition int_off :: "(nat \<Rightarrow> 's \<Rightarrow> 's res) \<Rightarrow> nat \<Rightarrow> 's \<Rightarrow> 's res" where
  "int_off body off s = (if off < 2 ^ 31 then body off s else Inl OutOfBounds)"

definition pattern_sector :: "nat \<Rightarrow> bytes \<times> u48 \<Rightarrow> (bytes \<times> u48) res" where
  "pattern_sector off = (\<lambda>(bp, x).
     (let (r, x') = lrand48 x
      in bind_res (memset bp off (of_nat (r mod 256)) IOB_SECTOR) (\<lambda>bp'. Inr (bp', x'))))"

definition type_header :: "int \<Rightarrow> u64 \<Rightarrow> u64" where
  "type_header dtype n = push_bit 56 (u64_of_int dtype) + n"

text \<open>
  One page of \<open>iob_iodata\<close>: a random page of the table, cut to what is left of the request, then the
  same header over the first eight bytes of each of its sectors.
\<close>

definition iodata_page ::
    "bytes \<Rightarrow> nat \<Rightarrow> int \<Rightarrow> u64 \<Rightarrow> nat \<Rightarrow> bytes \<times> u48 \<Rightarrow> (bytes \<times> u48) res" where
  "iodata_page dbuf sz dtype dedupblks off = (\<lambda>(bp, x).
     (let (r, x1) = lrand48 x;
          doff = r mod IOB_NDATAPAGES * IOB_PAGE;
          nbytes = (if sz - off < IOB_PAGE then sz - off else IOB_PAGE)
      in bind_res (memcpy bp off dbuf doff nbytes) (\<lambda>bp1.
         let (r64, x2) = IOB_RAND64 x1 in
         if dedupblks = 0 then Inl DivByZero
         else let hdr = type_header dtype (r64 mod dedupblks) in
           bind_res (c_for IOB_SECTOR nbytes (\<lambda>soff b. store b (off + soff) (le64 hdr)) bp1)
             (\<lambda>bp2. Inr (bp2, x2)))))"

definition iob_iodata ::
    "pools \<Rightarrow> bytes \<Rightarrow> u32 \<Rightarrow> int \<Rightarrow> u64 \<Rightarrow> u48 \<Rightarrow> (bytes \<times> u48) res" where
  "iob_iodata p bp sz dtype dedupblks x =
     (if dtype = IOB_DT_PATTERN1 then c_for IOB_SECTOR (unat sz) (int_off pattern_sector) (bp, x)
      else if dtype = IOB_DT_ONES then bind_res (memset bp 0 0xff (unat sz)) (\<lambda>b. Inr (b, x))
      else if dtype = IOB_DT_ZEROS then bind_res (memset bp 0 0 (unat sz)) (\<lambda>b. Inr (b, x))
      else c_for IOB_PAGE (unat sz)
             (int_off (iodata_page (data_pool p dtype) (unat sz) dtype dedupblks)) (bp, x))"

definition dedup_sector ::
    "bytes \<Rightarrow> int \<Rightarrow> nat \<Rightarrow> bytes \<times> u64 \<Rightarrow> (bytes \<times> u64) res" where
  "dedup_sector dbuf dtype off = (\<lambda>(bp, srcbno).
     (let doff = unat (srcbno mod of_nat (table_size div IOB_SECTOR)) * IOB_SECTOR;
          hdr = type_header dtype srcbno
      in bind_res (memcpy bp off dbuf doff IOB_SECTOR) (\<lambda>bp1.
         bind_res (store bp1 off (le64 hdr)) (\<lambda>bp2. Inr (bp2, srcbno + 1)))))"

definition iob_dedupdata ::
    "pools \<Rightarrow> bytes \<Rightarrow> u32 \<Rightarrow> int \<Rightarrow> u64 \<Rightarrow> u48 \<Rightarrow> (bytes \<times> u48) res" where
  "iob_dedupdata p bp sz dtype srcbno x =
     (if dtype = IOB_DT_PATTERN1 then c_for IOB_SECTOR (unat sz) (int_off pattern_sector) (bp, x)
      else if dtype = IOB_DT_ONES then bind_res (memset bp 0 0xff (unat sz)) (\<lambda>b. Inr (b, x))
      else if dtype = IOB_DT_ZEROS then bind_res (memset bp 0 0 (unat sz)) (\<lambda>b. Inr (b, x))
      else bind_res (c_for IOB_SECTOR (unat sz) (int_off (dedup_sector (data_pool p dtype) dtype))
                       (bp, srcbno)) (\<lambda>(b, n). Inr (b, x)))"

section \<open>What a generated buffer holds\<close>

text \<open>Up to \<open>2 ^ 31\<close> bytes the offset does not wrap around; beyond them the loop leaves the buffer.\<close>

lemma loop_res_cong: "(\<And>i s. i \<in> set xs \<Longrightarrow> f i s = g i s) \<Longrightarrow> loop_res f xs s = loop_res g xs s"
  by (induction xs arbitrary: s) (auto simp: bind_res_def split: sum.splits)

lemma c_for_int_off: "n \<le> 2 ^ 31 \<Longrightarrow> 0 < d \<Longrightarrow> c_for d n (int_off f) s = c_for d n f s"
  unfolding c_for_def by (rule loop_res_cong) (auto simp: in_offsets int_off_def)

lemma c_for_wraps:
  assumes "c_for d n f s = Inr t" "d dvd 2 ^ 31" "2 ^ 31 < n"
  shows "c_for d n (int_off f) s = Inl OutOfBounds"
proof -
  have d: "0 < d" using assms(2) by (auto intro: gr0I)
  then have "2 ^ 31 \<in> set (offsets d n)" using assms(2,3) by (simp only: in_offsets)
  then obtain ys zs where sp: "offsets d n = ys @ 2 ^ 31 # zs" by (meson split_list)
  have ys: "offsets d (2 ^ 31) = ys" using offsets_prefix(1) [OF sp] by (rule sym)
  have c: "c_for d n g s = bind_res (c_for d (2 ^ 31) g s) (\<lambda>t. bind_res (g (2 ^ 31) t) (loop_res g zs))" for g
    unfolding c_for_def ys sp by (simp only: loop_res_append) (simp add: fun_eq_iff bind_res_def split: sum.splits)
  from assms(1) obtain t' where "c_for d (2 ^ 31) f s = Inr t'" unfolding c by (auto simp: bind_res_Inr_iff)
  then show ?thesis unfolding c c_for_int_off [OF order_refl d] by (simp add: int_off_def)
qed

lemma type_header_split:
  assumes "0 \<le> dtype" "dtype < 256" "unat n < 2 ^ 56"
  shows "drop_bit 56 (type_header dtype n) = u64_of_int dtype" "take_bit 56 (type_header dtype n) = n"
proof -
  have n: "take_bit 56 n = n" using assms(3)
    by (simp add: take_bit_eq_mod word_arith_nat_mod)
  have "type_header dtype n = push_bit 56 (u64_of_int dtype) OR n"
    unfolding type_header_def
  proof (rule disjunctive_add)
    show "\<not> bit (push_bit 56 (u64_of_int dtype)) i \<or> \<not> bit n i" for i
      using arg_cong [OF n, of "\<lambda>w. bit w i"] by (auto simp: bit_simps)
  qed
  then have T: "type_header dtype n = push_bit 56 (u64_of_int dtype) OR take_bit 56 n" using n by simp
  have d: "take_bit 8 (u64_of_int dtype) = u64_of_int dtype"
    using assms(1,2) by (simp add: take_bit_of_int take_bit_int_eq_self)
  show "take_bit 56 (type_header dtype n) = n" unfolding T
    using n by (simp add: bit_eq_iff) (auto simp: bit_simps)
  show "drop_bit 56 (type_header dtype n) = u64_of_int dtype"
    unfolding T using d by (simp add: bit_eq_iff) (auto simp: bit_simps)
qed


text \<open>The header loop of a page: exactly the first eight bytes of each sector change.\<close>

lemma header_loop:
  assumes "512 dvd off" "512 dvd length buf" "off + n \<le> length buf"
  shows "\<exists>b. c_for 512 n (\<lambda>soff b. store b (off + soff) (le64 hdr)) buf = Inr b
    \<and> length b = length buf
    \<and> (\<forall>i < length buf. b ! i =
         (if off \<le> i \<and> i < off + (n + 511) div 512 * 512 \<and> (i - off) mod 512 < 8
          then le64 hdr ! ((i - off) mod 512) else buf ! i))"
proof -
  let ?I = "\<lambda>k b. length b = length buf \<and> (\<forall>i < length buf. b ! i =
         (if off \<le> i \<and> i < off + k \<and> (i - off) mod 512 < 8
          then le64 hdr ! ((i - off) mod 512) else buf ! i))"
  have "\<exists>b. c_for 512 n (\<lambda>soff b. store b (off + soff) (le64 hdr)) buf = Inr b
          \<and> ?I ((n + 512 - 1) div 512 * 512) b"
  proof (rule c_for_rule)
    fix k b assume k: "k < n" "512 dvd k" and I: "?I k b"
    have "512 dvd off + k" "off + k < length buf" using assms k by auto
    then have fits: "off + k + 512 \<le> length buf" using dvd_add_le [of 512] assms(2) by blast
    then have "off + k + length (le64 hdr) \<le> length b" using I by simp
    from store_ex [OF this] obtain b' where b': "store b (off + k) (le64 hdr) = Inr b'"
      "length b' = length b"
      "\<forall>i < length b. b' ! i =
         (if off + k \<le> i \<and> i < off + k + length (le64 hdr) then le64 hdr ! (i - (off + k)) else b ! i)"
      by blast
    have "?I (k + 512) b'"
    proof (intro conjI allI impI)
      show "length b' = length buf" using b' I by simp
      fix i assume i: "i < length buf"
      obtain q where q: "k = 512 * q" using k(2) by (elim dvdE)
      have m: "(i - off) mod 512 = i - (off + k)" if "off + k \<le> i" "i < off + k + 512"
      proof -
        have "i - off = (i - (off + k)) + 512 * q" using that q by simp
        then have "(i - off) mod 512 = (i - (off + k)) mod 512" by (simp only: mod_mult_self2)
        then show ?thesis using that by simp
      qed
      show "b' ! i = (if off \<le> i \<and> i < off + (k + 512) \<and> (i - off) mod 512 < 8
          then le64 hdr ! ((i - off) mod 512) else buf ! i)"
        using b'(3) I i m by (cases "off + k \<le> i \<and> i < off + k + 512") auto
    qed
    with b'(1) show "\<exists>b'. store b (off + k) (le64 hdr) = Inr b' \<and> ?I (k + 512) b'" by blast
  qed auto
  moreover have "n + 512 - 1 = n + 511" by simp
  ultimately show ?thesis by (simp only:)
qed


definition page_byte :: "bytes \<Rightarrow> nat \<Rightarrow> u64 \<Rightarrow> nat \<Rightarrow> u8" where
  "page_byte dbuf pg hdr j =
     (if j mod IOB_SECTOR < 8 then le64 hdr ! (j mod IOB_SECTOR) else dbuf ! (pg * IOB_PAGE + j))"

lemma iodata_page_ok:
  assumes "4096 dvd off" "512 dvd length bp" "off < n" "n \<le> length bp"
    and "length dbuf = table_size" and "dd \<noteq> 0"
  shows "\<exists>bp' x' pg m. iodata_page dbuf n dtype dd off (bp, x) = Inr (bp', x')
    \<and> length bp' = length bp \<and> pg < IOB_NDATAPAGES \<and> m < dd
    \<and> (\<forall>j < min 4096 (n - off). bp' ! (off + j) = page_byte dbuf pg (type_header dtype m) j)
    \<and> (\<forall>i < length bp. i < off \<or> off + 4096 \<le> i \<or> (n + 511) div 512 * 512 \<le> i \<longrightarrow> bp' ! i = bp ! i)"
proof -
  obtain r x1 where r: "lrand48 x = (r, x1)" by (cases "lrand48 x")
  obtain r64 x2 where r64: "IOB_RAND64 x1 = (r64, x2)" by (cases "IOB_RAND64 x1")
  define k where "k = min 4096 (n - off)"
  define pg where "pg = r mod 1000"
  let ?hdr = "type_header dtype (r64 mod dd)"
  have pg: "pg < 1000" by (simp add: pg_def)
  have src: "pg * 4096 + k \<le> length dbuf" using pg assms(5) by (simp add: k_def)
  have dst: "off + k \<le> length bp" using assms by (simp add: k_def)
  obtain bp1 where cp: "memcpy bp off dbuf (pg * 4096) k = Inr bp1" and len1: "length bp1 = length bp"
    and nth1: "\<And>i. i < length bp \<Longrightarrow>
      bp1 ! i = (if off \<le> i \<and> i < off + k then dbuf ! (pg * 4096 + (i - off)) else bp ! i)"
    using memcpy_ex [OF src dst] by blast
  have "512 dvd off" using assms(1) by (rule dvd_trans [rotated]) simp
  then obtain bp2 where loop: "c_for 512 k (\<lambda>soff b. store b (off + soff) (le64 ?hdr)) bp1 = Inr bp2"
    and len2: "length bp2 = length bp"
    and nth2: "\<forall>i < length bp. bp2 ! i =
         (if off \<le> i \<and> i < off + (k + 511) div 512 * 512 \<and> (i - off) mod 512 < 8
          then le64 ?hdr ! ((i - off) mod 512) else bp1 ! i)"
    using header_loop [of off bp1 k ?hdr] len1 assms(2) dst by auto
  have kk: "(if n - off < 4096 then n - off else IOB_PAGE) = k" by (simp add: k_def)
  have run: "iodata_page dbuf n dtype dd off (bp, x) = Inr (bp2, x2)"
    using assms(6) cp loop by (simp add: iodata_page_def r r64 Let_def pg_def [symmetric] kk
        split del: if_split)
  have top: "off + (k + 511) div 512 * 512 \<le> off + 4096"
    by (auto simp: k_def)
  have top2: "off + (k + 511) div 512 * 512 \<le> (n + 511) div 512 * 512"
  proof -
    obtain q where q: "off = 512 * q" using \<open>512 dvd off\<close> by (elim dvdE)
    have "off + k \<le> n" using assms(3) by (simp add: k_def)
    then have "(off + k + 511) div 512 \<le> (n + 511) div 512" by (intro div_le_mono) simp
    moreover have "(off + k + 511) div 512 = q + (k + 511) div 512"
      using q by (simp add: add.assoc)
    ultimately show ?thesis using q by simp
  qed
  have sect: "bp2 ! (off + j) = page_byte dbuf pg ?hdr j" if j: "j < k" for j
    using j nth2 nth1 [of "off + j"] dst round_up_ge [of 512 k] by (auto simp: page_byte_def)
  have rest: "bp2 ! i = bp ! i"
    if "i < length bp" "i < off \<or> off + 4096 \<le> i \<or> (n + 511) div 512 * 512 \<le> i" for i
    using that nth2 nth1 [of i] top top2 round_up_ge [of 512 k] by auto
  have "r64 mod dd < dd" using assms(6) by (simp add: word_gt_0 word_mod_less_divisor)
  with run len2 pg sect rest show ?thesis
    unfolding k_def [symmetric] IOB_NDATAPAGES_def
    by (intro exI [of _ bp2] exI [of _ x2] exI [of _ pg] exI [of _ "r64 mod dd"]) auto
qed


text \<open>The whole request: every page of it is a page of the table under one header.\<close>

lemma iodata_loop:
  assumes "512 dvd length bp" "n \<le> length bp" "length dbuf = table_size" "dd \<noteq> 0"
  shows "\<exists>b x'. c_for IOB_PAGE n (iodata_page dbuf n dtype dd) (bp, x) = Inr (b, x')
    \<and> length b = length bp
    \<and> (\<forall>i < length bp. (n + 511) div 512 * 512 \<le> i \<longrightarrow> b ! i = bp ! i)
    \<and> (\<forall>off < n. IOB_PAGE dvd off \<longrightarrow> (\<exists>pg < IOB_NDATAPAGES. \<exists>m < dd.
          \<forall>j < min IOB_PAGE (n - off). b ! (off + j) = page_byte dbuf pg (type_header dtype m) j))"
proof -
  let ?I = "\<lambda>k (s :: bytes \<times> u48). length (fst s) = length bp
    \<and> (\<forall>i < length bp. (n + 511) div 512 * 512 \<le> i \<or> k \<le> i \<longrightarrow> fst s ! i = bp ! i)
    \<and> (\<forall>off < n. off < k \<and> 4096 dvd off \<longrightarrow> (\<exists>pg < IOB_NDATAPAGES. \<exists>m < dd.
          \<forall>j < min 4096 (n - off). fst s ! (off + j) = page_byte dbuf pg (type_header dtype m) j))"
  have "\<exists>t. c_for 4096 n (iodata_page dbuf n dtype dd) (bp, x) = Inr t
      \<and> ?I ((n + 4096 - 1) div 4096 * 4096) t"
  proof (rule c_for_rule)
    fix k and s :: "bytes \<times> u48"
    assume k: "k < n" "4096 dvd k" and I: "?I k s"
    obtain b y where s: "s = (b, y)" by (cases s)
    have "512 dvd length b" "n \<le> length b" using I assms s by auto
    from iodata_page_ok [OF k(2) this(1) k(1) this(2) assms(3,4), of dtype y]
    obtain b' y' pg m where run: "iodata_page dbuf n dtype dd k (b, y) = Inr (b', y')"
      and len: "length b' = length b" and pg: "pg < IOB_NDATAPAGES" "m < dd"
      and new: "\<forall>j < min 4096 (n - k). b' ! (k + j) = page_byte dbuf pg (type_header dtype m) j"
      and old: "\<forall>i < length b. i < k \<or> k + 4096 \<le> i \<or> (n + 511) div 512 * 512 \<le> i \<longrightarrow> b' ! i = b ! i"
      by blast
    have "?I (k + 4096) (b', y')"
    proof (intro conjI allI impI)
      show "length (fst (b', y')) = length bp" using len I s by simp
      fix i assume "i < length bp" "(n + 511) div 512 * 512 \<le> i \<or> k + 4096 \<le> i"
      then show "fst (b', y') ! i = bp ! i" using old I s by auto
    next
      fix off assume off: "off < n" "off < k + 4096 \<and> 4096 dvd off"
      show "\<exists>pg < IOB_NDATAPAGES. \<exists>m < dd. \<forall>j < min 4096 (n - off).
              fst (b', y') ! (off + j) = page_byte dbuf pg (type_header dtype m) j"
      proof (cases "off < k")
        case True
        then have "off + 4096 \<le> k" using off k dvd_add_le by blast
        have "\<exists>pg < IOB_NDATAPAGES. \<exists>m < dd. \<forall>j < min 4096 (n - off).
                b ! (off + j) = page_byte dbuf pg (type_header dtype m) j"
          using I True off s by simp
        moreover have "b' ! (off + j) = b ! (off + j)" if "j < min 4096 (n - off)" for j
        proof -
          have "off + j < k" "off + j < length b"
            using that \<open>off + 4096 \<le> k\<close> \<open>n \<le> length b\<close> by linarith+
          then show ?thesis using old by blast
        qed
        ultimately show ?thesis by simp
      next
        case False
        then have "off = k" using off k dvd_add_le [of 4096 k off] by force
        with pg new show ?thesis by auto
      qed
    qed
    with run s show "\<exists>t'. iodata_page dbuf n dtype dd k s = Inr t' \<and> ?I (k + 4096) t'" by blast
  qed (use assms in auto)
  then obtain b x' where run: "c_for 4096 n (iodata_page dbuf n dtype dd) (bp, x) = Inr (b, x')"
    and I: "?I ((n + 4096 - 1) div 4096 * 4096) (b, x')" by force
  have "\<And>off. off < n \<Longrightarrow> off < (n + 4096 - 1) div 4096 * 4096"
    using round_up_ge [of 4096 n] by simp
  with run I show ?thesis unfolding IOB_PAGE_def
    by (intro exI [of _ b] exI [of _ x']) (simp only: fst_conv, blast)
qed

definition pools_ok :: "pools \<Rightarrow> bool" where
  "pools_ok p \<longleftrightarrow> length (uncdata p) = table_size \<and> length (cdata p) = table_size
     \<and> length (hcdata p) = table_size \<and> length (hc40data p) = table_size
     \<and> length (hc20data p) = table_size \<and> length (hc10data p) = table_size
     \<and> length (vm_data p) = table_size \<and> length (pst_data p) = table_size"

lemma data_pool_length [len_simps]: "pools_ok p \<Longrightarrow> length (data_pool p dtype) = table_size"
  by (simp add: pools_ok_def data_pool_def)

text \<open>Each sector of the first \<open>n\<close> bytes repeats one byte.\<close>

definition constant_sectors :: "bytes \<Rightarrow> nat \<Rightarrow> bool" where
  "constant_sectors b n \<longleftrightarrow> (\<forall>i < n. b ! i = b ! (i div IOB_SECTOR * IOB_SECTOR))"

lemma pattern_loop:
  assumes "512 dvd length bp" "n \<le> length bp"
  shows "\<exists>b x'. c_for IOB_SECTOR n pattern_sector (bp, x) = Inr (b, x') \<and> length b = length bp
    \<and> (\<forall>i < length bp. (n + 511) div 512 * 512 \<le> i \<longrightarrow> b ! i = bp ! i)
    \<and> constant_sectors b n"
proof -
  let ?I = "\<lambda>k (s :: bytes \<times> u48). length (fst s) = length bp
     \<and> (\<forall>i < length bp. k \<le> i \<longrightarrow> fst s ! i = bp ! i)
     \<and> constant_sectors (fst s) (min k (length bp))"
  have "\<exists>t. c_for 512 n pattern_sector (bp, x) = Inr t \<and> ?I ((n + 512 - 1) div 512 * 512) t"
  proof (rule c_for_rule)
    fix k and s :: "bytes \<times> u48"
    assume k: "k < n" "512 dvd k" and I: "?I k s"
    obtain b y where s: "s = (b, y)" by (cases s)
    obtain r y' where r: "lrand48 y = (r, y')" by (cases "lrand48 y")
    have lenb: "length b = length bp" and oldb: "\<forall>i < length bp. k \<le> i \<longrightarrow> b ! i = bp ! i"
      and runs: "constant_sectors b (min k (length bp))"
      using I s by auto
    have fits: "k + 512 \<le> length b" using sector_fits [OF k assms(2,1)] lenb by (simp only:)
    from memset_ex [OF fits, of "of_nat (r mod 256)"] obtain b' where
      b': "memset b k (of_nat (r mod 256)) 512 = Inr b'" "length b' = length b"
        "\<forall>i < length b. b' ! i = (if k \<le> i \<and> i < k + 512 then of_nat (r mod 256) else b ! i)"
      by blast
    have "?I (k + 512) (b', y')"
    proof (intro conjI allI impI)
      show "length (fst (b', y')) = length bp" using b' lenb by simp
    next
      fix i assume "i < length bp" "k + 512 \<le> i"
      then show "fst (b', y') ! i = bp ! i" using b' lenb oldb by simp
    next
      show "constant_sectors (fst (b', y')) (min (k + 512) (length bp))"
        unfolding constant_sectors_def fst_conv IOB_SECTOR_def
      proof (intro allI impI)
        fix i assume "i < min (k + 512) (length bp)"
        then have i: "i < length bp" "i < k + 512" by auto
        obtain q where q: "k = 512 * q" using k(2) by (elim dvdE)
        show "b' ! i = b' ! (i div 512 * 512)"
        proof (cases "k \<le> i")
          case True
          then have "i div 512 = q" using i q by (simp add: div_nat_eqI)
          with True i q b' lenb show ?thesis by simp
        next
          case False
          then have ik: "i < k" by simp
          have le: "i div 512 * 512 \<le> i" by simp
          have "b' ! i = b ! i" using ik i b'(3) lenb by simp
          also have "\<dots> = b ! (i div 512 * 512)"
            using runs i(1) ik unfolding constant_sectors_def IOB_SECTOR_def by (metis min_less_iff_conj)
          also have "\<dots> = b' ! (i div 512 * 512)"
            using le_less_trans [OF le ik] le_less_trans [OF le i(1)] b'(3) lenb by simp
          finally show ?thesis .
        qed
      qed
    qed
    moreover have "pattern_sector k s = Inr (b', y')"
      using b'(1) r s by (simp add: pattern_sector_def)
    ultimately show "\<exists>t'. pattern_sector k s = Inr t' \<and> ?I (k + 512) t'" by blast
  qed (auto simp: constant_sectors_def)
  then obtain b x' where run: "c_for 512 n pattern_sector (bp, x) = Inr (b, x')"
    and I: "?I ((n + 512 - 1) div 512 * 512) (b, x')" by force
  have e: "n + 512 - 1 = n + 511" by simp
  have up: "n \<le> (n + 511) div 512 * 512" using round_up_ge [of 512 n] by simp
  have "constant_sectors b (min ((n + 511) div 512 * 512) (length bp))"
    using I unfolding e fst_conv by blast
  moreover have "n \<le> min ((n + 511) div 512 * 512) (length bp)" using up assms(2) by simp
  ultimately have "constant_sectors b n" unfolding constant_sectors_def by (meson less_le_trans)
  moreover have "length b = length bp"
    "\<forall>i < length bp. (n + 511) div 512 * 512 \<le> i \<longrightarrow> b ! i = bp ! i"
    using I unfolding e fst_conv by blast+
  ultimately show ?thesis using run unfolding IOB_SECTOR_def by blast
qed

definition round_sector :: "nat \<Rightarrow> nat" where
  "round_sector n = (n + 511) div 512 * 512"

lemma iodata_flat:
  assumes "unat sz \<le> length bp" and "dtype = IOB_DT_ONES \<or> dtype = IOB_DT_ZEROS"
  shows "\<exists>b x'. iob_iodata p bp sz dtype dedupblks x = Inr (b, x') \<and> length b = length bp
    \<and> (\<forall>i < length bp. round_sector (unat sz) \<le> i \<longrightarrow> b ! i = bp ! i)"
proof -
  have up: "unat sz \<le> round_sector (unat sz)"
    using round_up_ge [of 512 "unat sz"] by (simp add: round_sector_def)
  have "0 + unat sz \<le> length bp" using assms by simp
  then have "\<exists>b. memset bp 0 c (unat sz) = Inr b \<and> length b = length bp
      \<and> (\<forall>i < length bp. round_sector (unat sz) \<le> i \<longrightarrow> b ! i = bp ! i)" for c
    using memset_ex [of 0 "unat sz" bp c] up by auto
  then show ?thesis using assms(2) by (auto simp: iob_iodata_def bind_res_Inr_iff)
qed

definition table_dtype :: "int \<Rightarrow> bool" where
  "table_dtype dtype \<longleftrightarrow> dtype \<notin> {IOB_DT_PATTERN1, IOB_DT_ONES, IOB_DT_ZEROS}"

lemma iodata_table:
  assumes "pools_ok p" and "512 dvd length bp" and "unat sz \<le> length bp" and "dedupblks \<noteq> 0" and "unat sz \<le> 2 ^ 31"
    and "table_dtype dtype"
  shows "\<exists>b x'. iob_iodata p bp sz dtype dedupblks x = Inr (b, x') \<and> length b = length bp
    \<and> (\<forall>i < length bp. round_sector (unat sz) \<le> i \<longrightarrow> b ! i = bp ! i)
    \<and> (\<forall>off < unat sz. IOB_PAGE dvd off \<longrightarrow> (\<exists>pg < IOB_NDATAPAGES. \<exists>m < dedupblks.
          \<forall>j < min IOB_PAGE (unat sz - off). b ! (off + j) = page_byte (data_pool p dtype) pg (type_header dtype m) j))"
  using iodata_loop [OF assms(2,3) data_pool_length [OF assms(1)] assms(4), of dtype dtype x] assms(6)
  by (simp add: c_for_int_off [OF assms(5)] iob_iodata_def table_dtype_def round_sector_def)

lemma iodata_total:
  assumes "pools_ok p" and "512 dvd length bp" and "unat sz \<le> length bp" and "dedupblks \<noteq> 0" and "unat sz \<le> 2 ^ 31"
  shows "\<exists>b x'. iob_iodata p bp sz dtype dedupblks x = Inr (b, x') \<and> length b = length bp
    \<and> (\<forall>i < length bp. round_sector (unat sz) \<le> i \<longrightarrow> b ! i = bp ! i)"
proof (cases "table_dtype dtype")
  case True
  from iodata_table [OF assms True, of x] show ?thesis by blast
next
  case False
  then consider "dtype = IOB_DT_PATTERN1" | "dtype = IOB_DT_ONES \<or> dtype = IOB_DT_ZEROS" by (auto simp: table_dtype_def)
  then show ?thesis
  proof cases
    case 1
    then show ?thesis using pattern_loop [OF assms(2,3), of x] by (auto simp: c_for_int_off [OF assms(5)] iob_iodata_def round_sector_def)
  next
    case 2
    with assms(3) show ?thesis by (rule iodata_flat)
  qed
qed

lemma iodata_wraps:
  assumes "pools_ok p" and "512 dvd length bp" and "unat sz \<le> length bp" and "dedupblks \<noteq> 0" and "2 ^ 31 < unat sz"
    and "dtype \<noteq> IOB_DT_ONES" and "dtype \<noteq> IOB_DT_ZEROS"
  shows "iob_iodata p bp sz dtype dedupblks x = Inl OutOfBounds"
proof (cases "dtype = IOB_DT_PATTERN1")
  case True
  from pattern_loop [OF assms(2,3)] obtain b x' where "c_for IOB_SECTOR (unat sz) pattern_sector (bp, x) = Inr (b, x')" by blast
  from c_for_wraps [OF this _ assms(5)] True show ?thesis by (simp add: iob_iodata_def)
next
  case False
  from iodata_loop [OF assms(2,3) data_pool_length [OF assms(1)] assms(4)] obtain b x' where
    "c_for IOB_PAGE (unat sz) (iodata_page (data_pool p dtype) (unat sz) dtype dedupblks) (bp, x) = Inr (b, x')" by blast
  from c_for_wraps [OF this _ assms(5)] False assms(6,7) show ?thesis by (simp add: iob_iodata_def)
qed


text \<open>The images a page of a table type can take; there are at most \<open>1000 * dedupblks\<close> of them.\<close>

definition page_images :: "bytes \<Rightarrow> int \<Rightarrow> u64 \<Rightarrow> bytes set" where
  "page_images dbuf dtype dedupblks =
     (\<lambda>(pg, m). map (page_byte dbuf pg (type_header dtype m)) [0 ..< IOB_PAGE])
        ` ({..< IOB_NDATAPAGES} \<times> {m. m < dedupblks})"

lemma card_words_less: "finite {m. m < (d :: 'a::len word)} \<and> card {m. m < d} = unat d"
proof -
  have "inj_on unat {m. m < d}" by (intro inj_onI) (simp add: word_unat_eq_iff)
  moreover have "unat ` {m. m < d} = {..< unat d}"
  proof (intro equalityI subsetI)
    fix k assume "k \<in> {..< unat d}"
    then have "k < unat d" by simp
    moreover from this have "unat (of_nat k :: 'a word) = k"
      using less_trans [OF _ unsigned_less [of d, where ?'a = nat]] by (simp add: unat_of_nat)
    ultimately show "k \<in> unat ` {m. m < d}" by (intro image_eqI [of _ _ "of_nat k"]) (auto simp: word_less_nat_alt)
  qed (auto simp: word_less_nat_alt)
  ultimately show ?thesis by (metis card_image card_lessThan finite_imageD finite_lessThan)
qed

lemma card_page_images:
  "finite (page_images dbuf dtype dd) \<and> card (page_images dbuf dtype dd) \<le> IOB_NDATAPAGES * unat dd"
proof -
  let ?D = "{..< IOB_NDATAPAGES} \<times> {m. m < dd}"
  have "finite ?D" "card ?D = IOB_NDATAPAGES * unat dd"
    using card_words_less [of dd] by (auto simp: card_cartesian_product)
  then show ?thesis unfolding page_images_def by (metis card_image_le finite_imageI)
qed

text \<open>
  \<open>iob_dedupdata\<close>: sector \<open>k\<close> of the output depends on nothing but the table and the number
  \<open>srcbno + k\<close>, so two requests that name the same source blocks hold the same data.
\<close>

definition dedup_byte :: "bytes \<Rightarrow> int \<Rightarrow> u64 \<Rightarrow> nat \<Rightarrow> u8" where
  "dedup_byte dbuf dtype n j =
     (if j < 8 then le64 (type_header dtype n) ! j
      else dbuf ! (unat (n mod 8000) * IOB_SECTOR + j))"

lemma dedup_sector_ok:
  assumes "512 dvd k" "512 dvd length b" "k < length b" "length dbuf = table_size"
  shows "\<exists>b'. dedup_sector dbuf dtype k (b, m) = Inr (b', m + 1) \<and> length b' = length b
    \<and> (\<forall>i < length b. b' ! i = (if k \<le> i \<and> i < k + 512 then dedup_byte dbuf dtype m (i - k) else b ! i))"
proof -
  have fits: "k + 512 \<le> length b" using assms(1-3) dvd_add_le by blast
  let ?doff = "unat (m mod 8000) * 512"
  have "m mod 8000 < 8000" by (rule word_mod_less_divisor) simp
  then have "unat (m mod 8000) < 8000" by (simp add: word_less_nat_alt)
  then have src: "?doff + 512 \<le> length dbuf" using assms(4) by simp
  obtain b1 where cp: "memcpy b k dbuf ?doff 512 = Inr b1" and len1: "length b1 = length b"
    and nth1: "\<forall>i < length b. b1 ! i = (if k \<le> i \<and> i < k + 512 then dbuf ! (?doff + (i - k)) else b ! i)"
    using memcpy_ex [OF src fits] by blast
  have "k + length (le64 (type_header dtype m)) \<le> length b1" using len1 fits by simp
  from store_ex [OF this] obtain b' where b': "store b1 k (le64 (type_header dtype m)) = Inr b'"
    "length b' = length b1" "\<forall>i < length b1. b' ! i =
       (if k \<le> i \<and> i < k + length (le64 (type_header dtype m))
        then le64 (type_header dtype m) ! (i - k) else b1 ! i)" by blast
  have "dedup_sector dbuf dtype k (b, m) = Inr (b', m + 1)"
    using cp b'(1) by (simp add: dedup_sector_def Let_def)
  moreover have "b' ! i = (if k \<le> i \<and> i < k + 512 then dedup_byte dbuf dtype m (i - k) else b ! i)"
    if "i < length b" for i
    using that b'(3) len1 nth1 by (auto simp: dedup_byte_def)
  ultimately show ?thesis using b'(2) len1 by auto
qed

lemma page_round_int: "page_round n = (n + 4095) div 4096 * 4096"
proof -
  have "a AND NOT (mask 12) = push_bit 12 (drop_bit 12 a)" for a :: int
    by (rule bit_eqI) (auto simp: bit_simps)
  moreover have "mask 12 = (4095 :: int)" by (simp add: mask_eq_exp_minus_1)
  ultimately show ?thesis by (simp add: page_round_def push_bit_eq_mult drop_bit_eq_div)
qed

text \<open>Runs of \<open>count\<close> equal bytes inside the sector at \<open>i\<close>, from position \<open>j\<close> on.\<close>

definition runs_from :: "bytes \<Rightarrow> nat \<Rightarrow> nat \<Rightarrow> nat \<Rightarrow> bool" where
  "runs_from b i j count \<longleftrightarrow>
     (\<forall>k. j \<le> k \<and> k < IOB_SECTOR \<longrightarrow> b ! (i + k) = b ! (i + (j + (k - j) div count * count)))"

lemma fill_runs_ok:
  assumes "0 < count" "i + 512 \<le> length b"
  shows "\<exists>b' x'. fill_runs i j count (b, x) = Inr (b', x') \<and> length b' = length b
    \<and> (\<forall>l < length b. l < i + j \<or> i + 512 \<le> l \<longrightarrow> b' ! l = b ! l) \<and> runs_from b' i j count"
  using assms
proof (induction "512 - j" arbitrary: j b x count rule: less_induct)
  case less
  show ?case
  proof (cases "j < 512")
    case False
    then have "runs_from b i j count" by (auto simp: runs_from_def)
    with False less.prems show ?thesis by (simp add: fill_runs.simps)
  next
    case True
    obtain w y where w: "mrand48_bits x = (w, y)" by (cases "mrand48_bits x")
    define c where "c = (if 512 < j + count then 512 - j else count)"
    have c: "0 < c" "j + c \<le> 512" "c \<le> count" using True less.prems(1) by (auto simp: c_def)
    let ?v = "ucast (w AND 0xff) :: u8"
    have "i + j + c \<le> length b" using c less.prems(2) by simp
    from memset_ex [OF this, of ?v] obtain b1 where b1: "memset b (i + j) ?v c = Inr b1"
      "length b1 = length b"
      "\<And>l. l < length b \<Longrightarrow> b1 ! l = (if i + j \<le> l \<and> l < i + j + c then ?v else b ! l)" by blast
    have dec: "512 - (j + c) < 512 - j" using c True by simp
    have len1: "i + 512 \<le> length b1" using b1 less.prems by simp
    from less.hyps [OF dec c(1) len1, of y]
    obtain b2 x2 where rec: "fill_runs i (j + c) c (b1, y) = Inr (b2, x2)" "length b2 = length b1"
      and keep: "\<And>l. l < length b1 \<Longrightarrow> l < i + (j + c) \<or> i + 512 \<le> l \<Longrightarrow> b2 ! l = b1 ! l"
      and runs: "runs_from b2 i (j + c) c" by blast
    have run: "fill_runs i j count (b, x) = Inr (b2, x2)"
      using True less.prems(1) w b1(1) rec(1)
      by (cases "512 < j + count") (simp_all add: fill_runs.simps [of i j] c_def Let_def)
    have old: "b2 ! l = b ! l" if "l < length b" "l < i + j \<or> i + 512 \<le> l" for l
      using that b1 keep [of l] c by auto
    have first: "b2 ! (i + k) = ?v" if "j \<le> k" "k < j + c" for k
      using that b1 keep [of "i + k"] c less.prems(2) by auto
    have "runs_from b2 i j count"
      unfolding runs_from_def IOB_SECTOR_def
    proof (intro allI impI)
      fix k assume k: "j \<le> k \<and> k < 512"
      show "b2 ! (i + k) = b2 ! (i + (j + (k - j) div count * count))"
      proof (cases "k < j + c")
        case True
        then have "k - j < count" using k c by linarith
        then show ?thesis using first [of k] first [of j] True k c(1) by simp
      next
        case False
        then have full: "c = count" using k by (auto simp: c_def split: if_splits)
        obtain d where d: "k = j + c + d" using False by (metis le_iff_add not_less)
        have "(c + d) div c = Suc (d div c)" using c(1) by simp
        then have "j + c + (k - (j + c)) div c * c = j + (k - j) div count * count"
          unfolding d full [symmetric] by (simp add: add.assoc)
        moreover have "j + c \<le> k \<and> k < IOB_SECTOR" using False k by simp
        with runs have "b2 ! (i + k) = b2 ! (i + (j + c + (k - (j + c)) div c * c))"
          unfolding runs_from_def by blast
        ultimately show ?thesis by (simp only:)
      qed
    qed
    with run rec(2) b1(2) old show ?thesis by auto
  qed
qed

definition runs :: "nat \<Rightarrow> bytes \<Rightarrow> nat \<Rightarrow> bool" where
  "runs count b n \<longleftrightarrow> (\<forall>i < n. IOB_SECTOR dvd i \<longrightarrow> runs_from b i 0 count)"

lemma runs_step:
  assumes "runs count b i" "0 < count" "512 dvd i" "i + 512 \<le> length b"
  shows "\<exists>b' x'. fill_runs i 0 count (b, x) = Inr (b', x') \<and> length b' = length b
    \<and> runs count b' (i + 512)"
proof -
  from fill_runs_ok [OF assms(2,4), of 0 x] obtain b' x'
    where r: "fill_runs i 0 count (b, x) = Inr (b', x')" "length b' = length b"
      and old: "\<forall>l < length b. l < i + 0 \<or> i + 512 \<le> l \<longrightarrow> b' ! l = b ! l"
      and new: "runs_from b' i 0 count" by blast
  have "runs_from b' s 0 count" if s: "s < i + 512" "512 dvd s" for s
  proof (cases "s < i")
    case True
    then have top: "s + 512 \<le> i" using s assms(3) dvd_add_le by blast
    have eq: "b' ! (s + k) = b ! (s + k)" if "k < 512" for k
      using that top old assms(4) by simp
    have old_runs: "runs_from b s 0 count" using True assms(1) s(2) unfolding runs_def by simp
    show ?thesis unfolding runs_from_def IOB_SECTOR_def
    proof (intro allI impI)
      fix k assume "0 \<le> k \<and> k < (512 :: nat)"
      then have k: "k < 512" by simp
      have "k div count * count \<le> k" by simp
      with k have k': "k div count * count < 512" by (rule le_less_trans [rotated])
      have "b' ! (s + k) = b ! (s + k)" using k by (rule eq)
      also have "\<dots> = b ! (s + (0 + (k - 0) div count * count))"
        using old_runs k unfolding runs_from_def IOB_SECTOR_def by blast
      also have "\<dots> = b' ! (s + (0 + (k - 0) div count * count))"
        using eq [OF k'] by simp
      finally show "b' ! (s + k) = b' ! (s + (0 + (k - 0) div count * count))" .
    qed
  next
    case False
    then have "s = i" using s assms(3) dvd_add_le [of 512 i s] by force
    with new show ?thesis by simp
  qed
  with r show ?thesis unfolding runs_def by auto
qed


lemma init_sector_loop:
  assumes "length hc = L" "length h10 = L" "length h20 = L" "length h40 = L" "512 dvd L"
  shows "\<exists>hc' h10' h20' h40' pb x'. c_for IOB_SECTOR L init_sector ((hc, h10, h20, h40), 0x5E, x)
      = Inr ((hc', h10', h20', h40'), pb, x')
    \<and> length hc' = L \<and> length h10' = L \<and> length h20' = L \<and> length h40' = L
    \<and> (\<forall>l < L. hc' ! l = 0x5E + of_nat (l div 512))
    \<and> runs 24 h10' L \<and> runs 10 h20' L \<and> runs 6 h40' L"
proof -
  let ?I = "\<lambda>k ((hc :: bytes, h10 :: bytes, h20 :: bytes, h40 :: bytes), pb :: u8, y :: u48). length hc = L \<and> length h10 = L \<and> length h20 = L
    \<and> length h40 = L \<and> pb = 0x5E + of_nat (k div 512)
    \<and> (\<forall>l < L. l < k \<longrightarrow> hc ! l = 0x5E + of_nat (l div 512))
    \<and> runs 24 h10 k \<and> runs 10 h20 k \<and> runs 6 h40 k"
  have "\<exists>t. c_for 512 L init_sector ((hc, h10, h20, h40), 0x5E, x) = Inr t
      \<and> ?I ((L + 512 - 1) div 512 * 512) t"
  proof (rule c_for_rule)
    fix i t assume i: "i < L" "512 dvd i" and I: "?I i t"
    obtain hc h10 h20 h40 pb y where t: "t = ((hc, h10, h20, h40), pb, y)" by (metis prod_cases4 prod_cases3)
    have lens: "length hc = L" "length h10 = L" "length h20 = L" "length h40 = L"
      and pb: "pb = 0x5E + of_nat (i div 512)"
      and hcI: "\<forall>l < L. l < i \<longrightarrow> hc ! l = 0x5E + of_nat (l div 512)"
      and rs: "runs 24 h10 i" "runs 10 h20 i" "runs 6 h40 i"
      using I unfolding t by auto
    have fits: "i + 512 \<le> L" using i assms(5) dvd_add_le by blast
    obtain q where q: "i = 512 * q" using i(2) by (elim dvdE)
    have "i + 512 \<le> length hc" using fits lens by simp
    from memset_ex [OF this, of pb] obtain hc' where hc': "memset hc i pb 512 = Inr hc'"
      "length hc' = length hc"
      "\<forall>l < length hc. hc' ! l = (if i \<le> l \<and> l < i + 512 then pb else hc ! l)" by blast
    have f: "i + 512 \<le> length h10" "i + 512 \<le> length h20" "i + 512 \<le> length h40"
      using fits lens by simp_all
    obtain h10' y1 where r10: "fill_runs i 0 24 (h10, y) = Inr (h10', y1)" "length h10' = length h10"
      "runs 24 h10' (i + 512)" using runs_step [OF rs(1) _ i(2) f(1), of y] by auto
    obtain h20' y2 where r20: "fill_runs i 0 10 (h20, y1) = Inr (h20', y2)" "length h20' = length h20"
      "runs 10 h20' (i + 512)" using runs_step [OF rs(2) _ i(2) f(2), of y1] by auto
    obtain h40' y3 where r40: "fill_runs i 0 6 (h40, y2) = Inr (h40', y3)" "length h40' = length h40"
      "runs 6 h40' (i + 512)" using runs_step [OF rs(3) _ i(2) f(3), of y2] by auto
    have "hc' ! l = 0x5E + of_nat (l div 512)" if "l < L" "l < i + 512" for l
    proof (cases "l < i")
      case False
      then have "l div 512 = q" using that q by (simp add: div_nat_eqI)
      then show ?thesis using False that hc'(3) lens(1) pb q by simp
    qed (use that hc'(3) lens(1) hcI in simp)
    moreover have "init_sector i t = Inr ((hc', h10', h20', h40'), pb + 1, y3)"
      using hc'(1) r10(1) r20(1) r40(1) by (simp add: init_sector_def t)
    moreover have "pb + 1 = 0x5E + of_nat ((i + 512) div 512)" using pb q by simp
    ultimately show "\<exists>t'. init_sector i t = Inr t' \<and> ?I (i + 512) t'"
      using r10 r20 r40 hc'(2) lens by auto
  qed (use assms in \<open>auto simp: runs_def\<close>)
  moreover have "(L + 512 - 1) div 512 * 512 = L" using assms(5) by (intro round_up_dvd) auto
  ultimately show ?thesis by fastforce
qed

lemma le32_masked: "j < 4 \<Longrightarrow> le32 (v AND 0x3c3c3c3c) ! j AND 0xC3 = 0"
proof -
  assume "j < 4"
  then have "j \<in> {0, 1, 2, 3}" by auto
  then show ?thesis
    by (auto simp: le32_def drop_bit_and unsigned_and_eq and.assoc)
qed

lemma init_word_loop:
  assumes "length unc = L" "length c = L" "4 dvd L"
  shows "\<exists>unc' c' x'. c_for 4 L init_word (unc, c, x) = Inr (unc', c', x')
    \<and> length unc' = L \<and> length c' = L \<and> (\<forall>l < L. c' ! l AND 0xC3 = 0)"
proof -
  let ?I = "\<lambda>k (unc :: bytes, c :: bytes, y :: u48). length unc = L \<and> length c = L
    \<and> (\<forall>l < L. l < k \<longrightarrow> c ! l AND 0xC3 = 0)"
  have "\<exists>t. c_for 4 L init_word (unc, c, x) = Inr t \<and> ?I ((L + 4 - 1) div 4 * 4) t"
  proof (rule c_for_rule)
    fix i t assume i: "i < L" "4 dvd i" and I: "?I i t"
    obtain unc c y where t: "t = (unc, c, y)" by (metis prod_cases3)
    have lens: "length unc = L" "length c = L" and cI: "\<forall>l < L. l < i \<longrightarrow> c ! l AND 0xC3 = 0"
      using I unfolding t by auto
    have fits: "i + 4 \<le> L" using i assms(3) dvd_add_le by blast
    obtain w y1 where w: "mrand48_bits y = (w, y1)" by (cases "mrand48_bits y")
    obtain v y2 where v: "mrand48_bits y1 = (v, y2)" by (cases "mrand48_bits y1")
    have "i + length (le32 w) \<le> length unc" using fits lens by simp
    from store_ex [OF this] obtain unc' where unc': "store unc i (le32 w) = Inr unc'"
      "length unc' = length unc" by blast
    let ?m = "le32 (v AND 0x3c3c3c3c)"
    have "i + length ?m \<le> length c" using fits lens by simp
    from store_ex [OF this] obtain c' where c': "store c i ?m = Inr c'" "length c' = length c"
      "\<forall>l < length c. c' ! l = (if i \<le> l \<and> l < i + length ?m then ?m ! (l - i) else c ! l)" by blast
    have "c' ! l AND 0xC3 = 0" if "l < L" "l < i + 4" for l
    proof (cases "l < i")
      case True
      then show ?thesis using that c'(3) lens cI by simp
    next
      case False
      then have "l - i < 4" using that by simp
      then show ?thesis using that False c'(3) lens le32_masked by simp
    qed
    moreover have "init_word i t = Inr (unc', c', y2)"
      using unc'(1) c'(1) w v by (simp add: init_word_def t)
    ultimately show "\<exists>t'. init_word i t = Inr t' \<and> ?I (i + 4) t'"
      using unc'(2) c'(2) lens by auto
  qed (use assms in auto)
  moreover have "(L + 4 - 1) div 4 * 4 = L" using assms(3) by (intro round_up_dvd) auto
  ultimately show ?thesis by fastforce
qed

text \<open>The header of a sector, as the bytes of its page.\<close>

lemma page_header_bytes:
  assumes "\<forall>j < min 4096 (n - 4096 * q). b ! (4096 * q + j) = page_byte dbuf pg hdr j"
    and "8 * q \<le> t" "t < 8 * q + 8" "512 * t + 8 \<le> n" "n \<le> length b"
  shows "take 8 (drop (512 * t) b) = le64 hdr"
proof (intro nth_equalityI)
  show "length (take 8 (drop (512 * t) b)) = length (le64 hdr)" using assms(4,5) by simp
  fix i assume "i < length (take 8 (drop (512 * t) b))"
  then have i: "i < 8" by simp
  obtain k where k: "t = 8 * q + k" "k < 8" using assms(2,3) by (metis add_less_cancel_left le_add_diff_inverse)
  let ?j = "512 * k + i"
  have "?j < min 4096 (n - 4096 * q)" using i k assms(4) by simp
  with assms(1) have "b ! (4096 * q + ?j) = page_byte dbuf pg hdr ?j" by blast
  moreover have "512 * t + i = 4096 * q + ?j" using k by simp
  ultimately show "take 8 (drop (512 * t) b) ! i = le64 hdr ! i"
    using i assms(4,5) by (simp add: page_byte_def add.assoc)
qed

section \<open>Properties\<close>

definition zero_pools :: pools where
  "zero_pools = (let z = replicate table_size 0 in
     \<lparr>uncdata = z, cdata = z, hcdata = z, hc40data = z, hc20data = z, hc10data = z, vm_data = z,
      pst_data = z\<rparr>)"

lemma zero_pools_ok: "pools_ok zero_pools"
  by (simp add: pools_ok_def zero_pools_def Let_def)

definition demo_lib :: libstate where
  "demo_lib = iob_libinit ''iofill'' [''Usage: iofill [options] file1 [...]''] 1000000000"

text \<open>
  Property C12. Generating a request's data never touches memory outside its buffer, for any data type and any request of up to
  \<open>2 ^ 31\<close> bytes, as long as the buffer is a whole number of sectors (the buffers of \<open>iob_align_shmem\<close> are whole pages); bytes
  beyond the request's last sector are not touched. Beyond that size only the two types that are one \<open>memset\<close>, all ones and all
  zeros, still work: for any other type the offset, an \<open>int\<close>, wraps around, and the generator leaves its buffer.
\<close>

theorem iodata_never_faults:
  assumes "pools_ok p" and "512 dvd length bp" and "unat sz \<le> length bp" and "dedupblks \<noteq> 0"
  shows "if unat sz \<le> 2 ^ 31 \<or> dtype = IOB_DT_ONES \<or> dtype = IOB_DT_ZEROS
    then \<exists>b x'. iob_iodata p bp sz dtype dedupblks x = Inr (b, x') \<and> length b = length bp
      \<and> (\<forall>i < length bp. round_sector (unat sz) \<le> i \<longrightarrow> b ! i = bp ! i)
    else iob_iodata p bp sz dtype dedupblks x = Inl OutOfBounds"
proof (cases "unat sz \<le> 2 ^ 31 \<or> dtype = IOB_DT_ONES \<or> dtype = IOB_DT_ZEROS")
  case True
  then have "\<exists>b x'. iob_iodata p bp sz dtype dedupblks x = Inr (b, x') \<and> length b = length bp
      \<and> (\<forall>i < length bp. round_sector (unat sz) \<le> i \<longrightarrow> b ! i = bp ! i)"
    using iodata_total [OF assms] iodata_flat [OF assms(3)] by blast
  with True show ?thesis by (simp only: if_True)
next
  case False
  then have "2 ^ 31 < unat sz" "dtype \<noteq> IOB_DT_ONES" "dtype \<noteq> IOB_DT_ZEROS" by (metis not_le)+
  from iodata_wraps [OF assms this] False show ?thesis by (simp only: if_False)
qed

theorem iodata_never_faults_witness:
  "\<exists>b x'. iob_iodata zero_pools (replicate 4096 0) 1000 IOB_DT_VM 7 0 = Inr (b, x')
    \<and> length b = length (replicate 4096 (0 :: u8))
    \<and> (\<forall>i < length (replicate 4096 (0 :: u8)). round_sector (unat (1000 :: u32)) \<le> i
          \<longrightarrow> b ! i = replicate 4096 0 ! i)"
  using iodata_never_faults [OF zero_pools_ok, of "replicate 4096 0" 1000 7 IOB_DT_VM 0] by simp



text \<open>
  Property C14. What \<open>iob_iodata\<close> leaves in a request's buffer can be told apart: the first eight bytes of every sector of the request,
  read back little-endian, give the data type in the top byte and a block number below \<open>dedupblks\<close> in the rest, the same number in
  all sectors of a page. This holds for the data types drawn from a table, every \<open>dedupblks\<close> the option parsers let through and
  requests of at most \<open>2 ^ 31\<close> bytes.
\<close>

theorem page_header_decodes:
  assumes "pools_ok p" and "512 dvd length bp" and "unat sz \<le> length bp" and "dedupblks \<noteq> 0" and "unat sz \<le> 2 ^ 31"
    and "table_dtype dtype" and "dedupblks \<le> 2 ^ 50" and "0 \<le> dtype" and "dtype < 256"
  shows "\<exists>b x'. iob_iodata p bp sz dtype dedupblks x = Inr (b, x') \<and>
    (\<forall>s. 512 * s + 8 \<le> unat sz \<longrightarrow>
      (let h = of_le64 (take 8 (drop (512 * s) b)) in drop_bit 56 h = u64_of_int dtype \<and> take_bit 56 h < dedupblks
        \<and> h = of_le64 (take 8 (drop (512 * (s div 8 * 8)) b))))"
proof -
  let ?n = "unat sz"
  from iodata_table [OF assms(1-6), of x] obtain b x' where run: "iob_iodata p bp sz dtype dedupblks x = Inr (b, x')"
    and len: "length b = length bp"
    and pages: "\<forall>off < ?n. IOB_PAGE dvd off \<longrightarrow> (\<exists>pg < IOB_NDATAPAGES. \<exists>m < dedupblks.
          \<forall>j < min IOB_PAGE (?n - off). b ! (off + j) = page_byte (data_pool p dtype) pg (type_header dtype m) j)"
    by blast
  have "let h = of_le64 (take 8 (drop (512 * s) b)) in drop_bit 56 h = u64_of_int dtype \<and> take_bit 56 h < dedupblks
        \<and> h = of_le64 (take 8 (drop (512 * (s div 8 * 8)) b))" if s: "512 * s + 8 \<le> ?n" for s
  proof -
    define q where "q = s div 8"
    have sq: "8 * q \<le> s" "s < 8 * q + 8" by (auto simp: q_def)
    then have "4096 * q < ?n" using s by linarith
    then obtain pg m where m: "m < dedupblks" and img: "\<forall>j < min 4096 (?n - 4096 * q).
        b ! (4096 * q + j) = page_byte (data_pool p dtype) pg (type_header dtype m) j"
      using pages [rule_format, of "4096 * q"] by auto
    have h: "of_le64 (take 8 (drop (512 * t) b)) = type_header dtype m" if t: "8 * q \<le> t" "t \<le> s" for t
    proof -
      have "take 8 (drop (512 * t) b) = le64 (type_header dtype m)"
        using t s sq len assms(3) by (intro page_header_bytes [OF img]) auto
      then show ?thesis by (simp add: of_le64_le64)
    qed
    have "m < 2 ^ 50" using m assms(7) by (rule less_le_trans)
    then have "unat m < 2 ^ 56" by (simp add: word_less_nat_alt)
    from type_header_split [OF assms(8,9) this] m h [of s] h [of "8 * q"] sq(1) show ?thesis
      by (simp add: Let_def q_def [symmetric] mult.commute)
  qed
  with run show ?thesis by blast
qed

theorem page_header_decodes_witness:
  "\<exists>b x'. iob_iodata zero_pools (replicate 8192 0) 8192 IOB_DT_VM 4 0 = Inr (b, x')
    \<and> drop_bit 56 (of_le64 (take 8 (drop (512 * 9) b))) = u64_of_int IOB_DT_VM
    \<and> take_bit 56 (of_le64 (take 8 (drop (512 * 9) b))) < (4 :: u64)"
proof -
  from page_header_decodes [OF zero_pools_ok, of "replicate 8192 0" 8192 4 IOB_DT_VM 0] obtain b x' where
    b: "iob_iodata zero_pools (replicate 8192 0) 8192 IOB_DT_VM 4 0 = Inr (b, x')"
    and h: "\<And>s. 512 * s + 8 \<le> unat (8192 :: u32) \<Longrightarrow> drop_bit 56 (of_le64 (take 8 (drop (512 * s) b))) = u64_of_int IOB_DT_VM
      \<and> take_bit 56 (of_le64 (take 8 (drop (512 * s) b))) < (4 :: u64)"
    by (auto simp: table_dtype_def Let_def)
  from h [of 9] b show ?thesis by auto
qed



lemma initdata_spec:
  assumes "table_size \<le> heap_limit lib"
    and "length vm = table_size" and "length pst = table_size"
  shows "\<exists>p x. iob_initdata lib vm pst = Inr (p, x) \<and> pools_ok p
    \<and> vm_data p = vm \<and> pst_data p = pst
    \<and> (\<forall>l < table_size. cdata p ! l AND 0xC3 = 0)
    \<and> (\<forall>l < table_size. hcdata p ! l = 0x5E + of_nat (l div 512))
    \<and> runs 24 (hc10data p) table_size \<and> runs 10 (hc20data p) table_size
    \<and> runs 6 (hc40data p) table_size"
proof -
  let ?z = "replicate table_size (0 :: u8)"
  have m: "iob_malloc lib (int table_size) = Inr ?z"
    using assms(1) by (simp add: iob_malloc_def)
  have d: "4 dvd table_size" "512 dvd table_size" by simp_all
  have z: "length ?z = table_size" by simp
  from init_word_loop [OF z z d(1), of "seed48 1234 35578 9568"] obtain unc c x where
    w: "c_for 4 table_size init_word (?z, ?z, seed48 1234 35578 9568) = Inr (unc, c, x)"
      "length unc = table_size" "length c = table_size" "\<forall>l < table_size. c ! l AND 0xC3 = 0" by blast
  from init_sector_loop [OF z z z z d(2), of x] obtain hc h10 h20 h40 pb y where
    s: "c_for IOB_SECTOR table_size init_sector ((?z, ?z, ?z, ?z), 0x5E, x) = Inr ((hc, h10, h20, h40), pb, y)"
      "length hc = table_size" "length h10 = table_size" "length h20 = table_size" "length h40 = table_size"
      "\<forall>l < table_size. hc ! l = 0x5E + of_nat (l div 512)"
      "runs 24 h10 table_size" "runs 10 h20 table_size" "runs 6 h40 table_size" by blast
  have "iob_initdata lib vm pst = Inr (\<lparr>uncdata = unc, cdata = c, hcdata = hc, hc40data = h40,
      hc20data = h20, hc10data = h10, vm_data = vm, pst_data = pst\<rparr>, y)"
    by (simp only: iob_initdata_def Let_def m bind_res_simps w(1) s(1) prod.case)
  with w s assms show ?thesis unfolding pools_ok_def by force
qed

lemma initdata_returns:
  assumes "iob_initdata lib vm pst = Inr (p, x)" "length vm = table_size" "length pst = table_size"
  shows "pools_ok p"
proof (cases "table_size \<le> heap_limit lib")
  case True
  from initdata_spec [OF True assms(2,3)] assms(1) show ?thesis by auto
next
  case False
  then have "iob_malloc lib (int table_size) = Inl (iob_errlog lib False ''Error: Can't malloc'')"
    by (simp add: iob_malloc_def)
  with assms(1) show ?thesis unfolding iob_initdata_def Let_def by (simp only: bind_res_simps sum.distinct)
qed

text \<open>
  \<open>iob_initdata\<close> builds all tables without leaving them: each has its declared size, every byte of
  the compressible table keeps only the bits of the mask \<open>0x3c\<close>, sector \<open>n\<close> of the highly
  compressible table is one byte repeated, and the sectors of the 10%, 20% and 40% tables are runs of
  24, 10 and 6 equal bytes.
\<close>

theorem initdata_tables:
  assumes "table_size \<le> heap_limit lib"
    and "length vm = table_size" and "length pst = table_size"
  shows "\<exists>p x. iob_initdata lib vm pst = Inr (p, x) \<and> pools_ok p
    \<and> vm_data p = vm \<and> pst_data p = pst
    \<and> (\<forall>l < table_size. cdata p ! l AND 0xC3 = 0)
    \<and> (\<forall>l < table_size. hcdata p ! l = 0x5E + of_nat (l div 512))
    \<and> runs 24 (hc10data p) table_size \<and> runs 10 (hc20data p) table_size
    \<and> runs 6 (hc40data p) table_size"
  using assms by (rule initdata_spec)

theorem initdata_tables_witness:
  "\<exists>p x. iob_initdata demo_lib (replicate table_size 1) (replicate table_size 2) = Inr (p, x) \<and> pools_ok p
    \<and> vm_data p = replicate table_size 1 \<and> pst_data p = replicate table_size 2
    \<and> (\<forall>l < table_size. cdata p ! l AND 0xC3 = 0)
    \<and> (\<forall>l < table_size. hcdata p ! l = 0x5E + of_nat (l div 512))
    \<and> runs 24 (hc10data p) table_size \<and> runs 10 (hc20data p) table_size
    \<and> runs 6 (hc40data p) table_size"
  by (rule initdata_tables) (simp_all add: demo_lib_def iob_libinit_def)

text \<open>
  Every data type a user can select has a long and a short name of its own, no two selectable types
  share the short name, and \<open>IOB_IS_DEDUPABLE\<close> holds of exactly the types drawn from a table.
\<close>

theorem dtype_names:
  assumes "iob_dtargparse lib v = Inr dt"
  shows "iob_dttostr dt \<noteq> ''Unknown'' \<and> iob_dttochr dt \<noteq> '' ''
    \<and> (IOB_IS_DEDUPABLE dt \<longleftrightarrow> table_dtype dt) \<and> 0 < dt \<and> dt < 256
    \<and> (\<forall>w dt'. iob_dtargparse lib w = Inr dt' \<longrightarrow> iob_dttochr dt' = iob_dttochr dt \<longrightarrow> dt' = dt)"
  using assms unfolding iob_dtargparse_def
  by (auto simp: iob_dttostr_def iob_dttochr_def IOB_IS_DEDUPABLE_def table_dtype_def
      split: option.splits if_splits)

theorem dtype_names_witness:
  "iob_dttostr IOB_DT_H20COMPRESSIBLE \<noteq> ''Unknown'' \<and> iob_dttochr IOB_DT_H20COMPRESSIBLE \<noteq> '' ''"
proof -
  have "iob_dtargparse demo_lib (Some ''h20'') = Inr IOB_DT_H20COMPRESSIBLE"
    by (simp add: iob_dtargparse_def)
  from dtype_names [OF this] show ?thesis by blast
qed

lemma align_shmem_returns:
  assumes "iob_align_shmem lib n = Inr b"
  shows "4096 dvd length b" "n \<le> int (length b)"
proof -
  let ?m = "nat (page_round n)"
  have "0 \<le> page_round n" "b = replicate ?m 0"
    using assms by (auto simp: iob_align_shmem_def mmap_anon_def memset_def store_def split: if_splits)
  then have m: "int ?m = page_round n" "length b = ?m" by simp_all
  have p: "n \<le> page_round n" unfolding page_round_int by linarith
  from m have "4096 dvd int ?m" unfolding page_round_int by simp
  with m(2) show "4096 dvd length b" by presburger
  show "n \<le> int (length b)" using p m by simp
qed

lemma align_shmem_total:
  assumes "0 < n" and "page_round n \<le> int (heap_limit lib)"
  shows "\<exists>b. iob_align_shmem lib n = Inr b \<and> 4096 dvd length b \<and> n \<le> int (length b)
    \<and> int (length b) < n + 4096 \<and> set b = {0}"
proof -
  let ?m = "nat (page_round n)"
  have p: "n \<le> page_round n" "page_round n < n + 4096" unfolding page_round_int by linarith+
  have "int ?m = page_round n" using assms(1) p by simp
  then have "4096 dvd int ?m" unfolding page_round_int by simp
  then have dvd: "4096 dvd ?m" by presburger
  have "iob_align_shmem lib n = Inr (replicate ?m 0)"
    using assms p by (simp add: iob_align_shmem_def mmap_anon_def memset_def store_def)
  then show ?thesis using dvd p assms(1) by (intro exI [of _ "replicate ?m 0"]) (auto simp: set_replicate_conv_if)
qed

text \<open>
  \<open>iob_align_shmem\<close> returns zeroed memory of whole pages, at least as large as asked for and less than
  a page larger, whenever the system has it.
\<close>

theorem align_shmem_pages:
  assumes "0 < n" and "page_round n \<le> int (heap_limit lib)"
  shows "\<exists>b. iob_align_shmem lib n = Inr b \<and> 4096 dvd length b \<and> n \<le> int (length b)
    \<and> int (length b) < n + 4096 \<and> set b = {0}"
  using assms by (rule align_shmem_total)

theorem align_shmem_pages_witness:
  "\<exists>b. iob_align_shmem demo_lib 5000 = Inr b \<and> 4096 dvd length b \<and> (5000 :: int) \<le> int (length b)
    \<and> int (length b) < 5000 + 4096 \<and> set b = {0}"
  by (rule align_shmem_pages) (simp_all add: demo_lib_def iob_libinit_def page_round_int)

text \<open>
  When the system has no memory left, \<open>iob_align_shmem\<close> does not reach its error exit: \<open>mmap\<close> answers
  \<open>MAP_FAILED\<close>, the test for a null pointer passes it, and the \<open>memset\<close> writes through it.
\<close>

theorem align_shmem_failure:
  assumes "0 < n" and "int (heap_limit lib) < page_round n"
  shows "iob_align_shmem lib n = Inl OutOfBounds"
  using assms by (simp add: iob_align_shmem_def mmap_anon_def)

theorem align_shmem_failure_witness:
  "iob_align_shmem (demo_lib\<lparr>heap_limit := 4096\<rparr>) 5000 = Inl OutOfBounds"
  by (rule align_shmem_failure) (simp_all add: page_round_int)

text \<open>How both tools bound the number of deduplication blocks.\<close>

lemma clamp_ok:
  assumes "v \<noteq> (0 :: u64)"
  shows "1 \<le> (if push_bit 50 1 < v then push_bit 50 1 else v)
    \<and> (if push_bit 50 1 < v then push_bit 50 1 else v) \<le> push_bit 50 1"
  using assms by (auto simp: word_le_nat_alt word_less_nat_alt unat_gt_0 Suc_le_eq)

text \<open>What the transfers leave alone in the environment, and a device that completes every request in full.\<close>

definition env_fixed :: "env \<Rightarrow> (nat \<Rightarrow> int \<times> int) \<times> (nat \<Rightarrow> iocall \<Rightarrow> int \<times> int)" where
  "env_fixed e = (clk e, dev e)"

fun call_length :: "iocall \<Rightarrow> nat" where
  "call_length (Pread f n off) = unat n"
| "call_length (Pwrite f bs off) = length bs"

definition full_transfers :: "env \<Rightarrow> bool" where
  "full_transfers e \<longleftrightarrow> (\<forall>n c. fst (dev e n c) = int (call_length c))"

definition within_time :: "u64 \<Rightarrow> env \<Rightarrow> bool" where
  "within_time limit e \<longleftrightarrow> (\<forall>n. timespec_ns (fst (clk e n)) (snd (clk e n)) \<le> limit)"

text \<open>Allocations of less than 2 GB, on a machine that has them.\<close>

lemma page_round_le: "n < 2 ^ 31 \<Longrightarrow> page_round n \<le> 2 ^ 32"
  by (simp add: page_round_int)

lemma align_small:
  assumes "0 < n" "n < 2 ^ 31" "2 ^ 32 \<le> heap_limit lib"
  shows "\<exists>b. iob_align_shmem lib n = Inr b \<and> 4096 dvd length b \<and> n \<le> int (length b)"
proof -
  have "int (2 ^ 32) \<le> int (heap_limit lib)" using assms(3) by (simp only: of_nat_le_iff)
  then have "page_round n \<le> int (heap_limit lib)" using page_round_le [OF assms(2)] by simp
  with align_shmem_total [OF assms(1)] show ?thesis by blast
qed

lemma malloc_small:
  assumes "0 \<le> n" "n < 2 ^ 32" "2 ^ 32 \<le> heap_limit lib"
  shows "malloc_struct lib n = Inr ()"
proof -
  have "unat (u64_of_int n) = nat n" using assms by (simp add: unsigned_of_int take_bit_int_eq_self)
  then show ?thesis using assms by (simp add: malloc_struct_eq)
qed

lemma malloc_struct_Inr: "malloc_struct lib n = Inr u \<Longrightarrow> u = ()"
  by (cases u) simp

end
