(* ===== verification/IobScsi.thy ===== *)
theory IobScsi
  imports IobLib
begin

text \<open>
  The Linux part of \<open>lib/iob_scsi.c\<close>: every command the library can send to a drive, as the request
  block handed to the \<open>SG_IO\<close> ioctl. What the kernel answers is a parameter. The other
  platforms are in \<open>IobUscsi\<close>.
\<close>

section \<open>Request blocks\<close>

datatype sg_dir = SG_DXFER_NONE | SG_DXFER_TO_DEV | SG_DXFER_FROM_DEV

record sg_io_hdr =
  cmdp :: bytes
  cmd_len :: nat
  dxfer_direction :: sg_dir
  dxfer_len :: nat
  dxferp :: bytes
  interface_id :: char
  mx_sb_len :: nat
  sg_timeout :: nat

text \<open>What comes back: the ioctl's result, the status members, the sense bytes, and the data of a
  transfer from the device.\<close>

record sg_answer =
  a_ioctl :: int
  a_status :: u8
  a_masked_status :: u8
  a_driver_status :: u16
  a_host_status :: u16
  a_sense :: bytes
  a_data :: bytes

type_synonym sg_dev = "int \<Rightarrow> sg_io_hdr \<Rightarrow> sg_answer"

text \<open>
  A cleared header with the five members every command sets. The length of the command block is a number of its own in
  some commands, and \<open>sizeof (cmdbuf)\<close> in the others.
\<close>

definition sg_hdr_len :: "nat \<Rightarrow> bytes \<Rightarrow> sg_dir \<Rightarrow> nat \<Rightarrow> bytes \<Rightarrow> sg_io_hdr" where
  "sg_hdr_len clen cmdbuf dir dlen databuf =
     \<lparr>cmdp = cmdbuf, cmd_len = clen, dxfer_direction = dir, dxfer_len = dlen,
      dxferp = databuf, interface_id = CHR 0x00, mx_sb_len = 0, sg_timeout = 0\<rparr>"

definition sg_hdr :: "bytes \<Rightarrow> sg_dir \<Rightarrow> nat \<Rightarrow> bytes \<Rightarrow> sg_io_hdr" where
  "sg_hdr cmdbuf dir dlen databuf = sg_hdr_len (length cmdbuf) cmdbuf dir dlen databuf"

text \<open>
  \<open>issue_sgio\<close>: any non-zero status ends the process, after one line that names the command and, when
  the kernel wrote sense bytes into the 64-byte buffer, a second one. Otherwise the
  caller's buffer holds what the device returned.
\<close>

definition sg_failed :: "sg_answer \<Rightarrow> bool" where
  "sg_failed a \<longleftrightarrow> a_ioctl a \<noteq> 0 \<or> a_status a \<noteq> 0 \<or> a_masked_status a \<noteq> 0
     \<or> a_driver_status a OR a_host_status a \<noteq> 0"

definition issue_sgio :: "sg_dev \<Rightarrow> int \<Rightarrow> sg_io_hdr \<Rightarrow> string \<Rightarrow> sg_io_hdr res" where
  "issue_sgio sg fd hdr str =
     (let h = hdr\<lparr>interface_id := CHR ''S'', mx_sb_len := 64, sg_timeout := 3600000\<rparr>;
          a = sg fd h
      in if sg_failed a then
           if 64 < length (a_sense a) then Inl OutOfBounds
           else Inl (Exited 1 ((''Error on '' @ str) #
                       (if a_sense a \<noteq> [] then [''Sense bytes''] else [])))
         else if dxfer_direction h = SG_DXFER_FROM_DEV
              then Inr (h\<lparr>dxferp := take (dxfer_len h) (a_data a)
                                   @ drop (length (a_data a)) (dxferp h)\<rparr>)
              else Inr h)"

definition u8_of_int :: "int \<Rightarrow> u8" where [simp]: "u8_of_int = word_of_int"

definition zeros :: "nat \<Rightarrow> bytes" where [simp]: "zeros n = replicate n 0"

text \<open>Byte \<open>k\<close> (from the low end) of a 64-bit and of an \<open>int\<close> value: \<open>(v >> 8 * k) & 0xff\<close>.\<close>

definition byte64 :: "u64 \<Rightarrow> nat \<Rightarrow> u8" where "byte64 v k = ucast (drop_bit (8 * k) v AND 0xff)"
definition byte_int :: "int \<Rightarrow> nat \<Rightarrow> u8" where "byte_int v k = u8_of_int (drop_bit (8 * k) v AND 0xff)"

section \<open>Inquiry and mode pages\<close>

definition get_scsi_info :: "sg_dev \<Rightarrow> int \<Rightarrow> sg_io_hdr res" where
  "get_scsi_info sg fd =
     issue_sgio sg fd (sg_hdr [0x12, 0x00, 0x00, 0x02, 0x00, 0x00] SG_DXFER_FROM_DEV 512 (zeros 512))
       ''inquiry''"

definition get_vpd_page :: "sg_dev \<Rightarrow> int \<Rightarrow> int \<Rightarrow> sg_io_hdr res" where
  "get_vpd_page sg fd page =
     issue_sgio sg fd (sg_hdr ([0x12, 0x01, 0x00, 0x04, 0x00, 0x00][2 := u8_of_int (page AND 0xff)])
       SG_DXFER_FROM_DEV 1024 (zeros 1024)) ''get_vpd_page''"

definition get_mode_page :: "sg_dev \<Rightarrow> int \<Rightarrow> int \<Rightarrow> sg_io_hdr res" where
  "get_mode_page sg fd page =
     issue_sgio sg fd (sg_hdr
       ([0x5a, 0x08, 0x00, 0x00, 0x00, 0x00, 0x00, 0x04, 0x00, 0x00][2 := u8_of_int (page AND 0xff)])
       SG_DXFER_FROM_DEV 1024 (zeros 1024)) ''mode sense''"

section \<open>Erasure and ATA security\<close>

definition drive_sanitize :: "sg_dev \<Rightarrow> int \<Rightarrow> int \<Rightarrow> sg_io_hdr res" where
  "drive_sanitize sg fd stype =
     issue_sgio sg fd (sg_hdr
       ([0x21, 0x00, 0x00, 0x00, 0x00, 0x00, 0x66, 0x77, 0x88, 0x00][2 := u8_of_int (stype AND 0x3)])
       SG_DXFER_NONE 0 []) ''sanitize''"

definition drive_sata_identify_device :: "sg_dev \<Rightarrow> int \<Rightarrow> sg_io_hdr res" where
  "drive_sata_identify_device sg fd =
     issue_sgio sg fd (sg_hdr
       [0x85, push_bit 1 0x04, 0x0e, 0x00, 0x00, 0x00, 0x01, 0x00,
        0x00, 0x00, 0x00, 0x00, 0x00, 0x00, 0xec, 0x00]
       SG_DXFER_FROM_DEV 512 (zeros 512)) ''sata_identify_device''"

text \<open>The 512-byte parameter of the security commands, with the password \<open>PURE\<close> at byte 2.\<close>

definition password_block :: bytes where
  "password_block = (zeros 512)[2 := 0x50, 3 := 0x55, 4 := 0x52, 5 := 0x45]"

definition drive_set_password :: "sg_dev \<Rightarrow> int \<Rightarrow> sg_io_hdr res" where
  "drive_set_password sg fd =
     issue_sgio sg fd (sg_hdr
       [0xa1, 0x0a, 0x06, 0x00, 0x01, 0x00, 0x00, 0x00, 0x00, 0xf1, 0x00, 0x00]
       SG_DXFER_TO_DEV 512 password_block) ''drive_set_password''"

definition drive_unlock :: "sg_dev \<Rightarrow> int \<Rightarrow> sg_io_hdr res" where
  "drive_unlock sg fd =
     issue_sgio sg fd (sg_hdr
       [0xa1, 0x0a, 0x06, 0x00, 0x01, 0x00, 0x00, 0x00, 0x00, 0xf2, 0x00, 0x00]
       SG_DXFER_TO_DEV 512 password_block) ''drive_unlock''"

definition drive_erase_prepare :: "sg_dev \<Rightarrow> int \<Rightarrow> sg_io_hdr res" where
  "drive_erase_prepare sg fd =
     issue_sgio sg fd (sg_hdr
       [0xa1, 0x06, 0x00, 0x00, 0x00, 0x00, 0x00, 0x00, 0x00, 0xf3, 0x00, 0x00]
       SG_DXFER_NONE 0 []) ''drive_erase_prepare''"

definition drive_secure_erase :: "sg_dev \<Rightarrow> int \<Rightarrow> int \<Rightarrow> sg_io_hdr res" where
  "drive_secure_erase sg fd enhanced =
     issue_sgio sg fd (sg_hdr
       [0xa1, 0x0a, 0x06, 0x00, 0x01, 0x00, 0x00, 0x00, 0x00, 0xf4, 0x00, 0x00]
       SG_DXFER_TO_DEV 512 (if enhanced \<noteq> 0 then password_block[0 := 0x2] else password_block))
       ''drive_secure_erase''"

definition drive_secure_disable_password :: "sg_dev \<Rightarrow> int \<Rightarrow> sg_io_hdr res" where
  "drive_secure_disable_password sg fd =
     issue_sgio sg fd (sg_hdr
       [0xa1, 0x0a, 0x06, 0x00, 0x01, 0x00, 0x00, 0x00, 0x00, 0xf6, 0x00, 0x00]
       SG_DXFER_TO_DEV 512 password_block) ''drive_security_disable_password''"

section \<open>Cache flushing\<close>

definition drive_int_flush_cache_sync_cache_16 :: "sg_dev \<Rightarrow> int \<Rightarrow> sg_io_hdr res" where
  "drive_int_flush_cache_sync_cache_16 sg fd =
     issue_sgio sg fd (sg_hdr
       [0x91, 0x00, 0x00, 0x00, 0x00, 0x00, 0x00, 0x00,
        0x00, 0x00, 0x00, 0x00, 0x00, 0x00, 0x00, 0x00]
       SG_DXFER_NONE 0 []) ''sync_cache_16''"

definition drive_int_flush_cache_sync_cache_10 :: "sg_dev \<Rightarrow> int \<Rightarrow> sg_io_hdr res" where
  "drive_int_flush_cache_sync_cache_10 sg fd =
     issue_sgio sg fd (sg_hdr
       [0x35, 0x00, 0x00, 0x00, 0x00, 0x00, 0x00, 0x00, 0x00, 0x00]
       SG_DXFER_NONE 0 []) ''sync_cache_10''"

definition drive_sata_flush_cache :: "sg_dev \<Rightarrow> int \<Rightarrow> sg_io_hdr res" where
  "drive_sata_flush_cache sg fd =
     issue_sgio sg fd (sg_hdr
       [0x85, push_bit 1 0x03, 0x00, 0x00, 0x00, 0x00, 0x00, 0x00,
        0x00, 0x00, 0x00, 0x00, 0x00, 0x00, 0xEA, 0x00]
       SG_DXFER_NONE 0 []) ''sata_flush_cache_ext''"

section \<open>SMART, standby and trim\<close>

definition drive_read_smart_data :: "sg_dev \<Rightarrow> int \<Rightarrow> bytes \<Rightarrow> sg_io_hdr res" where
  "drive_read_smart_data sg fd databuf =
     bind_res (memset databuf 0 0 IOB_SECTOR) (\<lambda>databuf'.
     issue_sgio sg fd (sg_hdr_len 16
       [0x85, push_bit 1 0x04, 0x0e, 0x00, 0xD0, 0x00, 0x01, 0x00,
        0x00, 0x00, 0x4F, 0x00, 0xC2, 0x00, 0xB0, 0x00]
       SG_DXFER_FROM_DEV IOB_SECTOR databuf') ''read_smart_data'')"

definition drive_read_smart_log :: "sg_dev \<Rightarrow> int \<Rightarrow> sg_io_hdr res" where
  "drive_read_smart_log sg fd =
     issue_sgio sg fd (sg_hdr_len 16
       [0x85, push_bit 1 0x04, 0x0e, 0x00, 0xD5, 0x00, 0x10, 0x00,
        0x80, 0x00, 0x4F, 0x00, 0xC2, 0x00, 0xB0, 0x00]
       SG_DXFER_FROM_DEV 8192 (zeros 8192)) ''read_smart_log''"

definition drive_write_smart_log :: "sg_dev \<Rightarrow> int \<Rightarrow> int \<Rightarrow> sg_io_hdr res" where
  "drive_write_smart_log sg pid fd =
     issue_sgio sg fd (sg_hdr_len 16
       [0x85, push_bit 1 0x05, 0x06, 0x00, 0xD6, 0x00, 0x10, 0x00,
        0x80, 0x00, 0x4F, 0x00, 0xC2, 0x00, 0xB0, 0x00]
       SG_DXFER_TO_DEV 8192 (replicate 8192 (u8_of_int (pid AND 0xff)))) ''write_smart_log''"

definition drive_sata_standby_immediate :: "sg_dev \<Rightarrow> int \<Rightarrow> sg_io_hdr res" where
  "drive_sata_standby_immediate sg fd =
     issue_sgio sg fd (sg_hdr_len 16
       [0x85, push_bit 1 0x03, 0x00, 0x00, 0x00, 0x00, 0x00, 0x00,
        0x00, 0x00, 0x00, 0x00, 0x00, 0x00, 0xE0, 0x00]
       SG_DXFER_NONE 0 []) ''sata_standby_immediate''"

text \<open>The caller's buffer of \<open>blen\<close> bytes is padded with zeros to whole sectors, in place.\<close>

definition drive_trim :: "sg_dev \<Rightarrow> int \<Rightarrow> bytes \<Rightarrow> nat \<Rightarrow> sg_io_hdr res" where
  "drive_trim sg fd databuf blen =
     (let cbytes = nat ((int blen + int IOB_SECTOR - 1) AND NOT (int IOB_SECTOR - 1)) in
      bind_res (memset databuf blen 0 (cbytes - blen)) (\<lambda>databuf'.
      issue_sgio sg fd (sg_hdr_len 16
        ([0x85, push_bit 1 0x06, push_bit 2 0x01 OR 0x02, 0x00, 0x01, 0x00, 0x01, 0x00,
          0x00, 0x00, 0x00, 0x00, 0x00, 0x40, 0x06, 0x00][6 := of_nat (cbytes div IOB_SECTOR)])
        SG_DXFER_TO_DEV cbytes databuf') ''trim''))"

section \<open>Block commands\<close>

definition drive_write_same ::
    "sg_dev \<Rightarrow> int \<Rightarrow> u64 \<Rightarrow> int \<Rightarrow> int \<Rightarrow> int \<Rightarrow> int \<Rightarrow> sg_io_hdr res" where
  "drive_write_same sg fd offset0 length0 unmap pbdata lbdata =
     (let offset = offset0 div 512; len = length0 sdiv 512;
          flags = (if unmap \<noteq> 0 then push_bit 3 0x01
                   else if pbdata \<noteq> 0 then push_bit 2 0x01
                   else if lbdata \<noteq> 0 then push_bit 1 0x01 else 0x00)
      in issue_sgio sg fd (sg_hdr_len 16
        [0x93, flags, byte64 offset 7, byte64 offset 6, byte64 offset 5, byte64 offset 4,
         byte64 offset 3, byte64 offset 2, byte64 offset 1, byte64 offset 0,
         byte_int len 3, byte_int len 2, byte_int len 1, byte_int len 0, 0x00, 0x00]
        SG_DXFER_TO_DEV 512 (zeros 512)) ''write_same'')"

definition drive_unmap :: "sg_dev \<Rightarrow> int \<Rightarrow> u64 \<Rightarrow> int \<Rightarrow> sg_io_hdr res" where
  "drive_unmap sg fd offset len =
     (let off = offset div of_nat IOB_SECTOR;
          databuf = [0, 24 - 2, 0, 24 - 8, 0, 0, 0, 0,
            byte64 off 7, byte64 off 6, byte64 off 5, byte64 off 4,
            byte64 off 3, byte64 off 2, byte64 off 1, byte64 off 0,
            byte_int len 3, byte_int len 2, byte_int len 1, byte_int len 0, 0, 0, 0, 0]
      in issue_sgio sg fd (sg_hdr [0x42, 0x00, 0x00, 0x00, 0x00, 0x00, 0x00, 0x00, 0x18, 0x00]
        SG_DXFER_TO_DEV 24 databuf) ''unmap'')"

section \<open>Persistent reservations\<close>

text \<open>A reservation key is the four letters \<open>PURE\<close> and the caller's 32 bits, most significant first.\<close>

definition load_key :: "u32 \<Rightarrow> bytes" where
  "load_key key = [0x50, 0x55, 0x52, 0x45,
     ucast (drop_bit 24 key AND 0xff), ucast (drop_bit 16 key AND 0xff),
     ucast (drop_bit 8 key AND 0xff), ucast (key AND 0xff)]"

definition drive_register_ignore :: "sg_dev \<Rightarrow> int \<Rightarrow> u32 \<Rightarrow> sg_io_hdr res" where
  "drive_register_ignore sg fd new_key =
     issue_sgio sg fd (sg_hdr_len 10 [0x5f, 0x06, 0x00, 0x00, 0x00, 0x00, 0x00, 0x00, 0x18, 0x00]
       SG_DXFER_TO_DEV 24 (zeros 8 @ load_key new_key @ zeros 8)) ''PROUT_register_and_ignore''"

definition drive_register :: "sg_dev \<Rightarrow> int \<Rightarrow> u32 \<Rightarrow> u32 \<Rightarrow> sg_io_hdr res" where
  "drive_register sg fd new_key my_key =
     issue_sgio sg fd (sg_hdr_len 10 [0x5f, 0x00, 0x00, 0x00, 0x00, 0x00, 0x00, 0x00, 0x18, 0x00]
       SG_DXFER_TO_DEV 24 (load_key my_key @ load_key new_key @ zeros 8)) ''PROUT_register''"

definition drive_reserve :: "sg_dev \<Rightarrow> int \<Rightarrow> u32 \<Rightarrow> sg_io_hdr res" where
  "drive_reserve sg fd my_key =
     issue_sgio sg fd (sg_hdr_len 10 [0x5f, 0x01, 0x07, 0x00, 0x00, 0x00, 0x00, 0x00, 0x18, 0x00]
       SG_DXFER_TO_DEV 24 (load_key my_key @ zeros 16)) ''PROUT_reserve''"

definition drive_preempt :: "sg_dev \<Rightarrow> int \<Rightarrow> u32 \<Rightarrow> sg_io_hdr res" where
  "drive_preempt sg fd my_key =
     issue_sgio sg fd (sg_hdr_len 10 [0x5f, 0x05, 0x07, 0x00, 0x00, 0x00, 0x00, 0x00, 0x18, 0x00]
       SG_DXFER_TO_DEV 24 (load_key my_key @ zeros 16)) ''PROUT_preempt_and_abort''"

definition drive_clear :: "sg_dev \<Rightarrow> int \<Rightarrow> u32 \<Rightarrow> sg_io_hdr res" where
  "drive_clear sg fd my_key =
     issue_sgio sg fd (sg_hdr_len 10 [0x5f, 0x03, 0x00, 0x00, 0x00, 0x00, 0x00, 0x00, 0x18, 0x00]
       SG_DXFER_TO_DEV 24 (load_key my_key @ zeros 16)) ''PROUT_clear''"

definition drive_read_reserve :: "sg_dev \<Rightarrow> int \<Rightarrow> sg_io_hdr res" where
  "drive_read_reserve sg fd =
     issue_sgio sg fd (sg_hdr_len 10 [0x5e, 0x03, 0x00, 0x00, 0x00, 0x00, 0x00, 0x02, 0x00, 0x00]
       SG_DXFER_FROM_DEV 512 (zeros 512)) ''PROUT_read''"

section \<open>Dispatch\<close>

definition IOB_SYNC_CACHE_16 :: int where [simp]: "IOB_SYNC_CACHE_16 = 0"
definition IOB_SYNC_CACHE_10 :: int where [simp]: "IOB_SYNC_CACHE_10 = 1"
definition IOB_SATA_FLUSH_CACHE :: int where [simp]: "IOB_SATA_FLUSH_CACHE = 2"
definition IOB_SATA_STANDBY_IMM :: int where [simp]: "IOB_SATA_STANDBY_IMM = 3"

text \<open>The result is the command sent, or the line printed for an unknown type.\<close>

definition drive_flush_cache :: "sg_dev \<Rightarrow> int \<Rightarrow> int \<Rightarrow> (string + sg_io_hdr) res" where
  "drive_flush_cache sg fd flushtype =
     (if flushtype = IOB_SYNC_CACHE_16 then
        bind_res (drive_int_flush_cache_sync_cache_16 sg fd) (\<lambda>h. Inr (Inr h))
      else if flushtype = IOB_SYNC_CACHE_10 then
        bind_res (drive_int_flush_cache_sync_cache_10 sg fd) (\<lambda>h. Inr (Inr h))
      else if flushtype = IOB_SATA_FLUSH_CACHE then
        bind_res (drive_sata_flush_cache sg fd) (\<lambda>h. Inr (Inr h))
      else Inr (Inl ''ERROR: Unknown flush type''))"

section \<open>What a well-formed request is\<close>

text \<open>
  The SCSI standards fix the shape of a command block: the three high bits of the opcode give its
  length, and the opcode says where the length of the data transfer is found. For the ATA
  pass-through commands, byte 2 holds the direction (bit 3), the unit (bit 2) and the place (bits 0
  and 1) of the count. A request is well formed when the kernel is told the same length and the
  same direction as the drive, and the buffer behind it is large enough.
\<close>

definition cdb_size :: "u8 \<Rightarrow> nat" where
  "cdb_size opc = [6, 10, 10, 0, 16, 12, 0, 0] ! unat (drop_bit 5 opc)"

definition ata_blocks :: "u8 \<Rightarrow> nat \<Rightarrow> nat" where
  "ata_blocks flags count = (if flags AND 3 = 0 then 0
     else if flags AND 4 = 0 then count else count * IOB_SECTOR)"

definition cdb_transfer_len :: "bytes \<Rightarrow> nat" where
  "cdb_transfer_len c =
     (let opc = c ! 0 in
      if opc = 0x12 then of_be [c ! 3, c ! 4]
      else if opc \<in> {0x5a, 0x5e, 0x42} then of_be [c ! 7, c ! 8]
      else if opc = 0x5f then of_be [c ! 5, c ! 6, c ! 7, c ! 8]
      else if opc = 0x85 then ata_blocks (c ! 2) (of_be [c ! 5, c ! 6])
      else if opc = 0xa1 then ata_blocks (c ! 2) (unat (c ! 4))
      else if opc = 0x93 then IOB_SECTOR
      else 0)"

definition cdb_direction :: "bytes \<Rightarrow> sg_dir" where
  "cdb_direction c =
     (if cdb_transfer_len c = 0 then SG_DXFER_NONE
      else if c ! 0 \<in> {0x85, 0xa1} then
        (if bit (c ! 2) 3 then SG_DXFER_FROM_DEV else SG_DXFER_TO_DEV)
      else if c ! 0 \<in> {0x12, 0x5a, 0x5e} then SG_DXFER_FROM_DEV else SG_DXFER_TO_DEV)"

definition sg_ok :: "sg_io_hdr \<Rightarrow> bool" where
  "sg_ok h \<longleftrightarrow> cmd_len h = length (cmdp h) \<and> cmd_len h = cdb_size (cmdp h ! 0)
     \<and> dxfer_len h = cdb_transfer_len (cmdp h) \<and> dxfer_direction h = cdb_direction (cmdp h)
     \<and> dxfer_len h \<le> length (dxferp h)"

text \<open>The library's commands, with their arguments, and the function that sends each.\<close>

datatype scsi_op = Inquiry | Vpd int | Mode int | Sanitize int | Identify | Set_password | Unlock
  | Erase_prepare | Secure_erase int | Disable_password | Sync16 | Sync10 | Sata_flush
  | Smart_data bytes | Smart_log | Write_smart_log int | Standby | Trim bytes nat
  | Write_same u64 int int int int | Unmap u64 int | Register_ignore u32 | Register u32 u32
  | Reserve u32 | Preempt u32 | Clear u32 | Read_reserve

fun run_op :: "sg_dev \<Rightarrow> int \<Rightarrow> scsi_op \<Rightarrow> sg_io_hdr res" where
  "run_op sg fd Inquiry = get_scsi_info sg fd"
| "run_op sg fd (Vpd p) = get_vpd_page sg fd p"
| "run_op sg fd (Mode p) = get_mode_page sg fd p"
| "run_op sg fd (Sanitize t) = drive_sanitize sg fd t"
| "run_op sg fd Identify = drive_sata_identify_device sg fd"
| "run_op sg fd Set_password = drive_set_password sg fd"
| "run_op sg fd Unlock = drive_unlock sg fd"
| "run_op sg fd Erase_prepare = drive_erase_prepare sg fd"
| "run_op sg fd (Secure_erase e) = drive_secure_erase sg fd e"
| "run_op sg fd Disable_password = drive_secure_disable_password sg fd"
| "run_op sg fd Sync16 = drive_int_flush_cache_sync_cache_16 sg fd"
| "run_op sg fd Sync10 = drive_int_flush_cache_sync_cache_10 sg fd"
| "run_op sg fd Sata_flush = drive_sata_flush_cache sg fd"
| "run_op sg fd (Smart_data b) = drive_read_smart_data sg fd b"
| "run_op sg fd Smart_log = drive_read_smart_log sg fd"
| "run_op sg fd (Write_smart_log pid) = drive_write_smart_log sg pid fd"
| "run_op sg fd Standby = drive_sata_standby_immediate sg fd"
| "run_op sg fd (Trim b n) = drive_trim sg fd b n"
| "run_op sg fd (Write_same off len u p l) = drive_write_same sg fd off len u p l"
| "run_op sg fd (Unmap off len) = drive_unmap sg fd off len"
| "run_op sg fd (Register_ignore k) = drive_register_ignore sg fd k"
| "run_op sg fd (Register k m) = drive_register sg fd k m"
| "run_op sg fd (Reserve k) = drive_reserve sg fd k"
| "run_op sg fd (Preempt k) = drive_preempt sg fd k"
| "run_op sg fd (Clear k) = drive_clear sg fd k"
| "run_op sg fd Read_reserve = drive_read_reserve sg fd"

text \<open>The buffers the callers must bring.\<close>

fun op_pre :: "scsi_op \<Rightarrow> bool" where
  "op_pre (Smart_data b) = (IOB_SECTOR \<le> length b)"
| "op_pre (Trim b n) = ((n + 511) div 512 * 512 \<le> length b)"
| "op_pre _ = True"

lemma pw_len [len_simps]: "length password_block = 512" by (simp add: password_block_def)

lemmas sg_shape = sg_ok_def sg_hdr_def sg_hdr_len_def cdb_size_def cdb_transfer_len_def cdb_direction_def
  ata_blocks_def of_be_def

lemma trim_pad: "nat ((int n + int IOB_SECTOR - 1) AND NOT (int IOB_SECTOR - 1)) = (n + 511) div 512 * 512"
proof -
  have e: "int IOB_SECTOR = 512" by (simp add: IOB_SECTOR_def)
  have "(a AND NOT 511 :: int) = a div 512 * 512" for a
  proof -
    have "a AND NOT (mask 9) = push_bit 9 (drop_bit 9 a)"
      by (rule bit_eqI) (auto simp: bit_simps)
    then show ?thesis by (simp add: mask_eq_exp_minus_1 push_bit_eq_mult drop_bit_eq_div)
  qed
  then have "(int n + int IOB_SECTOR - 1) AND NOT (int IOB_SECTOR - 1) = (int n + 511) div 512 * 512"
    unfolding e by simp
  also have "\<dots> = int ((n + 511) div 512 * 512)" by (simp add: zdiv_int)
  finally show ?thesis by simp
qed


text \<open>The count of a \<open>TRIM\<close> is its low byte alone: it names the blocks of the transfer from 1 to 255 of them.\<close>

lemma trim_request:
  assumes "op_pre (Trim b n)"
  shows "\<exists>h s. (sg_ok h \<longleftrightarrow> 0 < n \<and> n \<le> 255 * 512) \<and> (\<forall>sg fd. drive_trim sg fd b n = issue_sgio sg fd h s)"
proof -
  define c where "c = (n + 511) div 512"
  have c: "c * 512 \<le> length b" "n \<le> c * 512" "0 < c \<longleftrightarrow> 0 < n" "c \<le> 255 \<longleftrightarrow> n \<le> 255 * 512"
    using assms by (auto simp: c_def)
  have "n + (c * 512 - n) \<le> length b" using c by simp
  from memset_ex [OF this] obtain b' where b': "memset b n 0 (c * 512 - n) = Inr b'"
    "length b' = length b" by blast
  let ?cdb = "[0x85, push_bit 1 0x06, push_bit 2 0x01 OR 0x02, 0x00, 0x01, 0x00, 0x01, 0x00,
          0x00, 0x00, 0x00, 0x00, 0x00, 0x40, 0x06, 0x00][6 := of_nat c] :: bytes"
  let ?h = "sg_hdr_len 16 ?cdb SG_DXFER_TO_DEV (c * 512) b'"
  have u: "unat (of_nat c :: u8) = c mod 256" by (simp add: unat_of_nat)
  have "sg_ok ?h \<longleftrightarrow> 0 < c \<and> c \<le> 255"
  proof (cases "c \<le> 255")
    case True
    then have "unat (of_nat c :: u8) = c" using u by simp
    then show ?thesis using True c(1) b'(2) by (cases "c = 0") (simp_all add: sg_shape)
  next
    case False
    have "c mod 256 < 256" by simp
    with False have "c mod 256 \<noteq> c" by linarith
    with False u show ?thesis by (simp add: sg_shape)
  qed
  then have "sg_ok ?h \<longleftrightarrow> 0 < n \<and> n \<le> 255 * 512" using c(3,4) by simp
  moreover have "drive_trim sg fd b n = issue_sgio sg fd ?h ''trim''" for sg fd
    unfolding drive_trim_def Let_def trim_pad c_def [symmetric] using b'(1) by simp
  ultimately show ?thesis by blast
qed

lemma smart_request:
  assumes "op_pre (Smart_data b)"
  shows "\<exists>h s. sg_ok h \<and> (\<forall>sg fd. drive_read_smart_data sg fd b = issue_sgio sg fd h s)"
proof -
  have "0 + 512 \<le> length b" using assms by simp
  from memset_ex [OF this] obtain b' where b': "memset b 0 0 512 = Inr b'" "length b' = length b"
    by blast
  let ?h = "sg_hdr_len 16 [0x85, push_bit 1 0x04, 0x0e, 0x00, 0xD0, 0x00, 0x01, 0x00,
        0x00, 0x00, 0x4F, 0x00, 0xC2, 0x00, 0xB0, 0x00] SG_DXFER_FROM_DEV 512 b'"
  have "sg_ok ?h" using b' assms by (simp add: sg_shape)
  moreover have "drive_read_smart_data sg fd b = issue_sgio sg fd ?h ''read_smart_data''" for sg fd
    using b'(1) by (simp add: drive_read_smart_data_def)
  ultimately show ?thesis by blast
qed

lemma plain_request: "sg_ok h \<Longrightarrow> \<exists>h' s'. sg_ok h' \<and> (\<forall>sg fd. issue_sgio sg fd h s = issue_sgio sg fd h' s')"
  by blast

lemma load_key_length [len_simps, simp]: "length (load_key k) = 8" by (simp add: load_key_def)

lemmas plain_ops = get_scsi_info_def get_vpd_page_def get_mode_page_def drive_sanitize_def
  drive_sata_identify_device_def drive_set_password_def drive_unlock_def drive_erase_prepare_def
  drive_secure_erase_def drive_secure_disable_password_def drive_int_flush_cache_sync_cache_16_def
  drive_int_flush_cache_sync_cache_10_def drive_sata_flush_cache_def drive_read_smart_log_def
  drive_write_smart_log_def drive_sata_standby_immediate_def drive_write_same_def drive_unmap_def
  drive_register_ignore_def drive_register_def drive_reserve_def drive_preempt_def drive_clear_def
  drive_read_reserve_def

lemma plain_op_request:
  assumes "op_pre opn" "\<And>b n. opn \<noteq> Trim b n"
  shows "\<exists>h s. sg_ok h \<and> (\<forall>sg fd. run_op sg fd opn = issue_sgio sg fd h s)"
proof (cases opn)
  case (Trim b n) with assms(2) show ?thesis by blast
next
  case (Smart_data b) with assms(1) smart_request show ?thesis by simp
qed (simp_all only: run_op.simps plain_ops Let_def, (rule plain_request, simp add: sg_shape len_simps)+)

text \<open>
  Property C16. Every command of the library but \<open>TRIM\<close> is one \<open>SG_IO\<close> request that is well formed: the length of
  the command block is the one its opcode fixes, the transfer length and direction given to the
  kernel are those the command block tells the drive, and the data buffer is that long. A \<open>TRIM\<close> is one request too, and well
  formed exactly when its list has between 1 byte and 255 sectors; beyond, the count in the command and the transfer length disagree.
  The callers' buffers must be as long as the transfers.
\<close>

theorem requests_well_formed:
  assumes "op_pre opn"
  shows "\<exists>h s. (sg_ok h \<longleftrightarrow> (\<forall>b n. opn = Trim b n \<longrightarrow> 0 < n \<and> n \<le> 255 * 512))
    \<and> (\<forall>sg fd. run_op sg fd opn = issue_sgio sg fd h s)"
proof (cases "\<exists>b n. opn = Trim b n")
  case True
  then obtain b n where opn: "opn = Trim b n" by blast
  from trim_request [of b n] assms show ?thesis by (simp add: opn)
next
  case False
  then show ?thesis using plain_op_request [OF assms] by blast
qed

theorem requests_well_formed_witness:
  "\<exists>h s. sg_ok h \<and> (\<forall>sg fd. run_op sg fd (Trim (replicate 512 7) 16) = issue_sgio sg fd h s)"
  using requests_well_formed [of "Trim (replicate 512 7) 16"] by simp

text \<open>
  Property C18. A command returns to its caller exactly when the ioctl and all four status fields are zero; otherwise
  the process exits with status 1, and the sense bytes the kernel wrote are printed only when there are some.
\<close>

theorem sgio_outcome:
  assumes "length (a_sense a) \<le> 64"
    and "a = sg fd (h\<lparr>interface_id := CHR ''S'', mx_sb_len := 64, sg_timeout := 3600000\<rparr>)"
  shows "((\<exists>h'. issue_sgio sg fd h s = Inr h') \<longleftrightarrow>
      a_ioctl a = 0 \<and> a_status a = 0 \<and> a_masked_status a = 0 \<and> a_driver_status a = 0 \<and> a_host_status a = 0)
    \<and> ((\<forall>h'. issue_sgio sg fd h s \<noteq> Inr h') \<longrightarrow>
      (\<exists>out. issue_sgio sg fd h s = Inl (Exited 1 ((''Error on '' @ s) # out)) \<and> (out = [] \<longleftrightarrow> a_sense a = [])))"
  using assms by (auto simp: issue_sgio_def sg_failed_def Let_def or_eq_0_iff)

theorem sgio_outcome_witness:
  "issue_sgio (\<lambda>_ _. \<lparr>a_ioctl = 0, a_status = 2, a_masked_status = 1, a_driver_status = 8,
      a_host_status = 0, a_sense = [0x70], a_data = []\<rparr>) 3 (sg_hdr [0x35] SG_DXFER_NONE 0 []) ''x''
    = Inl (Exited 1 [''Error on x'', ''Sense bytes''])"
  using sgio_outcome [of _ "\<lambda>_ _. \<lparr>a_ioctl = 0, a_status = 2, a_masked_status = 1, a_driver_status = 8,
      a_host_status = 0, a_sense = [0x70], a_data = []\<rparr>", OF _ refl, of 3 "sg_hdr [0x35] SG_DXFER_NONE 0 []" "''x''"]
  by (simp add: issue_sgio_def sg_failed_def)

lemma of_be_acc: "foldl (\<lambda>a b. 256 * a + unat b) acc bs = acc * 256 ^ length bs + of_be (bs :: bytes)"
proof (induction bs arbitrary: acc)
  case (Cons b bs)
  show ?case using Cons.IH [of "256 * acc + unat b"] Cons.IH [of "unat b"]
    by (simp add: of_be_def algebra_simps)
qed (simp add: of_be_def)

lemma of_be_Cons: "of_be (b # bs) = unat b * 256 ^ length bs + of_be bs"
  using of_be_acc [of "unat b" bs] by (simp add: of_be_def)

lemma of_be_digits:
  assumes "\<And>k. unat (f k) = v div 256 ^ k mod 256"
  shows "of_be (map f (rev [0 ..< n])) = v mod 256 ^ n"
proof (induction n)
  case (Suc n)
  have "v mod 256 ^ Suc n = 256 ^ n * (v div 256 ^ n mod 256) + v mod 256 ^ n"
    by (simp only: power_Suc2 mod_mult2_eq)
  then show ?case using Suc assms by (simp add: of_be_Cons)
qed (simp add: of_be_def)

lemma pow256: "(2::nat) ^ (8 * k) = 256 ^ k"
  by (simp only: power_mult) simp

lemma low_byte: "unat (ucast (x AND 0xff) :: u8) = unat (x :: 'a::len word) mod 256"
proof -
  have "unat (ucast (x AND 0xff) :: u8) = take_bit 8 (unat (x AND mask 8))"
    by (simp add: unsigned_ucast_eq mask_eq_exp_minus_1)
  also have "\<dots> = take_bit 8 (take_bit 8 (unat x))"
    by (simp only: take_bit_eq_mask [symmetric] unsigned_take_bit_eq)
  finally show ?thesis by (simp add: take_bit_eq_mod)
qed

lemma unat_drop_bit: "unat (drop_bit n w) = unat (w :: 'a::len word) div 2 ^ n"
proof -
  have "take_bit LENGTH('a) (unat w) = unat w"
    using unsigned_less [of w, where ?'a = nat] by (rule take_bit_nat_eq_self)
  then show ?thesis by (simp only: unsigned_drop_bit_eq) (simp only: drop_bit_eq_div)
qed

lemma unat_byte64: "unat (byte64 v k) = unat v div 256 ^ k mod 256"
  unfolding byte64_def low_byte by (simp only: unat_drop_bit pow256)

lemma unat_byte_int:
  assumes "0 \<le> v"
  shows "unat (byte_int v k) = nat v div 256 ^ k mod 256"
proof -
  have "unat (byte_int v k) = nat (take_bit 8 (take_bit 8 (drop_bit (8 * k) v)))"
    by (simp add: byte_int_def unsigned_of_int take_bit_eq_mask mask_eq_exp_minus_1)
  also have "\<dots> = nat (v div 2 ^ (8 * k) mod 256)"
    by (simp add: take_bit_eq_mod drop_bit_eq_div)
  also have "\<dots> = nat v div 256 ^ k mod 256"
    using assms by (simp add: nat_mod_distrib nat_div_distrib power_mult pos_imp_zdiv_nonneg_iff nat_power_eq)
  finally show ?thesis .
qed

lemma be64: "of_be [byte64 v 7, byte64 v 6, byte64 v 5, byte64 v 4, byte64 v 3, byte64 v 2, byte64 v 1, byte64 v 0] = unat v"
proof -
  have lt: "unat v < 2 ^ 64" using unsigned_less [of v] by simp
  have "rev [0 ..< 8] = [7, 6, 5, 4, 3, 2, 1, 0 :: nat]" by (simp add: upt_rec)
  moreover have "unat v mod 256 ^ 8 = unat v" using lt by simp
  ultimately show ?thesis using of_be_digits [of "byte64 v" "unat v" 8, OF unat_byte64] by simp
qed

lemma be32:
  assumes "0 \<le> v" "v < 2 ^ 31"
  shows "of_be [byte_int v 3, byte_int v 2, byte_int v 1, byte_int v 0] = nat v"
proof -
  have "rev [0 ..< 4] = [3, 2, 1, 0 :: nat]" by (simp add: upt_rec)
  moreover have "nat v mod 256 ^ 4 = nat v" using assms by simp
  ultimately show ?thesis using of_be_digits [of "byte_int v" "nat v" 4, OF unat_byte_int [OF assms(1)]] by simp
qed


text \<open>
  Property C17. The extent in a WRITE SAME command is the caller's byte offset and byte length in whole
  sectors; the flag byte asks for unmapping, or for physical or logical block data, in that order
  of precedence.
\<close>

theorem write_same_extent:
  assumes "0 \<le> len" "len < 2 ^ 31"
  shows "\<exists>h s. (\<forall>sg fd. drive_write_same sg fd off len um pb lb = issue_sgio sg fd h s)
     \<and> of_be (take 8 (drop 2 (cmdp h))) = unat off div 512
     \<and> of_be (take 4 (drop 10 (cmdp h))) = nat len div 512
     \<and> cmdp h ! 1 = (if um \<noteq> 0 then 8 else if pb \<noteq> 0 then 4 else if lb \<noteq> 0 then 2 else 0)"
proof -
  have len: "0 \<le> len sdiv 512" "len sdiv 512 < 2 ^ 31" "nat (len sdiv 512) = nat len div 512"
    using assms by (cases "len = 0"; auto simp: signed_divide_int_def nat_div_distrib)+
  show ?thesis
    unfolding drive_write_same_def Let_def
    by (intro exI conjI allI, rule refl) (use len in \<open>auto simp: sg_hdr_def sg_hdr_len_def be64 [simplified] be32 [simplified] unat_div\<close>)
qed

theorem write_same_extent_witness:
  "\<exists>h s. (\<forall>sg fd. drive_write_same sg fd 1048576 8192 1 0 0 = issue_sgio sg fd h s)
     \<and> of_be (take 8 (drop 2 (cmdp h))) = 2048 \<and> of_be (take 4 (drop 10 (cmdp h))) = 16
     \<and> cmdp h ! 1 = 8"
  using write_same_extent [of 8192 1048576 1 0 0] by simp

text \<open>
  The UNMAP parameter list gives the caller's offset in sectors but its length unconverted: the command
  discards 512 times as many bytes as \<^const>\<open>drive_write_same\<close> is told to for the same arguments.
\<close>

theorem unmap_extent:
  assumes "0 \<le> len" "len < 2 ^ 31"
  shows "\<exists>h s. (\<forall>sg fd. drive_unmap sg fd off len = issue_sgio sg fd h s)
     \<and> of_be (take 2 (dxferp h)) = length (dxferp h) - 2
     \<and> of_be (take 2 (drop 2 (dxferp h))) = length (dxferp h) - 8
     \<and> of_be (take 8 (drop 8 (dxferp h))) = unat off div 512
     \<and> of_be (take 4 (drop 16 (dxferp h))) = nat len"
proof -
  have lens: "of_be [0, 24 - 2] = 22" "of_be [0, 24 - 8] = 16" by (simp_all add: of_be_Cons of_be_def)
  show ?thesis
    unfolding drive_unmap_def Let_def
    by (intro exI conjI allI, rule refl) (use assms lens in \<open>auto simp: sg_hdr_def sg_hdr_len_def be64 [simplified] be32 [simplified] unat_div\<close>)
qed

theorem unmap_extent_witness:
  "\<exists>h s. (\<forall>sg fd. drive_unmap sg fd 1048576 8192 = issue_sgio sg fd h s)
     \<and> of_be (take 2 (dxferp h)) = length (dxferp h) - 2
     \<and> of_be (take 2 (drop 2 (dxferp h))) = length (dxferp h) - 8
     \<and> of_be (take 8 (drop 8 (dxferp h))) = 2048
     \<and> of_be (take 4 (drop 16 (dxferp h))) = 8192"
  using unmap_extent [of 8192 1048576] by simp

lemma load_key_value: "of_be (load_key k) = 0x50555245 * 2 ^ 32 + unat k"
proof -
  define f where "f i = (ucast (drop_bit (8 * i) k AND 0xff) :: u8)" for i
  have f: "unat (f i) = unat k div 256 ^ i mod 256" for i
    unfolding f_def low_byte by (simp only: unat_drop_bit pow256)
  have lt: "unat k < 2 ^ 32" using unsigned_less [of k] by simp
  have up: "rev [0 ..< 4] = [3, 2, 1, 0 :: nat]" by (simp add: upt_rec)
  have "of_be [f 3, f 2, f 1, f 0] = unat k"
    using of_be_digits [of f "unat k" 4, OF f] lt unfolding up by simp
  moreover have "load_key k = [0x50, 0x55, 0x52, 0x45, f 3, f 2, f 1, f 0]"
    by (simp add: load_key_def f_def)
  ultimately show ?thesis by (simp add: of_be_Cons)
qed

text \<open>
  A host's reservation key determines its 32-bit number, and the registration command carries the old
  key in the first 8 bytes of its parameter and the new one in the next 8.
\<close>

theorem reservation_keys:
  "(load_key k = load_key m \<longleftrightarrow> k = m)
   \<and> (\<exists>h s. (\<forall>sg fd. drive_register sg fd new_key my_key = issue_sgio sg fd h s)
      \<and> of_be (take 8 (dxferp h)) = 0x50555245 * 2 ^ 32 + unat my_key
      \<and> of_be (take 8 (drop 8 (dxferp h))) = 0x50555245 * 2 ^ 32 + unat new_key)"
proof -
  have "k = m" if "load_key k = load_key m"
    using arg_cong [OF that, of of_be] by (simp add: load_key_value word_unat_eq_iff)
  then have "load_key k = load_key m \<longleftrightarrow> k = m" by blast
  moreover have "\<exists>h s. (\<forall>sg fd. drive_register sg fd new_key my_key = issue_sgio sg fd h s)
      \<and> of_be (take 8 (dxferp h)) = 0x50555245 * 2 ^ 32 + unat my_key
      \<and> of_be (take 8 (drop 8 (dxferp h))) = 0x50555245 * 2 ^ 32 + unat new_key"
    unfolding drive_register_def
    by (intro exI conjI allI, rule refl) (simp_all add: sg_hdr_def sg_hdr_len_def load_key_value)
  ultimately show ?thesis by blast
qed

end
