(* ===== verification/IobUscsi.thy ===== *)
theory IobUscsi
  imports IobScsi
begin

text \<open>
  The other platforms of \<open>lib/iob_scsi.c\<close>: Solaris, where four commands go to the \<open>USCSICMD\<close> ioctl and the rest are empty, and
  AIX, HP-UX and Cygwin, where all are. The constants of the Solaris headers and what the ioctl answers are parameters.
\<close>

section \<open>Solaris\<close>

text \<open>What the code takes from \<open>sys/scsi/scsi.h\<close>: the lengths of command blocks, the size of \<open>cdb_opaque\<close>, three flags.\<close>

record sun_abi =
  CDB_GROUP1 :: nat
  CDB_GROUP4 :: nat
  opaque_size :: nat
  USCSI_READ :: u32
  USCSI_ISOLATE :: u32
  USCSI_RQENABLE :: u32

text \<open>The request; the sense buffer and the data buffer by their sizes, since nothing is ever read from them.\<close>

record uscsi_cmd =
  uscsi_cdb :: bytes
  uscsi_cdblen :: nat
  uscsi_timeout :: nat
  uscsi_rqbuf :: "nat option"
  uscsi_rqlen :: nat
  uscsi_bufaddr :: "nat option"
  uscsi_buflen :: nat
  uscsi_flags :: u32

text \<open>The ioctl answers its result and \<open>errno\<close>. A function gives the requests it made and what it wrote to the error output.\<close>

type_synonym sun_dev = "int \<Rightarrow> uscsi_cmd \<Rightarrow> int \<times> int"
type_synonym sun_result = "(uscsi_cmd list \<times> string list) res"

fun store_all :: "(nat \<times> u8) list \<Rightarrow> bytes \<Rightarrow> bytes res" where
  "store_all [] cdb = Inr cdb"
| "store_all ((i, b) # xs) cdb = (if i < length cdb then store_all xs (cdb[i := b]) else Inl OutOfBounds)"

definition issue_uscsi :: "sun_dev \<Rightarrow> (int \<Rightarrow> string) \<Rightarrow> int \<Rightarrow> uscsi_cmd \<Rightarrow> string \<Rightarrow> sun_result" where
  "issue_uscsi ioc strerror fd u what =
     (let (status, errno) = ioc fd u
      in Inr ([u], if status < 0 then [what @ '' failed ('' @ strerror errno @ '')''] else []))"

definition sync_cache_sun :: "sun_abi \<Rightarrow> u8 \<Rightarrow> nat \<Rightarrow> uscsi_cmd res" where
  "sync_cache_sun abi opcode len =
     bind_res (store_all [(0, opcode)] (zeros (opaque_size abi))) (\<lambda>cdb.
       Inr \<lparr>uscsi_cdb = cdb, uscsi_cdblen = len, uscsi_timeout = 5, uscsi_rqbuf = Some 255, uscsi_rqlen = 255,
         uscsi_bufaddr = None, uscsi_buflen = 0,
         uscsi_flags = USCSI_READ abi OR USCSI_ISOLATE abi OR USCSI_RQENABLE abi\<rparr>)"

definition drive_int_flush_cache_sync_cache_16_sun :: "sun_abi \<Rightarrow> sun_dev \<Rightarrow> (int \<Rightarrow> string) \<Rightarrow> int \<Rightarrow> sun_result" where
  "drive_int_flush_cache_sync_cache_16_sun abi ioc strerror fd =
     bind_res (sync_cache_sun abi 0x91 (CDB_GROUP4 abi)) (\<lambda>u. issue_uscsi ioc strerror fd u ''sync_cache_16 flush'')"

definition drive_int_flush_cache_sync_cache_10_sun :: "sun_abi \<Rightarrow> sun_dev \<Rightarrow> (int \<Rightarrow> string) \<Rightarrow> int \<Rightarrow> sun_result" where
  "drive_int_flush_cache_sync_cache_10_sun abi ioc strerror fd =
     bind_res (sync_cache_sun abi 0x35 (CDB_GROUP1 abi)) (\<lambda>u. issue_uscsi ioc strerror fd u ''sync_cache_10 flush'')"

definition sata_command_sun :: "sun_abi \<Rightarrow> u8 \<Rightarrow> uscsi_cmd res" where
  "sata_command_sun abi command =
     bind_res (store_all [(0, 0x85), (1, push_bit 1 3), (2, 0x20), (14, command)] (zeros (opaque_size abi))) (\<lambda>cdb.
       Inr \<lparr>uscsi_cdb = cdb, uscsi_cdblen = CDB_GROUP4 abi, uscsi_timeout = 5000, uscsi_rqbuf = None, uscsi_rqlen = 0,
         uscsi_bufaddr = None, uscsi_buflen = 0, uscsi_flags = USCSI_READ abi\<rparr>)"

definition drive_sata_flush_cache_sun :: "sun_abi \<Rightarrow> sun_dev \<Rightarrow> (int \<Rightarrow> string) \<Rightarrow> int \<Rightarrow> sun_result" where
  "drive_sata_flush_cache_sun abi ioc strerror fd =
     bind_res (sata_command_sun abi 0xE7) (\<lambda>u. issue_uscsi ioc strerror fd u ''sata flush cache'')"

definition drive_sata_standby_immediate_sun :: "sun_abi \<Rightarrow> sun_dev \<Rightarrow> (int \<Rightarrow> string) \<Rightarrow> int \<Rightarrow> sun_result" where
  "drive_sata_standby_immediate_sun abi ioc strerror fd =
     bind_res (sata_command_sun abi 0xE0) (\<lambda>u. issue_uscsi ioc strerror fd u ''sata standby immediate'')"

text \<open>All other functions of the library return at once.\<close>

fun run_op_sun :: "sun_abi \<Rightarrow> sun_dev \<Rightarrow> (int \<Rightarrow> string) \<Rightarrow> int \<Rightarrow> scsi_op \<Rightarrow> sun_result" where
  "run_op_sun abi ioc strerror fd Sync16 = drive_int_flush_cache_sync_cache_16_sun abi ioc strerror fd"
| "run_op_sun abi ioc strerror fd Sync10 = drive_int_flush_cache_sync_cache_10_sun abi ioc strerror fd"
| "run_op_sun abi ioc strerror fd Sata_flush = drive_sata_flush_cache_sun abi ioc strerror fd"
| "run_op_sun abi ioc strerror fd Standby = drive_sata_standby_immediate_sun abi ioc strerror fd"
| "run_op_sun abi ioc strerror fd _ = Inr ([], [])"

section \<open>The flush functions by platform\<close>

text \<open>\<open>drive_flush_cache\<close>, with the platform's three functions; \<open>other\<close> stands for the line about an unknown type.\<close>

definition flush_switch :: "'a \<Rightarrow> 'a \<Rightarrow> 'a \<Rightarrow> 'a \<Rightarrow> int \<Rightarrow> 'a" where
  "flush_switch sync16 sync10 sata other flushtype =
     (if flushtype = IOB_SYNC_CACHE_16 then sync16
      else if flushtype = IOB_SYNC_CACHE_10 then sync10
      else if flushtype = IOB_SATA_FLUSH_CACHE then sata else other)"

definition unknown_flush :: sun_result where
  "unknown_flush = Inr ([], [''ERROR: Unknown flush type''])"

definition drive_flush_cache_sun :: "sun_abi \<Rightarrow> sun_dev \<Rightarrow> (int \<Rightarrow> string) \<Rightarrow> int \<Rightarrow> int \<Rightarrow> sun_result" where
  "drive_flush_cache_sun abi ioc strerror fd =
     flush_switch (drive_int_flush_cache_sync_cache_16_sun abi ioc strerror fd)
       (drive_int_flush_cache_sync_cache_10_sun abi ioc strerror fd) (drive_sata_flush_cache_sun abi ioc strerror fd) unknown_flush"

text \<open>AIX and HP-UX; Cygwin has the same four empty functions.\<close>

definition empty_flush :: "int \<Rightarrow> sun_result" where
  "empty_flush fd = Inr ([], [])"

definition empty_flush_cygwin :: "int \<Rightarrow> sun_result" where
  "empty_flush_cygwin fd = Inr ([], [])"

definition drive_flush_cache_empty :: "int \<Rightarrow> int \<Rightarrow> sun_result" where
  "drive_flush_cache_empty fd = flush_switch (empty_flush fd) (empty_flush fd) (empty_flush fd) unknown_flush"

lemma flush_linux:
  "drive_flush_cache sg fd t = flush_switch (bind_res (run_op sg fd Sync16) (\<lambda>h. Inr (Inr h)))
     (bind_res (run_op sg fd Sync10) (\<lambda>h. Inr (Inr h))) (bind_res (run_op sg fd Sata_flush) (\<lambda>h. Inr (Inr h)))
     (Inr (Inl ''ERROR: Unknown flush type'')) t"
  by (simp add: drive_flush_cache_def flush_switch_def)

text \<open>
  What a flush sends, byte for byte. \<open>SYNCHRONIZE CACHE\<close>, with 16 or 10 bytes, is the same on both platforms; a SATA drive gets
  \<open>FLUSH CACHE EXT\<close> in an ATA pass-through on Linux, and the older \<open>FLUSH CACHE\<close> with the check-condition bit set on Solaris.
\<close>

definition flush_block :: "int \<Rightarrow> bytes" where
  "flush_block t = flush_switch ([0x91] @ zeros 15) ([0x35] @ zeros 9) ([0x85, 0x06] @ zeros 12 @ [0xEA, 0x00]) [] t"

definition flush_block_sun :: "int \<Rightarrow> bytes" where
  "flush_block_sun t = flush_switch ([0x91] @ zeros 15) ([0x35] @ zeros 9) ([0x85, 0x06, 0x20] @ zeros 11 @ [0xE7, 0x00]) [] t"

definition flush_name :: "int \<Rightarrow> string" where
  "flush_name t = flush_switch ''sync_cache_16'' ''sync_cache_10'' ''sata_flush_cache_ext'' [] t"

definition flush_name_sun :: "int \<Rightarrow> string" where
  "flush_name_sun t = flush_switch ''sync_cache_16 flush'' ''sync_cache_10 flush'' ''sata flush cache'' [] t"

text \<open>A request on Solaris with a command block, and nothing beyond it but zeros.\<close>

definition sun_block :: "bytes \<Rightarrow> uscsi_cmd \<Rightarrow> bool" where
  "sun_block cdb u \<longleftrightarrow> uscsi_cdblen u = length cdb \<and> (\<exists>n. uscsi_cdb u = cdb @ zeros n)"

lemma zeros_split: "m \<le> n \<Longrightarrow> zeros n = zeros m @ zeros (n - m)"
  by (simp add: zeros_def flip: replicate_add)

lemma sync_cache_sun_ok:
  assumes "0 < len" "len \<le> opaque_size abi"
  shows "\<exists>u. sync_cache_sun abi opcode len = Inr u \<and> sun_block (opcode # zeros (len - 1)) u"
proof -
  have "zeros (opaque_size abi) = 0 # zeros (len - 1) @ zeros (opaque_size abi - len)"
    using zeros_split [OF assms(2)] assms(1) by (cases len) (simp_all add: zeros_def)
  then show ?thesis using assms by (auto simp: sync_cache_sun_def sun_block_def)
qed

lemma sata_command_sun_ok:
  assumes "16 \<le> opaque_size abi" "CDB_GROUP4 abi = 16"
  shows "\<exists>u. sata_command_sun abi command = Inr u \<and> sun_block ([0x85, 0x06, 0x20] @ zeros 11 @ [command, 0x00]) u"
  using assms zeros_split [OF assms(1)] by (auto simp: sata_command_sun_def sun_block_def zeros_def numeral_eq_Suc)

section \<open>Property\<close>

text \<open>
  Property C19. What a flush of each type sends on Linux and on Solaris, and what becomes of a failure. On both it is one request, whose
  command block is the one of \<open>flush_block\<close> and \<open>flush_block_sun\<close>, byte for byte, with its length, and no data: the two
  \<open>SYNCHRONIZE CACHE\<close> commands agree, the SATA flushes do not. When the command fails, the program goes on after a message
  on Solaris, and exits with status 1 on Linux. The constants of the Solaris headers must be those of the SCSI standard.
\<close>

theorem flush_by_platform:
  assumes "t \<in> {IOB_SYNC_CACHE_16, IOB_SYNC_CACHE_10, IOB_SATA_FLUSH_CACHE}"
    and "CDB_GROUP1 abi = 10" and "CDB_GROUP4 abi = 16" and "16 \<le> opaque_size abi"
  shows "(\<exists>u. sun_block (flush_block_sun t) u \<and> uscsi_buflen u = 0
      \<and> (\<forall>ioc. drive_flush_cache_sun abi ioc strerror fd t = Inr ([u],
            if fst (ioc fd u) < 0 then [flush_name_sun t @ '' failed ('' @ strerror (snd (ioc fd u)) @ '')''] else [])))
    \<and> (\<exists>h. cmdp h = flush_block t \<and> cmd_len h = length (flush_block t) \<and> dxfer_len h = 0 \<and> dxfer_direction h = SG_DXFER_NONE
      \<and> (\<forall>sg. length (a_sense (sg fd h)) \<le> 64 \<longrightarrow>
          (if sg_failed (sg fd h) then \<exists>out. drive_flush_cache sg fd t = Inl (Exited 1 ((''Error on '' @ flush_name t) # out))
           else drive_flush_cache sg fd t = Inr (Inr h))))"
proof -
  have sun: "\<exists>u. sun_block cdb u \<and> uscsi_buflen u = 0
      \<and> (\<forall>ioc. drive_flush_cache_sun abi ioc strerror fd t = Inr ([u],
            if fst (ioc fd u) < 0 then [str @ '' failed ('' @ strerror (snd (ioc fd u)) @ '')''] else []))"
    if "\<And>ioc. drive_flush_cache_sun abi ioc strerror fd t = bind_res c (\<lambda>u. issue_uscsi ioc strerror fd u str)"
      "\<exists>u. c = Inr u \<and> sun_block cdb u" "\<And>u. c = Inr u \<Longrightarrow> uscsi_buflen u = 0" for c cdb str
  proof -
    from that(2) obtain u where u: "c = Inr u" "sun_block cdb u" by blast
    then show ?thesis using that(1,3) by (intro exI [of _ u]) (simp add: issue_uscsi_def split_beta)
  qed
  have linux: "\<exists>h. cmdp h = cdb \<and> cmd_len h = length cdb \<and> dxfer_len h = 0 \<and> dxfer_direction h = SG_DXFER_NONE
      \<and> (\<forall>sg. length (a_sense (sg fd h)) \<le> 64 \<longrightarrow>
          (if sg_failed (sg fd h) then \<exists>out. drive_flush_cache sg fd t = Inl (Exited 1 ((''Error on '' @ str) # out))
           else drive_flush_cache sg fd t = Inr (Inr h)))"
    if "\<And>sg. drive_flush_cache sg fd t = bind_res (issue_sgio sg fd (sg_hdr cdb SG_DXFER_NONE 0 []) str) (\<lambda>h. Inr (Inr h))" for cdb str
    using that by (intro exI [of _ "(sg_hdr cdb SG_DXFER_NONE 0 [])\<lparr>interface_id := CHR ''S'', mx_sb_len := 64, sg_timeout := 3600000\<rparr>"])
      (simp add: issue_sgio_def sg_hdr_def sg_hdr_len_def Let_def)
  have len: "uscsi_buflen u = 0" if "sync_cache_sun abi c n = Inr u \<or> sata_command_sun abi c = Inr u" for c n u
    using that by (auto simp: sync_cache_sun_def sata_command_sun_def bind_res_Inr_iff)
  from assms(1) consider "t = 0" | "t = 1" | "t = 2" by auto
  then show ?thesis
  proof cases
    case 1
    then have b: "flush_block t = [0x91] @ zeros 15" "flush_block_sun t = 0x91 # zeros (16 - 1)" "flush_name t = ''sync_cache_16''"
      "flush_name_sun t = ''sync_cache_16 flush''"
      by (simp_all add: flush_block_def flush_block_sun_def flush_name_def flush_name_sun_def flush_switch_def)
    show ?thesis unfolding b
    proof (rule conjI [OF sun [of "sync_cache_sun abi 0x91 16"] linux])
      show "\<exists>u. sync_cache_sun abi 0x91 16 = Inr u \<and> sun_block (0x91 # zeros (16 - 1)) u" using assms(4) by (intro sync_cache_sun_ok) simp_all
    qed (use 1 assms(3) len in \<open>auto simp: drive_flush_cache_sun_def flush_switch_def drive_int_flush_cache_sync_cache_16_sun_def
        drive_flush_cache_def drive_int_flush_cache_sync_cache_16_def zeros_def numeral_eq_Suc\<close>)
  next
    case 2
    then have b: "flush_block t = [0x35] @ zeros 9" "flush_block_sun t = 0x35 # zeros (10 - 1)" "flush_name t = ''sync_cache_10''"
      "flush_name_sun t = ''sync_cache_10 flush''"
      by (simp_all add: flush_block_def flush_block_sun_def flush_name_def flush_name_sun_def flush_switch_def)
    show ?thesis unfolding b
    proof (rule conjI [OF sun [of "sync_cache_sun abi 0x35 10"] linux])
      show "\<exists>u. sync_cache_sun abi 0x35 10 = Inr u \<and> sun_block (0x35 # zeros (10 - 1)) u" using assms(4) by (intro sync_cache_sun_ok) simp_all
    qed (use 2 assms(2) len in \<open>auto simp: drive_flush_cache_sun_def flush_switch_def drive_int_flush_cache_sync_cache_10_sun_def
        drive_flush_cache_def drive_int_flush_cache_sync_cache_10_def zeros_def numeral_eq_Suc\<close>)
  next
    case 3
    then have b: "flush_block t = [0x85, 0x06] @ zeros 12 @ [0xEA, 0x00]" "flush_block_sun t = [0x85, 0x06, 0x20] @ zeros 11 @ [0xE7, 0x00]"
      "flush_name t = ''sata_flush_cache_ext''" "flush_name_sun t = ''sata flush cache''"
      by (simp_all add: flush_block_def flush_block_sun_def flush_name_def flush_name_sun_def flush_switch_def)
    show ?thesis unfolding b
    proof (rule conjI [OF sun [of "sata_command_sun abi 0xE7"] linux])
      show "\<exists>u. sata_command_sun abi 0xE7 = Inr u \<and> sun_block ([0x85, 0x06, 0x20] @ zeros 11 @ [0xE7, 0x00]) u"
        using assms(3,4) by (intro sata_command_sun_ok)
    qed (use 3 len in \<open>auto simp: drive_flush_cache_sun_def flush_switch_def drive_sata_flush_cache_sun_def
        drive_flush_cache_def drive_sata_flush_cache_def zeros_def numeral_eq_Suc\<close>)
  qed
qed

definition demo_abi :: sun_abi where
  "demo_abi = \<lparr>CDB_GROUP1 = 10, CDB_GROUP4 = 16, opaque_size = 16, USCSI_READ = 8, USCSI_ISOLATE = 2, USCSI_RQENABLE = 0x10000\<rparr>"

theorem flush_by_platform_witness:
  "\<exists>u. drive_flush_cache_sun demo_abi (\<lambda>fd u. (-1, 5)) (\<lambda>_. ''I/O error'') 3 IOB_SATA_FLUSH_CACHE
      = Inr ([u], [''sata flush cache failed (I/O error)'']) \<and> uscsi_cdb u ! 14 = 0xE7"
proof -
  have a: "CDB_GROUP1 demo_abi = 10" "CDB_GROUP4 demo_abi = 16" "16 \<le> opaque_size demo_abi" by (simp_all add: demo_abi_def)
  have t: "IOB_SATA_FLUSH_CACHE \<in> {IOB_SYNC_CACHE_16, IOB_SYNC_CACHE_10, IOB_SATA_FLUSH_CACHE}" by simp
  from flush_by_platform [OF t a, of "\<lambda>_. ''I/O error''" 3] obtain u where u: "sun_block (flush_block_sun IOB_SATA_FLUSH_CACHE) u"
    "\<forall>ioc. drive_flush_cache_sun demo_abi ioc (\<lambda>_. ''I/O error'') 3 IOB_SATA_FLUSH_CACHE = Inr ([u], if fst (ioc 3 u) < 0
       then [flush_name_sun IOB_SATA_FLUSH_CACHE @ '' failed ('' @ ''I/O error'' @ '')''] else [])" by blast
  have "uscsi_cdb u ! 14 = 0xE7" using u(1) by (auto simp: sun_block_def flush_block_sun_def flush_switch_def zeros_def numeral_eq_Suc)
  then show ?thesis using spec [OF u(2), of "\<lambda>fd u. (-1, 5)"] by (intro exI [of _ u]) (simp add: flush_name_sun_def flush_switch_def)
qed

end
