(* ===== verification/Gate.thy ===== *)
theory Gate
  imports Prelude
begin

text \<open>
  A start gate: a parent creates its children, gathers one post of \<open>stop\<close> from each, holds, posts \<open>start\<close> to each and
  collects a second post of \<open>stop\<close> from each. \<open>iofill\<close> has two layers of them: \<open>runtest\<close> with its files, and each file
  with its I/O threads. The contract is stated once, as a locale over any step relation that moves along the gate.
\<close>

section \<open>The protocol\<close>

datatype stage = Unborn | Arriving | Ready | Inside | Left

datatype pstage = PCreate nat | PGather nat | PHold | PRelease nat | PCollect nat | PDone

text \<open>A child: its stage and its two semaphores, \<open>start\<close> and \<open>stop\<close>.\<close>

type_synonym kid = "stage \<times> nat \<times> nat"

inductive kid_move :: "kid \<Rightarrow> kid \<Rightarrow> bool" where
  "kid_move x x"
| "kid_move (Arriving, a, b) (Ready, a, Suc b)"
| "kid_move (Ready, Suc a, b) (Inside, a, b)"
| "kid_move (Inside, a, b) (Left, a, Suc b)"

inductive_cases kid_moveE: "kid_move (p, a, b) x"

inductive gate_move :: "pstage \<times> kid list \<Rightarrow> pstage \<times> kid list \<Rightarrow> bool" where
  gm_kid: "j < length ks \<Longrightarrow> kid_move (ks ! j) x \<Longrightarrow> gate_move (p, ks) (p, ks[j := x])"
| gm_create: "k < length ks \<Longrightarrow> gate_move (PCreate k, ks) (PCreate (Suc k), ks[k := (Arriving, snd (ks ! k))])"
| gm_created: "\<not> k < length ks \<Longrightarrow> gate_move (PCreate k, ks) (PGather 0, ks)"
| gm_gather: "k < length ks \<Longrightarrow> ks ! k = (p, a, Suc b) \<Longrightarrow> gate_move (PGather k, ks) (PGather (Suc k), ks[k := (p, a, b)])"
| gm_gathered: "\<not> k < length ks \<Longrightarrow> gate_move (PGather k, ks) (PHold, ks)"
| gm_open: "gate_move (PHold, ks) (PRelease 0, ks)"
| gm_release: "k < length ks \<Longrightarrow> ks ! k = (p, a, b) \<Longrightarrow> gate_move (PRelease k, ks) (PRelease (Suc k), ks[k := (p, Suc a, b)])"
| gm_released: "\<not> k < length ks \<Longrightarrow> gate_move (PRelease k, ks) (PCollect 0, ks)"
| gm_collect: "k < length ks \<Longrightarrow> ks ! k = (p, a, Suc b) \<Longrightarrow> gate_move (PCollect k, ks) (PCollect (Suc k), ks[k := (p, a, b)])"
| gm_collected: "\<not> k < length ks \<Longrightarrow> gate_move (PCollect k, ks) (PDone, ks)"
| gm_same: "gate_move (p, ks) (p, ks)"

section \<open>Where the children can be\<close>

definition early_kid :: "kid \<Rightarrow> bool" where
  "early_kid x \<longleftrightarrow> x = (Arriving, 0, 0) \<or> x = (Ready, 0, 1)"

definition let_in :: "kid \<Rightarrow> bool" where
  "let_in x \<longleftrightarrow> x = (Ready, 1, 0) \<or> x = (Inside, 0, 0) \<or> x = (Left, 0, 1)"

fun kid_ok :: "pstage \<Rightarrow> nat \<Rightarrow> kid \<Rightarrow> bool" where
  "kid_ok (PCreate k) j x = (if j < k then early_kid x else x = (Unborn, 0, 0))"
| "kid_ok (PGather k) j x = (if j < k then x = (Ready, 0, 0) else early_kid x)"
| "kid_ok PHold j x = (x = (Ready, 0, 0))"
| "kid_ok (PRelease k) j x = (if j < k then let_in x else x = (Ready, 0, 0))"
| "kid_ok (PCollect k) j x = (if j < k then x = (Left, 0, 0) else let_in x)"
| "kid_ok PDone j x = (x = (Left, 0, 0))"

definition gate_ok :: "pstage \<Rightarrow> kid list \<Rightarrow> bool" where
  "gate_ok p ks \<longleftrightarrow> (\<forall>j < length ks. kid_ok p j (ks ! j))"

lemma kid_move_ok: "kid_move x y \<Longrightarrow> kid_ok p j x \<Longrightarrow> kid_ok p j y"
  by (cases p) (auto elim: kid_move.cases simp: early_kid_def let_in_def split: if_splits)

text \<open>A move of the parent past its k-th child.\<close>

lemma gate_pass:
  assumes "gate_ok p ks" "kid_ok p k (ks ! k) \<longrightarrow> kid_ok p' k x"
    and "\<And>j y. j \<noteq> k \<Longrightarrow> kid_ok p j y \<Longrightarrow> kid_ok p' j y"
  shows "gate_ok p' (ks[k := x])"
  unfolding gate_ok_def
proof (intro allI impI)
  fix j assume j: "j < length (ks[k := x])"
  then have "kid_ok p j (ks ! j)" using assms(1) by (simp add: gate_ok_def)
  then show "kid_ok p' j (ks[k := x] ! j)" using assms(2,3) j by (cases "j = k") auto
qed

lemma gate_next:
  assumes "gate_ok p ks" "\<And>j y. j < length ks \<Longrightarrow> kid_ok p j y \<Longrightarrow> kid_ok p' j y"
  shows "gate_ok p' ks"
  using assms by (simp add: gate_ok_def)

lemma gate_move_ok:
  assumes "gate_move (p, ks) (p', ks')" "gate_ok p ks"
  shows "gate_ok p' ks'"
  using assms(1)
proof cases
  case (gm_kid j x)
  then have "kid_ok p j (ks ! j) \<longrightarrow> kid_ok p j x" using kid_move_ok by blast
  then show ?thesis using gm_kid gate_pass [OF assms(2)] by simp
next
  case (gm_create k)
  show ?thesis using gate_pass [OF assms(2), of k p' "(Arriving, snd (ks ! k))"] gm_create
    by (auto simp: early_kid_def less_Suc_eq split: if_splits)
next
  case (gm_gather k q a b)
  show ?thesis using gate_pass [OF assms(2), of k p' "(q, a, b)"] gm_gather
    by (auto simp: early_kid_def less_Suc_eq split: if_splits)
next
  case (gm_release k q a b)
  show ?thesis using gate_pass [OF assms(2), of k p' "(q, Suc a, b)"] gm_release
    by (auto simp: let_in_def less_Suc_eq split: if_splits)
next
  case (gm_collect k q a b)
  show ?thesis using gate_pass [OF assms(2), of k p' "(q, a, b)"] gm_collect
    by (auto simp: let_in_def less_Suc_eq split: if_splits)
next
  case gm_same
  with assms(2) show ?thesis by simp
qed (simp_all, (rule gate_next [OF assms(2)]; simp split: if_splits)+)

lemma gate_move_length: "gate_move (p, ks) (p', ks') \<Longrightarrow> length ks' = length ks"
  by (auto elim: gate_move.cases)

text \<open>Who waits for a semaphore of the gate.\<close>

fun parent_waits :: "pstage \<Rightarrow> kid list \<Rightarrow> bool" where
  "parent_waits (PGather k) ks = (k < length ks \<and> snd (snd (ks ! k)) = 0)"
| "parent_waits (PCollect k) ks = (k < length ks \<and> snd (snd (ks ! k)) = 0)"
| "parent_waits p ks = False"

fun awaited :: "pstage \<Rightarrow> nat" where
  "awaited (PGather k) = k"
| "awaited (PCollect k) = k"
| "awaited p = 0"

fun kid_active :: "kid \<Rightarrow> bool" where
  "kid_active (Arriving, a, b) = True"
| "kid_active (Inside, a, b) = True"
| "kid_active (Ready, a, b) = (a \<noteq> 0)"
| "kid_active (q, a, b) = False"

lemma awaited_active:
  assumes "gate_ok p ks" "parent_waits p ks"
  shows "awaited p < length ks" "kid_active (ks ! awaited p)"
proof -
  from assms(2) consider k where "p = PGather k" "k < length ks" "snd (snd (ks ! k)) = 0"
    | k where "p = PCollect k" "k < length ks" "snd (snd (ks ! k)) = 0" by (cases p) auto
  then have "awaited p < length ks \<and> kid_active (ks ! awaited p)"
  proof cases
    case 1
    with assms(1) have "early_kid (ks ! k)" by (force simp: gate_ok_def)
    with 1 show ?thesis by (auto simp: early_kid_def)
  next
    case 2
    with assms(1) have "let_in (ks ! k)" by (force simp: gate_ok_def)
    with 2 show ?thesis by (auto simp: let_in_def)
  qed
  then show "awaited p < length ks" "kid_active (ks ! awaited p)" by blast+
qed

section \<open>The contract\<close>

text \<open>
  A system keeps a gate when each of its steps, from a state of its own invariant, is a move of the gate or leaves it alone.
\<close>

locale gate =
  fixes step :: "'s \<Rightarrow> 's \<Rightarrow> bool" and good :: "'s \<Rightarrow> bool"
    and parent :: "'s \<Rightarrow> pstage" and kids :: "'s \<Rightarrow> kid list"
  assumes good_step: "step s s' \<Longrightarrow> good s \<Longrightarrow> good s'"
    and gate_step: "step s s' \<Longrightarrow> good s \<Longrightarrow> gate_move (parent s, kids s) (parent s', kids s')"
begin

lemma gate_reach:
  assumes "rtranclp step s s'" "good s" "gate_ok (parent s) (kids s)"
  shows "good s' \<and> gate_ok (parent s') (kids s')"
  using assms(1)
proof (induction rule: rtranclp_induct)
  case base
  with assms(2,3) show ?case by blast
next
  case (step y z)
  then show ?case using good_step [OF step.hyps(2)] gate_move_ok [OF gate_step [OF step.hyps(2)]] by blast
qed

lemma done_all_left:
  assumes "rtranclp step s s'" "good s" "gate_ok (parent s) (kids s)" "parent s' = PDone" "j < length (kids s')"
  shows "kids s' ! j = (Left, 0, 0)"
  using gate_reach [OF assms(1-3)] assms(4,5) by (simp add: gate_ok_def)

lemma waiting_has_active:
  assumes "rtranclp step s s'" "good s" "gate_ok (parent s) (kids s)" "parent_waits (parent s') (kids s')"
  shows "\<exists>j < length (kids s'). kid_active (kids s' ! j)"
  using awaited_active [OF _ assms(4)] gate_reach [OF assms(1-3)] by blast

end

text \<open>Before the gate opens no child is inside.\<close>

fun shut :: "pstage \<Rightarrow> bool" where
  "shut (PCreate k) = True"
| "shut (PGather k) = True"
| "shut PHold = True"
| "shut p = False"

lemma shut_outside: "gate_ok p ks \<Longrightarrow> shut p \<Longrightarrow> j < length ks \<Longrightarrow> fst (ks ! j) \<in> {Unborn, Arriving, Ready}"
  by (cases p) (auto simp: gate_ok_def early_kid_def split: if_splits)

end
