(* ===== verification/IobStats.thy ===== *)
theory IobStats
  imports IobLib
begin

text \<open>
  \<open>lib/iob_stats.c\<close>: the table of detailed I/O records that all threads share, and its two reports. A
  report is modelled by the values each printed line carries, in order; column widths and the
  heading are not.
\<close>

section \<open>Records of single I/Os\<close>

definition MAX_OPTYPES :: nat where [simp]: "MAX_OPTYPES = 22"
definition N_OPTYPES :: nat where [simp]: "N_OPTYPES = 2"
definition N_STATTYPES :: nat where [simp]: "N_STATTYPES = 8"
definition READ :: int where [simp]: "READ = 0"
definition WRITE :: int where [simp]: "WRITE = 1"
definition FLUSH :: int where [simp]: "FLUSH = 2"
definition POSTFLUSH :: int where [simp]: "POSTFLUSH = 3"
definition SLEEP :: int where [simp]: "SLEEP = 15"

definition IOD_LONG :: u16 where [simp]: "IOD_LONG = 0x01"
definition IOD_LONG_LONG :: u16 where [simp]: "IOD_LONG_LONG = 0x02"
definition IOD_RECOVERED :: u16 where [simp]: "IOD_RECOVERED = 0x04"
definition IOD_ERROR :: u16 where [simp]: "IOD_ERROR = 0x08"
definition IOD_RETRY :: u16 where [simp]: "IOD_RETRY = 0x10"
definition IOD_STATE :: u16 where [simp]: "IOD_STATE = 0x20"

record iodet =
  d_start :: u64
  d_end :: u64
  d_wcstart :: u64
  d_offset :: u64
  d_latency :: u64
  d_ionum :: u32
  d_size :: u32
  d_seconds :: u32
  d_fplmode :: u32
  d_wcycle :: u16
  d_flag :: u16
  d_type :: u16
  d_dtype :: u16
  d_fid :: u16
  d_tid :: u16
  d_io1 :: u16
  d_io2 :: u16
  d_io3 :: u16
  d_io4 :: u16
  d_wmask :: u64

definition zero_iodet :: iodet where
  "zero_iodet = \<lparr>d_start = 0, d_end = 0, d_wcstart = 0, d_offset = 0, d_latency = 0, d_ionum = 0,
     d_size = 0, d_seconds = 0, d_fplmode = 0, d_wcycle = 0, d_flag = 0, d_type = 0, d_dtype = 0,
     d_fid = 0, d_tid = 0, d_io1 = 0, d_io2 = 0, d_io3 = 0, d_io4 = 0, d_wmask = 0\<rparr>"

definition typestr :: "string list" where
  "typestr = [''RD'', ''WR'', ''FL'', ''PF'', ''TR'', ''RF'', ''FR'', ''PW'', ''RR'', ''RK'', ''RI'',
     ''CL'', ''RE'', ''PE'', ''SR'', ''SL'', ''UM'', ''SI'', ''WS'', ''WF'', ''SW'', ''PS'']"

section \<open>The table\<close>

text \<open>
  \<open>cur_iodet\<close> counts every record offered, \<open>niodet\<close> is the number of slots the code believes it has,
  and \<open>details\<close> holds the slots that fit the memory it got. A slot takes 88 bytes (five 64-bit,
  four 32-bit and ten 16-bit members, four bytes of padding, one more 64-bit member).
\<close>

record dtable =
  cur_iodet :: u64
  niodet :: u64
  details :: "iodet list"

definition sizeof_iodet :: nat where [simp]: "sizeof_iodet = 88"

definition empty_dtable :: dtable where
  "empty_dtable = \<lparr>cur_iodet = 0, niodet = 0, details = []\<rparr>"

text \<open>The product is a \<open>size_t\<close>, but \<open>iob_malloc\<close> takes an \<open>int\<close>.\<close>

definition details_bytes :: "int \<Rightarrow> int" where
  "details_bytes maxiodet =
     int_of_u32 (ucast (u64_of_int maxiodet * of_nat sizeof_iodet))"

definition iob_details_init :: "libstate \<Rightarrow> int \<Rightarrow> dtable \<Rightarrow> dtable res" where
  "iob_details_init lib maxiodet t =
     (if maxiodet \<noteq> 0 then
        bind_res (iob_malloc lib (details_bytes maxiodet)) (\<lambda>mem.
          Inr (t\<lparr>details := replicate (length mem div sizeof_iodet) zero_iodet,
                 niodet := u64_of_int maxiodet\<rparr>))
      else Inr t)"

definition iob_details_reset :: "bool \<Rightarrow> dtable \<Rightarrow> dtable res" where
  "iob_details_reset clear t =
     (if clear \<and> length (details t) < unat (niodet t) then Inl OutOfBounds
      else Inr (t\<lparr>details := (if clear then replicate (unat (niodet t)) zero_iodet
                                @ drop (unat (niodet t)) (details t) else details t),
                  cur_iodet := 0\<rparr>))"

definition take_slot :: "dtable \<Rightarrow> u64 \<times> dtable" where
  "take_slot t = (let (nextdet, c) = fetch_and_add (cur_iodet t) 1 in (nextdet, t\<lparr>cur_iodet := c\<rparr>))"

definition iob_details_add :: "iodet \<Rightarrow> dtable \<Rightarrow> (iodet \<times> dtable) res" where
  "iob_details_add idp t =
     (let (nextdet, t1) = take_slot t in
      if nextdet < niodet t1 then
        let idp' = idp\<lparr>d_latency := d_end idp - d_start idp\<rparr>; i = unat nextdet
        in if i < length (details t1)
           then Inr (idp', t1\<lparr>details := (details t1)[i := idp']\<rparr>) else Inl OutOfBounds
      else Inr (idp, t1))"

interpretation slots: ticket_counter take_slot cur_iodet
  by unfold_locales (simp_all add: take_slot_def fetch_and_add_def)

section \<open>The listing of details\<close>

definition NBKTS :: nat where [simp]: "NBKTS = 6"

definition latbkts :: "u64 list" where
  "latbkts = [500000, 1000000, 2000000, 5000000, 10000000, 10000000000]"

definition latlabels :: "string list" where
  "latlabels = [''  0-500us'', ''500us-1ms'', ''  1ms-2ms'', ''  2ms-5ms'', '' 5ms-10ms'', ''over 10ms'']"

fun latb_scan :: "u64 \<Rightarrow> nat \<Rightarrow> nat \<Rightarrow> nat" where
  "latb_scan lat 0 latb = latb"
| "latb_scan lat (Suc left) latb =
     (if lat < latbkts ! latb then latb else latb_scan lat left (Suc latb))"

definition lat_band :: "u64 \<Rightarrow> nat" where
  "lat_band lat = latb_scan lat (NBKTS - 1) 0"

text \<open>One printed line. The cycle time is printed as seconds, milli-, micro- and nanoseconds.\<close>

record detail_row =
  r_flags :: string
  r_det :: iodet
  r_typestr :: string
  r_dtype :: string
  r_latency_us :: u64
  r_cycle :: "u64 \<times> u64 \<times> u64 \<times> u64"
  r_delta :: int
  r_lpn :: "(u64 \<times> string) option"
  r_chans :: "(int \<times> int) list"

definition split_ns :: "u64 \<Rightarrow> u64 \<times> u64 \<times> u64 \<times> u64" where
  "split_ns coff = (coff div IOB_NSEC_TO_SEC, coff div 1000000 mod 1000, coff div 1000 mod 1000,
                    coff mod 1000)"

definition flags4 :: "u16 \<Rightarrow> string" where
  "flags4 flag =
     [if flag AND IOD_RETRY \<noteq> 0 then CHR ''R'' else CHR '' '',
      if flag AND IOD_LONG_LONG \<noteq> 0 then CHR ''L'' else CHR '' '',
      if flag AND IOD_ERROR \<noteq> 0 then CHR ''E'' else CHR '' '',
      if flag AND IOD_RECOVERED \<noteq> 0 then CHR ''R'' else CHR '' '']"

text \<open>
  The channel and bank of a page number: \<open>(int)(pn % ochan)\<close> and \<open>(int)(pn % (ochan * banks)) / ochan\<close>;
  the operands are converted to 64 bits unsigned, the last division is signed.
\<close>

definition chan_bank :: "u64 \<Rightarrow> int \<Rightarrow> int \<Rightarrow> (int \<times> int) res" where
  "chan_bank pn ochan banks =
     (if u64_of_int ochan = 0 \<or> u64_of_int (ochan * banks) = 0 then Inl DivByZero
      else Inr (int_of_u32 (ucast (pn mod u64_of_int ochan)),
                int_of_u32 (ucast (pn mod u64_of_int (ochan * banks))) sdiv ochan))"

definition chan_list :: "int \<Rightarrow> int \<Rightarrow> u64 \<Rightarrow> (int \<times> int) list res" where
  "chan_list channels banks offset =
     bind_res (chan_bank (offset div 4096) (channels AND 0xff) banks) (\<lambda>c4.
     bind_res (if channels AND 0xff00 \<noteq> 0
               then bind_res (chan_bank (offset div 8192) (drop_bit 8 channels AND 0xff) banks)
                      (\<lambda>c8. Inr [c8])
               else Inr []) (\<lambda>c8s.
     bind_res (if channels AND 0xff0000 \<noteq> 0
               then bind_res (chan_bank (offset div 16384) (drop_bit 16 channels) banks)
                      (\<lambda>c16. Inr [c16])
               else Inr []) (\<lambda>c16s. Inr (c4 # c8s @ c16s))))"

definition type_name :: "iodet \<Rightarrow> string res" where
  "type_name d = (if unat (d_type d) < length typestr then Inr (typestr ! unat (d_type d))
                  else Inl OutOfBounds)"

definition dtype_col :: "iodet \<Rightarrow> string" where
  "dtype_col d = (if uint (d_type d) = WRITE then iob_dttochr (uint (d_dtype d)) else '' '')"

definition next_delta :: "u64 \<Rightarrow> int \<Rightarrow> iodet \<Rightarrow> int" where
  "next_delta lastend delta d = (if lastend \<noteq> 0 then sint (d_end d - lastend) else delta)"

definition output_row :: "int \<Rightarrow> int \<Rightarrow> int \<Rightarrow> int \<Rightarrow> iodet \<Rightarrow> detail_row res" where
  "output_row channels banks pgsize delta d =
     bind_res (type_name d) (\<lambda>ty.
     let row = \<lparr>r_flags = flags4 (d_flag d), r_det = d, r_typestr = ty, r_dtype = dtype_col d,
                r_latency_us = d_latency d div 1000, r_cycle = split_ns (d_end d - d_wcstart d),
                r_delta = delta, r_lpn = None, r_chans = []\<rparr>
     in if channels \<noteq> 0 then
          if u64_of_int pgsize = 0 then Inl DivByZero
          else bind_res (chan_list channels banks (d_offset d)) (\<lambda>cs.
            Inr (row\<lparr>r_lpn := Some (d_offset d div u64_of_int pgsize, latlabels ! lat_band (d_latency d)),
                     r_chans := cs\<rparr>))
        else Inr row)"

text \<open>
  The loop over the slots in use: \<open>lastend\<close>, \<open>delta\<close> and \<open>longlat\<close> carry over from line to line; a line
  whose latency tops all before it is also logged.
\<close>

fun output_rows ::
    "int \<Rightarrow> int \<Rightarrow> int \<Rightarrow> iodet list \<Rightarrow> u64 \<Rightarrow> int \<Rightarrow> u64
       \<Rightarrow> (detail_row list \<times> detail_row list) res" where
  "output_rows channels banks pgsize [] lastend delta longlat = Inr ([], [])"
| "output_rows channels banks pgsize (d # ds) lastend delta longlat =
     (let delta' = next_delta lastend delta d in
      bind_res (output_row channels banks pgsize delta' d) (\<lambda>row.
      bind_res (output_rows channels banks pgsize ds (d_end d) delta'
                  (if longlat < d_latency d then d_latency d else longlat)) (\<lambda>(rows, longs).
        Inr (row # rows, (if longlat < d_latency d then row # longs else longs)))))"

definition used_slots :: "dtable \<Rightarrow> nat" where
  "used_slots t = unat (if niodet t < cur_iodet t then niodet t else cur_iodet t)"

definition iob_details_output ::
    "dtable \<Rightarrow> bool \<Rightarrow> int \<Rightarrow> int \<Rightarrow> int \<Rightarrow> (detail_row list \<times> detail_row list) res" where
  "iob_details_output t infolog channels banks pgsize =
     (if length (details t) < used_slots t then Inl OutOfBounds
      else bind_res (output_rows channels banks pgsize (take (used_slots t) (details t)) 0 0 0)
             (\<lambda>(rows, longs). Inr (rows, if infolog then longs else [])))"

section \<open>The listing of one write cycle\<close>

definition modestr :: "string list" where
  "modestr = ['' None'', '' Read'', ''Write'', ''RdLim'', ''RdRec'', ''RdBck'']"

definition flags5 :: "u16 \<Rightarrow> string" where
  "flags5 flag =
     (if flag AND IOD_STATE \<noteq> 0 then
        if flag AND IOD_LONG_LONG \<noteq> 0 then
          if flag AND IOD_RECOVERED \<noteq> 0 then ''  LRS'' else ''   LS''
        else if flag AND IOD_RECOVERED \<noteq> 0 then ''   RS'' else ''    S''
      else if flag AND IOD_LONG_LONG \<noteq> 0 then
        if flag AND IOD_RECOVERED \<noteq> 0 then ''   LR'' else ''    L''
      else if flag AND IOD_RECOVERED \<noteq> 0 then ''    R'' else ''     '')"

definition multi_row :: "int \<Rightarrow> int \<Rightarrow> int \<Rightarrow> int \<Rightarrow> iodet \<Rightarrow> (string \<times> detail_row) res" where
  "multi_row channels banks pgsize delta d =
     (if u64_of_int pgsize = 0 then Inl DivByZero
      else let lpn = d_offset d div u64_of_int pgsize in
        bind_res (chan_bank lpn channels banks) (\<lambda>cb.
        if length modestr \<le> unat (d_fplmode d) then Inl OutOfBounds
        else bind_res (type_name d) (\<lambda>ty.
          Inr (modestr ! unat (d_fplmode d),
            \<lparr>r_flags = flags5 (d_flag d), r_det = d, r_typestr = ty, r_dtype = dtype_col d,
             r_latency_us = d_latency d div 1000, r_cycle = split_ns (d_end d - d_wcstart d),
             r_delta = delta, r_lpn = Some (lpn, latlabels ! lat_band (d_latency d)),
             r_chans = [cb]\<rparr>))))"

fun multi_rows ::
    "int \<Rightarrow> int \<Rightarrow> int \<Rightarrow> int \<Rightarrow> iodet list \<Rightarrow> u64 \<Rightarrow> int \<Rightarrow> u64
       \<Rightarrow> ((string \<times> detail_row) list \<times> u64) res" where
  "multi_rows wcycle channels banks pgsize [] lastend delta i = Inr ([], i)"
| "multi_rows wcycle channels banks pgsize (d # ds) lastend delta i =
     (if uint (d_wcycle d) \<noteq> wcycle then Inr ([], i)
      else let delta' = next_delta lastend delta d in
        bind_res (multi_row channels banks pgsize delta' d) (\<lambda>row.
        bind_res (multi_rows wcycle channels banks pgsize ds (d_end d) delta' (i + 1))
          (\<lambda>(rows, k). Inr (row # rows, k))))"

definition iob_details_multi ::
    "dtable \<Rightarrow> u64 \<Rightarrow> int \<Rightarrow> int \<Rightarrow> int \<Rightarrow> int \<Rightarrow> ((string \<times> detail_row) list \<times> u64) res" where
  "iob_details_multi t start_iodet wcycle channels banks pgsize =
     (if length (details t) < used_slots t then Inl OutOfBounds
      else multi_rows wcycle channels banks pgsize
             (drop (unat start_iodet) (take (used_slots t) (details t))) 0 0 start_iodet)"

section \<open>Lemmas\<close>

definition stamped :: "iodet \<Rightarrow> iodet" where
  "stamped d = d\<lparr>d_latency := d_end d - d_start d\<rparr>"

text \<open>A sequence of records offered to the table, by whichever threads.\<close>

definition add_all :: "iodet list \<Rightarrow> dtable \<Rightarrow> dtable res" where
  "add_all = loop_res (\<lambda>d t. bind_res (iob_details_add d t) (\<lambda>(_, t'). Inr t'))"

lemma details_bytes_small:
  assumes "0 < n" "n * 88 < 2 ^ 31"
  shows "details_bytes n = n * 88" and "unat (u64_of_int (n * 88)) = nat (n * 88)"
proof -
  have mult: "u64_of_int n * of_nat sizeof_iodet = u64_of_int (n * 88)" by simp
  have "details_bytes n = int_of_u32 (ucast (u64_of_int (n * 88)))"
    by (simp only: details_bytes_def mult)
  also have "\<dots> = int_of_u32 (u32_of_int (n * 88))"
    using assms by (simp only: unsigned_of_int) (simp add: take_bit_int_eq_self)
  also have "\<dots> = n * 88"
    using assms by (simp only: signed_of_int) (simp add: signed_take_bit_int_eq_self)
  finally show "details_bytes n = n * 88" .
  show "unat (u64_of_int (n * 88)) = nat (n * 88)"
    using assms by (simp only: unsigned_of_int) (simp add: take_bit_int_eq_self)
qed

lemma details_init_ok:
  assumes "0 < n" "n * 88 < 2 ^ 31" "n * 88 \<le> int (heap_limit lib)"
  shows "iob_details_init lib n empty_dtable =
    Inr \<lparr>cur_iodet = 0, niodet = u64_of_int n, details = replicate (nat n) zero_iodet\<rparr>"
proof -
  note bytes = details_bytes_small [OF assms(1,2)]
  have "iob_malloc lib (n * 88) = Inr (replicate (nat (n * 88)) 0)"
    using assms(1,3) bytes(2) by (simp add: iob_malloc_def Let_def)
  moreover have "nat (n * 88) div 88 = nat n" using assms(1) by (simp add: nat_mult_distrib)
  ultimately show ?thesis
    using assms(1) by (simp add: iob_details_init_def bytes(1) empty_dtable_def)
qed

lemma details_init_short:
  assumes "0 < n" "n * 88 < 2 ^ 31" "int (heap_limit lib) < n * 88"
  shows "iob_details_init lib n empty_dtable \<noteq> Inr t"
proof -
  note bytes = details_bytes_small [OF assms(1,2)]
  have "iob_malloc lib (n * 88) \<noteq> Inr x" for x
    using assms(1,3) bytes(2) by (auto simp: iob_malloc_def Let_def)
  then show ?thesis
    using assms(1) by (auto simp: iob_details_init_def bytes(1) empty_dtable_def bind_res_Inr_iff)
qed

lemma add_all_ok:
  assumes "length ds < 2 ^ 64" "n < 2 ^ 64"
  shows "\<exists>t. add_all ds \<lparr>cur_iodet = 0, niodet = of_nat n, details = replicate n zero_iodet\<rparr> = Inr t
    \<and> details t = map stamped (take n ds) @ replicate (n - length ds) zero_iodet
    \<and> niodet t = of_nat n \<and> cur_iodet t = of_nat (length ds)"
proof -
  let ?t0 = "\<lparr>cur_iodet = 0, niodet = of_nat n, details = replicate n zero_iodet\<rparr>"
  let ?I = "\<lambda>ys (t :: dtable). details t = map stamped (take n ys) @ replicate (n - length ys) zero_iodet
    \<and> niodet t = of_nat n \<and> cur_iodet t = (of_nat (length ys) :: u64)"
  have "\<exists>t. loop_res (\<lambda>d t. bind_res (iob_details_add d t) (\<lambda>(_, t'). Inr t')) ds ?t0 = Inr t \<and> ?I ds t"
  proof (rule loop_res_rule)
    fix ys d zs t assume split: "ds = ys @ d # zs" and I: "?I ys t"
    have len: "length ys < 2 ^ 64" using split assms(1) by simp
    have u: "unat (of_nat (length ys) :: u64) = length ys" "unat (of_nat n :: u64) = n"
      using len assms(2) by (simp_all add: unat_of_nat)
    show "\<exists>t'. bind_res (iob_details_add d t) (\<lambda>(_, t'). Inr t') = Inr t' \<and> ?I (ys @ [d]) t'"
    proof (cases "length ys < n")
      case True
      have "(map stamped ys @ replicate (n - length ys) zero_iodet)[length ys := stamped d]
          = map stamped (ys @ [d]) @ replicate (n - length (ys @ [d])) zero_iodet"
      proof -
        have "replicate (n - length ys) zero_iodet = zero_iodet # replicate (n - length (ys @ [d])) zero_iodet"
          using True by (simp flip: replicate_Suc add: Suc_diff_Suc)
        then show ?thesis by (simp add: list_update_append)
      qed
      moreover have "(of_nat (length ys) :: u64) < of_nat n" using True u by (simp add: word_less_nat_alt)
      ultimately show ?thesis using I True u
        by (simp add: iob_details_add_def take_slot_def fetch_and_add_def stamped_def Let_def)
    next
      case False
      then have "\<not> (of_nat (length ys) :: u64) < of_nat n" using u by (simp add: word_less_nat_alt)
      with I False show ?thesis
        by (simp add: iob_details_add_def take_slot_def fetch_and_add_def)
    qed
  qed simp
  then show ?thesis unfolding add_all_def .
qed

lemma latb_scan_spec:
  "latb + left = 5 \<Longrightarrow> (\<forall>k < latb. latbkts ! k \<le> lat) \<Longrightarrow>
   (\<forall>k < latb_scan lat left latb. latbkts ! k \<le> lat)
   \<and> latb_scan lat left latb \<le> 5
   \<and> (latb_scan lat left latb < 5 \<longrightarrow> lat < latbkts ! latb_scan lat left latb)"
proof (induction left arbitrary: latb)
  case (Suc left)
  show ?case
  proof (cases "lat < latbkts ! latb")
    case False
    with Suc.prems have "\<forall>k < Suc latb. latbkts ! k \<le> lat" by (auto simp: less_Suc_eq)
    from Suc.IH [OF _ this] Suc.prems(1) False show ?thesis by simp
  qed (use Suc.prems in simp)
qed simp

lemma split_ns_recombine:
  "case split_ns c of (s, ms, us, ns) \<Rightarrow>
     unat c = unat s * 10 ^ 9 + unat ms * 10 ^ 6 + unat us * 10 ^ 3 + unat ns
     \<and> unat ms < 1000 \<and> unat us < 1000 \<and> unat ns < 1000"
proof -
  have digits: "1000 * a + r = n \<Longrightarrow> 1000 * b + s = a \<Longrightarrow> 1000 * c + t = b \<Longrightarrow>
      n = c * 10 ^ 9 + t * 10 ^ 6 + s * 10 ^ 3 + r" for a b c n r s t :: nat by simp
  have "n div 1000000 = n div 1000 div 1000" "n div 1000000000 = n div 1000 div 1000 div 1000" for n :: nat
    by (simp_all add: div_mult2_eq [symmetric])
  then have "n = n div 1000000000 * 10 ^ 9 + n div 1000000 mod 1000 * 10 ^ 6 + n div 1000 mod 1000 * 10 ^ 3
      + n mod 1000" for n :: nat
    using digits [OF mult_div_mod_eq mult_div_mod_eq mult_div_mod_eq, of n] by simp
  then show ?thesis by (simp add: split_ns_def unat_div unat_mod)
qed

text \<open>The lines that high all earlier ones.\<close>

fun record_highs :: "u64 \<Rightarrow> iodet list \<Rightarrow> iodet list" where
  "record_highs high [] = []"
| "record_highs high (d # ds) =
     (if high < d_latency d then d # record_highs (d_latency d) ds else record_highs high ds)"

lemma output_row_det: "output_row ch bk pg dl d = Inr r \<Longrightarrow> r_det r = d \<and> r_delta r = dl"
  by (auto simp: output_row_def bind_res_Inr_iff Let_def split: if_splits)

lemma output_rows_spec:
  "output_rows ch bk pg ds lastend delta high = Inr (rows, longs) \<Longrightarrow>
   map r_det rows = ds \<and> map r_det longs = record_highs high ds"
proof (induction ds arbitrary: lastend delta high rows longs)
  case (Cons d ds)
  then show ?case
    by (auto simp: bind_res_Inr_iff Let_def dest: output_row_det split: prod.splits if_splits)
qed simp

lemma output_rows_total:
  assumes "\<forall>d \<in> set ds. unat (d_type d) < MAX_OPTYPES"
  shows "\<exists>r. output_rows 0 bk pg ds lastend delta high = Inr r"
  using assms
proof (induction ds arbitrary: lastend delta high)
  case (Cons d ds)
  have "\<exists>row. output_row 0 bk pg dl d = Inr row" for dl
    using Cons.prems by (auto simp: output_row_def type_name_def typestr_def Let_def)
  then obtain row where "output_row 0 bk pg (next_delta lastend delta d) d = Inr row" by blast
  moreover obtain r where "output_rows 0 bk pg ds (d_end d) (next_delta lastend delta d)
      (if high < d_latency d then d_latency d else high) = Inr r"
    using Cons by (meson list.set_intros(2))
  ultimately show ?case by (cases r) (simp add: Let_def)
qed simp

lemma multi_rows_spec:
  "multi_rows wc ch bk pg ds lastend delta i = Inr (rows, k) \<Longrightarrow>
   map (r_det \<circ> snd) rows = takeWhile (\<lambda>d. uint (d_wcycle d) = wc) ds
   \<and> k = i + of_nat (length rows)"
proof (induction ds arbitrary: lastend delta i rows k)
  case (Cons d ds)
  then show ?case
    by (force simp: bind_res_Inr_iff Let_def multi_row_def split: prod.splits if_splits)
qed simp

section \<open>Properties\<close>

text \<open>
  Property C20. A table for \<open>n\<close> records keeps the first \<open>n\<close> records offered, stamped with their latencies, in the order
  of the offers, and counts all of them; no offer is a memory error. This holds for every \<open>n\<close> whose
  table is smaller than 2 GB.
\<close>

theorem details_keep_first:
  assumes "0 < n" and "n * 88 < 2 ^ 31" and "n * 88 \<le> int (heap_limit lib)" and "length ds < 2 ^ 64"
  shows "\<exists>t0 t. iob_details_init lib n empty_dtable = Inr t0 \<and> add_all ds t0 = Inr t
    \<and> details t = map stamped (take (nat n) ds) @ replicate (nat n - length ds) zero_iodet
    \<and> unat (cur_iodet t) = length ds \<and> used_slots t = min (nat n) (length ds)"
proof -
  have n: "nat n < 2 ^ 64" "u64_of_int n = of_nat (nat n)" using assms(1,2) by auto
  from add_all_ok [OF assms(4) n(1)] obtain t where
    t: "add_all ds \<lparr>cur_iodet = 0, niodet = u64_of_int n, details = replicate (nat n) zero_iodet\<rparr> = Inr t"
      "details t = map stamped (take (nat n) ds) @ replicate (nat n - length ds) zero_iodet"
      "niodet t = of_nat (nat n)" "cur_iodet t = of_nat (length ds)"
    unfolding n(2) by blast
  have u: "unat (cur_iodet t) = length ds" "unat (niodet t) = nat n"
    unfolding t(3,4) using assms(4) n(1) by (simp_all add: unat_of_nat del: of_nat_nat)
  then have "used_slots t = min (nat n) (length ds)"
    by (simp add: used_slots_def word_less_nat_alt min_def)
  with t u details_init_ok [OF assms(1-3)] show ?thesis by blast
qed

theorem details_keep_first_witness:
  "\<exists>t0 t. iob_details_init demo_lib 2 empty_dtable = Inr t0
    \<and> add_all [zero_iodet, zero_iodet\<lparr>d_end := 7\<rparr>, zero_iodet] t0 = Inr t
    \<and> details t = map stamped (take (nat 2) [zero_iodet, zero_iodet\<lparr>d_end := 7\<rparr>, zero_iodet])
        @ replicate (nat 2 - length [zero_iodet, zero_iodet\<lparr>d_end := 7\<rparr>, zero_iodet]) zero_iodet
    \<and> unat (cur_iodet t) = length [zero_iodet, zero_iodet\<lparr>d_end := 7\<rparr>, zero_iodet]
    \<and> used_slots t = min (nat 2) (length [zero_iodet, zero_iodet\<lparr>d_end := 7\<rparr>, zero_iodet])"
  by (rule details_keep_first) (simp_all add: demo_lib_def iob_libinit_def)

text \<open>
  The size of the table is computed in 64 bits but passed on as an \<open>int\<close>: asking for 48,806,447 records
  allocates 40 bytes, the code still believes in all the slots, and the first record offered is
  written outside the allocation.
\<close>

theorem details_size_overflow:
  "\<exists>t. iob_details_init demo_lib 48806447 empty_dtable = Inr t \<and> unat (niodet t) = 48806447
     \<and> details t = [] \<and> iob_details_add d t = Inl OutOfBounds"
proof -
  have "details_bytes 48806447 = 40" by (simp add: details_bytes_def)
  then show ?thesis
    by (simp add: iob_details_init_def iob_malloc_def demo_lib_def iob_libinit_def empty_dtable_def
        iob_details_add_def take_slot_def fetch_and_add_def Let_def)
qed

text \<open>
  The latency label of a listed I/O is the first band whose upper limit is above the latency; the last
  band takes the rest, so the label index never leaves the table.
\<close>

theorem lat_band_first:
  "lat_band lat < NBKTS \<and> (\<forall>k < lat_band lat. latbkts ! k \<le> lat)
   \<and> (lat_band lat < NBKTS - 1 \<longrightarrow> lat < latbkts ! lat_band lat)"
  using latb_scan_spec [of 0 5 lat] by (simp add: lat_band_def)

theorem lat_band_first_witness: "(500000 :: u64) < latbkts ! 1"
proof -
  have "lat_band 500000 = 1" by code_simp
  with lat_band_first [of 500000] show ?thesis by simp
qed

text \<open>
  Without channel columns the listing of a table with known I/O types succeeds; it has one line per slot
  in use, in slot order, the logged lines are exactly those whose latency exceeds every earlier one,
  and a printed cycle time recombines to the nanoseconds it came from.
\<close>

theorem details_listing:
  assumes "used_slots t \<le> length (details t)"
    and "\<forall>d \<in> set (take (used_slots t) (details t)). unat (d_type d) < MAX_OPTYPES"
  shows "\<exists>rows longs. iob_details_output t True 0 banks pgsize = Inr (rows, longs)
    \<and> map r_det rows = take (used_slots t) (details t)
    \<and> map r_det longs = record_highs 0 (take (used_slots t) (details t))
    \<and> (\<forall>c. case split_ns c of (s, ms, us, ns) \<Rightarrow>
          unat c = unat s * 10 ^ 9 + unat ms * 10 ^ 6 + unat us * 10 ^ 3 + unat ns)"
proof -
  obtain r where r: "output_rows 0 banks pgsize (take (used_slots t) (details t)) 0 0 0 = Inr r"
    using output_rows_total [OF assms(2)] by blast
  obtain rows longs where rl: "r = (rows, longs)" by (cases r)
  have "iob_details_output t True 0 banks pgsize = Inr (rows, longs)"
    using assms(1) r rl by (simp add: iob_details_output_def)
  moreover have "case split_ns c of (s, ms, us, ns) \<Rightarrow>
      unat c = unat s * 10 ^ 9 + unat ms * 10 ^ 6 + unat us * 10 ^ 3 + unat ns" for c
    using split_ns_recombine [of c] by (simp add: case_prod_beta)
  ultimately show ?thesis using output_rows_spec [OF r [unfolded rl]] by blast
qed

theorem details_listing_witness:
  "\<exists>rows longs. iob_details_output (empty_dtable\<lparr>cur_iodet := 9, niodet := 1, details := [zero_iodet]\<rparr>) True 0 1 1
      = Inr (rows, longs) \<and> map r_det rows = [zero_iodet]"
proof -
  let ?t = "empty_dtable\<lparr>cur_iodet := 9, niodet := 1, details := [zero_iodet]\<rparr>"
  have u: "used_slots ?t = 1" by (simp add: used_slots_def)
  have "\<forall>d \<in> set (take (used_slots ?t) (details ?t)). unat (d_type d) < MAX_OPTYPES"
    unfolding u by (simp add: zero_iodet_def)
  from details_listing [OF _ this, of 1 1] show ?thesis unfolding u by auto
qed

text \<open>
  The listing of one write cycle prints exactly the records from the given slot on that belong to the
  cycle, up to the first that does not, and returns the slot to continue from.
\<close>

theorem multi_listing:
  assumes "iob_details_multi t start wcycle channels banks pgsize = Inr (rows, k)"
  shows "map (r_det \<circ> snd) rows
      = takeWhile (\<lambda>d. uint (d_wcycle d) = wcycle) (drop (unat start) (take (used_slots t) (details t)))
    \<and> k = start + of_nat (length rows)"
  using assms multi_rows_spec by (auto simp: iob_details_multi_def split: if_splits)

theorem multi_listing_witness:
  "\<exists>rows k. iob_details_multi (empty_dtable\<lparr>cur_iodet := 2, niodet := 2,
        details := [zero_iodet, zero_iodet\<lparr>d_wcycle := 1\<rparr>]\<rparr>) 0 0 4 2 4096 = Inr (rows, k)
     \<and> map (r_det \<circ> snd) rows = [zero_iodet]"
proof -
  let ?t = "empty_dtable\<lparr>cur_iodet := 2, niodet := 2, details := [zero_iodet, zero_iodet\<lparr>d_wcycle := 1\<rparr>]\<rparr>"
  have "\<exists>rk. iob_details_multi ?t 0 0 4 2 4096 = Inr rk"
    by (simp add: iob_details_multi_def used_slots_def zero_iodet_def multi_row_def chan_bank_def
        type_name_def typestr_def modestr_def Let_def)
  then obtain rows k where "iob_details_multi ?t 0 0 4 2 4096 = Inr (rows, k)" by auto
  moreover have "used_slots ?t = 2" by (simp add: used_slots_def)
  ultimately show ?thesis
    using multi_listing [of ?t 0 0 4 2 4096 rows k]
    by (intro exI [of _ rows] exI [of _ k]) (simp add: zero_iodet_def)
qed

text \<open>A table that has the slots it says it has takes any record.\<close>

definition table_ok :: "dtable \<Rightarrow> bool" where
  "table_ok dt \<longleftrightarrow> unat (niodet dt) \<le> length (details dt)"

lemma details_add_total:
  assumes "table_ok dt"
  shows "\<exists>d' dt'. iob_details_add d dt = Inr (d', dt') \<and> table_ok dt' \<and> d_size d' = d_size d
    \<and> d_start d' = d_start d \<and> d_end d' = d_end d"
proof -
  have "unat (cur_iodet dt) < length (details dt)" if "cur_iodet dt < niodet dt"
    using that assms by (simp add: table_ok_def word_less_nat_alt)
  then show ?thesis using assms
    by (auto simp: iob_details_add_def take_slot_def fetch_and_add_def Let_def table_ok_def)
qed

end
