(* ===== verification/FillTypes.thy ===== *)
theory FillTypes
  imports CLib IobStats
begin

text \<open>
  \<open>iofill/iofill.h\<close>: the parameters of a run, the requests, and the state of the I/O threads and of the
  file threads of \<open>iofill\<close>. Pointers between the structures become containment or indices: the request
  lives in its thread, \<open>streamhead\<close> is the index of a thread of the same file, and the threads of a
  file are a list. A \<open>FILE\<close> name is a string; a semaphore is its count.
\<close>

section \<open>Constants\<close>

definition NLATBKTS :: nat where [simp]: "NLATBKTS = 100000"
definition NSEC :: nat where [simp]: "NSEC = 20000"
definition LATDIV :: u64 where [simp]: "LATDIV = 10000"
definition IOB_MAXSEG :: nat where [simp]: "IOB_MAXSEG = 4"
definition SYNC_CACHE_16 :: int where [simp]: "SYNC_CACHE_16 = 0"
definition IOB_CACHE_LINE :: nat where [simp]: "IOB_CACHE_LINE = 128 div 8"
definition FLUSH_OFF :: int where [simp]: "FLUSH_OFF = 0"
definition FLUSH_AFT :: int where [simp]: "FLUSH_AFT = 1"
definition FLUSH_BEF :: int where [simp]: "FLUSH_BEF = 2"
definition FLUSH_SEG :: int where [simp]: "FLUSH_SEG = 3"
definition FLUSH_ONLY :: int where [simp]: "FLUSH_ONLY = 4"
definition PFLUSH_SLEEP :: int where [simp]: "PFLUSH_SLEEP = 1"
definition PFLUSH_READ :: int where [simp]: "PFLUSH_READ = 2"
definition PFLUSH_MIXED :: int where [simp]: "PFLUSH_MIXED = 3"
definition IOB_DIRECT :: int where [simp]: "IOB_DIRECT = 0x4000"
definition O_RDONLY :: int where [simp]: "O_RDONLY = 0"
definition O_RDWR :: int where [simp]: "O_RDWR = 2"
definition EFBIG :: int where [simp]: "EFBIG = 27"
definition ENOSPC :: int where [simp]: "ENOSPC = 28"

section \<open>Parameters\<close>

record cmdparams =
  readpct :: rat
  randseed :: u32
  seqflag :: int
  iosize :: int
  altsize :: int
  altcount :: u64
  nio :: u64
  nrep :: u64
  seekoff :: u64
  headersz :: u64
  skip :: int
  nthreads :: int
  streams :: int
  wroff :: u64
  minoff :: u64
  maxoff :: u64
  multiplier :: int
  partition :: int
  openflags :: int
  writeinject :: int
  writesize :: int
  segsize :: int
  nsegments :: int
  nsubseg :: int
  randinject :: int
  threadalign :: int
  flush_mode :: int
  flushcount :: int
  flushtype :: int
  preflushtype :: int
  postflushtype :: int
  flushalign :: int
  flushinterval :: u64
  preflushinterval :: u64
  postflushinterval :: u64
  injectinterval :: u64
  injectinterval_io :: u64
  iodetcnt :: u64
  uniform :: int
  iodettime :: u64
  nsleeptime :: u64
  recoverytime :: u64
  maxtime :: u64
  dynamicrecovery :: int
  datatype_of :: int
  dedupblks :: u64

section \<open>Requests and threads\<close>

record ioreq =
  detail :: iodet
  threadoff :: u64
  fd :: int
  error :: int
  syserr :: int
  rsize :: int
  readbp :: bytes
  writebp :: bytes

record iothread =
  iorp :: ioreq
  th_start :: nat
  th_stop :: nat
  iostart :: nat
  iostop :: nat
  params :: cmdparams
  threadid :: int
  th_align :: int
  th_fd :: int
  shared_area :: nat
  iocount :: u64
  nextbno :: u64
  streamhead :: nat
  writebuf :: bytes
  cursegoff :: "u64 list"
  segwrite :: "int list"
  nsegoffs :: int
  segofflist :: "int list"
  writenum :: int
  flushnum :: int
  pflushnum :: int
  recovered :: int
  rec_runlen :: int
  latbuckets :: "nat \<Rightarrow> nat \<Rightarrow> u64"
  totreads :: u64
  totwrites :: u64
  totflushes :: u64
  totpflushes :: u64
  totlat :: "nat \<Rightarrow> u64"
  totbytes :: "nat \<Rightarrow> u64"
  seconds :: "nat \<Rightarrow> int"
  nseconds :: nat
  nextsec :: u64
  starttime :: u64
  stoptime :: u64
  maxblks :: u64
  minblks :: u64
  rangeoff :: u64
  maxsegs :: u64

record fthread =
  ithreads :: "iothread list"
  f_start :: nat
  f_stop :: nat
  f_params :: cmdparams
  filename :: string
  fileno :: int
  iowait :: int
  shared_block :: nat
  thread_bno :: u64
  totalio :: u64
  f_latbuckets :: "nat \<Rightarrow> nat \<Rightarrow> u64"
  f_totreads :: u64
  f_totwrites :: u64
  f_totflushes :: u64
  f_totpflushes :: u64
  f_starttime :: u64
  f_stoptime :: u64
  endtime :: u64
  f_totlat :: "nat \<Rightarrow> u64"
  f_totbytes :: "nat \<Rightarrow> u64"

text \<open>
  What \<open>iob_malloc\<close> hands out is zeroed, so a fresh structure is the record of zeros; the sizes are those of the
  structures on 64-bit Linux.
\<close>

definition sizeof_iothread :: int where [simp]: "sizeof_iothread = 6480800"
definition sizeof_fthread :: int where [simp]: "sizeof_fthread = 6400576"
definition sizeof_ioreq :: int where [simp]: "sizeof_ioreq = 136"

definition zero_params :: cmdparams where
  "zero_params = \<lparr>readpct = 0, randseed = 0, seqflag = 0, iosize = 0, altsize = 0, altcount = 0,
     nio = 0, nrep = 0, seekoff = 0, headersz = 0, skip = 0, nthreads = 0, streams = 0, wroff = 0,
     minoff = 0, maxoff = 0, multiplier = 0, partition = 0, openflags = 0, writeinject = 0,
     writesize = 0, segsize = 0, nsegments = 0, nsubseg = 0, randinject = 0, threadalign = 0,
     flush_mode = 0, flushcount = 0, flushtype = 0, preflushtype = 0, postflushtype = 0,
     flushalign = 0, flushinterval = 0, preflushinterval = 0, postflushinterval = 0,
     injectinterval = 0, injectinterval_io = 0, iodetcnt = 0, uniform = 0, iodettime = 0,
     nsleeptime = 0, recoverytime = 0, maxtime = 0, dynamicrecovery = 0, datatype_of = 0,
     dedupblks = 0\<rparr>"

definition zero_ioreq :: ioreq where
  "zero_ioreq = \<lparr>detail = zero_iodet, threadoff = 0, fd = 0, error = 0, syserr = 0, rsize = 0,
     readbp = [], writebp = []\<rparr>"

definition zero_iothread :: iothread where
  "zero_iothread = \<lparr>iorp = zero_ioreq, th_start = 0, th_stop = 0, iostart = 0, iostop = 0,
     params = zero_params, threadid = 0, th_align = 0, th_fd = 0, shared_area = 0, iocount = 0,
     nextbno = 0, streamhead = 0, writebuf = [], cursegoff = replicate IOB_MAXSEG 0,
     segwrite = replicate IOB_MAXSEG 0, nsegoffs = 0, segofflist = [], writenum = 0, flushnum = 0,
     pflushnum = 0, recovered = 0, rec_runlen = 0, latbuckets = (\<lambda>_ _. 0), totreads = 0,
     totwrites = 0, totflushes = 0, totpflushes = 0, totlat = (\<lambda>_. 0), totbytes = (\<lambda>_. 0),
     seconds = (\<lambda>_. 0), nseconds = 0, nextsec = 0, starttime = 0, stoptime = 0, maxblks = 0,
     minblks = 0, rangeoff = 0, maxsegs = 0\<rparr>"

definition zero_fthread :: fthread where
  "zero_fthread = \<lparr>ithreads = [], f_start = 0, f_stop = 0, f_params = zero_params, filename = [],
     fileno = 0, iowait = 0, shared_block = 0, thread_bno = 0, totalio = 0,
     f_latbuckets = (\<lambda>_ _. 0), f_totreads = 0, f_totwrites = 0, f_totflushes = 0,
     f_totpflushes = 0, f_starttime = 0, f_stoptime = 0, endtime = 0, f_totlat = (\<lambda>_. 0),
     f_totbytes = (\<lambda>_. 0)\<rparr>"

end
