(* ===== verification/FillInit.thy ===== *)
theory FillInit
  imports FillTypes "HOL-Library.Multiset"
begin

text \<open>
  \<open>iofill/iof_init.c\<close>: the structures of a run, built in the order of the code. Files are created from
  the last to the first and pushed on the list, so the list ends up in the order of the command line; so do the
  threads of a file. What \<open>open\<close> answers is a parameter: the descriptor, negative for an error.
\<close>

type_synonym opener = "string \<Rightarrow> int \<Rightarrow> int \<Rightarrow> int"

section \<open>The order of the write-injection blocks\<close>

definition swap_at :: "nat \<Rightarrow> nat \<Rightarrow> int list \<Rightarrow> int list res" where
  "swap_at g1 g2 xs = (if g1 < length xs \<and> g2 < length xs
     then Inr (xs[g1 := xs ! g2, g2 := xs ! g1]) else Inl OutOfBounds)"

definition swap_groups :: "nat \<Rightarrow> nat \<Rightarrow> nat \<Rightarrow> int list \<Rightarrow> int list res" where
  "swap_groups g1 g2 gsize xs = loop_res (\<lambda>j. swap_at (g1 + j) (g2 + j)) [0 ..< gsize] xs"

text \<open>The body of the shuffle: two random groups exchange their contents.\<close>

definition shuffle_step :: "int \<Rightarrow> int \<Rightarrow> nat \<Rightarrow> int list \<times> u48 \<Rightarrow> (int list \<times> u48) res" where
  "shuffle_step nsubseg' gsize i = (\<lambda>(xs, x).
     (let (r1, x1) = lrand48 x; (r2, x2) = lrand48 x1 in
      if nsubseg' = 0 then Inl DivByZero
      else let g1 = (int r1 smod nsubseg') * gsize; g2 = (int r2 smod nsubseg') * gsize
        in bind_res (swap_groups (nat g1) (nat g2) (nat gsize) xs) (\<lambda>xs'. Inr (xs', x2))))"

definition init_segments :: "libstate \<Rightarrow> iothread \<Rightarrow> u48 \<Rightarrow> (iothread \<times> u48) res" where
  "init_segments lib tp x =
     (let p = params tp in
      bind_res (idiv (segsize p) (writesize p)) (\<lambda>n.
      bind_res (malloc_struct lib (4 * n)) (\<lambda>_.
      bind_res (idiv n (nsubseg p)) (\<lambda>gsize.
      bind_res (loop_res (shuffle_step (nsubseg p) gsize) [0 ..< 100] (map int [0 ..< nat n], x))
        (\<lambda>(xs, x'). Inr (tp\<lparr>nsegoffs := n, segwrite := replicate IOB_MAXSEG n,
                            segofflist := xs\<rparr>, x'))))))"

section \<open>Threads\<close>

text \<open>The range of blocks a thread works on, from its parameters.\<close>

definition set_range :: "iothread \<Rightarrow> iothread res" where
  "set_range tp =
     (let p = params tp; sz = u64_of_int (iosize p) in
      bind_res (udiv (minoff p) sz) (\<lambda>mn.
      bind_res (udiv (maxoff p) sz) (\<lambda>mx0.
      let mx1 = (if mx0 = 0 then 1 else mx0);
          mx = (if mx1 = mn then mn + 1 else mx1)
      in bind_res (udiv (maxoff p - minoff p) (u64_of_int (segsize p))) (\<lambda>sg.
         Inr (tp\<lparr>minblks := mn, maxblks := mx, rangeoff := (mx - mn) * sz,
                 maxsegs := (if sg = 0 then 1 else sg)\<rparr>)))))"

text \<open>The memory and the descriptor of a thread: the write buffer, and the request with its two buffers.\<close>

definition alloc_thread ::
    "libstate \<Rightarrow> opener \<Rightarrow> fthread \<Rightarrow> int \<Rightarrow> cmdparams \<Rightarrow> (bytes \<times> ioreq) res" where
  "alloc_thread lib opn ftp tid cp =
     bind_res (malloc_struct lib sizeof_iothread) (\<lambda>_.
     bind_res (iob_align_shmem lib (writesize cp)) (\<lambda>wbuf.
     let dsc = opn (filename ftp) (openflags cp) tid in
     if dsc < 0 then Inl (iob_errlog lib False (''iofill: can't open '' @ filename ftp))
     else bind_res (malloc_struct lib sizeof_ioreq) (\<lambda>_.
       bind_res (iob_align_shmem lib (iosize cp)) (\<lambda>rbp.
       bind_res (iob_align_shmem lib (iosize cp)) (\<lambda>wbp.
         Inr (wbuf, zero_ioreq\<lparr>threadoff := u64_of_int (tid * threadalign cp), readbp := rbp,
              writebp := wbp, fd := dsc,
              detail := zero_iodet\<lparr>d_fid := word_of_int (fileno ftp), d_tid := word_of_int tid\<rparr>\<rparr>))))))"

definition pick_seed :: "cmdparams \<Rightarrow> int \<Rightarrow> env \<Rightarrow> u32 \<times> env" where
  "pick_seed cp tid e =
     (if randseed cp = 0 then (let (n, e') = iob_gettime e in (ucast n + word_of_int tid, e'))
      else (randseed cp + word_of_int tid, e))"

text \<open>Only the first thread injects and flushes; a partitioned run gives each thread a range of its own.\<close>

definition own_params :: "cmdparams \<Rightarrow> int \<Rightarrow> u32 \<Rightarrow> cmdparams" where
  "own_params cp tid seed =
     (let p0 = (if tid \<noteq> 0 then cp\<lparr>writeinject := 0, injectinterval_io := 0, flush_mode := 0\<rparr> else cp);
          p1 = p0\<lparr>randseed := seed\<rparr>
      in if partition p1 \<noteq> 0
         then p1\<lparr>minoff := minoff p1 + maxoff p1 * u64_of_int tid,
                 maxoff := maxoff p1 + maxoff p1 * u64_of_int tid\<rparr>
         else p1)"

definition reduce_header :: "iothread \<Rightarrow> iothread res" where
  "reduce_header tp =
     (let p = params tp; sz = u64_of_int (iosize p) in
      if sz < headersz p
      then bind_res (umod (headersz p) sz) (\<lambda>h. Inr (tp\<lparr>params := p\<lparr>headersz := h\<rparr>\<rparr>))
      else Inr tp)"

definition ithreadinit ::
    "libstate \<Rightarrow> opener \<Rightarrow> fthread \<Rightarrow> int \<Rightarrow> cmdparams \<Rightarrow> env \<Rightarrow> (iothread \<times> env) res" where
  "ithreadinit lib opn ftp tid cp e0 =
     (let (now, e1) = iob_gettime e0; e2 = e1\<lparr>rng := srand48 (ucast now)\<rparr> in
      bind_res (alloc_thread lib opn ftp tid cp) (\<lambda>(wbuf, rq).
      let (seed, e3) = pick_seed cp tid e2; p = own_params cp tid seed in
      bind_res (set_range (zero_iothread\<lparr>iorp := rq, params := p, threadid := tid, th_fd := fd rq,
                 writebuf := wbuf, streamhead := nat tid\<rparr>)) (\<lambda>tp1.
      bind_res (if writeinject p \<noteq> 0 then init_segments lib tp1 (rng e3) else Inr (tp1, rng e3)) (\<lambda>(tp2, x).
      bind_res (reduce_header tp2) (\<lambda>tp3. Inr (tp3, e3\<lparr>rng := x\<rparr>))))))"

definition fthreadinit :: "libstate \<Rightarrow> string \<Rightarrow> cmdparams \<Rightarrow> fthread res" where
  "fthreadinit lib fname cp =
     bind_res (malloc_struct lib sizeof_fthread) (\<lambda>_.
       Inr (zero_fthread\<lparr>f_params := cp, filename := fname, totalio := nio cp * nrep cp\<rparr>))"

text \<open>\<open>set_streamhead\<close>: the first thread of the file whose number is \<open>streamid\<close>.\<close>

fun find_thread :: "int \<Rightarrow> iothread list \<Rightarrow> nat \<Rightarrow> nat option" where
  "find_thread streamid [] k = None"
| "find_thread streamid (p # ps) k =
     (if threadid p = streamid then Some k else find_thread streamid ps (Suc k))"

definition set_streamhead :: "iothread list \<Rightarrow> int \<Rightarrow> iothread \<Rightarrow> iothread" where
  "set_streamhead ths streamid itp =
     (case find_thread streamid ths 0 of Some k \<Rightarrow> itp\<lparr>streamhead := k\<rparr> | None \<Rightarrow> itp)"

section \<open>Files\<close>

text \<open>The inner loop: thread \<open>n - 1\<close> is made first and ends up last in the list.\<close>

fun make_threads ::
    "libstate \<Rightarrow> opener \<Rightarrow> fthread \<Rightarrow> cmdparams \<Rightarrow> int \<Rightarrow> nat \<Rightarrow> iothread list \<Rightarrow> env
       \<Rightarrow> (iothread list \<times> env) res" where
  "make_threads lib opn ftp cp talign 0 acc e = Inr (acc, e)"
| "make_threads lib opn ftp cp talign (Suc j) acc e =
     bind_res (ithreadinit lib opn ftp (int j) cp e) (\<lambda>(itp, e').
       make_threads lib opn ftp cp talign j
         (itp\<lparr>th_align := talign, shared_area := shared_block ftp + (j + 1) * IOB_CACHE_LINE\<rparr> # acc) e')"

definition link_streams :: "cmdparams \<Rightarrow> iothread list \<Rightarrow> iothread list" where
  "link_streams cp ths =
     (if 1 < streams cp \<and> streams cp < nthreads cp
      then map (\<lambda>itp. set_streamhead ths (threadid itp smod streams cp) itp) ths else ths)"

fun make_files :: "libstate \<Rightarrow> string list \<Rightarrow> cmdparams \<Rightarrow> nat \<Rightarrow> fthread list \<Rightarrow> fthread list res" where
  "make_files lib fnames cp 0 flist = Inr flist"
| "make_files lib fnames cp (Suc i) flist =
     bind_res (fthreadinit lib (fnames ! i) cp) (\<lambda>ftp.
       make_files lib fnames cp i
         (ftp\<lparr>shared_block := IOB_CACHE_LINE * nat (nthreads cp + 1) * i, fileno := int i\<rparr> # flist))"

fun fill_files ::
    "libstate \<Rightarrow> opener \<Rightarrow> cmdparams \<Rightarrow> int \<Rightarrow> fthread list \<Rightarrow> env \<Rightarrow> (fthread list \<times> env) res" where
  "fill_files lib opn cp talign [] e = Inr ([], e)"
| "fill_files lib opn cp talign (ftp # fs) e =
     bind_res (make_threads lib opn ftp cp talign (nat (nthreads cp)) [] e) (\<lambda>(ths, e1).
     bind_res (fill_files lib opn cp talign fs e1) (\<lambda>(fs', e2).
       Inr (ftp\<lparr>ithreads := link_streams cp ths\<rparr> # fs', e2)))"

definition create_files ::
    "libstate \<Rightarrow> opener \<Rightarrow> string list \<Rightarrow> cmdparams \<Rightarrow> env \<Rightarrow> (fthread list \<times> env) res" where
  "create_files lib opn filenames cp e =
     (let talign = (if threadalign cp \<noteq> 0 then threadalign cp * nthreads cp else iosize cp) in
      bind_res (make_files lib filenames cp (length filenames) []) (\<lambda>flist.
        fill_files lib opn cp talign flist e))"

definition init_threads ::
    "libstate \<Rightarrow> opener \<Rightarrow> bytes \<Rightarrow> bytes \<Rightarrow> string list \<Rightarrow> cmdparams \<Rightarrow> env
       \<Rightarrow> (fthread list \<times> pools \<times> dtable \<times> env) res" where
  "init_threads lib opn vm pst filenames cp e =
     (let sharedsize = int_of_u32 (of_nat IOB_CACHE_LINE * word_of_int (nthreads cp + 1) * of_nat (length filenames)) in
      bind_res (iob_align_shmem lib (int_of_u32 (word_of_int (sharedsize * 8)))) (\<lambda>shared.
      bind_res (iob_initdata lib vm pst) (\<lambda>(pools, x).
      bind_res (iob_details_init lib (int_of_u32 (ucast (iodetcnt cp))) empty_dtable) (\<lambda>dt.
      bind_res (create_files lib opn filenames cp (e\<lparr>rng := x\<rparr>)) (\<lambda>(flist', e').
        Inr (flist', pools, dt, e'))))))"

section \<open>The shuffle keeps the blocks\<close>

lemma swap_at_perm:
  assumes "g1 < length xs" "g2 < length xs"
  shows "\<exists>ys. swap_at g1 g2 xs = Inr ys \<and> mset ys = mset xs \<and> length ys = length xs"
  using assms by (simp add: swap_at_def mset_swap)

lemma swap_groups_perm:
  assumes "g1 + gsize \<le> length xs" "g2 + gsize \<le> length xs"
  shows "\<exists>ys. swap_groups g1 g2 gsize xs = Inr ys \<and> mset ys = mset xs \<and> length ys = length xs"
proof -
  have "\<exists>ys. loop_res (\<lambda>j. swap_at (g1 + j) (g2 + j)) [0 ..< gsize] xs = Inr ys
      \<and> (mset ys = mset xs \<and> length ys = length xs)"
  proof (rule loop_res_rule)
    fix ps i zs ys
    assume "[0 ..< gsize] = ps @ i # zs" and ys: "mset ys = mset xs \<and> length ys = length xs"
    then have "i < gsize" by (metis atLeastLessThan_iff in_set_conv_decomp set_upt)
    with assms ys have "g1 + i < length ys" "g2 + i < length ys" by linarith+
    from swap_at_perm [OF this] ys
    show "\<exists>t. swap_at (g1 + i) (g2 + i) ys = Inr t \<and> (mset t = mset xs \<and> length t = length xs)" by auto
  qed simp
  then show ?thesis by (simp add: swap_groups_def)
qed

lemma group_fits:
  assumes "0 < k" "n = int (length xs)" "0 \<le> n"
  shows "nat ((int r smod k) * (n sdiv k)) + nat (n sdiv k) \<le> length xs"
proof -
  have s: "n sdiv k = n div k" "int r smod k = int r mod k"
    using assms by (cases "n = 0"; cases "r = 0"; simp add: signed_divide_int_def signed_modulo_int_def)+
  have q: "0 \<le> n div k" using assms by (simp add: pos_imp_zdiv_nonneg_iff)
  have "int r mod k + 1 \<le> k" using assms(1) by (simp add: zmod_le_nonneg_dividend add1_zle_eq)
  then have "(int r mod k + 1) * (n div k) \<le> k * (n div k)" using q by (rule mult_right_mono)
  also have "\<dots> \<le> n" using assms(1) mult_div_mod_eq [of k n] pos_mod_sign [of k n] by linarith
  finally have le: "(int r mod k) * (n div k) + n div k \<le> n" by (simp add: algebra_simps)
  have "0 \<le> (int r mod k) * (n div k)" using assms(1) q by simp
  then have "nat ((int r mod k) * (n div k)) + nat (n div k) = nat ((int r mod k) * (n div k) + n div k)"
    using q by (simp add: nat_add_distrib)
  also have "\<dots> \<le> length xs" using le assms(2) by simp
  finally show ?thesis unfolding s .
qed

lemma shuffle_step_perm:
  assumes "0 < k" "n = int (length xs)"
  shows "\<exists>ys x'. shuffle_step k (n sdiv k) i (xs, x) = Inr (ys, x') \<and> mset ys = mset xs \<and> length ys = length xs"
proof -
  obtain r1 x1 where r1: "lrand48 x = (r1, x1)" by (cases "lrand48 x")
  obtain r2 x2 where r2: "lrand48 x1 = (r2, x2)" by (cases "lrand48 x1")
  have n: "0 \<le> n" using assms(2) by simp
  from swap_groups_perm [OF group_fits [OF assms n, of r1] group_fits [OF assms n, of r2]] obtain ys where
    "swap_groups (nat ((int r1 smod k) * (n sdiv k))) (nat ((int r2 smod k) * (n sdiv k))) (nat (n sdiv k)) xs = Inr ys"
    "mset ys = mset xs" "length ys = length xs" by blast
  then show ?thesis using assms(1) by (simp add: shuffle_step_def r1 r2 Let_def)
qed

text \<open>
  Property C11. The order in which a segment's blocks are injected is a permutation of all its blocks: the hundred random
  exchanges of groups never leave the list, lose a block or repeat one, whatever the number of
  groups and whether or not it divides the number of blocks.
\<close>

theorem injection_order_permutes:
  assumes "0 < nsubseg (params tp)" and "0 < writesize (params tp)" and "0 \<le> segsize (params tp)"
    and "unat (u64_of_int (4 * (segsize (params tp) sdiv writesize (params tp)))) \<le> heap_limit lib"
  shows "\<exists>tp' x'. init_segments lib tp x = Inr (tp', x')
    \<and> nsegoffs tp' = segsize (params tp) div writesize (params tp)
    \<and> mset (segofflist tp') = mset (map int [0 ..< nat (nsegoffs tp')])
    \<and> segwrite tp' = replicate IOB_MAXSEG (nsegoffs tp')"
proof -
  let ?k = "nsubseg (params tp)" and ?n = "segsize (params tp) sdiv writesize (params tp)"
  have n: "?n = segsize (params tp) div writesize (params tp)"
    using assms(2,3) by (cases "segsize (params tp) = 0") (simp_all add: signed_divide_int_def)
  have n0: "0 \<le> ?n" unfolding n using assms(2,3) by (simp add: pos_imp_zdiv_nonneg_iff)
  let ?xs = "map int [0 ..< nat ?n]"
  let ?I = "\<lambda>_ (st :: int list \<times> u48). mset (fst st) = mset ?xs \<and> length (fst st) = length ?xs"
  have "\<exists>st. loop_res (shuffle_step ?k (?n sdiv ?k)) [0 ..< 100] (?xs, x) = Inr st \<and> ?I [0 ..< 100] st"
  proof (rule loop_res_rule)
    fix ps i zs and st :: "int list \<times> u48"
    assume I: "?I ps st"
    obtain ys y where st: "st = (ys, y)" by (cases st)
    have "?n = int (length ys)" using I st n0 by simp
    from shuffle_step_perm [OF assms(1) this, of i y] obtain zs' y' where
      "shuffle_step ?k (?n sdiv ?k) i (ys, y) = Inr (zs', y')" "mset zs' = mset ys" "length zs' = length ys"
      by blast
    then show "\<exists>t. shuffle_step ?k (?n sdiv ?k) i st = Inr t \<and> ?I (ps @ [i]) t" using I st by auto
  qed simp
  then obtain ys y where loop: "loop_res (shuffle_step ?k (?n sdiv ?k)) [0 ..< 100] (?xs, x) = Inr (ys, y)"
    "mset ys = mset ?xs" by (metis fst_conv prod.collapse)
  have "idiv (segsize (params tp)) (writesize (params tp)) = Inr ?n" "idiv ?n ?k = Inr (?n sdiv ?k)"
    "malloc_struct lib (4 * ?n) = Inr ()"
    using assms by (simp_all add: idiv_def malloc_struct_eq)
  then have "init_segments lib tp x
      = Inr (tp\<lparr>nsegoffs := ?n, segwrite := replicate IOB_MAXSEG ?n, segofflist := ys\<rparr>, y)"
    unfolding init_segments_def Let_def by (simp only: bind_res_simps loop(1) prod.case)
  then show ?thesis using loop(2) n by simp
qed

theorem injection_order_permutes_witness:
  "\<exists>tp' x'. init_segments demo_lib (zero_iothread\<lparr>params := zero_params\<lparr>segsize := 1000, writesize := 100,
      nsubseg := 3\<rparr>\<rparr>) 7 = Inr (tp', x') \<and> mset (segofflist tp') = mset (map int [0 ..< 10])"
proof -
  let ?tp = "zero_iothread\<lparr>params := zero_params\<lparr>segsize := 1000, writesize := 100, nsubseg := 3\<rparr>\<rparr>"
  have "\<exists>tp' x'. init_segments demo_lib ?tp 7 = Inr (tp', x')
    \<and> nsegoffs tp' = segsize (params ?tp) div writesize (params ?tp)
    \<and> mset (segofflist tp') = mset (map int [0 ..< nat (nsegoffs tp')])
    \<and> segwrite tp' = replicate IOB_MAXSEG (nsegoffs tp')"
    by (rule injection_order_permutes)
      (simp_all add: demo_lib_def iob_libinit_def signed_divide_int_def)
  then obtain tp' x' where "init_segments demo_lib ?tp 7 = Inr (tp', x')" "nsegoffs tp' = 10"
    "mset (segofflist tp') = mset (map int [0 ..< nat (nsegoffs tp')])" by auto
  then show ?thesis by (intro exI [of _ tp'] exI [of _ x']) (simp only: nat_numeral simp_thms)
qed

section \<open>What a new thread has\<close>

text \<open>
  The range of blocks and the header of a run, from its parameters. They are the same for all threads of an
  unpartitioned run.
\<close>

definition first_blk :: "cmdparams \<Rightarrow> u64" where
  "first_blk p = minoff p div u64_of_int (iosize p)"

definition end_blk :: "cmdparams \<Rightarrow> u64" where
  "end_blk p = (let mx0 = maxoff p div u64_of_int (iosize p); mx1 = (if mx0 = 0 then 1 else mx0)
     in if mx1 = first_blk p then first_blk p + 1 else mx1)"

definition range_of :: "cmdparams \<Rightarrow> u64" where
  "range_of p = (end_blk p - first_blk p) * u64_of_int (iosize p)"

definition header_of :: "cmdparams \<Rightarrow> u64" where
  "header_of p = (if u64_of_int (iosize p) < headersz p then headersz p mod u64_of_int (iosize p) else headersz p)"

definition thread_params :: "cmdparams \<Rightarrow> int \<Rightarrow> u32 \<Rightarrow> cmdparams" where
  "thread_params cp tid seed = (if tid \<noteq> 0 then cp\<lparr>writeinject := 0, injectinterval_io := 0, flush_mode := 0\<rparr>
     else cp)\<lparr>randseed := seed, headersz := header_of cp\<rparr>"

lemma set_range_plain:
  assumes "set_range tp = Inr tp'"
  shows "\<exists>sg. tp' = tp\<lparr>minblks := first_blk (params tp), maxblks := end_blk (params tp),
     rangeoff := range_of (params tp), maxsegs := sg\<rparr> \<and> u64_of_int (iosize (params tp)) \<noteq> 0"
  using assms
  by (auto simp: set_range_def udiv_def Let_def first_blk_def end_blk_def range_of_def split: if_splits)

lemma range_of_cong:
  "minoff p = minoff q \<Longrightarrow> maxoff p = maxoff q \<Longrightarrow> iosize p = iosize q \<Longrightarrow> range_of p = range_of q"
  unfolding range_of_def end_blk_def first_blk_def Let_def by presburger

lemma ithreadinit_plain:
  assumes "ithreadinit lib opn ftp tid cp e = Inr (tp, e')" "writeinject cp = 0" "partition cp = 0" "0 \<le> tid"
  shows "\<exists>seed. params tp = thread_params cp tid seed \<and> rangeoff tp = range_of cp
    \<and> streamhead tp = nat tid \<and> threadid tp = tid \<and> nseconds tp = 0
    \<and> 4096 dvd length (writebp (iorp tp)) \<and> iosize cp \<le> int (length (writebp (iorp tp)))
    \<and> 4096 dvd length (readbp (iorp tp)) \<and> iosize cp \<le> int (length (readbp (iorp tp)))
    \<and> calls e' = calls e \<and> dev e' = dev e \<and> clk e' = clk e \<and> 0 \<le> th_fd tp
    \<and> th_fd tp = opn (filename ftp) (openflags cp) tid \<and> fd (iorp tp) = th_fd tp"
proof -
  obtain now e1 where t: "iob_gettime e = (now, e1)" by (cases "iob_gettime e")
  define e2 where "e2 = e1\<lparr>rng := srand48 (ucast now)\<rparr>"
  obtain seed e3 where sd: "pick_seed cp tid e2 = (seed, e3)" by (cases "pick_seed cp tid e2")
  have e: "calls e3 = calls e" "dev e3 = dev e" "clk e3 = clk e"
    using t sd by (auto simp: e2_def pick_seed_def iob_gettime_def split: prod.splits if_splits)
  define p where "p = own_params cp tid seed"
  have p: "writeinject p = 0" "p\<lparr>headersz := header_of cp\<rparr> = thread_params cp tid seed"
    "iosize p = iosize cp" "headersz p = headersz cp" "minoff p = minoff cp" "maxoff p = maxoff cp"
    using assms(2,3) by (auto simp: p_def own_params_def Let_def thread_params_def)
  from assms(1) obtain wbuf rq tp1 tp3 where
    al: "alloc_thread lib opn ftp tid cp = Inr (wbuf, rq)"
    and sr: "set_range (zero_iothread\<lparr>iorp := rq, params := p, threadid := tid, th_fd := fd rq,
                 writebuf := wbuf, streamhead := nat tid\<rparr>) = Inr tp1"
    and rh: "reduce_header tp1 = Inr tp3" and r: "tp = tp3" "e' = e3\<lparr>rng := rng e3\<rparr>"
    unfolding ithreadinit_def Let_def t prod.case e2_def [symmetric]
    by (auto simp: bind_res_Inr_iff sd p_def [symmetric] p(1))
  from set_range_plain [OF sr] obtain sg where tp1: "tp1 = zero_iothread\<lparr>iorp := rq, params := p,
      threadid := tid, th_fd := fd rq, writebuf := wbuf, streamhead := nat tid,
      minblks := first_blk p, maxblks := end_blk p, rangeoff := range_of p, maxsegs := sg\<rparr>"
    and nz: "u64_of_int (iosize p) \<noteq> 0" by auto
  have tp3: "tp3 = tp1\<lparr>params := p\<lparr>headersz := header_of cp\<rparr>\<rparr>"
  proof (cases "u64_of_int (iosize p) < headersz p")
    case True
    then show ?thesis using rh tp1 nz p(3,4)
      by (simp add: reduce_header_def umod_def Let_def header_of_def)
  next
    case False
    then have "header_of cp = headersz p" "tp3 = tp1" using rh tp1 p(3,4)
      by (simp_all add: reduce_header_def Let_def header_of_def)
    then show ?thesis using tp1 by simp
  qed
  have "range_of p = range_of cp" using p by (intro range_of_cong)
  moreover have "4096 dvd length (writebp rq) \<and> iosize cp \<le> int (length (writebp rq))
      \<and> 4096 dvd length (readbp rq) \<and> iosize cp \<le> int (length (readbp rq))
      \<and> 0 \<le> fd rq \<and> fd rq = opn (filename ftp) (openflags cp) tid"
    using al align_shmem_returns
    by (auto simp: alloc_thread_def bind_res_Inr_iff Let_def split: if_splits)
  moreover have "nseconds zero_iothread = 0" by (simp add: zero_iothread_def)
  ultimately show ?thesis using tp1 tp3 r e p(2) by (intro exI [of _ seed]) simp
qed

end
