(* ===== verification/FillMain.thy ===== *)
theory FillMain
  imports FillInit
begin

text \<open>
  \<open>iofill/iof_main.c\<close>: the defaults, the command line with its three groups of suboptions, and the usage text.
  The parsers change the parameters of the run and, for \<open>-s\<close> and \<open>-o\<close>, two globals; every error ends the
  process with status 1 after the usage text.
\<close>

section \<open>Defaults and tables\<close>

definition outputfile :: string where "outputfile = ''output''"
definition statusmb :: u64 where "statusmb = push_bit 20 4096"

definition defparams :: cmdparams where
  "defparams = \<lparr>
     readpct = 0,
     randseed = 0,
     seqflag = 1,
     iosize = 1048576,
     altsize = 512,
     altcount = 0,
     nio = push_bit 40 1,
     nrep = 1,
     seekoff = 0,
     headersz = 1024,
     skip = 0,
     nthreads = 1,
     streams = 1,
     wroff = 0,
     minoff = 0,
     maxoff = push_bit 60 4,
     multiplier = 1,
     partition = 0,
     openflags = O_RDONLY OR IOB_DIRECT,
     writeinject = 0,
     writesize = 131072,
     segsize = 16 * 2 ^ 20,
     nsegments = 1,
     nsubseg = 1,
     randinject = 0,
     threadalign = 0,
     flush_mode = 0,
     flushcount = 1,
     flushtype = SYNC_CACHE_16,
     preflushtype = 0,
     postflushtype = 0,
     flushalign = 4096,
     flushinterval = 1000000000,
     preflushinterval = 1000000000,
     postflushinterval = 1000000000,
     injectinterval = 1000000000,
     injectinterval_io = NOT 0,
     iodetcnt = 10000,
     uniform = 1,
     iodettime = 100000000,
     nsleeptime = 25000,
     recoverytime = 500000,
     maxtime = 3600000 * IOB_NSEC_TO_SEC,
     dynamicrecovery = 0,
     datatype_of = IOB_DT_VM,
     dedupblks = push_bit 50 1\<rparr>"

definition tstopts :: "string list" where
  "tstopts = [''size'', ''count'', ''nrep'', ''skip'']"

definition modopts :: "string list" where
  "modopts = [''threads'', ''seek'', ''seed'', ''maxrun'', ''dtype'', ''dedupblks'', ''maxoff'',
     ''minoff'', ''multiplier'', ''header'']"

definition detopts :: "string list" where
  "detopts = [''count'', ''time'']"

section \<open>The usage text\<close>

definition usage_text :: "string list" where
  "usage_text =
    [''Usage: iofill [options] file1 [...]'',
     ''Valid options are:'',
     tabs 1 @ ''-s num_mb'' @ tabs 2 @ ''print status every num_mb megabytes (default is every 4GB)'',
     tabs 1 @ ''-o out_prefix'' @ tabs 2 @ ''use out_prefix as prefix for output files'',
     tabs 1 @ ''-t test_opts'',
     tabs 2 @ ''size=n'' @ tabs 2 @ ''size for I/Os (default is 1MB or 1048576)'',
     tabs 2 @ ''count=n'' @ tabs 2 @ ''number of I/Os for test (default is 2^40)'',
     tabs 2 @ ''nrep=n'' @ tabs 2 @ ''number of repetitions of fill (default is 1)'',
     tabs 2 @ ''skip=n'' @ tabs 2 @ ''skip n I/Os between requests (default is off)'',
     tabs 1 @ ''-m mod_opts'',
     tabs 2 @ ''threads=n'' @ tabs 1 @ ''use n threads (default it 1)'',
     tabs 2 @ ''seek=n'' @ tabs 2 @ ''initial seek in KB at start (default is 0)'',
     tabs 2 @ ''minoff=n'' @ tabs 1 @ ''min write offset in KB (default is 0)'',
     tabs 2 @ ''maxoff=n'' @ tabs 1 @ ''max write offset in KB (default is 4EB)'',
     tabs 2 @ ''multipler=n'' @ tabs 1 @ ''multiply offset by n to create sparse fill (default is off)'',
     tabs 2 @ ''seed=n'' @ tabs 2 @ ''specify random number seed (default is current time)'',
     tabs 2 @ ''maxrun=n'' @ tabs 1 @ ''maximum run time in seconds (default is 1000 hours)'',
     tabs 2 @ ''dedupblks=n'' @ tabs 1 @ ''controls how many thousand pages in dedup set (default is 2^50)'',
     tabs 2 @ ''header=n'' @ tabs 1 @ ''controls size of header (default is 1K)'',
     tabs 2 @ ''dtype=type'' @ tabs 1 @ ''select the type of data to write'',
     tabs 4 @ ''c'' @ tabs 1 @ ''write compressible data'',
     tabs 4 @ ''e'' @ tabs 1 @ ''write email data from pst files'',
     tabs 4 @ ''h1 or h'' @ tabs 1 @ ''write data compressible to approx 1% of original'',
     tabs 4 @ ''h10'' @ tabs 1 @ ''write data compressible to approx 10% of original'',
     tabs 4 @ ''h20'' @ tabs 1 @ ''write data compressible to approx 20% of original'',
     tabs 4 @ ''h40'' @ tabs 1 @ ''write data compressible to approx 40% of original'',
     tabs 4 @ ''o'' @ tabs 1 @ ''write a pattern of all ones'',
     tabs 4 @ ''p'' @ tabs 1 @ ''write one byte repeating patterns'',
     tabs 4 @ ''u'' @ tabs 1 @ ''write uncompressible data'',
     tabs 4 @ ''v'' @ tabs 1 @ ''write virtual machine data (default)'',
     tabs 4 @ ''z'' @ tabs 1 @ ''write a pattern of all zeros'',
     tabs 1 @ ''-d detail_opts'',
     tabs 2 @ ''count=n'' @ tabs 2 @ ''maximum number of detailed I/Os to report per thread (default is 10000)'',
     tabs 2 @ ''time=n'' @ tabs 2 @ ''report I/Os longer than n microseconds (default is 100ms)'']"

text \<open>\<open>usage\<close> prints its text, after whatever line the caller printed, and exits with status 1.\<close>

definition usage :: "string list \<Rightarrow> fault" where
  "usage msg = Exited 1 (msg @ usage_text)"

section \<open>Suboptions\<close>

definition getdetopt :: "libstate \<Rightarrow> nat option \<Rightarrow> string option \<Rightarrow> cmdparams \<Rightarrow> cmdparams res" where
  "getdetopt lib i value cp =
     (if i = Some 0 then bind_res (iob_strtoull lib value) (\<lambda>v. Inr (cp\<lparr>iodetcnt := v\<rparr>))
      else if i = Some 1 then bind_res (iob_strtoull lib value) (\<lambda>v. Inr (cp\<lparr>iodettime := v * 1000\<rparr>))
      else Inl (usage [''unknown -d suboption '' @ the value]))"

definition getdetopts :: "libstate \<Rightarrow> string \<Rightarrow> cmdparams \<Rightarrow> cmdparams res" where
  "getdetopts lib = subopt_loop detopts (getdetopt lib)"

definition getmodopt :: "libstate \<Rightarrow> nat option \<Rightarrow> string option \<Rightarrow> cmdparams \<Rightarrow> cmdparams res" where
  "getmodopt lib i value cp =
     (if i = Some 0 then bind_res (iob_strtoul lib value) (\<lambda>v. Inr (cp\<lparr>nthreads := int_of_u32 v\<rparr>))
      else if i = Some 1 then bind_res (iob_strtoull lib value) (\<lambda>v. Inr (cp\<lparr>seekoff := v * 1024\<rparr>))
      else if i = Some 7 then bind_res (iob_strtoull lib value) (\<lambda>v. Inr (cp\<lparr>minoff := v * 1024\<rparr>))
      else if i = Some 6 then bind_res (iob_strtoull lib value) (\<lambda>v. Inr (cp\<lparr>maxoff := v * 1024\<rparr>))
      else if i = Some 9 then bind_res (iob_strtoull lib value) (\<lambda>v. Inr (cp\<lparr>headersz := v * 1024\<rparr>))
      else if i = Some 8 then bind_res (iob_strtoul lib value) (\<lambda>v. Inr (cp\<lparr>multiplier := int_of_u32 v\<rparr>))
      else if i = Some 2 then bind_res (iob_strtoul lib value) (\<lambda>v. Inr (cp\<lparr>randseed := v\<rparr>))
      else if i = Some 3 then
        bind_res (iob_strtoull lib value) (\<lambda>v. Inr (cp\<lparr>maxtime := v * IOB_NSEC_TO_SEC\<rparr>))
      else if i = Some 4 then bind_res (iob_dtargparse lib value) (\<lambda>d. Inr (cp\<lparr>datatype_of := d\<rparr>))
      else if i = Some 5 then
        bind_res (iob_strtoull lib value) (\<lambda>v.
          let v1 = (if v = 0 then 1 else v)
          in Inr (cp\<lparr>dedupblks := (if push_bit 50 1 < v1 then push_bit 50 1 else v1)\<rparr>))
      else Inl (usage [''unknown -m suboption '' @ the value]))"

definition getmodopts :: "libstate \<Rightarrow> string \<Rightarrow> cmdparams \<Rightarrow> cmdparams res" where
  "getmodopts lib = subopt_loop modopts (getmodopt lib)"

definition gettestopt :: "libstate \<Rightarrow> nat option \<Rightarrow> string option \<Rightarrow> cmdparams \<Rightarrow> cmdparams res" where
  "gettestopt lib i value cp =
     (if i = Some 0 then
        bind_res (iob_strtoul lib value) (\<lambda>v.
          let sz = int_of_u32 v in
          if sz < int IOB_SECTOR \<or> sz smod int IOB_SECTOR \<noteq> 0
          then Inl (usage [''Error: I/O size ('' @ dec_int sz @ '') must be a multiple of ''
                             @ dec_nat IOB_SECTOR @ '' bytes''])
          else Inr (cp\<lparr>iosize := sz\<rparr>))
      else if i = Some 1 then bind_res (iob_strtoull lib value) (\<lambda>v. Inr (cp\<lparr>nio := v\<rparr>))
      else if i = Some 2 then bind_res (iob_strtoull lib value) (\<lambda>v. Inr (cp\<lparr>nrep := v\<rparr>))
      else if i = Some 3 then
        bind_res (iob_strtoull lib value) (\<lambda>v. Inr (cp\<lparr>skip := int_of_u32 (ucast v)\<rparr>))
      else Inl (usage [''unknown -t suboption '' @ the value]))"

definition gettestopts :: "libstate \<Rightarrow> string \<Rightarrow> cmdparams \<Rightarrow> cmdparams res" where
  "gettestopts lib = subopt_loop tstopts (gettestopt lib)"

section \<open>The command line\<close>

record fill_opts =
  o_params :: cmdparams
  o_statusmb :: u64
  o_outputfile :: string

definition fill_option :: "libstate \<Rightarrow> optev \<Rightarrow> fill_opts \<Rightarrow> fill_opts res" where
  "fill_option lib ev st =
     (case ev of
        OptArg c arg \<Rightarrow>
          if c = CHR ''s'' then
            bind_res (iob_strtoull lib (Some arg)) (\<lambda>v.
              let mb = push_bit 20 v in
              if mb = 0 then Inl (usage [''statusmb ('' @ arg @ '') must be non-zero''])
              else Inr (st\<lparr>o_statusmb := mb\<rparr>))
          else if c = CHR ''o'' then Inr (st\<lparr>o_outputfile := arg\<rparr>)
          else if c = CHR ''d'' then
            bind_res (getdetopts lib arg (o_params st)) (\<lambda>p. Inr (st\<lparr>o_params := p\<rparr>))
          else if c = CHR ''m'' then
            bind_res (getmodopts lib arg (o_params st)) (\<lambda>p. Inr (st\<lparr>o_params := p\<rparr>))
          else if c = CHR ''t'' then
            bind_res (gettestopts lib arg (o_params st)) (\<lambda>p. Inr (st\<lparr>o_params := p\<rparr>))
          else Inl (usage [''unknown option '' @ [c]])
      | OptFlag c \<Rightarrow> Inl (usage [''unknown option '' @ [c]])
      | OptBad c \<Rightarrow> Inl (usage [''unknown option '' @ [c]]))"

text \<open>What \<open>main\<close> does up to \<open>init_threads\<close>: the options in order, then the operands, then the open flags.\<close>

definition fill_cmdline :: "string \<Rightarrow> nat \<Rightarrow> string list \<Rightarrow> (fill_opts \<times> string list) res" where
  "fill_cmdline argv0 limit args =
     (let lib = iob_libinit argv0 usage_text limit;
          (evs, filenames) = getopt ''s:o:d:m:t:'' args
      in bind_res (loop_res (fill_option lib) evs
             \<lparr>o_params = defparams, o_statusmb = statusmb, o_outputfile = outputfile\<rparr>) (\<lambda>st.
         if filenames = [] then Inl (usage [])
         else let cp = o_params st in
           Inr (if readpct cp < 1 \<or> writeinject cp \<noteq> 0
                then st\<lparr>o_params := cp\<lparr>openflags := IOB_DIRECT OR O_RDWR\<rparr>\<rparr> else st,
                filenames)))"

section \<open>What the command line can set\<close>

text \<open>
  The parameters a run of \<open>iofill\<close> can have: block sizes of whole sectors, a number of deduplication
  blocks the generator can take, one stream of sequential writes, and everything that has no option at its
  default.
\<close>

definition fill_params_ok :: "cmdparams \<Rightarrow> bool" where
  "fill_params_ok p \<longleftrightarrow> 512 \<le> iosize p \<and> iosize p < 2 ^ 31 \<and> 512 dvd iosize p
     \<and> 1 \<le> dedupblks p \<and> dedupblks p \<le> push_bit 50 1
     \<and> seqflag p = 1 \<and> streams p = 1 \<and> readpct p = 0 \<and> wroff p = 0 \<and> altcount p = 0
     \<and> partition p = 0 \<and> writeinject p = 0 \<and> injectinterval_io p = NOT 0 \<and> uniform p = 1
     \<and> segsize p = 16777216 \<and> writesize p = 131072 \<and> threadalign p = 0
     \<and> postflushtype p = 0 \<and> flush_mode p = 0"

lemma size_accepted:
  assumes "\<not> (int_of_u32 v < int IOB_SECTOR \<or> int_of_u32 v smod int IOB_SECTOR \<noteq> 0)"
  shows "512 \<le> int_of_u32 v" "int_of_u32 v < 2 ^ 31" "512 dvd int_of_u32 v"
proof -
  show "512 \<le> int_of_u32 v" using assms by simp
  show "int_of_u32 v < 2 ^ 31" using sint_lt [of v] by simp
  have "0 \<le> int_of_u32 v" using assms by simp
  moreover have "int_of_u32 v smod 512 = 0" using assms by simp
  ultimately have "int_of_u32 v mod 512 = 0"
    by (cases "int_of_u32 v = 0") (simp_all add: signed_modulo_int_def)
  then show "512 dvd int_of_u32 v" by auto
qed

text \<open>The options that do not matter here, and the two that do.\<close>

lemma params_ok_updates [simp]:
  "fill_params_ok (p\<lparr>iodetcnt := a\<rparr>) = fill_params_ok p"
  "fill_params_ok (p\<lparr>iodettime := a\<rparr>) = fill_params_ok p"
  "fill_params_ok (p\<lparr>nthreads := n\<rparr>) = fill_params_ok p"
  "fill_params_ok (p\<lparr>seekoff := a\<rparr>) = fill_params_ok p"
  "fill_params_ok (p\<lparr>minoff := a\<rparr>) = fill_params_ok p"
  "fill_params_ok (p\<lparr>maxoff := a\<rparr>) = fill_params_ok p"
  "fill_params_ok (p\<lparr>headersz := a\<rparr>) = fill_params_ok p"
  "fill_params_ok (p\<lparr>multiplier := n\<rparr>) = fill_params_ok p"
  "fill_params_ok (p\<lparr>randseed := w\<rparr>) = fill_params_ok p"
  "fill_params_ok (p\<lparr>maxtime := a\<rparr>) = fill_params_ok p"
  "fill_params_ok (p\<lparr>datatype_of := n\<rparr>) = fill_params_ok p"
  "fill_params_ok (p\<lparr>nio := a\<rparr>) = fill_params_ok p"
  "fill_params_ok (p\<lparr>nrep := a\<rparr>) = fill_params_ok p"
  "fill_params_ok (p\<lparr>skip := n\<rparr>) = fill_params_ok p"
  "fill_params_ok (p\<lparr>openflags := n\<rparr>) = fill_params_ok p"
  by (simp_all add: fill_params_ok_def)

lemma params_ok_dedup:
  "fill_params_ok p \<Longrightarrow> 1 \<le> d \<Longrightarrow> d \<le> push_bit 50 1 \<Longrightarrow> fill_params_ok (p\<lparr>dedupblks := d\<rparr>)"
  by (simp add: fill_params_ok_def)

lemma params_ok_size:
  "fill_params_ok p \<Longrightarrow> 512 \<le> n \<Longrightarrow> n < 2 ^ 31 \<Longrightarrow> 512 dvd n \<Longrightarrow> fill_params_ok (p\<lparr>iosize := n\<rparr>)"
  by (simp add: fill_params_ok_def)

interpretation det: subopt_handler detopts "getdetopt lib" fill_params_ok for lib
  by unfold_locales (auto simp: getdetopt_def bind_res_Inr_iff split: if_splits)

interpretation mod: subopt_handler modopts "getmodopt lib" fill_params_ok for lib
proof unfold_locales
  fix st i v st'
  assume ok: "fill_params_ok st" and h: "getmodopt lib i v st = Inr st'"
  show "fill_params_ok st'"
  proof (cases "i = Some 5")
    case True
    with h obtain w where "st' = st\<lparr>dedupblks := (if push_bit 50 1 < (if w = 0 then 1 else w)
        then push_bit 50 1 else (if w = 0 then 1 else w))\<rparr>"
      unfolding getmodopt_def Let_def True option.inject by (auto simp: bind_res_Inr_iff)
    then show ?thesis using params_ok_dedup [OF ok] clamp_ok [of "if w = 0 then 1 else w"] by simp
  next
    case False
    then show ?thesis using h ok
      unfolding getmodopt_def by (simp only: if_False) (auto simp: bind_res_Inr_iff split: if_splits)
  qed
qed

interpretation tst: subopt_handler tstopts "gettestopt lib" fill_params_ok for lib
proof unfold_locales
  fix st i v st'
  assume ok: "fill_params_ok st" and h: "gettestopt lib i v st = Inr st'"
  show "fill_params_ok st'"
  proof (cases "i = Some 0")
    case True
    with h obtain w where "st' = st\<lparr>iosize := int_of_u32 w\<rparr>"
      "\<not> (int_of_u32 w < int IOB_SECTOR \<or> int_of_u32 w smod int IOB_SECTOR \<noteq> 0)"
      by (auto simp: gettestopt_def bind_res_Inr_iff Let_def split: if_splits)
    with size_accepted [of w] params_ok_size [OF ok] show ?thesis by blast
  next
    case False
    with h ok show ?thesis
      unfolding gettestopt_def by (simp only: if_False) (auto simp: bind_res_Inr_iff split: if_splits)
  qed
qed

lemma defparams_ok: "fill_params_ok defparams"
  by (simp add: fill_params_ok_def defparams_def)

lemma fill_option_ok:
  assumes ok: "fill_params_ok (o_params st)" "o_statusmb st \<noteq> 0" and h: "fill_option lib ev st = Inr st'"
  shows "fill_params_ok (o_params st') \<and> o_statusmb st' \<noteq> 0"
proof (cases ev)
  case (OptArg c arg)
  note h = h [unfolded OptArg fill_option_def optev.case Let_def getdetopts_def getmodopts_def gettestopts_def]
  consider "c = CHR ''s''" | "c = CHR ''o''" | "c = CHR ''d''" | "c = CHR ''m''" | "c = CHR ''t''"
    | "c \<notin> {CHR ''s'', CHR ''o'', CHR ''d'', CHR ''m'', CHR ''t''}" by blast
  then show ?thesis
  proof cases
    case 1
    with h ok show ?thesis by (clarsimp simp: bind_res_Inr_iff split: if_splits)
  next
    case 2
    with h ok show ?thesis by clarsimp
  next
    case 3
    with h obtain p where "subopt_loop detopts (getdetopt lib) arg (o_params st) = Inr p"
      "st' = st\<lparr>o_params := p\<rparr>" by (clarsimp simp: bind_res_Inr_iff)
    with det.loop_inv [OF ok(1)] ok(2) show ?thesis by simp
  next
    case 4
    with h obtain p where "subopt_loop modopts (getmodopt lib) arg (o_params st) = Inr p"
      "st' = st\<lparr>o_params := p\<rparr>" by (clarsimp simp: bind_res_Inr_iff)
    with mod.loop_inv [OF ok(1)] ok(2) show ?thesis by simp
  next
    case 5
    with h obtain p where "subopt_loop tstopts (gettestopt lib) arg (o_params st) = Inr p"
      "st' = st\<lparr>o_params := p\<rparr>" by (clarsimp simp: bind_res_Inr_iff)
    with tst.loop_inv [OF ok(1)] ok(2) show ?thesis by simp
  next
    case 6
    with h show ?thesis by simp
  qed
qed (use h in \<open>simp_all add: fill_option_def\<close>)

lemma fill_options_ok:
  assumes "loop_res (fill_option lib) evs st = Inr st'" "fill_params_ok (o_params st)" "o_statusmb st \<noteq> 0"
  shows "fill_params_ok (o_params st') \<and> o_statusmb st' \<noteq> 0"
  using assms
proof (induction evs arbitrary: st)
  case (Cons ev evs)
  from Cons.prems(1) obtain st1 where "fill_option lib ev st = Inr st1"
    "loop_res (fill_option lib) evs st1 = Inr st'" by (auto simp: bind_res_Inr_iff)
  with fill_option_ok [OF Cons.prems(2,3)] Cons.IH show ?case by blast
qed simp

text \<open>What an accepted command line leaves.\<close>

lemma fill_cmdline_ok:
  assumes "fill_cmdline argv0 limit args = Inr (st, files)"
  shows "fill_params_ok (o_params st) \<and> o_statusmb st \<noteq> 0 \<and> files \<noteq> []
    \<and> openflags (o_params st) = IOB_DIRECT OR O_RDWR"
proof -
  obtain evs ops where g: "getopt ''s:o:d:m:t:'' args = (evs, ops)" by (cases "getopt ''s:o:d:m:t:'' args")
  let ?upd = "\<lambda>st1. if readpct (o_params st1) < 1 \<or> writeinject (o_params st1) \<noteq> 0
         then st1\<lparr>o_params := (o_params st1)\<lparr>openflags := IOB_DIRECT OR O_RDWR\<rparr>\<rparr> else st1"
  from assms obtain st1 where
    r: "loop_res (fill_option (iob_libinit argv0 usage_text limit)) evs
       \<lparr>o_params = defparams, o_statusmb = statusmb, o_outputfile = outputfile\<rparr> = Inr st1"
    and e: "(if ops = [] then Inl (usage []) else Inr (?upd st1, ops)) = Inr (st, files)"
    unfolding fill_cmdline_def Let_def g prod.case bind_res_Inr_iff by blast
  from e have e: "ops \<noteq> []" "files = ops" "st = ?upd st1"
    by (cases "ops = []"; simp only: if_True if_False sum.inject prod.inject sum.distinct)+
  have "fill_params_ok (o_params st1) \<and> o_statusmb st1 \<noteq> 0"
    by (rule fill_options_ok [OF r]) (simp_all add: defparams_ok statusmb_def)
  then show ?thesis using e by (simp add: fill_params_ok_def)
qed

text \<open>
  Property C9. Whatever the arguments, a command line that is accepted leaves block sizes of whole
  sectors that fit an \<open>int\<close>, a \<open>dedupblks\<close> between 1 and \<open>2 ^ 50\<close>, a non-zero status interval, at least one file,
  files opened for direct reading and writing, and one sequential stream of writes with no injection,
  flushing or partitioning.
\<close>

theorem accepted_options_valid:
  assumes "fill_cmdline argv0 limit args = Inr (st, files)"
  shows "fill_params_ok (o_params st) \<and> o_statusmb st \<noteq> 0 \<and> files \<noteq> []
    \<and> openflags (o_params st) = IOB_DIRECT OR O_RDWR"
  using assms by (rule fill_cmdline_ok)

lemma test_size_option:
  assumes "n < 2 ^ 32"
  shows "gettestopts lib (''size='' @ dec_nat n) cp =
    (if 512 \<le> n \<and> n < 2 ^ 31 \<and> 512 dvd n then Inr (cp\<lparr>iosize := int n\<rparr>)
     else Inl (usage [''Error: I/O size ('' @ dec_int (int_of_u32 (of_nat n)) @ '') must be a multiple of ''
                  @ dec_nat IOB_SECTOR @ '' bytes'']))"
proof -
  have g: "getsubopt tstopts (''size='' @ dec_nat n) = (Some 0, Some (dec_nat n), [])"
    using getsubopt_value [of "''size''" tstopts 0 n] by (simp add: tstopts_def)
  have v: "iob_strtoul lib (Some (dec_nat n)) = Inr (of_nat n)"
  proof -
    have "(ucast (of_nat n :: u64) :: u32) = of_nat n"
      using assms by (simp add: word_unat_eq_iff unsigned_ucast_eq unat_of_nat take_bit_nat_eq_self)
    then show ?thesis using strtoull_dec_nat [of n] assms by (simp add: iob_strtoul_def)
  qed
  let ?s = "int_of_u32 (of_nat n)"
  have bad: "(?s < int IOB_SECTOR \<or> ?s smod int IOB_SECTOR \<noteq> 0) \<longleftrightarrow> \<not> (512 \<le> n \<and> n < 2 ^ 31 \<and> 512 dvd n)"
    and good: "n < 2 ^ 31 \<Longrightarrow> ?s = int n"
  proof -
    show good: "?s = int n" if "n < 2 ^ 31"
      using that by (simp add: signed_of_nat signed_take_bit_int_eq_self)
    show "(?s < int IOB_SECTOR \<or> ?s smod int IOB_SECTOR \<noteq> 0) \<longleftrightarrow> \<not> (512 \<le> n \<and> n < 2 ^ 31 \<and> 512 dvd n)"
    proof (cases "n < 2 ^ 31")
      case True
      have "int n smod 512 = int n mod 512" by (cases "n = 0") (simp_all add: signed_modulo_int_def)
      moreover have "int n mod 512 = 0 \<longleftrightarrow> 512 dvd n" by presburger
      ultimately show ?thesis using good [OF True] True by auto
    next
      case False
      have "?s = signed_take_bit 31 (int n)" by (simp add: signed_of_nat)
      also have "\<dots> = (int n - 2 ^ 31 + 2 ^ 32) mod 2 ^ 32 - 2 ^ 31"
        by (simp add: signed_take_bit_eq_take_bit_shift take_bit_eq_mod add.commute)
      also have "(int n - 2 ^ 31 + 2 ^ 32) mod 2 ^ 32 = (int n - 2 ^ 31) mod 2 ^ 32"
        by (rule mod_add_self2)
      also have "\<dots> = int n - 2 ^ 31" by (rule mod_pos_pos_trivial) (use False assms in simp_all)
      finally have "?s = int n - 2 ^ 32" by simp
      then show ?thesis using False assms by auto
    qed
  qed
  have step: "gettestopts lib (''size='' @ dec_nat n) cp
      = bind_res (gettestopt lib (Some 0) (Some (dec_nat n)) cp) (subopt_loop tstopts (gettestopt lib) [])"
    unfolding gettestopts_def by (rule subopt_loop_step [OF _ g]) simp
  have h: "gettestopt lib (Some 0) (Some (dec_nat n)) cp =
      (if \<not> (512 \<le> n \<and> n < 2 ^ 31 \<and> 512 dvd n)
       then Inl (usage [''Error: I/O size ('' @ dec_int ?s @ '') must be a multiple of ''
                  @ dec_nat IOB_SECTOR @ '' bytes''])
       else Inr (cp\<lparr>iosize := ?s\<rparr>))"
    unfolding gettestopt_def v bind_res_simps Let_def bad by (simp only: simp_thms if_True)
  show ?thesis
  proof (cases "512 \<le> n \<and> n < 2 ^ 31 \<and> 512 dvd n")
    case True
    with step h good show ?thesis by simp
  next
    case False
    show ?thesis unfolding step h by (simp only: False if_True if_False not_False_eq_True bind_res_simps)
  qed
qed

lemma getopt_t_file:
  assumes "f \<noteq> ''--''" "\<not> (1 < length f \<and> hd f = CHR ''-'')"
  shows "getopt ''s:o:d:m:t:'' [''-t'', v, f] = ([OptArg (CHR ''t'') v], [f])"
proof -
  have c: "(1 < length f \<and> hd f = CHR ''-'') = False" "(f = ''--'') = False" using assms by blast+
  have "getopt ''s:o:d:m:t:'' [f] = ([], [f])"
    by (simp only: getopt.simps c if_False Let_def prod.case)
  then show ?thesis by (subst getopt.simps) (simp del: getopt.simps(2))
qed



lemma fill_cmdline_demo:
  "\<exists>st. fill_cmdline ''iofill'' 0 [''-t'', ''size='' @ dec_nat 4096, ''/dev/sdb''] = Inr (st, [''/dev/sdb''])"
proof -
  let ?lib = "iob_libinit ''iofill'' usage_text 0"
  let ?st = "\<lparr>o_params = defparams, o_statusmb = statusmb, o_outputfile = outputfile\<rparr>"
  have t: "gettestopts ?lib (''size='' @ dec_nat 4096) defparams = Inr (defparams\<lparr>iosize := 4096\<rparr>)"
    using test_size_option [of 4096 ?lib defparams] by simp
  have opt: "fill_option ?lib (OptArg (CHR ''t'') (''size='' @ dec_nat 4096)) ?st =
      bind_res (gettestopts ?lib (''size='' @ dec_nat 4096) defparams) (\<lambda>p. Inr (?st\<lparr>o_params := p\<rparr>))"
    by (simp add: fill_option_def)
  have g: "getopt ''s:o:d:m:t:'' [''-t'', ''size='' @ dec_nat 4096, ''/dev/sdb'']
      = ([OptArg (CHR ''t'') (''size='' @ dec_nat 4096)], [''/dev/sdb''])"
    by (rule getopt_t_file) simp_all
  show ?thesis unfolding fill_cmdline_def g Let_def prod.case loop_res.simps opt t bind_res_simps by simp
qed

theorem accepted_options_valid_witness:
  "\<exists>st. fill_cmdline ''iofill'' 0 [''-t'', ''size='' @ dec_nat 4096, ''/dev/sdb''] = Inr (st, [''/dev/sdb''])
     \<and> fill_params_ok (o_params st)"
  using fill_cmdline_demo accepted_options_valid by blast

end
