(* ===== verification/FillIo.thy ===== *)
theory FillIo
  imports FillMain
begin

text \<open>
  \<open>iofill/iof_iotest.c\<close>: what an I/O thread does. A thread works on its own structure and on what it shares: the file's
  structure, the table of details, the generator, the clock and the device, and the two output streams. The
  functions here are the C functions over that pair; the interleaving of the threads is the business of
  the theory \<open>FillRun\<close>. A null buffer is the empty list; sleeping only lets time pass, which the clock
  of the environment stands for.
\<close>

section \<open>Shared state\<close>

datatype logline =
    Completed u64 string              \<comment> \<open>megabytes and file, on \<open>stdout\<close>\<close>
  | Io_error string u64 u32 int int   \<comment> \<open>file, offset, size, \<open>errno\<close> and result, on \<open>stderr\<close>\<close>

record gstate =
  glib :: libstate
  gpools :: pools
  genv :: env
  gdt :: dtable
  gout :: "logline list"
  gerr :: "logline list"
  gstatusmb :: u64
  pthread :: fthread

definition tick :: "gstate \<Rightarrow> u64 \<times> gstate" where
  "tick g = (let (t, e) = iob_gettime (genv g) in (t, g\<lparr>genv := e\<rparr>))"

definition set_rng :: "u48 \<Rightarrow> gstate \<Rightarrow> gstate" where
  "set_rng x g = g\<lparr>genv := (genv g)\<lparr>rng := x\<rparr>\<rparr>"

definition draw64 :: "gstate \<Rightarrow> u64 \<times> gstate" where
  "draw64 g = (let (r, x) = IOB_RAND64 (rng (genv g)) in (r, set_rng x g))"

definition draw_dbl :: "gstate \<Rightarrow> rat \<times> gstate" where
  "draw_dbl g = (let (r, x) = drand48 (rng (genv g)) in (r, set_rng x g))"

definition draw31 :: "gstate \<Rightarrow> nat \<times> gstate" where
  "draw31 g = (let (r, x) = lrand48 (rng (genv g)) in (r, set_rng x g))"

text \<open>\<open>__sync_fetch_and_add(&ftp->thread_bno, k)\<close>.\<close>

definition add_bno :: "u64 \<Rightarrow> gstate \<Rightarrow> u64 \<times> gstate" where
  "add_bno k g = (let (b, b') = fetch_and_add (thread_bno (pthread g)) k
     in (b, g\<lparr>pthread := (pthread g)\<lparr>thread_bno := b'\<rparr>\<rparr>))"

section \<open>Completion\<close>

definition disk_full :: "ioreq \<Rightarrow> bool" where
  "disk_full rp \<longleftrightarrow> syserr rp = EFBIG \<or> syserr rp = ENOSPC
     \<or> syserr rp = 0 \<and> u32_of_int (rsize rp) \<noteq> d_size (detail rp)"

text \<open>The once-a-second bookkeeping of a thread, which is also where the time limit is noticed.\<close>

definition new_second :: "u64 \<Rightarrow> iothread \<Rightarrow> gstate \<Rightarrow> iothread \<times> gstate" where
  "new_second start tp g =
     (if nextsec tp = 0 then (tp\<lparr>nextsec := start + IOB_NSEC_TO_SEC\<rparr>, g)
      else if nextsec tp < start then
        (tp\<lparr>nextsec := nextsec tp + IOB_NSEC_TO_SEC,
            nseconds := (if nseconds tp < NSEC - 1 then nseconds tp + 1 else nseconds tp)\<rparr>,
         if endtime (pthread g) < start then snd (add_bno (totalio (pthread g)) g) else g)
      else (tp, g))"

definition lat_bucket :: "u64 \<Rightarrow> nat" where
  "lat_bucket lat = (let bkt = (ucast (lat div LATDIV) :: u32)
     in if of_nat NLATBKTS \<le> bkt then NLATBKTS - 1 else unat bkt)"

definition bump2 :: "nat \<Rightarrow> nat \<Rightarrow> (nat \<Rightarrow> nat \<Rightarrow> u64) \<Rightarrow> nat \<Rightarrow> nat \<Rightarrow> u64" where
  "bump2 b t h = h(b := (h b)(t := h b t + 1))"

text \<open>The counters of a successful I/O; the type indexes arrays of \<open>N_STATTYPES\<close> entries.\<close>

definition count_io :: "iodet \<Rightarrow> u64 \<Rightarrow> iothread \<Rightarrow> iothread res" where
  "count_io idp lat tp =
     (let ty = unat (d_type idp) in
      if N_STATTYPES \<le> ty \<or> NSEC \<le> nseconds tp then Inl OutOfBounds
      else Inr (tp\<lparr>latbuckets := bump2 (lat_bucket lat) ty (latbuckets tp),
              totlat := (totlat tp)(ty := totlat tp ty + lat),
              totbytes := (totbytes tp)(ty := totbytes tp ty + ucast (d_size idp)),
              seconds := (seconds tp)(nseconds tp := seconds tp (nseconds tp) + 1)\<rparr>))"

definition recovery_run :: "u64 \<Rightarrow> iothread \<Rightarrow> iothread" where
  "recovery_run lat tp =
     (if lat < recoverytime (params tp) then
        let n = rec_runlen tp + 1 in
        tp\<lparr>rec_runlen := n, recovered := (if n = dynamicrecovery (params tp) then 1 else recovered tp)\<rparr>
      else tp\<lparr>rec_runlen := 0\<rparr>)"

definition set_detail :: "iodet \<Rightarrow> iothread \<Rightarrow> iothread" where
  "set_detail d tp = tp\<lparr>iorp := (iorp tp)\<lparr>detail := d\<rparr>\<rparr>"

text \<open>Post-flush I/Os, and those above the limit, are long; long ones go to the table of details.\<close>

definition is_postflush :: "iodet \<Rightarrow> bool" where
  "is_postflush idp \<longleftrightarrow> uint (d_type idp) = POSTFLUSH"

definition mark_long :: "cmdparams \<Rightarrow> u64 \<Rightarrow> iodet \<Rightarrow> iodet" where
  "mark_long p lat idp =
     (if is_postflush idp \<or> iodettime p \<le> lat then idp\<lparr>d_flag := d_flag idp OR IOD_LONG\<rparr> else idp)"

definition report_io :: "iodet \<Rightarrow> gstate \<Rightarrow> (iodet \<times> gstate) res" where
  "report_io idp g =
     (if d_flag idp AND (IOD_LONG OR IOD_ERROR) \<noteq> 0
      then bind_res (iob_details_add idp (gdt g)) (\<lambda>(idp', dt'). Inr (idp', g\<lparr>gdt := dt'\<rparr>))
      else Inr (idp, g))"

text \<open>
  \<open>IOD_ERROR\<close> never reaches the table: \<open>iob_errlog\<close> has ended the process. When the disk is full, the count of
  blocks is pushed past its end, and the I/O is not counted.
\<close>

definition io_finish :: "iothread \<Rightarrow> gstate \<Rightarrow> (iothread \<times> gstate) res" where
  "io_finish tp g =
     (let rp = iorp tp; idp = detail rp in
      if error rp \<noteq> 0 then
        if disk_full rp then
          Inr (tp, snd (add_bno (totalio (pthread g))
            (g\<lparr>gerr := gerr g @ [Io_error (filename (pthread g)) (d_offset idp) (d_size idp)
                                  (syserr rp) (rsize rp)]\<rparr>)))
        else Inl (iob_errlog (glib g) False ''I/O Error'')
      else
        let (tp1, g1) = new_second (d_start idp) tp g;
            idp1 = idp\<lparr>d_flag := 0, d_seconds := of_nat (nseconds tp1)\<rparr>;
            lat = d_end idp - d_start idp
        in bind_res (count_io idp1 lat tp1) (\<lambda>tp2.
           let tp3 = (if is_postflush idp1 then recovery_run lat tp2 else tp2)
           in bind_res (report_io (mark_long (params tp3) lat idp1) g1) (\<lambda>(idp3, g2).
              Inr ((set_detail idp3 tp3)\<lparr>iocount := iocount tp3 + 1\<rparr>, g2))))"

section \<open>One transfer\<close>

text \<open>
  Only \<open>READ\<close> reads; every other type, the flushes among them, is a write. A read leaves its data
  in a buffer nobody looks at.
\<close>

definition io_start :: "bytes \<Rightarrow> iothread \<Rightarrow> gstate \<Rightarrow> (iothread \<times> gstate) res" where
  "io_start wbp tp g0 =
     (let (t0, g1) = tick g0;
          rp = iorp tp; idp = (detail rp)\<lparr>d_start := t0\<rparr>;
          ((ret, errno), e2) =
            (if uint (d_type idp) = READ
             then iob_read (fd rp) (d_size idp) (d_offset idp) (genv g1)
             else iob_write (fd rp) wbp (d_size idp) (d_offset idp) (genv g1));
          rp1 = (if ret \<noteq> uint (d_size idp)
                 then rp\<lparr>error := 1, syserr := errno, rsize := ret\<rparr> else rp\<lparr>error := 0\<rparr>);
          (t1, g2) = tick (g1\<lparr>genv := e2\<rparr>)
      in io_finish (tp\<lparr>iorp := rp1\<lparr>detail := idp\<lparr>d_end := t1\<rparr>\<rparr>\<rparr>) g2)"

section \<open>Cache flushes\<close>

text \<open>The members of the request that every caller of \<open>io_start\<close> sets.\<close>

definition set_request :: "u32 \<Rightarrow> int \<Rightarrow> u32 \<Rightarrow> u64 \<Rightarrow> iothread \<Rightarrow> iothread" where
  "set_request ionum ty sz off tp = set_detail
     ((detail (iorp tp))\<lparr>d_ionum := ionum, d_type := word_of_int ty, d_size := sz, d_offset := off\<rparr>) tp"

definition flush_once :: "iothread \<times> gstate \<Rightarrow> (iothread \<times> gstate) res" where
  "flush_once = (\<lambda>(tp, g).
     io_start [] (set_request (u32_of_int (flushnum tp)) FLUSH 0 (u64_of_int (writenum tp))
       (tp\<lparr>flushnum := flushnum tp + 1\<rparr>)) g)"

text \<open>The recovery loop runs until the clock reaches \<open>stop\<close> or the drive has recovered.\<close>

fun flush_reads :: "nat \<Rightarrow> u64 \<Rightarrow> iothread \<Rightarrow> gstate \<Rightarrow> (iothread \<times> gstate) res" where
  "flush_reads 0 stop tp g = Inl OutOfFuel"
| "flush_reads (Suc n) stop tp g =
     (let (now, g1) = tick g in
      if now < stop \<and> recovered tp = 0 then
        let (r, g2) = draw64 g1; p = params tp in
        bind_res (umod (r * u64_of_int (flushalign p)) (rangeoff tp)) (\<lambda>off.
        bind_res (io_start [] (set_request (u32_of_int (pflushnum tp)) POSTFLUSH
            (u32_of_int (iosize p)) (minoff p + off) (tp\<lparr>pflushnum := pflushnum tp + 1\<rparr>)) g2) (\<lambda>(tp', g').
          flush_reads n stop tp' g'))
      else Inr (tp, g1))"

definition do_flush_cache :: "nat \<Rightarrow> int \<Rightarrow> iothread \<times> gstate \<Rightarrow> (iothread \<times> gstate) res" where
  "do_flush_cache fuel prepost = (\<lambda>(tp, g).
     let p = params tp in
     bind_res (if prepost AND 0x2 \<noteq> 0
               then loop_res (\<lambda>_. flush_once) [0 ..< nat (flushcount p)] (tp, g) else Inr (tp, g)) (\<lambda>(tp1, g1).
     if prepost AND 0x4 \<noteq> 0 \<and> (postflushtype p = PFLUSH_READ \<or> postflushtype p = PFLUSH_MIXED) then
       let (now, g2) = tick g1
       in flush_reads fuel (now + postflushinterval p) (tp1\<lparr>recovered := 0, rec_runlen := 0\<rparr>) g2
     else Inr (tp1, g1)))"

section \<open>Write injection\<close>

text \<open>
  The injecting thread raises \<open>iowait\<close> and then waits until every other thread of the file has posted its
  \<open>iostop\<close> semaphore; a semaphore still at zero is \<open>Blocked\<close>. The list is that of the other
  threads; the caller's own structure is apart.
\<close>

definition sem_wait :: "nat \<Rightarrow> nat res" where
  "sem_wait s = (if s = 0 then Inl Blocked else Inr (s - 1))"

fun wait_iostops :: "iothread list \<Rightarrow> iothread list res" where
  "wait_iostops [] = Inr []"
| "wait_iostops (t # ts) =
     bind_res (sem_wait (iostop t)) (\<lambda>s.
     bind_res (wait_iostops ts) (\<lambda>ts'. Inr (t\<lparr>iostop := s\<rparr> # ts')))"

definition raise_iowait :: "gstate \<Rightarrow> gstate" where
  "raise_iowait g = g\<lparr>pthread := (pthread g)\<lparr>iowait := 1\<rparr>\<rparr>"

definition io_stop :: "iothread list \<times> gstate \<Rightarrow> (iothread list \<times> gstate) res" where
  "io_stop = (\<lambda>(others, g).
     bind_res (wait_iostops others) (\<lambda>others'. Inr (others', raise_iowait g)))"

definition io_restart :: "iothread list \<times> gstate \<Rightarrow> iothread list \<times> gstate" where
  "io_restart = (\<lambda>(others, g).
     (map (\<lambda>t. t\<lparr>iostart := iostart t + 1\<rparr>) others, g\<lparr>pthread := (pthread g)\<lparr>iowait := 0\<rparr>\<rparr>))"

text \<open>A segment whose blocks are all written is replaced by a random one.\<close>

definition next_segment ::
    "nat \<Rightarrow> nat \<Rightarrow> iothread \<times> gstate \<times> bool \<Rightarrow> (iothread \<times> gstate \<times> bool) res" where
  "next_segment fuel j = (\<lambda>(tp, g, didflush).
     if length (segwrite tp) \<le> j \<or> length (cursegoff tp) \<le> j then Inl OutOfBounds
     else if segwrite tp ! j = nsegoffs tp then
       let (r, g1) = draw64 g; p = params tp in
       bind_res (umod r (maxsegs tp)) (\<lambda>sg.
         let tp1 = tp\<lparr>cursegoff := (cursegoff tp)[j := minoff p + sg * u64_of_int (segsize p)],
                      segwrite := (segwrite tp)[j := 0]\<rparr>
         in if flush_mode p = FLUSH_SEG
            then bind_res (do_flush_cache fuel 0x2 (tp1, g1)) (\<lambda>(tp2, g2). Inr (tp2, g2, True))
            else Inr (tp1, g1, didflush))
     else Inr (tp, g, didflush))"

definition inject_one ::
    "nat \<Rightarrow> nat \<Rightarrow> iothread \<times> gstate \<times> bool \<Rightarrow> (iothread \<times> gstate \<times> bool) res" where
  "inject_one fuel j st =
     bind_res (next_segment fuel j st) (\<lambda>(tp, g, didflush).
       let p = params tp; k = segwrite tp ! j in
       if k < 0 \<or> length (segofflist tp) \<le> nat k then Inl OutOfBounds
       else
         let off = cursegoff tp ! j + u64_of_int (segofflist tp ! nat k * writesize p);
             rq = set_request (u32_of_int (writenum tp)) WRITE (u32_of_int (writesize p)) off
                    (tp\<lparr>writenum := writenum tp + 1\<rparr>);
             d = detail (iorp rq);
             tp1 = (set_detail (d\<lparr>d_dtype := word_of_int IOB_DT_UNCOMPRESSIBLE\<rparr>) rq)
                     \<lparr>segwrite := (segwrite tp)[j := k + 1]\<rparr>
         in bind_res (iob_iodata (gpools g) (writebuf tp1) (u32_of_int (writesize p))
                        IOB_DT_UNCOMPRESSIBLE (dedupblks p) (rng (genv g))) (\<lambda>(buf, x).
            bind_res (io_start buf (tp1\<lparr>writebuf := buf\<rparr>) (set_rng x g)) (\<lambda>(tp2, g2).
              Inr (tp2, g2, didflush))))"

definition inject_segment ::
    "nat \<Rightarrow> nat \<Rightarrow> iothread \<times> gstate \<times> bool \<Rightarrow> (iothread \<times> gstate \<times> bool) res" where
  "inject_segment fuel j = (\<lambda>(tp, g, didflush).
     let p = params tp;
         (count, g1) = (if randinject p \<noteq> 0
           then (let (r, g') = draw31 g in (int r smod (writeinject p * 2) + 1, g'))
           else (writeinject p, g))
     in loop_res (\<lambda>_. inject_one fuel j) [0 ..< nat count] (tp, g1, didflush))"

definition do_write_inject ::
    "nat \<Rightarrow> bool \<Rightarrow> iothread \<times> iothread list \<times> gstate \<Rightarrow> (iothread \<times> iothread list \<times> gstate) res" where
  "do_write_inject fuel flush = (\<lambda>(tp, others, g).
     let fm = flush_mode (params tp);
         finish = (\<lambda>(tp', o', g'). let (o2, g2) = io_restart (o', g') in Inr (tp', o2, g2))
     in bind_res (io_stop (others, g)) (\<lambda>(others', g1).
       if flush \<and> fm = FLUSH_ONLY then
         bind_res (do_flush_cache fuel 0x7 (tp, g1)) (\<lambda>(tp', g'). finish (tp', others', g'))
       else
       bind_res (if flush \<and> fm = FLUSH_BEF then do_flush_cache fuel 0x7 (tp, g1) else Inr (tp, g1)) (\<lambda>(tp1, g2).
       bind_res (if fm = FLUSH_SEG then do_flush_cache fuel 0x1 (tp1, g2) else Inr (tp1, g2)) (\<lambda>(tp2, g3).
       bind_res (loop_res (inject_segment fuel) [0 ..< nat (nsegments (params tp))] (tp2, g3, False))
         (\<lambda>(tp3, g4, didflush).
       bind_res (if didflush then do_flush_cache fuel 0x6 (tp3, g4) else Inr (tp3, g4)) (\<lambda>(tp4, g5).
       bind_res (if flush \<and> fm = FLUSH_AFT then do_flush_cache fuel 0x7 (tp4, g5) else Inr (tp4, g5)) (\<lambda>(tp5, g6).
         finish (tp5, others', g6))))))))"

section \<open>The body of an I/O thread\<close>

text \<open>What a thread does before the test starts.\<close>

definition io_prologue :: "iothread \<Rightarrow> gstate \<Rightarrow> (iothread \<times> gstate) res" where
  "io_prologue tp g0 =
     (let p = params tp; g = set_rng (srand48 (randseed p)) g0 in
      bind_res
        (if 1 < streams p \<and> seqflag p \<noteq> 0 \<and> partition p = 0 \<and> threadid tp \<noteq> 0 then
           let (r, g1) = draw64 g in
           bind_res (umod r (drop_bit 20 (rangeoff tp))) (\<lambda>k.
             Inr (tp\<lparr>params := p\<lparr>seekoff := push_bit 20 k\<rparr>\<rparr>, g1))
         else Inr (tp, g)) (\<lambda>(tp1, g1).
        if 1 < streams p \<and> uniform p \<noteq> 0 then
          let (d, g2) = draw_dbl g1 in
          Inr (tp1\<lparr>params := (params tp1)\<lparr>readpct := (if d < readpct (params tp1) then 1 else 0)\<rparr>\<rparr>, g2)
        else Inr (tp1, g1)))"

text \<open>The locals of \<open>io_thread\<close>.\<close>

record iolocals =
  l_next :: u64
  l_nextflush :: u64
  l_injbno :: u64
  l_ionum :: u64
  l_cursize :: int
  l_altcount :: u64

definition io_begin :: "iothread \<Rightarrow> gstate \<Rightarrow> (iothread \<times> iolocals) \<times> gstate" where
  "io_begin tp g =
     (let (now, g1) = tick g; p = params tp in
      ((tp\<lparr>starttime := now\<rparr>,
        \<lparr>l_next = now + injectinterval p, l_nextflush = now + flushinterval p, l_injbno = 0,
         l_ionum = 1, l_cursize = iosize p, l_altcount = 0\<rparr>), g1))"

text \<open>
  The range the I/Os of a thread fall in: \<open>pos\<close> bytes into the run, folded into \<open>rangeoff\<close> and spread out by
  the multiplier. The stream head gives the lower end.
\<close>

definition fold_offset :: "iothread \<Rightarrow> iothread \<Rightarrow> u64 \<Rightarrow> u64 res" where
  "fold_offset tp hd_tp pos =
     bind_res (umod pos (rangeoff tp)) (\<lambda>r.
       Inr (minoff (params hd_tp) + r * u64_of_int (multiplier (params tp))))"

text \<open>The end of \<open>io_thread\<close>'s request set-up, used twice: read or write, and the data of a write.\<close>

definition prepare :: "int \<Rightarrow> iothread \<Rightarrow> gstate \<Rightarrow> (iothread \<times> gstate) res" where
  "prepare cursize tp g =
     (let (d, g1) = draw_dbl g; p = params tp; dt = detail (iorp tp) in
      if d < readpct p then Inr (set_detail (dt\<lparr>d_type := word_of_int READ\<rparr>) tp, g1)
      else
        let dt' = dt\<lparr>d_offset := d_offset dt + wroff p, d_type := word_of_int WRITE,
                     d_dtype := word_of_int (datatype_of p)\<rparr>
        in bind_res (iob_iodata (gpools g1) (writebp (iorp tp)) (u32_of_int cursize)
                       (datatype_of p) (dedupblks p) (rng (genv g1))) (\<lambda>(buf, x).
             Inr (tp\<lparr>iorp := (iorp tp)\<lparr>detail := dt', writebp := buf\<rparr>\<rparr>, set_rng x g1)))"

definition set_target :: "u64 \<Rightarrow> u64 \<Rightarrow> u32 \<Rightarrow> iothread \<Rightarrow> iothread" where
  "set_target ionum off sz tp = set_detail
     ((detail (iorp tp))\<lparr>d_ionum := ucast ionum, d_offset := off, d_size := sz\<rparr>) tp"

definition do_transfer :: "int \<Rightarrow> iothread \<Rightarrow> gstate \<Rightarrow> (iothread \<times> gstate) res" where
  "do_transfer cursize tp g =
     bind_res (prepare cursize tp g) (\<lambda>(tp', g'). io_start (writebp (iorp tp')) tp' g')"

text \<open>The header, written before block 0.\<close>

definition header_io ::
    "iothread \<Rightarrow> iothread \<times> iolocals \<Rightarrow> gstate \<Rightarrow> ((iothread \<times> iolocals) \<times> gstate) res" where
  "header_io hd_tp = (\<lambda>(tp, l) g.
     bind_res (fold_offset tp hd_tp (seekoff (params hd_tp))) (\<lambda>off.
     bind_res (do_transfer (l_cursize l) (set_target (l_ionum l) off (ucast (headersz (params tp))) tp) g)
       (\<lambda>(tp', g'). Inr ((tp', l\<lparr>l_ionum := l_ionum l + 1\<rparr>), g'))))"

text \<open>A block: its offset from its number, and its size cut at the end of the range.\<close>

definition block_offset :: "iothread \<Rightarrow> iothread \<Rightarrow> u64 \<Rightarrow> u64 res" where
  "block_offset tp hd_tp bno =
     (let p = params tp in
      fold_offset tp hd_tp (seekoff (params hd_tp) + headersz p
        + u64_of_int (iosize p) * u64_of_int (1 + skip p) * bno))"

definition range_end :: "iothread \<Rightarrow> iothread \<Rightarrow> u64" where
  "range_end tp hd_tp =
     minoff (params hd_tp) + rangeoff tp * u64_of_int (multiplier (params tp))"

definition block_size :: "iothread \<Rightarrow> iothread \<Rightarrow> int \<Rightarrow> u64 \<Rightarrow> u32" where
  "block_size tp hd_tp cursize off =
     (if range_end tp hd_tp < off + u64_of_int cursize
      then ucast (range_end tp hd_tp - off) else u32_of_int cursize)"

definition progress :: "u64 \<Rightarrow> iothread \<Rightarrow> gstate \<Rightarrow> gstate res" where
  "progress ftot_bno tp g =
     (let sz = ucast (d_size (detail (iorp tp))) in
      bind_res (udiv ((ftot_bno - 1) * sz) (gstatusmb g)) (\<lambda>a.
      bind_res (udiv (ftot_bno * sz) (gstatusmb g)) (\<lambda>b.
        Inr (if a < b then g\<lparr>gout := gout g @ [Completed (drop_bit 20 (ftot_bno * sz)) (filename (pthread g))]\<rparr>
             else g))))"

definition next_size :: "cmdparams \<Rightarrow> iolocals \<Rightarrow> iolocals" where
  "next_size p l =
     (if altcount p \<noteq> 0 then
        let k = l_altcount l + 1 in
        l\<lparr>l_altcount := k, l_cursize := (if k mod altcount p = 0
             then (if l_cursize l = iosize p then altsize p else iosize p) else l_cursize l)\<rparr>
      else l)"

definition block_io ::
    "iothread \<Rightarrow> u64 \<Rightarrow> u64 \<Rightarrow> iothread \<times> iolocals \<Rightarrow> gstate \<Rightarrow> ((iothread \<times> iolocals) \<times> gstate) res" where
  "block_io hd_tp ftot_bno bno = (\<lambda>(tp, l) g.
     bind_res (block_offset tp hd_tp bno) (\<lambda>off.
     let sz = block_size tp hd_tp (l_cursize l) off in
     bind_res (do_transfer (l_cursize l) (set_target (l_ionum l) off sz tp) g) (\<lambda>(tp', g').
     bind_res (progress ftot_bno tp' g') (\<lambda>g''.
       Inr ((tp', next_size (params tp') (l\<lparr>l_ionum := l_ionum l + 1\<rparr>)), g'')))))"


text \<open>
  One turn of the loop, after the number \<open>ftot_bno\<close> has been drawn and found below \<open>totalio\<close>: the number
  of the block (random, taken from the stream head, or the drawn one folded by \<open>nio\<close>), the header, the
  block. The other threads are needed for the stream head.
\<close>

definition pick_block ::
    "u64 \<Rightarrow> nat \<Rightarrow> iothread list \<times> gstate \<Rightarrow> (u64 \<times> iothread list \<times> gstate) res" where
  "pick_block bno i = (\<lambda>(ths, g).
     let tp = ths ! i; p = params tp; h = streamhead tp in
     if seqflag p = 0 then (let (r, g') = draw64 g in Inr (r, ths, g'))
     else if 1 < streams p then
       (let (b, b') = fetch_and_add (nextbno (ths ! h)) 1 in Inr (b, ths[h := (ths ! h)\<lparr>nextbno := b'\<rparr>], g))
     else bind_res (umod bno (nio p)) (\<lambda>b. Inr (b, ths, g)))"

definition run_block ::
    "u64 \<Rightarrow> u64 \<Rightarrow> nat \<Rightarrow> iolocals \<Rightarrow> iothread list \<times> gstate
       \<Rightarrow> (iolocals \<times> iothread list \<times> gstate) res" where
  "run_block ftot_bno bno i l = (\<lambda>(ths, g).
     let tp = ths ! i; hd_tp = ths ! streamhead tp in
     bind_res (if bno = 0 \<and> headersz (params tp) \<noteq> 0 then header_io hd_tp (tp, l) g
               else Inr ((tp, l), g)) (\<lambda>((tp1, l1), g1).
     bind_res (block_io hd_tp ftot_bno bno (tp1, l1) g1) (\<lambda>((tp2, l2), g2).
       Inr (l2, ths[i := tp2], g2))))"

definition io_turn ::
    "u64 \<Rightarrow> nat \<Rightarrow> iolocals \<Rightarrow> iothread list \<times> gstate
       \<Rightarrow> (iolocals \<times> iothread list \<times> gstate) res" where
  "io_turn ftot_bno i l st =
     bind_res (pick_block ftot_bno i st) (\<lambda>(bno, st'). run_block ftot_bno bno i l st')"

text \<open>The injecting thread among the threads of its file.\<close>

definition inject_at ::
    "nat \<Rightarrow> bool \<Rightarrow> nat \<Rightarrow> iothread list \<times> gstate \<Rightarrow> (iothread list \<times> gstate) res" where
  "inject_at fuel flush i = (\<lambda>(ths, g).
     bind_res (do_write_inject fuel flush (ths ! i, take i ths @ drop (Suc i) ths, g))
       (\<lambda>(tp, others, g'). Inr (take i others @ tp # drop i others, g')))"

text \<open>The two tests for an injection: by time at the top of the loop, by count after a number is drawn.\<close>

definition time_due :: "iothread \<Rightarrow> iolocals \<Rightarrow> u64 \<Rightarrow> bool" where
  "time_due tp l now \<longleftrightarrow> l_next l \<le> now \<and> writeinject (params tp) \<noteq> 0"

definition time_next :: "iothread \<Rightarrow> u64 \<Rightarrow> iolocals \<Rightarrow> bool \<times> iolocals" where
  "time_next tp now l =
     (let flush = l_nextflush l < now in
      (flush, l\<lparr>l_next := now + injectinterval (params tp),
                l_nextflush := (if flush then now + flushinterval (params tp) else l_nextflush l)\<rparr>))"

definition count_due :: "iothread \<Rightarrow> iolocals \<Rightarrow> u64 \<Rightarrow> bool" where
  "count_due tp l bno \<longleftrightarrow>
     injectinterval_io (params tp) \<noteq> 0 \<and> l_injbno l < bno div injectinterval_io (params tp)"

text \<open>The wait while another thread injects: post \<open>iostop\<close>, then wait for \<open>iostart\<close>.\<close>

definition pause_post :: "iothread \<Rightarrow> iothread" where
  "pause_post tp = tp\<lparr>iostop := iostop tp + 1\<rparr>"

definition pause_wait :: "iothread \<Rightarrow> iothread res" where
  "pause_wait tp = bind_res (sem_wait (iostart tp)) (\<lambda>s. Inr (tp\<lparr>iostart := s\<rparr>))"

text \<open>The draw: the number, and whether the loop goes on.\<close>

definition draw_block :: "gstate \<Rightarrow> (u64 \<times> bool) \<times> gstate" where
  "draw_block g = (let (bno, g') = add_bno 1 g in ((bno, bno < totalio (pthread g)), g'))"

definition io_end :: "iothread \<Rightarrow> gstate \<Rightarrow> iothread \<times> gstate" where
  "io_end tp g = (let (now, g') = tick g in (tp\<lparr>stoptime := now, th_stop := th_stop tp + 1\<rparr>, g'))"

section \<open>What a transfer leaves alone\<close>

text \<open>The part of a thread, and the part of the shared state, that I/O only reads.\<close>

definition thread_fixed :: "iothread \<Rightarrow> cmdparams \<times> u64 \<times> nat \<times> int \<times> int \<times> nat" where
  "thread_fixed tp = (params tp, rangeoff tp, streamhead tp, threadid tp, fd (iorp tp),
     length (writebp (iorp tp)))"

definition shared_fixed where
  "shared_fixed g = (glib g, gpools g, gstatusmb g, env_fixed (genv g), totalio (pthread g),
     endtime (pthread g), filename (pthread g), iowait (pthread g))"

lemmas fixed_defs = thread_fixed_def env_fixed_def shared_fixed_def

lemma add_bno_simps [io_simps]:
  "add_bno k g = (thread_bno (pthread g),
     g\<lparr>pthread := (pthread g)\<lparr>thread_bno := thread_bno (pthread g) + k\<rparr>\<rparr>)"
  by (simp add: add_bno_def fetch_and_add_def)

lemma tick_simps:
  "tick g = (u, g') \<Longrightarrow> shared_fixed g' = shared_fixed g \<and> calls (genv g') = calls (genv g)
     \<and> thread_bno (pthread g') = thread_bno (pthread g) \<and> gdt g' = gdt g
     \<and> (\<exists>n. u = timespec_ns (fst (clk (genv g) n)) (snd (clk (genv g) n)))
     \<and> pthread g' = pthread g"
  by (auto simp: tick_def iob_gettime_def fixed_defs split: prod.splits)
    (metis fst_conv snd_conv)+

lemma report_io_total:
  assumes "table_ok (gdt g)"
  shows "\<exists>d' g'. report_io d g = Inr (d', g') \<and> table_ok (gdt g') \<and> d_size d' = d_size d
     \<and> (\<exists>dt'. g' = g\<lparr>gdt := dt'\<rparr>)"
proof -
  from details_add_total [OF assms, of d] obtain d' dt' where
    a: "iob_details_add d (gdt g) = Inr (d', dt')" "table_ok dt'" "d_size d' = d_size d" by blast
  moreover have "\<exists>dt'. g = g\<lparr>gdt := dt'\<rparr>" by (rule exI [of _ "gdt g"]) simp
  ultimately show ?thesis using a assms unfolding report_io_def by auto
qed

text \<open>An I/O without error is completed, and counted, without a fault.\<close>

lemma io_finish_ok:
  assumes "error (iorp tp) = 0" and "unat (d_type (detail (iorp tp))) < N_STATTYPES"
    and "nseconds tp < NSEC" and "table_ok (gdt g)"
  shows "\<exists>tp' g'. io_finish tp g = Inr (tp', g') \<and> thread_fixed tp' = thread_fixed tp
     \<and> shared_fixed g' = shared_fixed g \<and> calls (genv g') = calls (genv g)
     \<and> nseconds tp' < NSEC \<and> table_ok (gdt g') \<and> writebp (iorp tp') = writebp (iorp tp)
     \<and> d_size (detail (iorp tp')) = d_size (detail (iorp tp))
     \<and> (d_start (detail (iorp tp)) \<le> endtime (pthread g) \<longrightarrow> thread_bno (pthread g') = thread_bno (pthread g))"
proof -
  let ?d = "detail (iorp tp)"
  obtain tp1 g1 where s: "new_second (d_start ?d) tp g = (tp1, g1)" by (cases "new_second (d_start ?d) tp g")
  have s1: "thread_fixed tp1 = thread_fixed tp" "iorp tp1 = iorp tp" "shared_fixed g1 = shared_fixed g"
    "genv g1 = genv g" "gdt g1 = gdt g"
    "nseconds tp1 < NSEC" "d_start ?d \<le> endtime (pthread g) \<Longrightarrow> thread_bno (pthread g1) = thread_bno (pthread g)"
    using s assms(3) by (auto simp: new_second_def fixed_defs io_simps split: if_splits)
  define d1 where "d1 = ?d\<lparr>d_flag := 0, d_seconds := of_nat (nseconds tp1)\<rparr>"
  define lat where "lat = d_end ?d - d_start ?d"
  obtain tp2 where c: "count_io d1 lat tp1 = Inr tp2" and c1: "thread_fixed tp2 = thread_fixed tp1"
    "iorp tp2 = iorp tp1" "nseconds tp2 = nseconds tp1"
    using assms(2) s1(6) by (simp add: count_io_def Let_def d1_def fixed_defs)
  define tp3 where "tp3 = (if is_postflush d1 then recovery_run lat tp2 else tp2)"
  have t3: "thread_fixed tp3 = thread_fixed tp2" "iorp tp3 = iorp tp2" "nseconds tp3 = nseconds tp2"
    by (auto simp: tp3_def recovery_run_def Let_def fixed_defs)
  define d2 where "d2 = mark_long (params tp3) lat d1"
  have d2: "d_size d2 = d_size ?d" by (simp add: d2_def mark_long_def d1_def)
  have "table_ok (gdt g1)" using s1(5) assms(4) by simp
  from report_io_total [OF this, of d2] obtain d3 g2 where r: "report_io d2 g1 = Inr (d3, g2)"
    "table_ok (gdt g2)" "d_size d3 = d_size d2" "\<exists>dt'. g2 = g1\<lparr>gdt := dt'\<rparr>" by blast
  have "io_finish tp g = Inr ((set_detail d3 tp3)\<lparr>iocount := iocount tp3 + 1\<rparr>, g2)"
    unfolding io_finish_def Let_def s prod.case d1_def [symmetric] lat_def [symmetric] c
      bind_res_simps tp3_def [symmetric] d2_def [symmetric] r(1)
    using assms(1) by simp
  moreover have "thread_fixed ((set_detail d3 tp3)\<lparr>iocount := iocount tp3 + 1\<rparr>) = thread_fixed tp"
    using t3 c1 s1 by (simp add: thread_fixed_def set_detail_def)
  moreover have "shared_fixed g2 = shared_fixed g" "calls (genv g2) = calls (genv g)"
    "thread_bno (pthread g2) = thread_bno (pthread g1)"
    using s1 r(4) by (auto simp: shared_fixed_def)
  ultimately show ?thesis using s1 r c1 t3 d2 by (auto simp: set_detail_def)
qed


text \<open>The request a thread's next transfer makes.\<close>

definition next_call :: "bytes \<Rightarrow> iothread \<Rightarrow> iocall" where
  "next_call wbp tp =
     (let rp = iorp tp; d = detail rp in
      if uint (d_type d) = READ then Pread (fd rp) (d_size d) (d_offset d)
      else Pwrite (fd rp) (take (unat (d_size d)) wbp) (d_offset d))"

lemma io_start_ok:
  assumes "full_transfers (genv g)" and "unat (d_type (detail (iorp tp))) < N_STATTYPES"
    and "nseconds tp < NSEC" and "table_ok (gdt g)"
    and "unat (d_size (detail (iorp tp))) \<le> length wbp"
  shows "\<exists>tp' g'. io_start wbp tp g = Inr (tp', g') \<and> thread_fixed tp' = thread_fixed tp
     \<and> shared_fixed g' = shared_fixed g \<and> calls (genv g') = calls (genv g) @ [next_call wbp tp]
     \<and> nseconds tp' < NSEC \<and> table_ok (gdt g') \<and> writebp (iorp tp') = writebp (iorp tp)
     \<and> d_size (detail (iorp tp')) = d_size (detail (iorp tp))
     \<and> (within_time (endtime (pthread g)) (genv g) \<longrightarrow> thread_bno (pthread g') = thread_bno (pthread g))"
proof -
  obtain t0 g1 where t0: "tick g = (t0, g1)" by (cases "tick g")
  note g1 = tick_simps [OF t0]
  let ?d = "(detail (iorp tp))\<lparr>d_start := t0\<rparr>"
  define c where "c = next_call wbp tp"
  define e2 where "e2 = (genv g1)\<lparr>calls := calls (genv g1) @ [c]\<rparr>"
  have len: "call_length c = unat (d_size (detail (iorp tp)))"
    using assms(5) by (simp add: c_def next_call_def Let_def)
  obtain errno where ans: "dev (genv g1) (length (calls (genv g1))) c = (int (call_length c), errno)"
    using assms(1) g1 by (simp add: full_transfers_def fixed_defs) (metis prod.collapse)
  have call: "(if uint (d_type ?d) = READ
             then iob_read (fd (iorp tp)) (d_size ?d) (d_offset ?d) (genv g1)
             else iob_write (fd (iorp tp)) wbp (d_size ?d) (d_offset ?d) (genv g1))
        = ((int (call_length c), errno), e2)"
    using ans by (auto simp: iob_read_def iob_write_def do_call_def c_def next_call_def Let_def e2_def)
  obtain t1 g2 where t1: "tick (g1\<lparr>genv := e2\<rparr>) = (t1, g2)" by (cases "tick (g1\<lparr>genv := e2\<rparr>)")
  note g2 = tick_simps [OF t1]
  define tp1 where "tp1 = tp\<lparr>iorp := (iorp tp)\<lparr>error := 0, detail := ?d\<lparr>d_end := t1\<rparr>\<rparr>\<rparr>"
  have eq: "io_start wbp tp g = io_finish tp1 g2"
    unfolding io_start_def Let_def t0 prod.case call t1 tp1_def using len by simp
  have s2: "shared_fixed g2 = shared_fixed g" "calls (genv g2) = calls (genv g) @ [c]"
    "gdt g2 = gdt g" "thread_bno (pthread g2) = thread_bno (pthread g)"
    using g1 g2 by (auto simp: e2_def fixed_defs)
  have "table_ok (gdt g2)" "error (iorp tp1) = 0" "unat (d_type (detail (iorp tp1))) < N_STATTYPES"
    "nseconds tp1 < NSEC" using assms s2 by (simp_all add: tp1_def)
  from io_finish_ok [OF this(2,3,4,1)] obtain tp' g' where r: "io_finish tp1 g2 = Inr (tp', g')"
    "thread_fixed tp' = thread_fixed tp1" "shared_fixed g' = shared_fixed g2"
    "calls (genv g') = calls (genv g2)" "nseconds tp' < NSEC" "table_ok (gdt g')"
    "writebp (iorp tp') = writebp (iorp tp1)"
    "d_size (detail (iorp tp')) = d_size (detail (iorp tp1))"
    "d_start (detail (iorp tp1)) \<le> endtime (pthread g2) \<longrightarrow> thread_bno (pthread g') = thread_bno (pthread g2)"
    by blast
  have "t0 \<le> endtime (pthread g2)" if "within_time (endtime (pthread g)) (genv g)"
    using that g1 s2(1) by (auto simp: within_time_def shared_fixed_def)
  then show ?thesis using r s2 eq
    by (auto simp: tp1_def c_def thread_fixed_def)
qed

end
