(* ===== verification/FillRun.thy ===== *)
theory FillRun
  imports FillIo
begin

text \<open>
  The threads of a file running together: \<open>io_thread\<close>'s loop as a step relation. A step is one thread's
  next piece of code between two accesses to what the threads share; any thread that is not waiting can make
  it. The numbers of the blocks are drawn one by one from \<open>thread_bno\<close>, whoever draws.
\<close>

section \<open>The step relation\<close>

datatype pc =
    Top                \<comment> \<open>start of the loop, before the clock is read\<close>
  | Inj_time bool      \<comment> \<open>\<open>iowait\<close> is raised for an injection by time\<close>
  | Check              \<comment> \<open>before the test of \<open>iowait\<close>\<close>
  | Paused             \<comment> \<open>waiting for \<open>iostart\<close>\<close>
  | Draw               \<comment> \<open>before the draw\<close>
  | Inj_count u64      \<comment> \<open>\<open>iowait\<close> is raised for an injection by count\<close>
  | Turn u64           \<comment> \<open>about to handle this number\<close>
  | Leaving            \<comment> \<open>out of the loop\<close>
  | Ended

record fsys =
  sys_g :: gstate
  sys_ths :: "iothread list"
  sys_locs :: "iolocals list"
  sys_pcs :: "pc list"

definition goto :: "nat \<Rightarrow> pc \<Rightarrow> fsys \<Rightarrow> fsys" where
  "goto i p s = s\<lparr>sys_pcs := (sys_pcs s)[i := p]\<rparr>"

definition step_top :: "nat \<Rightarrow> fsys \<Rightarrow> fsys" where
  "step_top i s =
     (let (now, g) = tick (sys_g s); tp = sys_ths s ! i; l = sys_locs s ! i in
      if time_due tp l now then
        let (flush, l') = time_next tp now l in
        goto i (Inj_time flush) (s\<lparr>sys_g := raise_iowait g, sys_locs := (sys_locs s)[i := l']\<rparr>)
      else goto i Check (s\<lparr>sys_g := g\<rparr>))"

definition step_inject :: "nat \<Rightarrow> bool \<Rightarrow> pc \<Rightarrow> nat \<Rightarrow> fsys \<Rightarrow> fsys res" where
  "step_inject fuel flush after i s =
     bind_res (inject_at fuel flush i (sys_ths s, sys_g s)) (\<lambda>(ths, g).
       Inr (goto i after (s\<lparr>sys_g := g, sys_ths := ths\<rparr>)))"

definition step_check :: "nat \<Rightarrow> fsys \<Rightarrow> fsys" where
  "step_check i s =
     (if iowait (pthread (sys_g s)) \<noteq> 0
      then goto i Paused (s\<lparr>sys_ths := (sys_ths s)[i := pause_post (sys_ths s ! i)]\<rparr>)
      else goto i Draw s)"

definition step_paused :: "nat \<Rightarrow> fsys \<Rightarrow> fsys res" where
  "step_paused i s =
     bind_res (pause_wait (sys_ths s ! i)) (\<lambda>tp.
       Inr (goto i Draw (s\<lparr>sys_ths := (sys_ths s)[i := tp]\<rparr>)))"

definition step_draw :: "nat \<Rightarrow> fsys \<Rightarrow> fsys" where
  "step_draw i s =
     (let ((bno, more), g) = draw_block (sys_g s); s' = s\<lparr>sys_g := g\<rparr> in
      if \<not> more then goto i Leaving s'
      else if count_due (sys_ths s ! i) (sys_locs s ! i) bno
      then goto i (Inj_count bno) (s'\<lparr>sys_g := raise_iowait g\<rparr>)
      else goto i (Turn bno) s')"

definition step_turn :: "u64 \<Rightarrow> nat \<Rightarrow> fsys \<Rightarrow> fsys res" where
  "step_turn bno i s =
     bind_res (io_turn bno i (sys_locs s ! i) (sys_ths s, sys_g s)) (\<lambda>(l, ths, g).
       Inr (goto i Top (s\<lparr>sys_g := g, sys_ths := ths, sys_locs := (sys_locs s)[i := l]\<rparr>)))"

definition step_leave :: "nat \<Rightarrow> fsys \<Rightarrow> fsys" where
  "step_leave i s =
     (let (tp, g) = io_end (sys_ths s ! i) (sys_g s)
      in goto i Ended (s\<lparr>sys_g := g, sys_ths := (sys_ths s)[i := tp]\<rparr>))"

definition count_injected :: "nat \<Rightarrow> fsys \<Rightarrow> fsys" where
  "count_injected i s =
     (let l = sys_locs s ! i in s\<lparr>sys_locs := (sys_locs s)[i := l\<lparr>l_injbno := l_injbno l + 1\<rparr>]\<rparr>)"

definition thread_step :: "nat \<Rightarrow> nat \<Rightarrow> fsys \<Rightarrow> fsys res" where
  "thread_step fuel i s =
     (case sys_pcs s ! i of
        Top \<Rightarrow> Inr (step_top i s)
      | Inj_time flush \<Rightarrow> step_inject fuel flush Check i s
      | Check \<Rightarrow> Inr (step_check i s)
      | Paused \<Rightarrow> step_paused i s
      | Draw \<Rightarrow> Inr (step_draw i s)
      | Inj_count bno \<Rightarrow> bind_res (step_inject fuel True (Turn bno) i s) (\<lambda>s'. Inr (count_injected i s'))
      | Turn bno \<Rightarrow> step_turn bno i s
      | Leaving \<Rightarrow> Inr (step_leave i s)
      | Ended \<Rightarrow> Inl Blocked)"

text \<open>
  A run: its number of steps and, in order, which thread drew which number, for the numbers
  it then handles.
\<close>

definition drawn :: "nat \<Rightarrow> fsys \<Rightarrow> (nat \<times> u64) list" where
  "drawn i s = (if sys_pcs s ! i = Draw then
       (let ((bno, more), g) = draw_block (sys_g s) in if more then [(i, bno)] else []) else [])"

inductive fill_run :: "nat \<Rightarrow> fsys \<Rightarrow> nat \<Rightarrow> (nat \<times> u64) list \<Rightarrow> fsys \<Rightarrow> bool" for fuel s0 where
  run_start: "fill_run fuel s0 0 [] s0"
| run_step: "fill_run fuel s0 k evs s \<Longrightarrow> i < length (sys_pcs s) \<Longrightarrow> thread_step fuel i s = Inr s'
     \<Longrightarrow> fill_run fuel s0 (Suc k) (evs @ drawn i s) s'"

definition stuck :: "nat \<Rightarrow> fsys \<Rightarrow> bool" where
  "stuck fuel s \<longleftrightarrow> (\<forall>i < length (sys_pcs s). thread_step fuel i s = Inl Blocked)"

text \<open>The threads of a file at the start of the test, after \<open>io_begin\<close>.\<close>

fun begin_all :: "iothread list \<Rightarrow> gstate \<Rightarrow> (iothread \<times> iolocals) list \<times> gstate" where
  "begin_all [] g = ([], g)"
| "begin_all (t # ts) g = (let (x, g1) = io_begin t g; (xs, g2) = begin_all ts g1 in (x # xs, g2))"

definition start_sys :: "gstate \<Rightarrow> fsys" where
  "start_sys g = (let (xs, g') = begin_all (ithreads (pthread g)) g in
     \<lparr>sys_g = g', sys_ths = map fst xs, sys_locs = map snd xs, sys_pcs = map (\<lambda>_. Top) xs\<rparr>)"

section \<open>A straight fill\<close>

text \<open>
  The shape of a fill: the size of a block, the number of blocks in a pass, the header, where the range starts
  and how long it is. A thread does a straight fill of that shape when it only writes, in order, without
  seeking, skipping, spreading or injecting; the option parsers leave a run in this state unless
  \<open>seek\<close>, \<open>skip\<close> or \<open>multiplier\<close> are used.
\<close>

record shape =
  g_size :: int
  g_nio :: u64
  g_header :: u64
  g_min :: u64
  g_range :: u64
  g_fds :: "int set"

definition shape_ok :: "shape \<Rightarrow> bool" where
  "shape_ok G \<longleftrightarrow> 0 < g_size G \<and> g_size G < 2 ^ 31 \<and> g_nio G \<noteq> 0 \<and> g_range G \<noteq> 0
     \<and> nat (g_size G) dvd unat (g_range G)
     \<and> unat (g_header G) \<le> nat (g_size G)
     \<and> unat (g_min G) + unat (g_range G) + nat (g_size G) < 2 ^ 64
     \<and> unat (g_header G) + nat (g_size G) * unat (g_nio G) < 2 ^ 64"

definition straight :: "shape \<Rightarrow> iothread \<Rightarrow> bool" where
  "straight G tp \<longleftrightarrow> (let p = params tp in
     seqflag p \<noteq> 0 \<and> streams p \<le> 1 \<and> readpct p \<le> 0 \<and> seekoff p = 0 \<and> skip p = 0 \<and> wroff p = 0
     \<and> multiplier p = 1 \<and> altcount p = 0 \<and> writeinject p = 0 \<and> dedupblks p \<noteq> 0
     \<and> iosize p = g_size G \<and> nio p = g_nio G \<and> headersz p = g_header G \<and> minoff p = g_min G
     \<and> rangeoff tp = g_range G \<and> fd (iorp tp) \<in> g_fds G
     \<and> 512 dvd length (writebp (iorp tp)) \<and> g_size G \<le> int (length (writebp (iorp tp))))"

lemma straight_fixed: "thread_fixed tp' = thread_fixed tp \<Longrightarrow> straight G tp' = straight G tp"
  by (simp add: straight_def thread_fixed_def Let_def)

definition shared_ok :: "gstate \<Rightarrow> bool" where
  "shared_ok g \<longleftrightarrow> pools_ok (gpools g) \<and> gstatusmb g \<noteq> 0 \<and> table_ok (gdt g)
     \<and> full_transfers (genv g) \<and> within_time (endtime (pthread g)) (genv g)"

lemma shared_ok_fixed:
  "shared_fixed g' = shared_fixed g \<Longrightarrow> table_ok (gdt g') \<Longrightarrow> shared_ok g \<Longrightarrow> shared_ok g'"
  by (simp add: shared_ok_def fixed_defs full_transfers_def within_time_def)

text \<open>
  The bytes of the device that a list of requests writes, all of them or those through certain descriptors, and those that a
  block number stands for.
\<close>

fun call_range :: "iocall \<Rightarrow> nat set" where
  "call_range (Pread f n off) = {}"
| "call_range (Pwrite f bs off) = {unat off ..< unat off + length bs}"

fun call_fd :: "iocall \<Rightarrow> int" where
  "call_fd (Pread f n off) = f"
| "call_fd (Pwrite f bs off) = f"

definition written :: "iocall list \<Rightarrow> nat set" where
  "written cs = (\<Union>c \<in> set cs. call_range c)"

lemma written_simps [simp]:
  "written [] = {}" "written (cs @ ds) = written cs \<union> written ds" "written [c] = call_range c"
  by (auto simp: written_def)

definition written_on :: "int set \<Rightarrow> iocall list \<Rightarrow> nat set" where
  "written_on F cs = written (filter (\<lambda>c. call_fd c \<in> F) cs)"

lemma written_on_UNIV [simp]: "written_on UNIV cs = written cs" "written_on F [] = {}"
  by (simp_all add: written_on_def)

text \<open>Requests that come on top of others, all through the descriptors of a set, and the bytes they write.\<close>

definition issued :: "int set \<Rightarrow> iocall list \<Rightarrow> iocall list \<Rightarrow> nat set \<Rightarrow> bool" where
  "issued F xs ys X \<longleftrightarrow> (\<exists>cs. ys = xs @ cs \<and> (\<forall>c \<in> set cs. call_fd c \<in> F) \<and> written cs = X)"

lemma issued_none [simp]: "issued F xs xs {}"
  by (simp add: issued_def)

lemma issued_one: "call_fd c \<in> F \<Longrightarrow> issued F xs (xs @ [c]) (call_range c)"
  by (simp add: issued_def)

lemma issued_trans: "issued F xs ys X \<Longrightarrow> issued F ys zs Y \<Longrightarrow> issued F xs zs (X \<union> Y)"
  by (auto simp: issued_def)

lemma issued_written: "issued F xs ys X \<Longrightarrow> written_on F ys = written_on F xs \<union> X"
  by (auto simp: issued_def written_on_def filter_id_conv)

lemma issued_elsewhere: "issued F xs ys X \<Longrightarrow> F \<inter> F' = {} \<Longrightarrow> written_on F' ys = written_on F' xs"
proof -
  assume "issued F xs ys X" and d: "F \<inter> F' = {}"
  then obtain cs where cs: "ys = xs @ cs" "\<forall>c \<in> set cs. call_fd c \<in> F" by (auto simp: issued_def)
  then have "filter (\<lambda>c. call_fd c \<in> F') cs = []" using d by (auto simp: filter_empty_conv)
  then show ?thesis by (simp add: cs(1) written_on_def)
qed

definition block_at :: "shape \<Rightarrow> nat \<Rightarrow> nat" where
  "block_at G b = unat (g_min G) + (unat (g_header G) + nat (g_size G) * b) mod unat (g_range G)"

definition block_bytes :: "shape \<Rightarrow> nat \<Rightarrow> nat set" where
  "block_bytes G b =
     {block_at G b ..< min (block_at G b + nat (g_size G)) (unat (g_min G) + unat (g_range G))}
     \<union> (if b = 0 then {unat (g_min G) ..< unat (g_min G) + unat (g_header G)} else {})"

lemma straight_buffer: "straight G tp \<Longrightarrow> nat (g_size G) \<le> length (writebp (iorp tp))"
  by (simp add: straight_def Let_def nat_le_iff)

lemma prepare_ok:
  assumes "straight G tp" "shape_ok G" "shared_ok g"
  shows "\<exists>tp' g' buf. prepare (g_size G) tp g = Inr (tp', g')
     \<and> tp' = tp\<lparr>iorp := (iorp tp)\<lparr>detail := (detail (iorp tp))\<lparr>d_type := word_of_int WRITE,
           d_dtype := word_of_int (datatype_of (params tp))\<rparr>, writebp := buf\<rparr>\<rparr>
     \<and> length buf = length (writebp (iorp tp))
     \<and> shared_fixed g' = shared_fixed g \<and> gdt g' = gdt g \<and> pthread g' = pthread g
     \<and> calls (genv g') = calls (genv g)"
proof -
  obtain d g1 where dr: "draw_dbl g = (d, g1)" by (cases "draw_dbl g")
  have g1: "shared_fixed g1 = shared_fixed g" "gdt g1 = gdt g" "pthread g1 = pthread g"
    "calls (genv g1) = calls (genv g)" "gpools g1 = gpools g" "0 \<le> d"
    using dr drand48_bounds(1) [of "rng (genv g)"]
    by (auto simp: draw_dbl_def set_rng_def fixed_defs split: prod.splits)
  have "\<not> d < readpct (params tp)" using assms(1) g1(6) by (simp add: straight_def Let_def)
  moreover have "unat (u32_of_int (g_size G)) \<le> length (writebp (iorp tp))" "unat (u32_of_int (g_size G)) \<le> 2 ^ 31"
  proof -
    have "unat (u32_of_int (g_size G)) = nat (g_size G)"
      using assms(2) by (simp add: shape_ok_def unsigned_of_int take_bit_int_eq_self)
    then show "unat (u32_of_int (g_size G)) \<le> length (writebp (iorp tp))" "unat (u32_of_int (g_size G)) \<le> 2 ^ 31"
      using straight_buffer [OF assms(1)] assms(2) by (simp_all add: shape_ok_def nat_le_iff)
  qed
  with iodata_total [of "gpools g1" "writebp (iorp tp)" "u32_of_int (g_size G)" "dedupblks (params tp)"
      "datatype_of (params tp)" "rng (genv g1)"] assms(1,3) g1(5)
  obtain buf x where "iob_iodata (gpools g1) (writebp (iorp tp)) (u32_of_int (g_size G))
      (datatype_of (params tp)) (dedupblks (params tp)) (rng (genv g1)) = Inr (buf, x)"
    "length buf = length (writebp (iorp tp))"
    by (auto simp: straight_def shared_ok_def Let_def)
  ultimately show ?thesis using dr g1 assms(1)
    by (auto simp: prepare_def Let_def straight_def set_rng_def fixed_defs)
qed

lemma do_transfer_ok:
  assumes "straight G tp" "shape_ok G" "shared_ok g" "nseconds tp < NSEC"
    and "unat (d_size (detail (iorp tp))) \<le> nat (g_size G)"
  shows "\<exists>tp' g' buf. do_transfer (g_size G) tp g = Inr (tp', g') \<and> thread_fixed tp' = thread_fixed tp
     \<and> shared_fixed g' = shared_fixed g \<and> table_ok (gdt g') \<and> nseconds tp' < NSEC
     \<and> calls (genv g') = calls (genv g) @ [Pwrite (fd (iorp tp)) buf (d_offset (detail (iorp tp)))]
     \<and> length buf = unat (d_size (detail (iorp tp)))
     \<and> thread_bno (pthread g') = thread_bno (pthread g)"
proof -
  from prepare_ok [OF assms(1-3)] obtain tp1 g1 buf where p: "prepare (g_size G) tp g = Inr (tp1, g1)"
    "tp1 = tp\<lparr>iorp := (iorp tp)\<lparr>detail := (detail (iorp tp))\<lparr>d_type := word_of_int WRITE,
           d_dtype := word_of_int (datatype_of (params tp))\<rparr>, writebp := buf\<rparr>\<rparr>"
    "length buf = length (writebp (iorp tp))"
    "shared_fixed g1 = shared_fixed g" "gdt g1 = gdt g" "pthread g1 = pthread g"
    "calls (genv g1) = calls (genv g)" by blast
  have ok1: "shared_ok g1" using shared_ok_fixed [OF p(4)] p(5) assms(3) by (simp add: shared_ok_def)
  have fit: "unat (d_size (detail (iorp tp1))) \<le> length (writebp (iorp tp1))"
    using straight_buffer [OF assms(1)] assms(5) p(2,3) by simp
  have "full_transfers (genv g1)" "table_ok (gdt g1)" "within_time (endtime (pthread g1)) (genv g1)"
    using ok1 by (auto simp: shared_ok_def)
  moreover have "unat (d_type (detail (iorp tp1))) < N_STATTYPES" using p(2) by simp
  moreover have "nseconds tp1 < NSEC" using assms(4) p(2) by simp
  ultimately obtain tp' g' where r: "io_start (writebp (iorp tp1)) tp1 g1 = Inr (tp', g')"
    "thread_fixed tp' = thread_fixed tp1" "shared_fixed g' = shared_fixed g1"
    "calls (genv g') = calls (genv g1) @ [next_call (writebp (iorp tp1)) tp1]" "nseconds tp' < NSEC"
    "table_ok (gdt g')" "thread_bno (pthread g') = thread_bno (pthread g1)"
    using io_start_ok [of g1 tp1 "writebp (iorp tp1)"] fit by blast
  have "next_call (writebp (iorp tp1)) tp1 = Pwrite (fd (iorp tp))
      (take (unat (d_size (detail (iorp tp)))) buf) (d_offset (detail (iorp tp)))"
    using p(2) by (simp add: next_call_def Let_def)
  moreover have "thread_fixed tp1 = thread_fixed tp" using p(2,3) by (simp add: thread_fixed_def)
  ultimately show ?thesis using r p fit by (auto simp: do_transfer_def)
qed


lemma unat_size: "shape_ok G \<Longrightarrow> unat (u64_of_int (g_size G)) = nat (g_size G)"
  by (simp add: shape_ok_def unsigned_of_int take_bit_int_eq_self)

lemma unat_size32: "shape_ok G \<Longrightarrow> unat (u32_of_int (g_size G)) = nat (g_size G)"
  by (simp add: shape_ok_def unsigned_of_int take_bit_int_eq_self)

lemma block_at_less: "shape_ok G \<Longrightarrow> block_at G b < unat (g_min G) + unat (g_range G)"
  by (simp add: block_at_def shape_ok_def unat_gt_0)

lemma block_offset_ok:
  assumes "straight G tp" "straight G hd_tp" "shape_ok G" "bno < g_nio G"
  shows "\<exists>off. block_offset tp hd_tp bno = Inr off \<and> unat off = block_at G (unat bno)"
proof -
  let ?S = "u64_of_int (g_size G)"
  have lt: "unat bno < unat (g_nio G)" using assms(4) by (simp add: word_less_nat_alt)
  have b: "unat (g_header G) + nat (g_size G) * unat bno < 2 ^ 64"
  proof -
    have "nat (g_size G) * unat bno \<le> nat (g_size G) * unat (g_nio G)" using lt by simp
    then show ?thesis using assms(3) unfolding shape_ok_def by linarith
  qed
  have m: "unat (?S * bno) = nat (g_size G) * unat bno"
    using unat_mult_small [of ?S bno] b unat_size [OF assms(3)] by simp
  have pos: "unat (g_header G + ?S * bno) = unat (g_header G) + nat (g_size G) * unat bno"
    using unat_add_small [of "g_header G" "?S * bno"] b m by simp
  let ?r = "(g_header G + ?S * bno) mod g_range G"
  have r: "unat ?r = (unat (g_header G) + nat (g_size G) * unat bno) mod unat (g_range G)"
    by (simp add: unat_mod pos)
  have R: "g_range G \<noteq> 0" using assms(3) by (simp add: shape_ok_def)
  have rl: "unat ?r < unat (g_range G)" unfolding r using R by (simp add: unat_gt_0)
  have "unat (g_min G + ?r) = block_at G (unat bno)"
    using unat_add_small [of "g_min G" ?r] rl assms(3) r by (simp add: block_at_def shape_ok_def)
  moreover have "block_offset tp hd_tp bno = Inr (g_min G + ?r)"
    using assms(1,2) R by (simp add: block_offset_def fold_offset_def umod_def straight_def Let_def)
  ultimately show ?thesis by blast
qed

lemma block_size_ok:
  assumes "straight G tp" "straight G hd_tp" "shape_ok G" "unat off = block_at G b"
  shows "unat (block_size tp hd_tp (g_size G) off)
    = min (nat (g_size G)) (unat (g_min G) + unat (g_range G) - unat off)"
proof -
  have lt: "unat off < unat (g_min G) + unat (g_range G)"
    using block_at_less [OF assms(3)] assms(4) by simp
  have re: "range_end tp hd_tp = g_min G + g_range G"
    using assms(1,2) by (simp add: range_end_def straight_def Let_def)
  have ure: "unat (g_min G + g_range G) = unat (g_min G) + unat (g_range G)"
    using unat_add_small [of "g_min G" "g_range G"] assms(3) by (simp add: shape_ok_def)
  have os: "unat (off + u64_of_int (g_size G)) = unat off + nat (g_size G)"
    using unat_add_small [of off "u64_of_int (g_size G)"] unat_size [OF assms(3)] lt assms(3)
    by (simp add: shape_ok_def)
  show ?thesis
  proof (cases "range_end tp hd_tp < off + u64_of_int (g_size G)")
    case True
    have le: "off \<le> g_min G + g_range G" using lt ure by (simp add: word_le_nat_alt)
    have d: "unat (g_min G + g_range G - off) = unat (g_min G) + unat (g_range G) - unat off"
      using le ure by (simp add: unat_sub)
    have small: "unat (g_min G) + unat (g_range G) - unat off < nat (g_size G)"
      using True re ure os lt by (simp add: word_less_nat_alt)
    have "nat (g_size G) < 2 ^ 32" using assms(3) by (simp add: shape_ok_def nat_less_iff)
    then have "unat (ucast (g_min G + g_range G - off) :: u32) = unat (g_min G + g_range G - off)"
      using d small by (simp add: unsigned_ucast_eq take_bit_nat_eq_self)
    then show ?thesis using True re d small by (simp add: block_size_def)
  next
    case False
    then have "nat (g_size G) \<le> unat (g_min G) + unat (g_range G) - unat off"
      using re ure os by (simp add: word_less_nat_alt)
    then show ?thesis using False unat_size32 [OF assms(3)] by (simp add: block_size_def)
  qed
qed

lemma set_target_simps [simp]:
  "d_offset (detail (iorp (set_target n off sz tp))) = off"
  "d_size (detail (iorp (set_target n off sz tp))) = sz"
  "thread_fixed (set_target n off sz tp) = thread_fixed tp"
  "nseconds (set_target n off sz tp) = nseconds tp"
  by (simp_all add: set_target_def set_detail_def thread_fixed_def)

lemma progress_ok:
  assumes "shared_ok g"
  shows "\<exists>g'. progress t tp g = Inr g' \<and> shared_fixed g' = shared_fixed g \<and> gdt g' = gdt g
     \<and> genv g' = genv g \<and> pthread g' = pthread g"
  using assms by (auto simp: progress_def udiv_def shared_ok_def Let_def shared_fixed_def)

lemma next_size_plain: "altcount p = 0 \<Longrightarrow> next_size p l = l"
  by (simp add: next_size_def)

lemma block_io_ok:
  assumes "straight G tp" "straight G hd_tp" "shape_ok G" "shared_ok g" "nseconds tp < NSEC"
    and "l_cursize l = g_size G" "bno < g_nio G"
  shows "\<exists>tp' l' g'. block_io hd_tp t bno (tp, l) g = Inr ((tp', l'), g')
     \<and> thread_fixed tp' = thread_fixed tp \<and> shared_fixed g' = shared_fixed g \<and> table_ok (gdt g')
     \<and> nseconds tp' < NSEC \<and> l_cursize l' = g_size G \<and> l_injbno l' = l_injbno l
     \<and> thread_bno (pthread g') = thread_bno (pthread g)
     \<and> issued (g_fds G) (calls (genv g)) (calls (genv g'))
         {block_at G (unat bno) ..< min (block_at G (unat bno) + nat (g_size G)) (unat (g_min G) + unat (g_range G))}"
proof -
  from block_offset_ok [OF assms(1-3,7)] obtain off where off: "block_offset tp hd_tp bno = Inr off"
    "unat off = block_at G (unat bno)" by blast
  define sz where "sz = block_size tp hd_tp (g_size G) off"
  have sz: "unat sz = min (nat (g_size G)) (unat (g_min G) + unat (g_range G) - unat off)"
    unfolding sz_def by (rule block_size_ok [OF assms(1-3) off(2)])
  let ?tp = "set_target (l_ionum l) off sz tp"
  have "straight G ?tp" using straight_fixed [of ?tp tp] assms(1) by simp
  from do_transfer_ok [OF this assms(3,4)] assms(5) sz obtain tp' g1 buf where
    tr: "do_transfer (g_size G) ?tp g = Inr (tp', g1)" "thread_fixed tp' = thread_fixed tp"
    "shared_fixed g1 = shared_fixed g" "table_ok (gdt g1)" "nseconds tp' < NSEC"
    "calls (genv g1) = calls (genv g) @ [Pwrite (fd (iorp ?tp)) buf off]"
    "length buf = unat sz" "thread_bno (pthread g1) = thread_bno (pthread g)"
    by auto
  have "shared_ok g1" using shared_ok_fixed [OF tr(3,4) assms(4)] .
  from progress_ok [OF this, of t tp'] obtain g2 where pr: "progress t tp' g1 = Inr g2"
    "shared_fixed g2 = shared_fixed g1" "gdt g2 = gdt g1" "genv g2 = genv g1" "pthread g2 = pthread g1"
    by blast
  have "straight G tp'" using straight_fixed [OF tr(2)] assms(1) by simp
  then have ac: "altcount (params tp') = 0" by (simp add: straight_def Let_def)
  have lt: "unat off < unat (g_min G) + unat (g_range G)"
    using block_at_less [OF assms(3)] off(2) by simp
  have "block_io hd_tp t bno (tp, l) g = Inr ((tp', l\<lparr>l_ionum := l_ionum l + 1\<rparr>), g2)"
    using off(1) tr(1) pr(1) assms(6) next_size_plain [OF ac]
    by (simp add: block_io_def sz_def Let_def)
  moreover have "{unat off ..< unat off + unat sz} = {block_at G (unat bno) ..<
      min (block_at G (unat bno) + nat (g_size G)) (unat (g_min G) + unat (g_range G))}"
    using off(2) sz lt by auto
  moreover have "fd (iorp ?tp) \<in> g_fds G" using \<open>straight G ?tp\<close> by (simp add: straight_def Let_def)
  then have "issued (g_fds G) (calls (genv g)) (calls (genv g2)) {unat off ..< unat off + unat sz}"
    unfolding pr(4) tr(6) using issued_one [of "Pwrite (fd (iorp ?tp)) buf off"] tr(7) by simp
  ultimately show ?thesis using tr pr assms(6) by auto
qed

lemma header_io_ok:
  assumes "straight G tp" "straight G hd_tp" "shape_ok G" "shared_ok g" "nseconds tp < NSEC"
    and "l_cursize l = g_size G"
  shows "\<exists>tp' l' g'. header_io hd_tp (tp, l) g = Inr ((tp', l'), g')
     \<and> thread_fixed tp' = thread_fixed tp \<and> shared_fixed g' = shared_fixed g \<and> table_ok (gdt g')
     \<and> nseconds tp' < NSEC \<and> l_cursize l' = g_size G \<and> l_injbno l' = l_injbno l
     \<and> thread_bno (pthread g') = thread_bno (pthread g)
     \<and> issued (g_fds G) (calls (genv g)) (calls (genv g')) {unat (g_min G) ..< unat (g_min G) + unat (g_header G)}"
proof -
  have off: "fold_offset tp hd_tp (seekoff (params hd_tp)) = Inr (g_min G)"
    using assms(1-3) by (simp add: fold_offset_def umod_def straight_def shape_ok_def Let_def)
  define sz :: u32 where "sz = ucast (headersz (params tp))"
  have H: "unat (g_header G) \<le> nat (g_size G)" "nat (g_size G) < 2 ^ 32"
    using assms(3) by (simp_all add: shape_ok_def nat_less_iff)
  have sz: "unat sz = unat (g_header G)"
    using H assms(1) by (simp add: sz_def straight_def Let_def unsigned_ucast_eq take_bit_nat_eq_self)
  let ?tp = "set_target (l_ionum l) (g_min G) sz tp"
  have "straight G ?tp" using straight_fixed [of ?tp tp] assms(1) by simp
  from do_transfer_ok [OF this assms(3,4)] assms(5) sz H obtain tp' g1 buf where
    tr: "do_transfer (g_size G) ?tp g = Inr (tp', g1)" "thread_fixed tp' = thread_fixed tp"
    "shared_fixed g1 = shared_fixed g" "table_ok (gdt g1)" "nseconds tp' < NSEC"
    "calls (genv g1) = calls (genv g) @ [Pwrite (fd (iorp ?tp)) buf (g_min G)]"
    "length buf = unat sz" "thread_bno (pthread g1) = thread_bno (pthread g)"
    by auto
  have "header_io hd_tp (tp, l) g = Inr ((tp', l\<lparr>l_ionum := l_ionum l + 1\<rparr>), g1)"
    using off tr(1) assms(6) by (simp add: header_io_def sz_def)
  moreover have "fd (iorp ?tp) \<in> g_fds G" using \<open>straight G ?tp\<close> by (simp add: straight_def Let_def)
  then have "issued (g_fds G) (calls (genv g)) (calls (genv g1)) {unat (g_min G) ..< unat (g_min G) + unat (g_header G)}"
    unfolding tr(6) using issued_one [of "Pwrite (fd (iorp ?tp)) buf (g_min G)"] tr(7) sz by simp
  ultimately show ?thesis using tr assms(6) by auto
qed

lemma straight_nth: "\<forall>tp \<in> set ths. straight G tp \<Longrightarrow> i < length ths \<Longrightarrow> straight G (ths ! i)"
  by simp

text \<open>One turn: the bytes its number stands for are written, and nothing else that matters here changes.\<close>

lemma io_turn_ok:
  assumes "i < length ths" "straight G (ths ! i)" "streamhead (ths ! i) < length ths"
    "straight G (ths ! streamhead (ths ! i))" "shape_ok G" "shared_ok g" "nseconds (ths ! i) < NSEC"
    "l_cursize l = g_size G"
  shows "\<exists>l' tp' g'. io_turn t i l (ths, g) = Inr (l', ths[i := tp'], g')
     \<and> thread_fixed tp' = thread_fixed (ths ! i) \<and> shared_fixed g' = shared_fixed g
     \<and> table_ok (gdt g') \<and> nseconds tp' < NSEC \<and> l_cursize l' = g_size G \<and> l_injbno l' = l_injbno l
     \<and> thread_bno (pthread g') = thread_bno (pthread g)
     \<and> issued (g_fds G) (calls (genv g)) (calls (genv g')) (block_bytes G (unat t mod unat (g_nio G)))"
proof -
  let ?tp = "ths ! i" and ?h = "ths ! streamhead (ths ! i)" and ?b = "t mod g_nio G"
  have N: "g_nio G \<noteq> 0" using assms(5) by (simp add: shape_ok_def)
  have pick: "pick_block t i (ths, g) = Inr (?b, ths, g)"
    using assms(2) N by (simp add: pick_block_def straight_def Let_def umod_def)
  have b: "?b < g_nio G" using N by (simp add: word_mod_less_divisor word_neq_0_conv)
  have ub: "unat ?b = unat t mod unat (g_nio G)" by (simp add: unat_mod)
  have H: "headersz (params ?tp) = g_header G" using assms(2) by (simp add: straight_def Let_def)
  have "\<exists>tp1 l1 g1. (if ?b = 0 \<and> headersz (params ?tp) \<noteq> 0 then header_io ?h (?tp, l) g else Inr ((?tp, l), g))
        = Inr ((tp1, l1), g1) \<and> thread_fixed tp1 = thread_fixed ?tp \<and> shared_fixed g1 = shared_fixed g
      \<and> table_ok (gdt g1) \<and> nseconds tp1 < NSEC \<and> l_cursize l1 = g_size G \<and> l_injbno l1 = l_injbno l
      \<and> thread_bno (pthread g1) = thread_bno (pthread g)
      \<and> issued (g_fds G) (calls (genv g)) (calls (genv g1))
          (if ?b = 0 then {unat (g_min G) ..< unat (g_min G) + unat (g_header G)} else {})"
  proof (cases "?b = 0 \<and> headersz (params ?tp) \<noteq> 0")
    case True
    from header_io_ok [OF assms(2,4,5,6,7,8)] True show ?thesis by auto
  next
    case False
    then show ?thesis using assms(6,7,8) H by (auto simp: shared_ok_def)
  qed
  then obtain tp1 l1 g1 where h: "(if ?b = 0 \<and> headersz (params ?tp) \<noteq> 0 then header_io ?h (?tp, l) g
      else Inr ((?tp, l), g)) = Inr ((tp1, l1), g1)" "thread_fixed tp1 = thread_fixed ?tp"
    "shared_fixed g1 = shared_fixed g" "table_ok (gdt g1)" "nseconds tp1 < NSEC"
    "l_cursize l1 = g_size G" "l_injbno l1 = l_injbno l" "thread_bno (pthread g1) = thread_bno (pthread g)"
    "issued (g_fds G) (calls (genv g)) (calls (genv g1))
          (if ?b = 0 then {unat (g_min G) ..< unat (g_min G) + unat (g_header G)} else {})" by blast
  have st1: "straight G tp1" using straight_fixed [OF h(2)] assms(2) by simp
  have so1: "shared_ok g1" using shared_ok_fixed [OF h(3,4) assms(6)] .
  from block_io_ok [OF st1 assms(4,5) so1 h(5,6) b, of t] obtain tp2 l2 g2 where
    k: "block_io ?h t ?b (tp1, l1) g1 = Inr ((tp2, l2), g2)" "thread_fixed tp2 = thread_fixed tp1"
    "shared_fixed g2 = shared_fixed g1" "table_ok (gdt g2)" "nseconds tp2 < NSEC"
    "l_cursize l2 = g_size G" "l_injbno l2 = l_injbno l1" "thread_bno (pthread g2) = thread_bno (pthread g1)"
    "issued (g_fds G) (calls (genv g1)) (calls (genv g2)) {block_at G (unat ?b) ..<
        min (block_at G (unat ?b) + nat (g_size G)) (unat (g_min G) + unat (g_range G))}" by blast
  have "io_turn t i l (ths, g) = Inr (l2, ths[i := tp2], g2)"
    unfolding io_turn_def pick bind_res_simps prod.case run_block_def Let_def h(1) k(1) ..
  moreover have "?b = 0 \<longleftrightarrow> unat t mod unat (g_nio G) = 0" using ub by (metis unat_0 unat_eq_zero)
  then have "(if ?b = 0 then {unat (g_min G) ..< unat (g_min G) + unat (g_header G)} else {})
      \<union> {block_at G (unat ?b) ..< min (block_at G (unat ?b) + nat (g_size G)) (unat (g_min G) + unat (g_range G))}
      = block_bytes G (unat t mod unat (g_nio G))"
    using ub by (auto simp: block_bytes_def)
  then have "issued (g_fds G) (calls (genv g)) (calls (genv g2)) (block_bytes G (unat t mod unat (g_nio G)))"
    using issued_trans [OF h(9) k(9)] by simp
  ultimately show ?thesis using h k by auto
qed

text \<open>The blocks of one pass cover the range, whatever the header's size, and never leave it.\<close>

lemma header_fits: "shape_ok G \<Longrightarrow> unat (g_header G) \<le> unat (g_range G)"
proof -
  assume G: "shape_ok G"
  then have "nat (g_size G) \<le> unat (g_range G)"
    by (intro dvd_imp_le) (simp_all add: shape_ok_def unat_gt_0)
  with G show ?thesis by (simp add: shape_ok_def)
qed

lemma block_bytes_in_range:
  "shape_ok G \<Longrightarrow> block_bytes G b \<subseteq> {unat (g_min G) ..< unat (g_min G) + unat (g_range G)}"
  using header_fits [of G] by (auto simp: block_bytes_def block_at_def)

lemma pass_covers_range:
  assumes "shape_ok G" "unat (g_range G) \<le> nat (g_size G) * unat (g_nio G)"
  shows "(\<Union>b < unat (g_nio G). block_bytes G b) = {unat (g_min G) ..< unat (g_min G) + unat (g_range G)}"
    (is "?L = ?I")
proof
  show "?L \<subseteq> ?I" using block_bytes_in_range [OF assms(1)] by blast
next
  let ?M = "unat (g_min G)" and ?R = "unat (g_range G)" and ?H = "unat (g_header G)"
    and ?S = "nat (g_size G)"
  have S: "0 < ?S" using assms(1) by (simp add: shape_ok_def)
  have N: "0 < unat (g_nio G)" using assms(1) by (simp add: shape_ok_def unat_gt_0)
  show "?I \<subseteq> ?L"
  proof
    fix a assume a: "a \<in> ?I"
    show "a \<in> ?L"
    proof (cases "a < ?M + ?H")
      case True
      with a N show ?thesis by (auto simp: block_bytes_def intro!: bexI [of _ 0])
    next
      case False
      define b where "b = (a - ?M - ?H) div ?S"
      have le: "?S * b \<le> a - ?M - ?H" by (simp add: b_def)
      have gt: "a - ?M - ?H < ?S * b + ?S"
        unfolding b_def using S by (metis add.commute dividend_less_times_div mult_Suc_right)
      have pos: "?H + ?S * b \<le> a - ?M" using le False a by auto
      then have lt: "?H + ?S * b < ?R" using a by auto
      then have "?S * b < ?S * unat (g_nio G)" using assms(2) by linarith
      then have bN: "b < unat (g_nio G)" by simp
      have at: "block_at G b = ?M + (?H + ?S * b)" using lt by (simp add: block_at_def)
      have "a \<in> block_bytes G b"
        unfolding block_bytes_def at using pos gt False a by auto
      with bN show ?thesis by blast
    qed
  qed
qed

section \<open>The fill as a whole\<close>

definition out_of_loop :: "pc \<Rightarrow> bool" where
  "out_of_loop p \<longleftrightarrow> p = Leaving \<or> p = Ended"

definition outs :: "fsys \<Rightarrow> nat" where
  "outs s = length (filter out_of_loop (sys_pcs s))"

fun quiet_pc :: "pc \<Rightarrow> bool" where
  "quiet_pc (Inj_time b) = False"
| "quiet_pc (Inj_count b) = False"
| "quiet_pc Paused = False"
| "quiet_pc p = True"

definition threads_ok :: "shape \<Rightarrow> u64 \<Rightarrow> iothread list \<Rightarrow> bool" where
  "threads_ok G T ths \<longleftrightarrow> (\<forall>tp \<in> set ths. straight G tp \<and> streamhead tp < length ths \<and> nseconds tp < NSEC
     \<and> (injectinterval_io (params tp) = 0 \<or> T \<le> injectinterval_io (params tp)))"

definition static_inv :: "shape \<Rightarrow> u64 \<Rightarrow> nat \<Rightarrow> fsys \<Rightarrow> bool" where
  "static_inv G T n s \<longleftrightarrow> length (sys_ths s) = n \<and> length (sys_locs s) = n \<and> length (sys_pcs s) = n
     \<and> threads_ok G T (sys_ths s) \<and> shared_ok (sys_g s) \<and> iowait (pthread (sys_g s)) = 0
     \<and> totalio (pthread (sys_g s)) = T
     \<and> (\<forall>l \<in> set (sys_locs s). l_cursize l = g_size G \<and> l_injbno l = 0)
     \<and> (\<forall>p \<in> set (sys_pcs s). quiet_pc p)"

definition draw_inv :: "u64 \<Rightarrow> (nat \<times> u64) list \<Rightarrow> fsys \<Rightarrow> bool" where
  "draw_inv T evs s \<longleftrightarrow> map (unat \<circ> snd) evs = [0 ..< length evs] \<and> length evs \<le> unat T
     \<and> unat (thread_bno (pthread (sys_g s))) = length evs + outs s
     \<and> (0 < outs s \<longrightarrow> length evs = unat T)"

definition cover_inv :: "shape \<Rightarrow> nat \<Rightarrow> fsys \<Rightarrow> bool" where
  "cover_inv G m s \<longleftrightarrow>
     written_on (g_fds G) (calls (genv (sys_g s))) \<subseteq> {unat (g_min G) ..< unat (g_min G) + unat (g_range G)}
     \<and> (\<forall>b. Turn b \<in> set (sys_pcs s) \<longrightarrow> unat b < m)
     \<and> (\<forall>k < m. (\<exists>b. Turn b \<in> set (sys_pcs s) \<and> unat b = k)
          \<or> block_bytes G (k mod unat (g_nio G)) \<subseteq> written_on (g_fds G) (calls (genv (sys_g s))))"

definition fill_inv :: "shape \<Rightarrow> u64 \<Rightarrow> nat \<Rightarrow> (nat \<times> u64) list \<Rightarrow> fsys \<Rightarrow> bool" where
  "fill_inv G T n evs s \<longleftrightarrow> static_inv G T n s \<and> draw_inv T evs s \<and> cover_inv G (length evs) s"

text \<open>How many steps are left: four a block and four a thread.\<close>

fun pc_weight :: "pc \<Rightarrow> nat" where
  "pc_weight Top = 4"
| "pc_weight Check = 3"
| "pc_weight Draw = 2"
| "pc_weight (Turn b) = 5"
| "pc_weight Leaving = 1"
| "pc_weight p = 0"

definition steps_left :: "u64 \<Rightarrow> (nat \<times> u64) list \<Rightarrow> fsys \<Rightarrow> nat" where
  "steps_left T evs s = sum_list (map pc_weight (sys_pcs s)) + 4 * (unat T - length evs)"

lemmas inv_defs = fill_inv_def static_inv_def draw_inv_def cover_inv_def outs_def

lemma goto_simps [simp]:
  "sys_pcs (goto i p s) = (sys_pcs s)[i := p]" "sys_g (goto i p s) = sys_g s"
  "sys_ths (goto i p s) = sys_ths s" "sys_locs (goto i p s) = sys_locs s"
  by (simp_all add: goto_def)

lemma quiet_update: "\<forall>p \<in> set ps. quiet_pc p \<Longrightarrow> quiet_pc q \<Longrightarrow> \<forall>p \<in> set (ps[i := q]). quiet_pc p"
  using set_update_subset_insert [of ps i q] by blast

text \<open>A thread that moves without drawing or writing keeps everything.\<close>

lemma move_inv:
  assumes inv: "fill_inv G T n evs s" and i: "i < n"
    and p: "quiet_pc p" "\<And>b. sys_pcs s ! i \<noteq> Turn b" "\<And>b. p \<noteq> Turn b"
      "out_of_loop p = out_of_loop (sys_pcs s ! i)"
    and g: "shared_fixed g' = shared_fixed (sys_g s)" "gdt g' = gdt (sys_g s)"
      "calls (genv g') = calls (genv (sys_g s))" "pthread g' = pthread (sys_g s)"
    and ths: "threads_ok G T ths'" "length ths' = n"
  shows "fill_inv G T n evs (goto i p (s\<lparr>sys_g := g', sys_ths := ths'\<rparr>))"
proof -
  have st: "static_inv G T n s" and dr: "draw_inv T evs s" and cv: "cover_inv G (length evs) s"
    using inv by (simp_all add: fill_inv_def)
  have len: "i < length (sys_pcs s)" using st i by (simp add: static_inv_def)
  have "shared_ok g'" using shared_ok_fixed [OF g(1)] g(2) st by (simp add: static_inv_def shared_ok_def)
  moreover have "\<forall>q \<in> set ((sys_pcs s)[i := p]). quiet_pc q"
    by (rule quiet_update) (use st p(1) in \<open>auto simp: static_inv_def\<close>)
  ultimately have "static_inv G T n (goto i p (s\<lparr>sys_g := g', sys_ths := ths'\<rparr>))"
    using st ths g(4) by (simp add: static_inv_def)
  moreover have "outs (goto i p (s\<lparr>sys_g := g', sys_ths := ths'\<rparr>)) = outs s"
    using count_update [OF len, of out_of_loop p] p(4) by (simp add: outs_def)
  then have "draw_inv T evs (goto i p (s\<lparr>sys_g := g', sys_ths := ths'\<rparr>))"
    using dr g(4) by (simp add: draw_inv_def)
  moreover have "Turn b \<in> set ((sys_pcs s)[i := p]) \<longleftrightarrow> Turn b \<in> set (sys_pcs s)" for b
    using p(2,3) len by (metis in_set_conv_nth length_list_update nth_list_update_eq nth_list_update_neq)
  then have "cover_inv G (length evs) (goto i p (s\<lparr>sys_g := g', sys_ths := ths'\<rparr>))"
    using cv g(3) by (simp add: cover_inv_def)
  ultimately show ?thesis by (simp add: fill_inv_def)
qed

text \<open>The invariant depends on little of a state, so that much of it may change.\<close>

lemma fill_inv_cong:
  assumes "fill_inv G T n evs s" "sys_pcs s' = sys_pcs s" "threads_ok G T (sys_ths s')" "length (sys_ths s') = n"
    and "length (sys_locs s') = n" "\<forall>l \<in> set (sys_locs s'). l_cursize l = g_size G \<and> l_injbno l = 0" "shared_ok (sys_g s')"
    and "iowait (pthread (sys_g s')) = iowait (pthread (sys_g s))" "totalio (pthread (sys_g s')) = totalio (pthread (sys_g s))"
    and "thread_bno (pthread (sys_g s')) = thread_bno (pthread (sys_g s))"
    and "written_on (g_fds G) (calls (genv (sys_g s'))) = written_on (g_fds G) (calls (genv (sys_g s)))"
  shows "fill_inv G T n evs s'"
  using assms by (simp add: inv_defs)

lemma straight_not_due:
  assumes "static_inv G T n s" "i < n"
  shows "\<not> time_due (sys_ths s ! i) (sys_locs s ! i) now"
proof -
  have "straight G (sys_ths s ! i)" using assms by (simp add: static_inv_def threads_ok_def)
  then show ?thesis by (simp add: time_due_def straight_def Let_def)
qed

lemma top_inv:
  assumes inv: "fill_inv G T n evs s" and i: "i < n" and pc: "sys_pcs s ! i = Top"
  shows "fill_inv G T n evs (step_top i s)" "sys_pcs (step_top i s) = (sys_pcs s)[i := Check]"
proof -
  obtain now g where t: "tick (sys_g s) = (now, g)" by (cases "tick (sys_g s)")
  note g = tick_simps [OF t]
  have st: "static_inv G T n s" using inv by (simp add: fill_inv_def)
  note nd = straight_not_due [OF st i, of now]
  have e: "step_top i s = goto i Check (s\<lparr>sys_g := g\<rparr>)" using t nd by (simp add: step_top_def)
  have "fill_inv G T n evs (goto i Check (s\<lparr>sys_g := g, sys_ths := sys_ths s\<rparr>))"
    by (rule move_inv [OF inv i]) (use st pc g in \<open>auto simp: static_inv_def out_of_loop_def\<close>)
  then show "fill_inv G T n evs (step_top i s)" by (simp add: e)
  show "sys_pcs (step_top i s) = (sys_pcs s)[i := Check]" by (simp add: e)
qed

lemma check_inv:
  assumes inv: "fill_inv G T n evs s" and i: "i < n" and pc: "sys_pcs s ! i = Check"
  shows "fill_inv G T n evs (step_check i s)" "sys_pcs (step_check i s) = (sys_pcs s)[i := Draw]"
proof -
  have st: "static_inv G T n s" using inv by (simp add: fill_inv_def)
  have e: "step_check i s = goto i Draw s" using st by (simp add: step_check_def static_inv_def)
  have "fill_inv G T n evs (goto i Draw (s\<lparr>sys_g := sys_g s, sys_ths := sys_ths s\<rparr>))"
    by (rule move_inv [OF inv i]) (use st pc in \<open>auto simp: static_inv_def out_of_loop_def\<close>)
  then show "fill_inv G T n evs (step_check i s)" by (simp add: e)
  show "sys_pcs (step_check i s) = (sys_pcs s)[i := Draw]" by (simp add: e)
qed

lemma threads_ok_update:
  assumes "threads_ok G T ths" "i < length ths" "thread_fixed tp = thread_fixed (ths ! i)" "nseconds tp < NSEC"
  shows "threads_ok G T (ths[i := tp])"
proof -
  have "straight G tp \<and> streamhead tp < length ths \<and> (injectinterval_io (params tp) = 0
      \<or> T \<le> injectinterval_io (params tp))"
    using assms straight_fixed [OF assms(3)] by (simp add: threads_ok_def thread_fixed_def)
  then show ?thesis using assms(1,4) unfolding threads_ok_def
    by (metis (no_types, lifting) insertE length_list_update set_update_subset_insert subsetD)
qed

lemma leave_inv:
  assumes inv: "fill_inv G T n evs s" and i: "i < n" and pc: "sys_pcs s ! i = Leaving"
  shows "fill_inv G T n evs (step_leave i s)" "sys_pcs (step_leave i s) = (sys_pcs s)[i := Ended]"
proof -
  obtain now g where t: "tick (sys_g s) = (now, g)" by (cases "tick (sys_g s)")
  note g = tick_simps [OF t]
  have st: "static_inv G T n s" using inv by (simp add: fill_inv_def)
  let ?tp = "(sys_ths s ! i)\<lparr>stoptime := now, th_stop := th_stop (sys_ths s ! i) + 1\<rparr>"
  have e: "step_leave i s = goto i Ended (s\<lparr>sys_g := g, sys_ths := (sys_ths s)[i := ?tp]\<rparr>)"
    using t by (simp add: step_leave_def io_end_def)
  have "threads_ok G T ((sys_ths s)[i := ?tp])"
    by (rule threads_ok_update) (use st i in \<open>auto simp: static_inv_def threads_ok_def thread_fixed_def\<close>)
  then have "fill_inv G T n evs (goto i Ended (s\<lparr>sys_g := g, sys_ths := (sys_ths s)[i := ?tp]\<rparr>))"
    by (intro move_inv [OF inv i]) (use st pc g in \<open>auto simp: static_inv_def out_of_loop_def\<close>)
  then show "fill_inv G T n evs (step_leave i s)" by (simp add: e)
  show "sys_pcs (step_leave i s) = (sys_pcs s)[i := Ended]" by (simp add: e)
qed

lemma turn_in_update:
  assumes "i < length ps" "\<And>b. ps ! i \<noteq> Turn b"
  shows "Turn b \<in> set (ps[i := p]) \<longleftrightarrow> p = Turn b \<or> Turn b \<in> set ps"
  using assms by (metis in_set_conv_nth length_list_update nth_list_update_eq nth_list_update_neq)

lemma outs_less:
  assumes "i < length (sys_pcs s)" "\<not> out_of_loop (sys_pcs s ! i)"
  shows "outs s < length (sys_pcs s)"
  unfolding outs_def using assms by (intro length_filter_less [of "sys_pcs s ! i"]) auto

lemma draw_step_inv:
  assumes inv: "fill_inv G T n evs s" and i: "i < n" and pc: "sys_pcs s ! i = Draw"
    and small: "unat T + n < 2 ^ 64"
  shows "fill_inv G T n (evs @ drawn i s) (step_draw i s)"
    and "(drawn i s = [] \<and> sys_pcs (step_draw i s) = (sys_pcs s)[i := Leaving])
      \<or> (\<exists>b. drawn i s = [(i, b)] \<and> length evs < unat T \<and> sys_pcs (step_draw i s) = (sys_pcs s)[i := Turn b])"
proof -
  have st: "static_inv G T n s" and dr: "draw_inv T evs s" and cv: "cover_inv G (length evs) s"
    using inv by (simp_all add: fill_inv_def)
  have len: "i < length (sys_pcs s)" using st i by (simp add: static_inv_def)
  define b where "b = thread_bno (pthread (sys_g s))"
  define g where "g = snd (add_bno 1 (sys_g s))"
  have blk: "draw_block (sys_g s) = ((b, b < T), g)"
    using st by (simp add: draw_block_def add_bno_simps b_def g_def static_inv_def)
  have g: "shared_fixed g = shared_fixed (sys_g s)" "gdt g = gdt (sys_g s)" "genv g = genv (sys_g s)"
    "iowait (pthread g) = iowait (pthread (sys_g s))" "totalio (pthread g) = totalio (pthread (sys_g s))"
    "thread_bno (pthread g) = b + 1"
    by (simp_all add: g_def add_bno_simps shared_fixed_def b_def)
  have ob: "outs s < n" using outs_less [OF len] pc st by (simp add: out_of_loop_def static_inv_def)
  have ub: "unat b = length evs + outs s" "length evs \<le> unat T" "0 < outs s \<Longrightarrow> length evs = unat T"
    using dr by (simp_all add: draw_inv_def b_def)
  have "unat b + unat (1 :: u64) < 2 ^ 64" using ub ob small by simp
  then have ub1: "unat (b + 1) = unat b + 1" using unat_add_lem [of b 1] by simp
  have so: "shared_ok g" using shared_ok_fixed [OF g(1)] g(2) st by (simp add: static_inv_def shared_ok_def)
  have upd: "static_inv G T n (goto i p (s\<lparr>sys_g := g\<rparr>))" if "quiet_pc p" for p
  proof -
    have "\<forall>q \<in> set ((sys_pcs s)[i := p]). quiet_pc q"
      by (rule quiet_update) (use st that in \<open>auto simp: static_inv_def\<close>)
    then show ?thesis using st g so by (simp add: static_inv_def)
  qed
  have turns: "Turn c \<in> set ((sys_pcs s)[i := p]) \<longleftrightarrow> p = Turn c \<or> Turn c \<in> set (sys_pcs s)" for c p
    by (rule turn_in_update [OF len]) (simp add: pc)
  have out: "outs (goto i p (s\<lparr>sys_g := g\<rparr>)) = outs s + (if out_of_loop p then 1 else 0)" for p
    using count_update [OF len, of out_of_loop p] pc by (simp add: outs_def out_of_loop_def)
  show "fill_inv G T n (evs @ drawn i s) (step_draw i s)" and "(drawn i s = []
      \<and> sys_pcs (step_draw i s) = (sys_pcs s)[i := Leaving]) \<or> (\<exists>b. drawn i s = [(i, b)]
      \<and> length evs < unat T \<and> sys_pcs (step_draw i s) = (sys_pcs s)[i := Turn b])"
  proof -
    have "fill_inv G T n (evs @ drawn i s) (step_draw i s) \<and> ((drawn i s = []
      \<and> sys_pcs (step_draw i s) = (sys_pcs s)[i := Leaving]) \<or> (\<exists>b. drawn i s = [(i, b)]
      \<and> length evs < unat T \<and> sys_pcs (step_draw i s) = (sys_pcs s)[i := Turn b]))"
    proof (cases "b < T")
      case True
      then have bl: "unat b < unat T" by (simp add: word_less_nat_alt)
      have o0: "outs s = 0" using ub bl by (cases "outs s") auto
      have tp: "sys_ths s ! i \<in> set (sys_ths s)" "sys_locs s ! i \<in> set (sys_locs s)"
        using st i by (simp_all add: static_inv_def)
      have "\<not> count_due (sys_ths s ! i) (sys_locs s ! i) b"
      proof -
        have k: "injectinterval_io (params (sys_ths s ! i)) = 0 \<or> T \<le> injectinterval_io (params (sys_ths s ! i))"
          "l_injbno (sys_locs s ! i) = 0"
          using st tp by (auto simp: static_inv_def threads_ok_def)
        then show ?thesis using True
          by (auto simp: count_due_def word_less_nat_alt unat_div word_le_nat_alt)
      qed
      then have e: "step_draw i s = goto i (Turn b) (s\<lparr>sys_g := g\<rparr>)" and d: "drawn i s = [(i, b)]"
        using blk True pc by (simp_all add: step_draw_def drawn_def)
      have "static_inv G T n (step_draw i s)" unfolding e by (rule upd) simp
      moreover have "draw_inv T (evs @ drawn i s) (step_draw i s)"
        unfolding e d draw_inv_def using dr out [of "Turn b"] g(6) ub1 ub bl o0
        by (simp add: draw_inv_def out_of_loop_def)
      moreover have "cover_inv G (length (evs @ drawn i s)) (step_draw i s)"
        unfolding e d cover_inv_def using cv g(3) turns ub(1) o0
        by (auto simp: cover_inv_def less_Suc_eq)
      ultimately show ?thesis using e d bl ub o0 by (simp add: fill_inv_def)
    next
      case False
      then have bl: "unat T \<le> unat b" by (simp add: word_less_nat_alt)
      have le: "length evs = unat T" using ub bl by (cases "outs s") auto
      have e: "step_draw i s = goto i Leaving (s\<lparr>sys_g := g\<rparr>)" and d: "drawn i s = []"
        using blk False pc by (simp_all add: step_draw_def drawn_def)
      have "static_inv G T n (step_draw i s)" unfolding e by (rule upd) simp
      moreover have "draw_inv T (evs @ drawn i s) (step_draw i s)"
        unfolding e d draw_inv_def using dr out [of Leaving] g(6) ub1 ub le
        by (simp add: draw_inv_def out_of_loop_def)
      moreover have "cover_inv G (length (evs @ drawn i s)) (step_draw i s)"
        unfolding e d cover_inv_def using cv g(3) turns by (simp add: cover_inv_def)
      ultimately show ?thesis using e d by (simp add: fill_inv_def)
    qed
    then show "fill_inv G T n (evs @ drawn i s) (step_draw i s)" and "(drawn i s = []
      \<and> sys_pcs (step_draw i s) = (sys_pcs s)[i := Leaving]) \<or> (\<exists>b. drawn i s = [(i, b)]
      \<and> length evs < unat T \<and> sys_pcs (step_draw i s) = (sys_pcs s)[i := Turn b])" by blast+
  qed
qed

lemma turn_step_inv:
  assumes inv: "fill_inv G T n evs s" and G: "shape_ok G" and i: "i < n" and pc: "sys_pcs s ! i = Turn t"
  shows "\<exists>s'. step_turn t i s = Inr s' \<and> fill_inv G T n evs s' \<and> sys_pcs s' = (sys_pcs s)[i := Top]"
proof -
  have st: "static_inv G T n s" and dr: "draw_inv T evs s" and cv: "cover_inv G (length evs) s"
    using inv by (simp_all add: fill_inv_def)
  have len: "i < length (sys_pcs s)" "i < length (sys_ths s)" "i < length (sys_locs s)"
    using st i by (simp_all add: static_inv_def)
  let ?tp = "sys_ths s ! i" and ?g = "sys_g s"
  have tok: "threads_ok G T (sys_ths s)" using st by (simp add: static_inv_def)
  have t1: "straight G ?tp" "streamhead ?tp < length (sys_ths s)" "nseconds ?tp < NSEC"
    using tok len(2) by (simp_all add: threads_ok_def)
  have t2: "straight G (sys_ths s ! streamhead ?tp)" using tok t1(2) by (simp add: threads_ok_def)
  have l: "l_cursize (sys_locs s ! i) = g_size G" "l_injbno (sys_locs s ! i) = 0"
    using st len(3) by (simp_all add: static_inv_def)
  have so: "shared_ok ?g" using st by (simp add: static_inv_def)
  from io_turn_ok [OF len(2) t1(1,2) t2 G so t1(3) l(1), of t] obtain l' tp' g' where
    r: "io_turn t i (sys_locs s ! i) (sys_ths s, ?g) = Inr (l', (sys_ths s)[i := tp'], g')"
    "thread_fixed tp' = thread_fixed ?tp" "shared_fixed g' = shared_fixed ?g" "table_ok (gdt g')"
    "nseconds tp' < NSEC" "l_cursize l' = g_size G" "l_injbno l' = l_injbno (sys_locs s ! i)"
    "thread_bno (pthread g') = thread_bno (pthread ?g)"
    "issued (g_fds G) (calls (genv ?g)) (calls (genv g')) (block_bytes G (unat t mod unat (g_nio G)))"
    by blast
  note wr = issued_written [OF r(9)]
  define s' where "s' = goto i Top (s\<lparr>sys_g := g', sys_ths := (sys_ths s)[i := tp'],
      sys_locs := (sys_locs s)[i := l']\<rparr>)"
  have e: "step_turn t i s = Inr s'" using r(1) by (simp add: step_turn_def s'_def)
  have fx: "iowait (pthread g') = iowait (pthread ?g)" "totalio (pthread g') = totalio (pthread ?g)"
    using r(3) by (simp_all add: shared_fixed_def)
  have ls: "\<forall>l \<in> set ((sys_locs s)[i := l']). l_cursize l = g_size G \<and> l_injbno l = 0"
    using set_update_subset_insert [of "sys_locs s" i l'] st r(6,7) l(2) by (auto simp: static_inv_def)
  have ps: "\<forall>q \<in> set ((sys_pcs s)[i := Top]). quiet_pc q"
    by (rule quiet_update) (use st in \<open>auto simp: static_inv_def\<close>)
  have "static_inv G T n s'"
    using st fx ls ps shared_ok_fixed [OF r(3,4) so] threads_ok_update [OF tok len(2) r(2,5)]
    by (simp add: static_inv_def s'_def)
  moreover have "outs s' = outs s"
    using count_update [OF len(1), of out_of_loop Top] pc by (simp add: outs_def s'_def out_of_loop_def)
  then have "draw_inv T evs s'" using dr r(8) by (simp add: draw_inv_def s'_def)
  moreover have "cover_inv G (length evs) s'"
  proof -
    have sub: "Turn b \<in> set (sys_pcs s)" if "Turn b \<in> set ((sys_pcs s)[i := Top])" for b
      using that set_update_subset_insert [of "sys_pcs s" i Top] by auto
    have keep: "Turn b \<in> set ((sys_pcs s)[i := Top]) \<or> b = t" if "Turn b \<in> set (sys_pcs s)" for b
      using that len(1) pc by (metis in_set_conv_nth length_list_update nth_list_update_neq pc.inject(3))
    have w: "written_on (g_fds G) (calls (genv g')) \<subseteq> {unat (g_min G) ..< unat (g_min G) + unat (g_range G)}"
      using cv wr block_bytes_in_range [OF G] by (simp add: cover_inv_def)
    have "(\<exists>b. Turn b \<in> set ((sys_pcs s)[i := Top]) \<and> unat b = k)
        \<or> block_bytes G (k mod unat (g_nio G)) \<subseteq> written_on (g_fds G) (calls (genv g'))" if "k < length evs" for k
      using cv that keep wr unfolding cover_inv_def by blast
    then show ?thesis using w cv sub by (auto simp: cover_inv_def s'_def)
  qed
  ultimately show ?thesis using e by (auto simp: fill_inv_def s'_def)
qed

lemma weight_move:
  assumes "i < length (sys_pcs s)" "sys_pcs s' = (sys_pcs s)[i := p]"
  shows "sum_list (map pc_weight (sys_pcs s')) + pc_weight (sys_pcs s ! i)
    = sum_list (map pc_weight (sys_pcs s)) + pc_weight p"
  unfolding assms(2) using sum_update [OF assms(1), of pc_weight p] .

text \<open>Every thread that has not ended can make its next step, without a fault, and one step fewer is left.\<close>

lemma fill_progress:
  assumes inv: "fill_inv G T n evs s" and G: "shape_ok G" and i: "i < n" and small: "unat T + n < 2 ^ 64"
  shows "sys_pcs s ! i = Ended \<and> thread_step fuel i s = Inl Blocked
    \<or> (\<exists>s'. thread_step fuel i s = Inr s' \<and> fill_inv G T n (evs @ drawn i s) s'
         \<and> Suc (steps_left T (evs @ drawn i s) s') = steps_left T evs s)"
proof -
  have len: "i < length (sys_pcs s)" using inv i by (simp add: fill_inv_def static_inv_def)
  have q: "quiet_pc (sys_pcs s ! i)" using inv len by (simp add: fill_inv_def static_inv_def)
  note wm = weight_move [OF len]
  have nd: "drawn i s = []" if "sys_pcs s ! i \<noteq> Draw" using that by (simp add: drawn_def)
  show ?thesis
  proof (cases "sys_pcs s ! i")
    case Top
    with top_inv [OF inv i Top] wm [of "step_top i s" Check] nd show ?thesis
      by (simp add: thread_step_def steps_left_def)
  next
    case Check
    with check_inv [OF inv i Check] wm [of "step_check i s" Draw] nd show ?thesis
      by (simp add: thread_step_def steps_left_def)
  next
    case Draw
    note d = draw_step_inv [OF inv i Draw small]
    from d(2) show ?thesis
    proof (elim disjE exE conjE)
      assume "drawn i s = []" "sys_pcs (step_draw i s) = (sys_pcs s)[i := Leaving]"
      with d(1) wm [of "step_draw i s" Leaving] Draw show ?thesis
        by (simp add: thread_step_def steps_left_def)
    next
      fix b assume "drawn i s = [(i, b)]" "length evs < unat T"
        "sys_pcs (step_draw i s) = (sys_pcs s)[i := Turn b]"
      with d(1) wm [of "step_draw i s" "Turn b"] Draw show ?thesis
        by (simp add: thread_step_def steps_left_def)
    qed
  next
    case (Turn t)
    from turn_step_inv [OF inv G i Turn] obtain s' where "step_turn t i s = Inr s'"
      "fill_inv G T n evs s'" "sys_pcs s' = (sys_pcs s)[i := Top]" by blast
    with wm [of s' Top] Turn nd show ?thesis by (simp add: thread_step_def steps_left_def)
  next
    case Leaving
    with leave_inv [OF inv i Leaving] wm [of "step_leave i s" Ended] nd show ?thesis
      by (simp add: thread_step_def steps_left_def)
  next
    case Ended
    then show ?thesis by (simp add: thread_step_def)
  qed (use q in simp_all)
qed

text \<open>What the step of one thread means to others: requests through the descriptors of its own file, and nothing that is shared.\<close>

lemma turn_issues:
  assumes inv: "fill_inv G T n evs s" and G: "shape_ok G" and i: "i < n" and st: "step_turn t i s = Inr s'"
  shows "shared_fixed (sys_g s') = shared_fixed (sys_g s) \<and> (\<exists>X. issued (g_fds G) (calls (genv (sys_g s))) (calls (genv (sys_g s'))) X)"
proof -
  let ?tp = "sys_ths s ! i"
  have so: "shared_ok (sys_g s)" and l: "l_cursize (sys_locs s ! i) = g_size G" and n: "i < length (sys_ths s)"
    and tok: "threads_ok G T (sys_ths s)" using inv i by (simp_all add: fill_inv_def static_inv_def)
  have t1: "straight G ?tp" "streamhead ?tp < length (sys_ths s)" "nseconds ?tp < NSEC"
    using tok n by (simp_all add: threads_ok_def)
  have t2: "straight G (sys_ths s ! streamhead ?tp)" using tok t1(2) by (simp add: threads_ok_def)
  from io_turn_ok [OF n t1(1,2) t2 G so t1(3) l, of t] st show ?thesis
    by (auto simp: step_turn_def bind_res_Inr_iff)
qed

lemma step_issues:
  assumes inv: "fill_inv G T n evs s" and G: "shape_ok G" and i: "i < n" and st: "thread_step fuel i s = Inr s'"
  shows "shared_fixed (sys_g s') = shared_fixed (sys_g s) \<and> (\<exists>X. issued (g_fds G) (calls (genv (sys_g s))) (calls (genv (sys_g s'))) X)"
proof -
  have si: "static_inv G T n s" using inv by (simp add: fill_inv_def)
  have q: "quiet_pc (sys_pcs s ! i)" using si i by (simp add: static_inv_def)
  have same: ?thesis if "shared_fixed (sys_g s') = shared_fixed (sys_g s)" "calls (genv (sys_g s')) = calls (genv (sys_g s))"
    using that issued_none by metis
  show ?thesis
  proof (cases "sys_pcs s ! i")
    case Top
    obtain now g where t: "tick (sys_g s) = (now, g)" by (cases "tick (sys_g s)")
    then have "sys_g s' = g" using st Top straight_not_due [OF si i] by (auto simp: thread_step_def step_top_def Let_def)
    with tick_simps [OF t] show ?thesis by (intro same) simp_all
  next
    case Check
    with st have "sys_g s' = sys_g s" by (auto simp: thread_step_def step_check_def split: if_splits)
    then show ?thesis by (intro same) simp_all
  next
    case Draw
    have nd: "\<not> count_due (sys_ths s ! i) (sys_locs s ! i) b" if "b < T" for b
    proof -
      have "injectinterval_io (params (sys_ths s ! i)) = 0 \<or> T \<le> injectinterval_io (params (sys_ths s ! i))"
        "l_injbno (sys_locs s ! i) = 0" using si i by (simp_all add: static_inv_def threads_ok_def)
      with that show ?thesis by (auto simp: count_due_def word_less_nat_alt unat_div word_le_nat_alt)
    qed
    have "sys_g s' = snd (add_bno 1 (sys_g s))"
      using st Draw nd si by (auto simp: thread_step_def step_draw_def draw_block_def add_bno_simps static_inv_def Let_def)
    then show ?thesis by (intro same) (simp_all add: add_bno_simps shared_fixed_def)
  next
    case (Turn t)
    with st have "step_turn t i s = Inr s'" by (simp add: thread_step_def)
    from turn_issues [OF inv G i this] show ?thesis .
  next
    case Leaving
    obtain now g where t: "tick (sys_g s) = (now, g)" by (cases "tick (sys_g s)")
    then have "sys_g s' = g" using st Leaving by (auto simp: thread_step_def step_leave_def io_end_def Let_def)
    with tick_simps [OF t] show ?thesis by (intro same) simp_all
  next
    case Ended
    with st show ?thesis by (simp add: thread_step_def)
  qed (use q in simp_all)
qed

lemma run_inv:
  assumes "fill_run fuel s0 k evs s" "fill_inv G T n [] s0" "shape_ok G" "unat T + n < 2 ^ 64"
  shows "fill_inv G T n evs s \<and> k + steps_left T evs s = steps_left T [] s0"
  using assms
proof (induction rule: fill_run.induct)
  case (run_step k evs s i s')
  then have ih: "fill_inv G T n evs s" "k + steps_left T evs s = steps_left T [] s0" by blast+
  then have i: "i < n" using run_step.hyps by (simp add: fill_inv_def static_inv_def)
  from fill_progress [OF ih(1) run_step.prems(2) i run_step.prems(3), of fuel] ih(2) run_step.hyps(3)
  show ?case by auto
qed simp

lemma run_finishes:
  assumes "fill_run fuel s0 k evs s" "fill_inv G T n [] s0" "shape_ok G" "unat T + n < 2 ^ 64"
  shows "\<exists>k' evs' s'. fill_run fuel s0 k' evs' s' \<and> stuck fuel s'"
  using assms(1)
proof (induction "steps_left T evs s" arbitrary: k evs s rule: less_induct)
  case less
  note r = run_inv [OF less.prems assms(2-4)]
  show ?case
  proof (cases "stuck fuel s")
    case True
    with less.prems show ?thesis by blast
  next
    case False
    then obtain i where i: "i < length (sys_pcs s)" "thread_step fuel i s \<noteq> Inl Blocked"
      by (auto simp: stuck_def)
    then have "i < n" using r by (simp add: fill_inv_def static_inv_def)
    from fill_progress [OF conjunct1 [OF r] assms(3) this assms(4), of fuel] i(2) obtain s' where
      s': "thread_step fuel i s = Inr s'" "Suc (steps_left T (evs @ drawn i s) s') = steps_left T evs s"
      by blast
    from less.hyps [OF _ fill_run.run_step [OF less.prems i(1) s'(1)]] s'(2) show ?thesis by simp
  qed
qed

lemma stuck_all_ended:
  assumes "stuck fuel s" "fill_inv G T n evs s" "shape_ok G" "unat T + n < 2 ^ 64" "i < n"
  shows "sys_pcs s ! i = Ended"
  using fill_progress [OF assms(2,3,5,4), of fuel] assms(1,2,5)
  by (auto simp: stuck_def fill_inv_def static_inv_def)

section \<open>The start\<close>

definition start_ok :: "shape \<Rightarrow> gstate \<Rightarrow> bool" where
  "start_ok G g \<longleftrightarrow> (let f = pthread g in
     shape_ok G \<and> shared_ok g \<and> iowait f = 0 \<and> thread_bno f = 0 \<and> calls (genv g) = []
     \<and> ithreads f \<noteq> [] \<and> threads_ok G (totalio f) (ithreads f)
     \<and> unat (totalio f) + length (ithreads f) < 2 ^ 64)"

lemma begin_all_ok:
  assumes "begin_all ts g = (xs, g')"
  shows "shared_fixed g' = shared_fixed g \<and> gdt g' = gdt g \<and> calls (genv g') = calls (genv g)
    \<and> pthread g' = pthread g \<and> length xs = length ts
    \<and> (\<forall>i < length ts. thread_fixed (fst (xs ! i)) = thread_fixed (ts ! i)
          \<and> nseconds (fst (xs ! i)) = nseconds (ts ! i)
          \<and> l_cursize (snd (xs ! i)) = iosize (params (ts ! i)) \<and> l_injbno (snd (xs ! i)) = 0)"
  using assms
proof (induction ts arbitrary: g xs g')
  case (Cons t ts)
  obtain now g1 where t: "tick g = (now, g1)" by (cases "tick g")
  note g1 = tick_simps [OF t]
  obtain ys g2 where b: "begin_all ts g1 = (ys, g2)" by (cases "begin_all ts g1")
  from Cons.prems t b have e: "g' = g2" "\<exists>x. xs = x # ys \<and> thread_fixed (fst x) = thread_fixed t
      \<and> nseconds (fst x) = nseconds t \<and> l_cursize (snd x) = iosize (params t) \<and> l_injbno (snd x) = 0"
    by (auto simp: io_begin_def Let_def thread_fixed_def)
  from e(2) obtain x where x: "xs = x # ys" "thread_fixed (fst x) = thread_fixed t"
    "nseconds (fst x) = nseconds t" "l_cursize (snd x) = iosize (params t)" "l_injbno (snd x) = 0" by blast
  show ?case using Cons.IH [OF b] g1 x e(1) by (auto simp: nth_Cons split: nat.split)
qed simp

lemma idle_inv:
  assumes "static_inv G T n s" "sys_pcs s = map (\<lambda>_. Top) xs" "thread_bno (pthread (sys_g s)) = 0"
    and "written_on (g_fds G) (calls (genv (sys_g s))) = {}"
  shows "fill_inv G T n [] s" "steps_left T [] s = 4 * (unat T + n)"
proof -
  have n: "n = length xs" using assms(1,2) by (simp add: static_inv_def)
  have "outs s = 0" by (simp add: assms(2) outs_def out_of_loop_def filter_map comp_def)
  then show "fill_inv G T n [] s" using assms by (auto simp: fill_inv_def draw_inv_def cover_inv_def)
  show "steps_left T [] s = 4 * (unat T + n)"
    using n by (simp add: assms(2) steps_left_def comp_def map_replicate_const sum_list_replicate)
qed

lemma start_inv:
  assumes "start_ok G g"
  shows "fill_inv G (totalio (pthread g)) (length (ithreads (pthread g))) [] (start_sys g)"
    and "steps_left (totalio (pthread g)) [] (start_sys g)
      = 4 * (unat (totalio (pthread g)) + length (ithreads (pthread g)))"
proof -
  let ?T = "totalio (pthread g)" and ?ts = "ithreads (pthread g)"
  obtain xs g' where b: "begin_all ?ts g = (xs, g')" by (cases "begin_all ?ts g")
  note r = begin_all_ok [OF b]
  have s0: "start_sys g = \<lparr>sys_g = g', sys_ths = map fst xs, sys_locs = map snd xs,
      sys_pcs = map (\<lambda>_. Top) xs\<rparr>" by (simp add: start_sys_def b)
  have so: "shared_ok g'" using shared_ok_fixed [of g' g] r assms
    by (simp add: start_ok_def shared_ok_def Let_def)
  have tk: "threads_ok G ?T (map fst xs)"
    unfolding threads_ok_def
  proof
    fix tp assume "tp \<in> set (map fst xs)"
    then obtain i where i: "i < length ?ts" "tp = fst (xs ! i)"
      using r by (auto simp: in_set_conv_nth)
    have "thread_fixed tp = thread_fixed (?ts ! i)" "nseconds tp = nseconds (?ts ! i)" using r i by auto
    moreover have "straight G (?ts ! i) \<and> streamhead (?ts ! i) < length ?ts \<and> nseconds (?ts ! i) < NSEC
        \<and> (injectinterval_io (params (?ts ! i)) = 0 \<or> ?T \<le> injectinterval_io (params (?ts ! i)))"
      using assms i(1) by (simp add: start_ok_def threads_ok_def Let_def)
    ultimately show "straight G tp \<and> streamhead tp < length (map fst xs) \<and> nseconds tp < NSEC
        \<and> (injectinterval_io (params tp) = 0 \<or> ?T \<le> injectinterval_io (params tp))"
      using straight_fixed [of tp "?ts ! i" G] r by (simp add: thread_fixed_def)
  qed
  have ls: "\<forall>l \<in> set (map snd xs). l_cursize l = g_size G \<and> l_injbno l = 0"
  proof
    fix l assume "l \<in> set (map snd xs)"
    then obtain i where i: "i < length ?ts" "l = snd (xs ! i)" using r by (auto simp: in_set_conv_nth)
    moreover have "iosize (params (?ts ! i)) = g_size G"
      using assms i(1) by (simp add: start_ok_def threads_ok_def straight_def Let_def)
    ultimately show "l_cursize l = g_size G \<and> l_injbno l = 0" using r by auto
  qed
  have io: "iowait (pthread g') = 0" "totalio (pthread g') = ?T" "thread_bno (pthread g') = 0"
    "calls (genv g') = []"
    using r assms by (simp_all add: start_ok_def Let_def)
  have len: "length xs = length ?ts" using r by blast
  have "static_inv G ?T (length ?ts) (start_sys g)"
    using len so tk ls io by (simp add: s0 static_inv_def)
  from idle_inv [OF this, of xs] io show "fill_inv G ?T (length ?ts) [] (start_sys g)"
    "steps_left ?T [] (start_sys g) = 4 * (unat ?T + length ?ts)" by (simp_all add: s0)
qed

section \<open>Properties\<close>

text \<open>A small fill that starts well: two threads, blocks of 512 bytes behind a header of 512, four blocks.\<close>

definition demo_shape :: shape where
  "demo_shape = \<lparr>g_size = 512, g_nio = 4, g_header = 512, g_min = 1024, g_range = 2048, g_fds = UNIV\<rparr>"

definition demo_thread :: "nat \<Rightarrow> iothread" where
  "demo_thread i = zero_iothread\<lparr>threadid := int i, streamhead := i, rangeoff := 2048,
     iorp := zero_ioreq\<lparr>fd := 3 + int i, writebp := replicate 4096 0\<rparr>,
     params := zero_params\<lparr>seqflag := 1, streams := 1, multiplier := 1, iosize := 512, nio := 4,
       nrep := 1, headersz := 512, minoff := 1024, dedupblks := 1, datatype_of := IOB_DT_ZEROS\<rparr>\<rparr>"

definition demo_env :: env where
  "demo_env = \<lparr>clk = (\<lambda>_. (1, 0)), ticks = 0, dev = (\<lambda>n c. (int (call_length c), 0)), calls = [], rng = 0\<rparr>"

definition demo_state :: gstate where
  "demo_state = \<lparr>glib = demo_lib, gpools = zero_pools, genv = demo_env, gdt = empty_dtable, gout = [],
     gerr = [], gstatusmb = push_bit 20 4096,
     pthread = zero_fthread\<lparr>ithreads := [demo_thread 0, demo_thread 1], totalio := 4,
       endtime := 10 * IOB_NSEC_TO_SEC\<rparr>\<rparr>"

lemma demo_straight: "straight demo_shape (demo_thread i)"
  by (simp add: straight_def demo_thread_def demo_shape_def zero_params_def zero_ioreq_def Let_def)

lemma demo_shared: "shared_ok demo_state"
  by (simp add: shared_ok_def demo_state_def zero_pools_ok table_ok_def empty_dtable_def
      full_transfers_def within_time_def demo_env_def timespec_ns_def)

lemma demo_start: "start_ok demo_shape demo_state"
proof -
  have "shape_ok demo_shape" by (simp add: shape_ok_def demo_shape_def)
  moreover have "threads_ok demo_shape 4 [demo_thread 0, demo_thread 1]"
    using demo_straight [of 0] demo_straight [of 1]
    by (simp add: threads_ok_def) (simp add: demo_thread_def zero_iothread_def zero_params_def)
  ultimately show ?thesis using demo_shared
    by (simp add: start_ok_def Let_def)
      (simp add: demo_state_def zero_fthread_def demo_env_def)
qed

lemma start_run_inv:
  assumes "start_ok G g" "fill_run fuel (start_sys g) k evs s"
  shows "fill_inv G (totalio (pthread g)) (length (ithreads (pthread g))) evs s"
    and "k + steps_left (totalio (pthread g)) evs s
      = 4 * (unat (totalio (pthread g)) + length (ithreads (pthread g)))"
proof -
  have G: "shape_ok G" "unat (totalio (pthread g)) + length (ithreads (pthread g)) < 2 ^ 64"
    using assms(1) by (simp_all add: start_ok_def Let_def)
  note r = run_inv [OF assms(2) start_inv(1) [OF assms(1)] G]
  show "fill_inv G (totalio (pthread g)) (length (ithreads (pthread g))) evs s" using r by blast
  show "k + steps_left (totalio (pthread g)) evs s
      = 4 * (unat (totalio (pthread g)) + length (ithreads (pthread g)))"
    using r start_inv(2) [OF assms(1)] by simp
qed

text \<open>What has happened when all threads have ended.\<close>

lemma ended_all_drawn:
  assumes "fill_inv G T n evs s" "0 < n" "\<forall>i < n. sys_pcs s ! i = Ended"
  shows "length evs = unat T" "Turn c \<notin> set (sys_pcs s)"
proof -
  have len: "length (sys_pcs s) = n" using assms(1) by (simp add: fill_inv_def static_inv_def)
  then have "Ended \<in> set (sys_pcs s)" using assms(2,3) by (metis nth_mem)
  then have "filter out_of_loop (sys_pcs s) \<noteq> []" by (auto simp: filter_empty_conv out_of_loop_def)
  then have "0 < outs s" by (simp add: outs_def)
  then show "length evs = unat T" using assms(1) by (simp add: fill_inv_def draw_inv_def)
  show "Turn c \<notin> set (sys_pcs s)" using assms(3) len by (auto simp: in_set_conv_nth)
qed

lemma ended_covers:
  assumes "fill_inv G T n evs s" "shape_ok G" "0 < n" "\<forall>i < n. sys_pcs s ! i = Ended"
    and "unat (g_range G) \<le> nat (g_size G) * unat (g_nio G)" "g_nio G \<le> T"
  shows "written_on (g_fds G) (calls (genv (sys_g s))) = {unat (g_min G) ..< unat (g_min G) + unat (g_range G)}"
proof -
  let ?W = "written_on (g_fds G) (calls (genv (sys_g s)))"
  have cv: "cover_inv G (length evs) s" using assms(1) by (simp add: fill_inv_def)
  note e = ended_all_drawn [OF assms(1,3,4)]
  have "block_bytes G b \<subseteq> ?W" if b: "b < unat (g_nio G)" for b
  proof -
    have "b < length evs" using e(1) assms(6) b by (simp add: word_le_nat_alt)
    then have "block_bytes G (b mod unat (g_nio G)) \<subseteq> ?W" using cv e(2) unfolding cover_inv_def by blast
    then show ?thesis using b by simp
  qed
  then have "(\<Union>b < unat (g_nio G). block_bytes G b) \<subseteq> ?W" by blast
  moreover have "?W \<subseteq> {unat (g_min G) ..< unat (g_min G) + unat (g_range G)}" using cv by (simp add: cover_inv_def)
  ultimately show ?thesis unfolding pass_covers_range [OF assms(2,5)] by blast
qed

lemma stuck_run_ended:
  assumes "start_ok G g" "fill_run fuel (start_sys g) k evs s" "stuck fuel s"
  shows "0 < length (ithreads (pthread g))" "\<forall>i < length (ithreads (pthread g)). sys_pcs s ! i = Ended"
proof -
  have G: "shape_ok G" "unat (totalio (pthread g)) + length (ithreads (pthread g)) < 2 ^ 64"
    using assms(1) by (simp_all add: start_ok_def Let_def)
  show "0 < length (ithreads (pthread g))" using assms(1) by (simp add: start_ok_def Let_def)
  show "\<forall>i < length (ithreads (pthread g)). sys_pcs s ! i = Ended"
    using stuck_all_ended [OF assms(3) start_run_inv(1) [OF assms(1,2)] G] by blast
qed

lemma run_to_end:
  assumes "start_ok G g"
  shows "\<exists>k evs s. fill_run fuel (start_sys g) k evs s \<and> stuck fuel s"
  using run_finishes [OF run_start start_inv(1) [OF assms]] assms by (simp add: start_ok_def Let_def)

text \<open>
  Property C4. In a straight fill (\<open>start_ok\<close>: no seek, streams, reads or injection, every transfer succeeds and the time limit
  is not reached), however the threads of a file interleave, the numbers they draw are 0, 1, 2, ... in the order of the
  draws: no block is handled twice and none is left out; when no thread can go on, all \<open>nio * nrep\<close> numbers have been
  handled. (A thread that meets the end of the device or of its time adds \<open>nio * nrep\<close> to the counter instead, to stop the others.)
\<close>

theorem blocks_drawn_once:
  assumes "start_ok G g" and "fill_run fuel (start_sys g) k evs s"
  shows "map (unat \<circ> snd) evs = [0 ..< length evs] \<and> length evs \<le> unat (totalio (pthread g))
    \<and> (stuck fuel s \<longrightarrow> length evs = unat (totalio (pthread g)))"
  using start_run_inv(1) [OF assms] ended_all_drawn(1) [OF start_run_inv(1) [OF assms] stuck_run_ended [OF assms]]
  by (simp add: fill_inv_def draw_inv_def)

theorem blocks_drawn_once_witness:
  "\<exists>k evs s. fill_run 0 (start_sys demo_state) k evs s \<and> map (unat \<circ> snd) evs = [0 ..< 4]"
proof -
  from run_to_end [OF demo_start] obtain k evs s where
    r: "fill_run 0 (start_sys demo_state) k evs s" "stuck 0 s" by blast
  have "map (unat \<circ> snd) evs = [0 ..< 4]"
    using blocks_drawn_once [OF demo_start r(1)] r(2) by (simp add: demo_state_def)
  with r(1) show ?thesis by blast
qed

text \<open>
  Property C5. A fill ends, in every schedule: a run takes at most four steps per block and per thread, no step of it
  faults, and a thread that has not ended can always go on.
\<close>

theorem fill_terminates:
  assumes "start_ok G g" and "fill_run fuel (start_sys g) k evs s"
  shows "k \<le> 4 * (unat (totalio (pthread g)) + length (ithreads (pthread g)))
    \<and> (\<forall>i < length (ithreads (pthread g)). sys_pcs s ! i \<noteq> Ended \<longrightarrow> (\<exists>s'. thread_step fuel i s = Inr s'))"
proof -
  have G: "shape_ok G" "unat (totalio (pthread g)) + length (ithreads (pthread g)) < 2 ^ 64"
    using assms(1) by (simp_all add: start_ok_def Let_def)
  have "\<exists>s'. thread_step fuel i s = Inr s'" if "i < length (ithreads (pthread g))" "sys_pcs s ! i \<noteq> Ended" for i
    using fill_progress [OF start_run_inv(1) [OF assms] G(1) that(1) G(2), of fuel] that(2) by blast
  then show ?thesis using start_run_inv(2) [OF assms] by simp
qed

theorem fill_terminates_witness:
  "(\<exists>s'. thread_step 0 0 (start_sys demo_state) = Inr s')
    \<and> (\<exists>s'. thread_step 0 1 (start_sys demo_state) = Inr s')"
proof -
  have two: "length (ithreads (pthread demo_state)) = 2" by (simp add: demo_state_def)
  have top: "sys_pcs (start_sys demo_state) ! i = Top" if "i < 2" for i
    using that two begin_all_ok [of "ithreads (pthread demo_state)" demo_state]
    by (auto simp: start_sys_def split: prod.splits)
  have "\<exists>s'. thread_step 0 i (start_sys demo_state) = Inr s'" if "i < 2" for i
    using fill_terminates [OF demo_start run_start [of 0]] two top [OF that] that by auto
  then show ?thesis by simp
qed

lemma covers_range:
  assumes "start_ok G g" and "fill_run fuel (start_sys g) k evs s"
    and "unat (g_range G) \<le> nat (g_size G) * unat (g_nio G)" and "g_nio G \<le> totalio (pthread g)"
  shows "written_on (g_fds G) (calls (genv (sys_g s))) \<subseteq> {unat (g_min G) ..< unat (g_min G) + unat (g_range G)}
    \<and> (stuck fuel s \<longrightarrow>
        written_on (g_fds G) (calls (genv (sys_g s))) = {unat (g_min G) ..< unat (g_min G) + unat (g_range G)})"
proof -
  have G: "shape_ok G" using assms(1) by (simp add: start_ok_def Let_def)
  note inv = start_run_inv(1) [OF assms(1,2)]
  have "cover_inv G (length evs) s" using inv by (simp add: fill_inv_def)
  then show ?thesis using ended_covers [OF inv G stuck_run_ended [OF assms(1,2)] assms(3,4)] by (simp add: cover_inv_def)
qed

text \<open>
  Property C3. When the fill is over, the device has been written, through the descriptors of the file, on exactly the range from \<open>minoff\<close>, of
  \<open>rangeoff\<close> bytes: no byte of it is missing, and no byte outside it was ever written, whatever the
  order of the threads, the sizes of header and blocks, and the data type. The blocks of one pass must
  reach the end of the range, and the transfers must not fail.
\<close>

theorem fill_covers_range:
  assumes "start_ok G g" and "fill_run fuel (start_sys g) k evs s"
    and "unat (g_range G) \<le> nat (g_size G) * unat (g_nio G)" and "g_nio G \<le> totalio (pthread g)"
  shows "written_on (g_fds G) (calls (genv (sys_g s))) \<subseteq> {unat (g_min G) ..< unat (g_min G) + unat (g_range G)}
    \<and> (stuck fuel s \<longrightarrow>
        written_on (g_fds G) (calls (genv (sys_g s))) = {unat (g_min G) ..< unat (g_min G) + unat (g_range G)})"
  using assms by (rule covers_range)

theorem fill_covers_range_witness:
  "\<exists>k evs s. fill_run 0 (start_sys demo_state) k evs s
    \<and> written (calls (genv (sys_g s))) = {1024 ..< 3072}"
proof -
  from run_to_end [OF demo_start] obtain k evs s where
    r: "fill_run 0 (start_sys demo_state) k evs s" "stuck 0 s" by blast
  have "written (calls (genv (sys_g s))) = {1024 ..< 3072}"
    using fill_covers_range [OF demo_start r(1)] r(2) by (simp add: demo_shape_def demo_state_def)
  with r(1) show ?thesis by blast
qed

end
