(* ===== verification/FillStart.thy ===== *)
theory FillStart
  imports FillRun
begin

text \<open>
  From the command line to a running fill: what \<open>init_threads\<close> builds from accepted options is a straight fill
  of the shape the options say, so the theorems of \<open>FillRun\<close> hold of the program as a user starts it.
\<close>

section \<open>The shape of a run\<close>

definition shape_of :: "cmdparams \<Rightarrow> shape" where
  "shape_of cp = \<lparr>g_size = iosize cp, g_nio = nio cp, g_header = header_of cp, g_min = minoff cp,
     g_range = range_of cp, g_fds = UNIV\<rparr>"

text \<open>The options of a plain fill, and sizes that do not wrap: the defaults satisfy this.\<close>

definition plain_options :: "cmdparams \<Rightarrow> bool" where
  "plain_options cp \<longleftrightarrow> fill_params_ok cp \<and> seekoff cp = 0 \<and> skip cp = 0 \<and> multiplier cp = 1
     \<and> 0 < nthreads cp \<and> nio cp \<noteq> 0 \<and> minoff cp \<le> maxoff cp
     \<and> unat (maxoff cp) + 3 * nat (iosize cp) < 2 ^ 64
     \<and> unat (header_of cp) + nat (iosize cp) * unat (nio cp) < 2 ^ 64
     \<and> unat (nio cp * nrep cp) + nat (nthreads cp) < 2 ^ 64"

lemma blocks_ordered:
  assumes "minoff cp \<le> maxoff cp" "unat (maxoff cp) + 3 * nat (iosize cp) < 2 ^ 64"
    "512 \<le> iosize cp" "iosize cp < 2 ^ 31"
  shows "unat (range_of cp) = (unat (end_blk cp) - unat (first_blk cp)) * nat (iosize cp)"
    "unat (first_blk cp) < unat (end_blk cp)"
    "unat (minoff cp) + unat (range_of cp) + nat (iosize cp) < 2 ^ 64"
proof -
  let ?S = "u64_of_int (iosize cp)" and ?s = "nat (iosize cp)" and ?mn = "unat (minoff cp)" and ?mx = "unat (maxoff cp)"
  have S: "unat ?S = ?s" using assms(3,4) by (simp add: unsigned_of_int take_bit_int_eq_self)
  have s0: "0 < ?s" using assms(3) by simp
  have le: "?mn \<le> ?mx" using assms(1) by (simp add: word_le_nat_alt)
  define a where "a = ?mn div ?s"
  define b where "b = ?mx div ?s"
  have ab: "a \<le> b" unfolding a_def b_def using le by (rule div_le_mono)
  have ua: "unat (first_blk cp) = a" by (simp add: first_blk_def unat_div S a_def)
  have ub: "unat (maxoff cp div ?S) = b" by (simp add: unat_div S b_def)
  have small: "b * ?s \<le> ?mx" "a * ?s \<le> ?mn" by (simp_all add: a_def b_def)
  have "b \<le> ?mx" unfolding b_def by (rule div_le_dividend)
  then have b1: "b + 1 < 2 ^ 64" "a + 1 < 2 ^ 64" using assms(2) s0 ab by linarith+
  have e: "unat (end_blk cp) = (if b = a then a + 1 else if b = 0 then 1 else b)"
  proof -
    let ?m = "maxoff cp div ?S" and ?f = "first_blk cp"
    have z: "?m = 0 \<longleftrightarrow> b = 0" using ub by (metis unat_0 unat_eq_zero)
    have f1: "unat (?f + 1) = a + 1" using unat_add_lem [of ?f 1] b1(2) by (simp add: ua)
    have fm: "?m = ?f \<longleftrightarrow> b = a" using ua ub by (metis word_unat_eq_iff)
    consider "b = a" "b = 0" | "b = a" "b \<noteq> 0" | "b \<noteq> a" "b \<noteq> 0" using ab by linarith
    then show ?thesis
    proof cases
      case 1
      then have "?f = 0" using ua by (metis unat_eq_zero)
      with 1 z show ?thesis by (simp add: end_blk_def)
    next
      case 2
      then have "end_blk cp = ?f + 1" using z fm by (simp add: end_blk_def)
      with 2 f1 show ?thesis by simp
    next
      case 3
      then have "end_blk cp = ?m" using z fm by (simp add: end_blk_def)
      with 3 ub show ?thesis by simp
    qed
  qed
  then have lt: "a < unat (end_blk cp)" "unat (end_blk cp) \<le> b + 1" using ab by auto
  then show "unat (first_blk cp) < unat (end_blk cp)" using ua by simp
  have d: "unat (end_blk cp - first_blk cp) = unat (end_blk cp) - a"
    using lt ua by (simp add: unat_sub word_le_nat_alt)
  have "(unat (end_blk cp) - a) * ?s \<le> (b + 1 - a) * ?s"
    by (intro mult_le_mono1 diff_le_mono lt(2))
  also have "\<dots> = b * ?s + ?s - a * ?s" by (simp add: algebra_simps diff_mult_distrib)
  finally have le2: "(unat (end_blk cp) - a) * ?s \<le> ?mx + ?s - a * ?s" using small(1) by linarith
  then have "unat (end_blk cp - first_blk cp) * unat ?S < 2 ^ 64"
    unfolding d S using assms(2) by linarith
  then show r: "unat (range_of cp) = (unat (end_blk cp) - unat (first_blk cp)) * ?s"
    unfolding range_of_def using unat_mult_small d S ua by simp
  have "?mn < a * ?s + ?s" unfolding a_def using dividend_less_div_times [OF s0, of ?mn] by linarith
  moreover have "a * ?s \<le> ?mx" using mult_le_mono1 [OF ab, of ?s] small(1) by linarith
  ultimately show "?mn + unat (range_of cp) + ?s < 2 ^ 64"
    using le2 assms(2) unfolding r ua by linarith
qed

lemma shape_of_ok:
  assumes "plain_options cp"
  shows "shape_ok (shape_of cp)"
proof -
  have p: "512 \<le> iosize cp" "iosize cp < 2 ^ 31" "nio cp \<noteq> 0"
    "unat (header_of cp) + nat (iosize cp) * unat (nio cp) < 2 ^ 64"
    using assms by (simp_all add: plain_options_def fill_params_ok_def)
  note r = blocks_ordered [of cp]
  have r: "unat (range_of cp) = (unat (end_blk cp) - unat (first_blk cp)) * nat (iosize cp)"
    "unat (first_blk cp) < unat (end_blk cp)"
    "unat (minoff cp) + unat (range_of cp) + nat (iosize cp) < 2 ^ 64"
    using r assms p by (simp_all add: plain_options_def)
  have S: "unat (u64_of_int (iosize cp)) = nat (iosize cp)"
    using p by (simp add: unsigned_of_int take_bit_int_eq_self)
  have "unat (header_of cp) \<le> nat (iosize cp)"
  proof (cases "u64_of_int (iosize cp) < headersz cp")
    case True
    have "unat (headersz cp) mod nat (iosize cp) < nat (iosize cp)" using p by simp
    then show ?thesis using True S by (simp add: header_of_def unat_mod)
  next
    case False
    then have "unat (headersz cp) \<le> nat (iosize cp)" using S by (simp add: word_less_nat_alt)
    then show ?thesis using False by (simp add: header_of_def)
  qed
  moreover have "0 < (unat (end_blk cp) - unat (first_blk cp)) * nat (iosize cp)" using r(2) p by simp
  then have "0 < unat (range_of cp)" unfolding r(1) .
  then have "range_of cp \<noteq> 0" by (simp add: unat_gt_0)
  moreover have "nat (iosize cp) dvd unat (range_of cp)" unfolding r(1) by simp
  ultimately show ?thesis using p r(3) by (simp add: shape_ok_def shape_of_def)
qed

section \<open>What \<open>init_threads\<close> builds\<close>

lemma make_files_result:
  assumes "make_files lib fnames cp n acc = Inr fl"
    and "\<forall>f \<in> set acc. f_params f = cp \<and> totalio f = nio cp * nrep cp \<and> thread_bno f = 0 \<and> iowait f = 0"
  shows "length fl = n + length acc
    \<and> (\<forall>f \<in> set fl. f_params f = cp \<and> totalio f = nio cp * nrep cp \<and> thread_bno f = 0 \<and> iowait f = 0)"
  using assms
proof (induction n arbitrary: acc)
  case (Suc i)
  from Suc.prems(1) obtain ftp where f: "fthreadinit lib (fnames ! i) cp = Inr ftp"
    "make_files lib fnames cp i (ftp\<lparr>shared_block := IOB_CACHE_LINE * nat (nthreads cp + 1) * i,
        fileno := int i\<rparr> # acc) = Inr fl" by (auto simp: bind_res_Inr_iff)
  from f(1) have "f_params ftp = cp \<and> totalio ftp = nio cp * nrep cp \<and> thread_bno ftp = 0 \<and> iowait ftp = 0"
    by (auto simp: fthreadinit_def bind_res_Inr_iff zero_fthread_def)
  with Suc.IH [OF f(2)] Suc.prems(2) show ?case by simp
qed simp

text \<open>A thread as the initialisation leaves it, in place \<open>k\<close> of its file.\<close>

definition new_thread :: "cmdparams \<Rightarrow> nat \<Rightarrow> iothread \<Rightarrow> bool" where
  "new_thread cp k tp \<longleftrightarrow> straight (shape_of cp) tp \<and> streamhead tp = k \<and> threadid tp = int k
     \<and> nseconds tp = 0 \<and> (injectinterval_io (params tp) = 0 \<or> injectinterval_io (params tp) = NOT 0)"

lemma ithreadinit_new:
  assumes "plain_options cp" "ithreadinit lib opn ftp (int k) cp e = Inr (tp, e')"
  shows "new_thread cp k tp \<and> calls e' = calls e \<and> dev e' = dev e \<and> clk e' = clk e"
proof -
  have p: "writeinject cp = 0" "partition cp = 0" "seqflag cp = 1" "streams cp = 1" "readpct cp = 0"
    "wroff cp = 0" "altcount cp = 0" "injectinterval_io cp = NOT 0" "dedupblks cp \<noteq> 0"
    "seekoff cp = 0" "skip cp = 0" "multiplier cp = 1"
    using assms(1) by (auto simp: plain_options_def fill_params_ok_def)
  from ithreadinit_plain [OF assms(2) p(1,2)] obtain seed where
    r: "params tp = thread_params cp (int k) seed" "rangeoff tp = range_of cp" "streamhead tp = k"
    "threadid tp = int k" "nseconds tp = 0" "4096 dvd length (writebp (iorp tp))"
    "iosize cp \<le> int (length (writebp (iorp tp)))" "calls e' = calls e" "dev e' = dev e" "clk e' = clk e"
    by auto
  have "512 dvd length (writebp (iorp tp))" using r(6) by (rule dvd_trans [rotated]) simp
  then show ?thesis using r p by (simp add: new_thread_def straight_def shape_of_def thread_params_def Let_def)
qed

lemma make_threads_new:
  assumes "plain_options cp" "make_threads lib opn ftp cp talign n acc e = Inr (ths, e')"
    and "\<forall>i < length acc. new_thread cp (n + i) (acc ! i)"
  shows "length ths = n + length acc \<and> (\<forall>i < length ths. new_thread cp i (ths ! i))
    \<and> calls e' = calls e \<and> dev e' = dev e \<and> clk e' = clk e"
  using assms(2,3)
proof (induction n arbitrary: acc e)
  case (Suc j)
  from Suc.prems(1) obtain tp e1 where t: "ithreadinit lib opn ftp (int j) cp e = Inr (tp, e1)"
    "make_threads lib opn ftp cp talign j (tp\<lparr>th_align := talign,
        shared_area := shared_block ftp + (j + 1) * IOB_CACHE_LINE\<rparr> # acc) e1 = Inr (ths, e')"
    (is "make_threads _ _ _ _ _ _ (?tp # _) _ = _")
    by (auto simp: bind_res_Inr_iff)
  note n = ithreadinit_new [OF assms(1) t(1)]
  have "new_thread cp j ?tp" using n by (simp add: new_thread_def straight_def)
  then have "\<forall>i < length (?tp # acc). new_thread cp (j + i) ((?tp # acc) ! i)"
    using Suc.prems(2) by (auto simp: nth_Cons split: nat.split)
  from Suc.IH [OF t(2) this] n show ?case by simp
qed simp

lemma fill_files_new:
  assumes "plain_options cp" "fill_files lib opn cp talign fs e = Inr (fs', e')"
    and "\<forall>f \<in> set fs. f_params f = cp \<and> totalio f = nio cp * nrep cp \<and> thread_bno f = 0 \<and> iowait f = 0"
  shows "(\<forall>f \<in> set fs'. f_params f = cp \<and> totalio f = nio cp * nrep cp \<and> thread_bno f = 0 \<and> iowait f = 0
      \<and> length (ithreads f) = nat (nthreads cp) \<and> (\<forall>i < length (ithreads f). new_thread cp i (ithreads f ! i)))
    \<and> calls e' = calls e \<and> dev e' = dev e \<and> clk e' = clk e"
  using assms(2,3)
proof (induction fs arbitrary: fs' e)
  case (Cons f fs)
  have st: "streams cp = 1" using assms(1) by (simp add: plain_options_def fill_params_ok_def)
  from Cons.prems(1) obtain ths e1 gs where
    t: "make_threads lib opn f cp talign (nat (nthreads cp)) [] e = Inr (ths, e1)"
    "fill_files lib opn cp talign fs e1 = Inr (gs, e')" "fs' = f\<lparr>ithreads := link_streams cp ths\<rparr> # gs"
    by (auto simp: bind_res_Inr_iff)
  from make_threads_new [OF assms(1) t(1)] Cons.IH [OF t(2)] Cons.prems(2) t(3) st show ?case
    by (simp add: link_streams_def)
qed simp

lemma init_threads_new:
  assumes "plain_options cp" "init_threads lib opn vm pst files cp e = Inr (flist, pools, dt, e')"
    and "length vm = table_size" "length pst = table_size"
  shows "pools_ok pools \<and> calls e' = calls e \<and> dev e' = dev e \<and> clk e' = clk e
    \<and> (\<forall>f \<in> set flist. f_params f = cp \<and> totalio f = nio cp * nrep cp \<and> thread_bno f = 0 \<and> iowait f = 0
      \<and> length (ithreads f) = nat (nthreads cp) \<and> (\<forall>i < length (ithreads f). new_thread cp i (ithreads f ! i)))"
proof -
  obtain x dt' where p: "iob_initdata lib vm pst = Inr (pools, x)"
    and c: "create_files lib opn files cp (e\<lparr>rng := x\<rparr>) = Inr (flist, e')"
    using assms(2) unfolding init_threads_def Let_def
    by (elim bind_res_InrE bind_res_pairE) (simp only: sum.inject prod.inject)
  obtain fl talign where i: "make_files lib files cp (length files) [] = Inr fl"
    and f: "fill_files lib opn cp talign fl (e\<lparr>rng := x\<rparr>) = Inr (flist, e')"
    using c unfolding create_files_def Let_def by (elim bind_res_InrE)
  have "\<forall>f \<in> set fl. f_params f = cp \<and> totalio f = nio cp * nrep cp \<and> thread_bno f = 0 \<and> iowait f = 0"
    using make_files_result [OF i] by simp
  note r = fill_files_new [OF assms(1) f this] and po = initdata_returns [OF p assms(3,4)]
  have "calls e' = calls e \<and> dev e' = dev e \<and> clk e' = clk e" using r by simp
  then show ?thesis using po conjunct1 [OF r] by blast
qed

text \<open>A machine with the memory for a run, on which every file opens.\<close>

definition roomy :: "libstate \<Rightarrow> opener \<Rightarrow> bool" where
  "roomy lib opn \<longleftrightarrow> 2 ^ 32 \<le> heap_limit lib \<and> (\<forall>f fl t. 0 \<le> opn f fl t)"

lemma ithreadinit_total:
  assumes "plain_options cp" "roomy lib opn"
  shows "\<exists>tp e'. ithreadinit lib opn ftp tid cp e = Inr (tp, e')"
proof -
  have p: "512 \<le> iosize cp" "iosize cp < 2 ^ 31" "writesize cp = 131072" "segsize cp = 16777216"
    "writeinject cp = 0"
    using assms(1) by (simp_all add: plain_options_def fill_params_ok_def)
  have h: "2 ^ 32 \<le> heap_limit lib" and o: "\<not> opn f fl t < 0" for f fl t
    using assms(2) by (simp_all add: roomy_def not_less)
  obtain wb where wb: "iob_align_shmem lib (writesize cp) = Inr wb" using align_small [OF _ _ h, of "writesize cp"] p(3) by auto
  obtain rb where rb: "iob_align_shmem lib (iosize cp) = Inr rb" using align_small [OF _ p(2) h] p(1) by auto
  have m: "malloc_struct lib sizeof_iothread = Inr ()" "malloc_struct lib sizeof_ioreq = Inr ()"
    using malloc_small [OF _ _ h] by simp_all
  obtain w rq where al: "alloc_thread lib opn ftp tid cp = Inr (w, rq)"
    unfolding alloc_thread_def by (simp only: wb rb m o bind_res_simps if_False Let_def)
  have S: "u64_of_int (iosize cp) \<noteq> 0"
  proof -
    have "unat (u64_of_int (iosize cp)) = nat (iosize cp)"
      using p by (simp add: unsigned_of_int take_bit_int_eq_self)
    then show ?thesis using p(1) by auto
  qed
  have sz: "iosize (own_params cp tid seed) = iosize cp" "segsize (own_params cp tid seed) = 16777216"
    "writeinject (own_params cp tid seed) = 0" for seed
    using p by (simp_all add: own_params_def Let_def)
  have r: "\<exists>tp'. set_range tp = Inr tp' \<and> params tp' = params tp"
    if "iosize (params tp) = iosize cp" "segsize (params tp) = 16777216" for tp
    using that S by (simp add: set_range_def udiv_def Let_def)
  have q: "\<exists>tp'. reduce_header tp = Inr tp'" if "iosize (params tp) = iosize cp" for tp
    using that S by (simp add: reduce_header_def umod_def Let_def)
  obtain now e1 where t: "iob_gettime e = (now, e1)" by (cases "iob_gettime e")
  obtain seed e3 where sd: "pick_seed cp tid (e1\<lparr>rng := srand48 (ucast now)\<rparr>) = (seed, e3)"
    by (cases "pick_seed cp tid (e1\<lparr>rng := srand48 (ucast now)\<rparr>)")
  let ?t0 = "zero_iothread\<lparr>iorp := rq, params := own_params cp tid seed, threadid := tid, th_fd := fd rq,
                 writebuf := w, streamhead := nat tid\<rparr>"
  from r [of ?t0] sz obtain t1 where t1: "set_range ?t0 = Inr t1" "params t1 = own_params cp tid seed" by auto
  from q [of t1] t1(2) sz obtain t2 where t2: "reduce_header t1 = Inr t2" by auto
  show ?thesis unfolding ithreadinit_def t Let_def prod.case al bind_res_simps sd t1(1) sz(3)
    using t2 by simp
qed

lemma make_threads_total:
  assumes "plain_options cp" "roomy lib opn"
  shows "\<exists>r. make_threads lib opn ftp cp talign n acc e = Inr r"
proof (induction n arbitrary: acc e)
  case (Suc j)
  from ithreadinit_total [OF assms, of ftp "int j" e] obtain tp e1 where
    "ithreadinit lib opn ftp (int j) cp e = Inr (tp, e1)" by blast
  with Suc.IH show ?case by simp
qed simp

lemma fill_files_total:
  assumes "plain_options cp" "roomy lib opn"
  shows "\<exists>fs' e'. fill_files lib opn cp talign fs e = Inr (fs', e') \<and> length fs' = length fs"
proof (induction fs arbitrary: e)
  case (Cons f fs)
  from make_threads_total [OF assms, of f talign "nat (nthreads cp)" "[]" e] obtain ths e1 where
    "make_threads lib opn f cp talign (nat (nthreads cp)) [] e = Inr (ths, e1)" by auto
  moreover from Cons.IH [of e1] obtain gs e2 where
    "fill_files lib opn cp talign fs e1 = Inr (gs, e2)" "length gs = length fs" by blast
  ultimately show ?case by simp
qed simp

lemma make_files_total:
  assumes "2 ^ 32 \<le> heap_limit lib"
  shows "\<exists>fl. make_files lib fnames cp n acc = Inr fl \<and> length fl = n + length acc"
proof (induction n arbitrary: acc)
  case (Suc i)
  have "fthreadinit lib (fnames ! i) cp = Inr (zero_fthread\<lparr>f_params := cp, filename := fnames ! i,
      totalio := nio cp * nrep cp\<rparr>)" using malloc_small [OF _ _ assms] by (simp add: fthreadinit_def)
  moreover obtain fl where "make_files lib fnames cp i (zero_fthread\<lparr>f_params := cp, filename := fnames ! i,
      totalio := nio cp * nrep cp, shared_block := IOB_CACHE_LINE * nat (nthreads cp + 1) * i,
      fileno := int i\<rparr> # acc) = Inr fl" "length fl = i + Suc (length acc)"
    using Suc.IH by (metis length_Cons)
  ultimately show ?case by simp
qed simp

lemma create_files_total:
  assumes "plain_options cp" "roomy lib opn"
  shows "\<exists>fs e'. create_files lib opn files cp e = Inr (fs, e') \<and> length fs = length files"
proof -
  from make_files_total [of lib files cp "length files" "[]"] assms(2) obtain fl where
    fl: "make_files lib files cp (length files) [] = Inr fl" "length fl = length files"
    by (auto simp: roomy_def)
  from fill_files_total [OF assms, of "if threadalign cp \<noteq> 0 then threadalign cp * nthreads cp else iosize cp" fl e]
  obtain gs e' where "fill_files lib opn cp
      (if threadalign cp \<noteq> 0 then threadalign cp * nthreads cp else iosize cp) fl e = Inr (gs, e')"
    "length gs = length fl" by blast
  with fl show ?thesis by (simp add: create_files_def Let_def)
qed

text \<open>The memory the threads share, in bytes, and the table of details: both fit an \<open>int\<close>.\<close>

definition tables_fit :: "cmdparams \<Rightarrow> nat \<Rightarrow> bool" where
  "tables_fit cp nfiles \<longleftrightarrow> 0 < nfiles \<and> nat (nthreads cp + 1) * nfiles < 2 ^ 24
     \<and> iodetcnt cp \<noteq> 0 \<and> unat (iodetcnt cp) * 88 < 2 ^ 31"

lemma shared_bytes:
  assumes "0 < n" "0 < t" "nat (t + 1) * n < 2 ^ 24"
  shows "int_of_u32 (u32_of_int (int_of_u32 (of_nat IOB_CACHE_LINE * word_of_int (t + 1) * of_nat n) * 8))
    = int (nat (t + 1) * n * 128)"
proof -
  obtain m where m: "t + 1 = int m" using assms(2) by (metis nonneg_int_cases add_nonneg_nonneg less_imp_le zero_le_one)
  define k where "k = m * n"
  have k: "k < 2 ^ 24" "nat (t + 1) * n = k" using assms(3) m by (simp_all add: k_def)
  have s: "int_of_u32 (of_nat j) = int j" if "j < 2 ^ 31" for j
    using that by (simp add: signed_of_nat signed_take_bit_int_eq_self)
  have "of_nat IOB_CACHE_LINE * word_of_int (t + 1) * of_nat n = (of_nat (k * 16) :: u32)"
    unfolding m by (simp add: k_def algebra_simps)
  moreover have "int_of_u32 (of_nat (k * 16)) = int (k * 16)" using k(1) by (intro s) simp
  moreover have "u32_of_int (int (k * 16) * 8) = of_nat (k * 128)" by simp
  moreover have "int_of_u32 (of_nat (k * 128)) = int (k * 128)" using k(1) by (intro s) simp
  ultimately show ?thesis unfolding k(2) by (simp only:)
qed

lemma init_threads_total:
  assumes "plain_options cp" "roomy lib opn" "tables_fit cp (length files)"
    and "length vm = table_size" "length pst = table_size"
  shows "\<exists>flist pools dt e'. init_threads lib opn vm pst files cp e = Inr (flist, pools, dt, e')
    \<and> length flist = length files \<and> dt = \<lparr>cur_iodet = 0, niodet = iodetcnt cp,
        details = replicate (unat (iodetcnt cp)) zero_iodet\<rparr>"
proof -
  have h: "2 ^ 32 \<le> heap_limit lib" using assms(2) by (simp add: roomy_def)
  have t: "0 < nthreads cp" using assms(1) by (simp add: plain_options_def)
  define K where "K = nat (nthreads cp + 1) * length files"
  have K: "0 < K" "K < 2 ^ 24" using assms(3) t by (simp_all add: tables_fit_def K_def)
  then obtain sh where sh: "iob_align_shmem lib (int (K * 128)) = Inr sh"
    using align_small [OF _ _ h, of "int (K * 128)"] by auto
  have sb: "int_of_u32 (u32_of_int (int_of_u32 (of_nat IOB_CACHE_LINE * word_of_int (nthreads cp + 1)
      * of_nat (length files)) * 8)) = int (K * 128)"
    using shared_bytes [of "length files" "nthreads cp"] assms(3) t by (simp add: tables_fit_def K_def)
  from initdata_spec [OF _ assms(4,5), of lib] h obtain po x where
    po: "iob_initdata lib vm pst = Inr (po, x)" by auto
  let ?n = "int (unat (iodetcnt cp))"
  obtain N where N: "unat (iodetcnt cp) = N" by blast
  have "0 < N" "N * 88 < 2 ^ 31" using assms(3) unfolding tables_fit_def N [symmetric] by (blast intro: unat_gt_0 [THEN iffD2])+
  then have n: "0 < ?n" "?n * 88 < 2 ^ 31" unfolding N by simp_all
  have "int_of_u32 (ucast (iodetcnt cp)) = ?n"
  proof -
    have "(ucast (iodetcnt cp) :: u32) = of_nat (unat (iodetcnt cp))" by simp
    then show ?thesis using n unfolding N by (simp only: signed_of_nat) (simp add: signed_take_bit_int_eq_self)
  qed
  moreover have "iob_details_init lib ?n empty_dtable
      = Inr \<lparr>cur_iodet = 0, niodet = iodetcnt cp, details = replicate (unat (iodetcnt cp)) zero_iodet\<rparr>"
  proof -
    have "int (2 ^ 32) \<le> int (heap_limit lib)" using h by (simp only: of_nat_le_iff)
    then have "?n * 88 \<le> int (heap_limit lib)" using n(2) unfolding N by simp
    from details_init_ok [OF n this] show ?thesis by simp
  qed
  ultimately have dt: "iob_details_init lib (int_of_u32 (ucast (iodetcnt cp))) empty_dtable
      = Inr \<lparr>cur_iodet = 0, niodet = iodetcnt cp, details = replicate (unat (iodetcnt cp)) zero_iodet\<rparr>"
    by (simp only:)
  from create_files_total [OF assms(1,2), of files "e\<lparr>rng := x\<rparr>"] obtain fs e' where
    "create_files lib opn files cp (e\<lparr>rng := x\<rparr>) = Inr (fs, e')" "length fs = length files" by blast
  then show ?thesis unfolding init_threads_def Let_def sb sh po dt bind_res_simps prod.case by simp
qed

section \<open>The start of a file's test\<close>

text \<open>
  \<open>file_thread\<close> between the two meetings with \<open>runtest\<close>: the time of the start and the time limit. Without a limit the
  test may take 100,000,000 seconds.
\<close>

definition file_begin :: "fthread \<Rightarrow> env \<Rightarrow> fthread \<times> env" where
  "file_begin ftp e =
     (let (now, e') = iob_gettime e; mt = maxtime (f_params ftp) in
      (ftp\<lparr>f_starttime := now,
           endtime := now + (if mt \<noteq> 0 then mt else IOB_NSEC_TO_SEC * 100000000)\<rparr>, e'))"

text \<open>The state in which the threads of a file start, from what the initialisation built.\<close>

definition file_state :: "libstate \<Rightarrow> pools \<Rightarrow> dtable \<Rightarrow> u64 \<Rightarrow> fthread \<Rightarrow> env \<Rightarrow> gstate" where
  "file_state lib pools dt smb ftp e =
     (let (f, e') = file_begin ftp e
      in \<lparr>glib = lib, gpools = pools, genv = e', gdt = dt, gout = [], gerr = [], gstatusmb = smb, pthread = f\<rparr>)"

lemma plain_start:
  assumes "plain_options cp" "init_threads lib opn vm pst files cp e = Inr (flist, pools, dt, e')"
    and "length vm = table_size" "length pst = table_size"
    and "table_ok dt" "calls e = []" "full_transfers e" "smb \<noteq> 0" "f \<in> set flist"
    and "within_time (endtime (fst (file_begin f e'))) e"
  shows "start_ok (shape_of cp) (file_state lib pools dt smb f e')"
    and "totalio (pthread (file_state lib pools dt smb f e')) = nio cp * nrep cp"
proof -
  note i = init_threads_new [OF assms(1-4)]
  obtain now e2 where t: "iob_gettime e' = (now, e2)" by (cases "iob_gettime e'")
  then have e2: "calls e2 = []" "dev e2 = dev e" "clk e2 = clk e"
    using i assms(6) by (auto simp: iob_gettime_def split: prod.splits)
  let ?g = "file_state lib pools dt smb f e'" and ?m = "maxtime (f_params f)"
  let ?lim = "now + (if ?m \<noteq> 0 then ?m else IOB_NSEC_TO_SEC * 100000000)"
  have g: "?g = \<lparr>glib = lib, gpools = pools, genv = e2, gdt = dt, gout = [], gerr = [], gstatusmb = smb,
      pthread = f\<lparr>f_starttime := now, endtime := ?lim\<rparr>\<rparr>"
    by (simp only: file_state_def file_begin_def t prod.case Let_def)
  have en: "endtime (fst (file_begin f e')) = ?lim" by (simp add: file_begin_def t Let_def)
  have f: "totalio f = nio cp * nrep cp" "thread_bno f = 0" "iowait f = 0"
    "length (ithreads f) = nat (nthreads cp)"
    and th: "\<And>k. k < length (ithreads f) \<Longrightarrow> new_thread cp k (ithreads f ! k)" using i assms(9) by blast+
  have w: "within_time ?lim e2" "full_transfers e2"
    using assms(7,10) e2 unfolding en by (simp_all add: within_time_def full_transfers_def)
  have so: "shared_ok ?g" unfolding g shared_ok_def
    using i assms(5,8) w by simp
  have tk: "threads_ok (shape_of cp) (totalio f) (ithreads f)"
    unfolding threads_ok_def
  proof
    fix tp assume "tp \<in> set (ithreads f)"
    then obtain k where "k < length (ithreads f)" "tp = ithreads f ! k" by (metis in_set_conv_nth)
    with th [of k] show "straight (shape_of cp) tp \<and> streamhead tp < length (ithreads f) \<and> nseconds tp < NSEC
        \<and> (injectinterval_io (params tp) = 0 \<or> totalio f \<le> injectinterval_io (params tp))"
      by (auto simp: new_thread_def)
  qed
  have "0 < nthreads cp" "unat (nio cp * nrep cp) + nat (nthreads cp) < 2 ^ 64"
    using assms(1) by (simp_all add: plain_options_def)
  then have n: "ithreads f \<noteq> []" "unat (totalio f) + length (ithreads f) < 2 ^ 64"
    unfolding f(1,4) using f(4) by auto
  show "totalio (pthread ?g) = nio cp * nrep cp" unfolding g using f(1) by simp
  show "start_ok (shape_of cp) ?g"
    unfolding start_ok_def Let_def using so tk n shape_of_ok [OF assms(1)] f e2(1) unfolding g by simp
qed

section \<open>Property\<close>

text \<open>
  From accepted options to the bytes on the device: initialised from plain options, the threads of each file run to an
  end in which the device holds writes to exactly the bytes from \<open>minoff\<close>, in whole blocks up to \<open>maxoff\<close>,
  and every run that has come to its end has done so. The pass must be long enough for the range, transfers must
  succeed and the time limit must not be reached.
\<close>

theorem plain_run_fills:
  assumes "plain_options cp" and "init_threads lib opn vm pst files cp e = Inr (flist, pools, dt, e')"
    and "length vm = table_size" and "length pst = table_size"
    and "table_ok dt" and "calls e = []" and "full_transfers e" and "smb \<noteq> 0" and "f \<in> set flist"
    and "within_time (endtime (fst (file_begin f e'))) e"
    and "unat (range_of cp) \<le> nat (iosize cp) * unat (nio cp)" and "nio cp \<le> nio cp * nrep cp"
  shows "(\<exists>k evs s. fill_run fuel (start_sys (file_state lib pools dt smb f e')) k evs s \<and> stuck fuel s)
    \<and> (\<forall>k evs s. fill_run fuel (start_sys (file_state lib pools dt smb f e')) k evs s \<longrightarrow> stuck fuel s \<longrightarrow>
        written (calls (genv (sys_g s))) = {unat (minoff cp) ..< unat (minoff cp) + unat (range_of cp)})"
proof -
  note st = plain_start [OF assms(1-10)]
  have sh: "g_range (shape_of cp) = range_of cp" "g_size (shape_of cp) = iosize cp"
    "g_nio (shape_of cp) = nio cp" "g_min (shape_of cp) = minoff cp" "g_fds (shape_of cp) = UNIV" by (simp_all add: shape_of_def)
  have le: "unat (g_range (shape_of cp)) \<le> nat (g_size (shape_of cp)) * unat (g_nio (shape_of cp))"
    "g_nio (shape_of cp) \<le> totalio (pthread (file_state lib pools dt smb f e'))"
    unfolding sh st(2) by (rule assms(11), rule assms(12))
  show ?thesis using run_to_end [OF st(1)] covers_range [OF st(1) _ le] unfolding sh written_on_UNIV by blast
qed

text \<open>The default options with two threads and a range of one megabyte.\<close>

definition demo_options :: cmdparams where
  "demo_options = defparams\<lparr>nthreads := 2, maxoff := 1048576\<rparr>"

lemma demo_options_plain: "plain_options demo_options"
  by (simp add: plain_options_def demo_options_def fill_params_ok_def defparams_def header_of_def)

lemma demo_range: "range_of demo_options = 1048576"
  by (simp add: range_of_def first_blk_def end_blk_def demo_options_def defparams_def Let_def)

theorem plain_run_fills_witness:
  "\<exists>lib opn vm flist pools dt e' f k evs s.
      init_threads lib opn vm vm [''/dev/sdb''] demo_options demo_env = Inr (flist, pools, dt, e') \<and> f \<in> set flist
    \<and> fill_run 0 (start_sys (file_state lib pools dt 1 f e')) k evs s
    \<and> written (calls (genv (sys_g s))) = {0 ..< 1048576}"
proof -
  let ?lib = "demo_lib\<lparr>heap_limit := 2 ^ 32\<rparr>" and ?opn = "\<lambda>_ _ _. 3"
  let ?vm = "replicate table_size (1 :: u8)" and ?e = "demo_env"
  have "roomy ?lib ?opn" by (simp add: roomy_def)
  moreover have "tables_fit demo_options (length [''/dev/sdb''])"
    by (simp add: tables_fit_def demo_options_def defparams_def)
  ultimately obtain flist pools dt e' where
    i: "init_threads ?lib ?opn ?vm ?vm [''/dev/sdb''] demo_options ?e = Inr (flist, pools, dt, e')"
    and l: "length flist = 1" and dt: "dt = \<lparr>cur_iodet = 0, niodet = iodetcnt demo_options,
        details = replicate (unat (iodetcnt demo_options)) zero_iodet\<rparr>"
    using init_threads_total [OF demo_options_plain, of ?lib ?opn "[''/dev/sdb'']" ?vm ?vm ?e] by auto
  from l obtain f where f: "f \<in> set flist" by (cases flist) auto
  have d: "calls ?e = []" "full_transfers ?e" by (simp_all add: demo_env_def full_transfers_def)
  note n = init_threads_new [OF demo_options_plain i]
  have "maxtime (f_params f) = maxtime demo_options" using n f by simp
  moreover have "clk e' = clk ?e" using n by simp
  ultimately have w: "within_time (endtime (fst (file_begin f e'))) ?e"
    by (simp add: file_begin_def iob_gettime_def demo_env_def within_time_def timespec_ns_def
        demo_options_def defparams_def Let_def)
  let ?g = "file_state ?lib pools dt 1 f e'"
  have "(\<exists>k evs s. fill_run 0 (start_sys ?g) k evs s \<and> stuck 0 s)
    \<and> (\<forall>k evs s. fill_run 0 (start_sys ?g) k evs s \<longrightarrow> stuck 0 s \<longrightarrow>
        written (calls (genv (sys_g s)))
          = {unat (minoff demo_options) ..< unat (minoff demo_options) + unat (range_of demo_options)})"
    by (rule plain_run_fills [OF demo_options_plain i _ _ _ d _ f w])
      (simp_all add: dt table_ok_def demo_range, simp_all add: demo_options_def defparams_def)
  then obtain k evs s where "fill_run 0 (start_sys ?g) k evs s"
    "written (calls (genv (sys_g s))) = {0 ..< 1048576}"
    unfolding demo_range by (auto simp: demo_options_def defparams_def)
  with i f show ?thesis by blast
qed

end
