(* ===== verification/Reports.thy ===== *)
theory Reports
  imports IobStats
begin

text \<open>
  What the reports of both tools are made of: formatted lines, the latency percentiles and the grouped latency histogram
  of \<open>printbuckets\<close>, which \<open>iof_output.c\<close> and \<open>iol_output.c\<close> have almost word for word in common.
  The functions here take the buckets as a function from bucket numbers to counts, for any number of buckets;
  the two tools supply their own arrays. What \<open>output\<close> owes to \<open>printbuckets\<close>, totals that agree with the
  buckets, is the interface \<open>bucket_totals\<close>.
\<close>

section \<open>Lines\<close>

text \<open>
  A call of \<open>fprintf\<close> is its format and the values of its arguments; how many columns a value takes is left to the
  format. Doubles are the rationals of \<^const>\<open>rnd\<close>.
\<close>

datatype val = I int | U u64 | D rat | S string

datatype outline = Printf string "val list"

text \<open>\<open>snprintf(name, 256, ...)\<close> keeps 255 characters.\<close>

definition snprintf256 :: "string \<Rightarrow> string" where "snprintf256 s = take 255 s"

text \<open>\<open>%-2d\<close>: padded with blanks on the right.\<close>

definition pad_right :: "nat \<Rightarrow> string \<Rightarrow> string" where
  "pad_right w s = s @ replicate (w - length s) CHR '' ''"

text \<open>A report file: its name and its lines. \<open>fopen\<close> succeeds or not, by the name.\<close>

record report =
  rp_name :: string
  rp_lines :: "outline list"

definition fopen_report :: "libstate \<Rightarrow> (string \<Rightarrow> bool) \<Rightarrow> string \<Rightarrow> string \<Rightarrow> string res" where
  "fopen_report lib can_open what name =
     (if can_open (snprintf256 name) then Inr (snprintf256 name)
      else Inl (iob_errlog lib False (what @ snprintf256 name)))"

text \<open>What \<open>getrusage\<close> reports: seconds and microseconds of system and of user time.\<close>

record rusage =
  stime_sec :: u64
  stime_usec :: u64
  utime_sec :: u64
  utime_usec :: u64

definition usec_between :: "u64 \<Rightarrow> u64 \<Rightarrow> u64 \<Rightarrow> u64 \<Rightarrow> u64" where
  "usec_between sec0 usec0 sec1 usec1 = (sec1 - sec0) * 1000000 + usec1 - usec0"

definition dbl_seconds :: "u64 \<Rightarrow> u64 \<Rightarrow> rat" where
  "dbl_seconds start stop = dbl_div (dbl_of_u64 (stop - start)) (dbl_of_u64 IOB_NSEC_TO_SEC)"

definition per_second :: "u64 \<Rightarrow> rat \<Rightarrow> rat" where
  "per_second n totsec = dbl_div (dbl_of_u64 n) totsec"

definition kb_per_second :: "u64 \<Rightarrow> rat \<Rightarrow> rat" where
  "kb_per_second n totsec = dbl_div (dbl_div (dbl_of_u64 n) totsec) 1024"

text \<open>The four rates of a line: reads and writes, by number and in kilobytes.\<close>

definition rate_vals :: "u64 \<Rightarrow> u64 \<Rightarrow> (nat \<Rightarrow> u64) \<Rightarrow> rat \<Rightarrow> val list" where
  "rate_vals nr nw bytes totsec =
     [D (per_second nr totsec), D (kb_per_second (bytes (nat READ)) totsec),
      D (per_second nw totsec), D (kb_per_second (bytes (nat WRITE)) totsec)]"

definition zero_rusage :: rusage where
  "zero_rusage = \<lparr>stime_sec = 0, stime_usec = 0, utime_sec = 0, utime_usec = 0\<rparr>"

section \<open>Percentiles\<close>

definition NPERCENT :: nat where [simp]: "NPERCENT = 5"

definition percentile :: "rat list" where
  "percentile = map rnd [1 / 2, 1 / 10, 1 / 100, 1 / 1000, 1 / 10000]"

text \<open>How many I/Os must have been counted for the percentile to be reached.\<close>

definition pct_threshold :: "u64 \<Rightarrow> rat \<Rightarrow> u64" where
  "pct_threshold tot p = tot - u64_of_dbl (dbl_mult (dbl_of_u64 tot) p)"

definition pct_thresholds :: "u64 \<Rightarrow> u64 list" where
  "pct_thresholds tot = map (pct_threshold tot) percentile"

text \<open>The inner loop: every percentile the count has reached gets the value of this bucket.\<close>

function advance :: "u64 list \<Rightarrow> u64 \<Rightarrow> int \<Rightarrow> nat \<Rightarrow> int list \<Rightarrow> nat \<times> int list" where
  "advance thr tot v j vals =
     (if j < length thr \<and> thr ! j \<le> tot then advance thr tot v (Suc j) (vals[j := v]) else (j, vals))"
  by pat_completeness auto
termination by (relation "measure (\<lambda>(thr, tot, v, j, vals). length thr - j)") auto

declare advance.simps [simp del]

definition pct_step :: "u64 list \<Rightarrow> (nat \<Rightarrow> u64) \<Rightarrow> int \<Rightarrow> nat \<Rightarrow> u64 \<times> nat \<times> int list \<Rightarrow> u64 \<times> nat \<times> int list" where
  "pct_step thr cnt latdiv i = (\<lambda>(tot, j, vals).
     let tot' = tot + cnt i in (tot', advance thr tot' ((int i + 1) * latdiv) j vals))"

text \<open>
  The scan over all buckets. The values start as what the last call left there: the array \<open>pctval\<close> is never cleared.
\<close>

definition pct_scan :: "u64 list \<Rightarrow> (nat \<Rightarrow> u64) \<Rightarrow> int \<Rightarrow> nat \<Rightarrow> int list \<Rightarrow> int list" where
  "pct_scan thr cnt latdiv nb vals =
     (case fold (pct_step thr cnt latdiv) [0 ..< nb] (0, 0, vals) of (tot, j, vals') \<Rightarrow> vals')"

text \<open>The global array \<open>pctval\<close>: a column of values for reads and one for writes. It starts as zeros.\<close>

type_synonym pctvals = "int list \<times> int list"

definition zero_pctvals :: pctvals where
  "zero_pctvals = (replicate NPERCENT 0, replicate NPERCENT 0)"

definition one_if_zero :: "u64 \<Rightarrow> u64" where
  "one_if_zero n = (if n = 0 then 1 else n)"

section \<open>The grouped histogram\<close>

definition lgmax :: "u32 list" where "lgmax = [10000, 0xffffffff]"
definition lgroup :: "nat list" where "lgroup = [5, 1000]"
definition lngroups :: nat where [simp]: "lngroups = 2"

record hist_row =
  row_latency :: int
  row_cols :: "(u64 \<times> rat) list"

text \<open>The buckets of a group, added up.\<close>

definition group_sum :: "(nat \<Rightarrow> u64) \<Rightarrow> nat \<Rightarrow> nat \<Rightarrow> u64" where
  "group_sum cnt i n = (\<Sum>k \<leftarrow> [i ..< i + n]. cnt k)"

definition tail_pct :: "u64 \<Rightarrow> u64 \<Rightarrow> rat" where
  "tail_pct cum tot = dbl_minus 1 (dbl_div (dbl_of_u64 cum) (dbl_of_u64 tot))"

definition make_row :: "int \<Rightarrow> u64 list \<Rightarrow> u64 list \<Rightarrow> u64 list \<Rightarrow> hist_row" where
  "make_row latency counts cums tots =
     \<lparr>row_latency = latency, row_cols = zip counts (map2 tail_pct cums tots)\<rparr>"

definition next_group :: "int \<Rightarrow> nat \<Rightarrow> nat" where
  "next_group latency gn = (if lgmax ! gn \<le> u32_of_int latency \<and> gn < lngroups then gn + 1 else gn)"

text \<open>
  The loop, from bucket \<open>i\<close> in group width \<open>gn\<close>: one line per group, with a count and the share of what is still to come
  for each column.
\<close>

function hist_rows ::
    "(nat \<Rightarrow> u64) list \<Rightarrow> u64 list \<Rightarrow> int \<Rightarrow> nat \<Rightarrow> nat \<Rightarrow> nat \<Rightarrow> int \<Rightarrow> u64 list \<Rightarrow> hist_row list res" where
  "hist_rows cols tots latdiv nb gn i latency cums =
     (if nb \<le> i then Inr []
      else if length lgroup \<le> gn \<or> length lgmax \<le> gn then Inl OutOfBounds
      else let n = min (lgroup ! gn) (nb - i);
               counts = map (\<lambda>cnt. group_sum cnt i n) cols;
               latency' = latency + int n * (latdiv sdiv 1000);
               cums' = map2 (+) cums counts
           in bind_res (hist_rows cols tots latdiv nb (next_group latency' gn) (i + n) latency' cums') (\<lambda>rows.
                Inr (make_row latency' counts cums' tots # rows)))"
  by pat_completeness auto
termination
  by (relation "measure (\<lambda>(cols, tots, latdiv, nb, gn, i, latency, cums). nb - i)")
    (auto simp: lgroup_def nth_Cons split: nat.splits)

declare hist_rows.simps [simp del]

section \<open>What the percentile scan finds\<close>

text \<open>The running count, and the buckets in which a threshold is first met.\<close>

definition cum_count :: "(nat \<Rightarrow> u64) \<Rightarrow> nat \<Rightarrow> u64" where
  "cum_count cnt n = (\<Sum>k \<leftarrow> [0 ..< n]. cnt k)"

lemma cum_count_simps [simp]:
  "cum_count cnt 0 = 0" "cum_count cnt (Suc n) = cum_count cnt n + cnt n"
  by (simp_all add: cum_count_def)

lemma advance_spec:
  assumes "advance thr tot v j vals = (j', vals')" "length vals = length thr" "j \<le> length thr"
  shows "j \<le> j' \<and> j' \<le> length thr \<and> length vals' = length thr
    \<and> (\<forall>k. j \<le> k \<and> k < j' \<longrightarrow> thr ! k \<le> tot \<and> vals' ! k = v)
    \<and> (\<forall>k. k < j \<or> j' \<le> k \<longrightarrow> vals' ! k = vals ! k)
    \<and> (j' < length thr \<longrightarrow> tot < thr ! j')"
  using assms
proof (induction thr tot v j vals arbitrary: j' vals' rule: advance.induct)
  case (1 thr tot v j vals)
  show ?case
  proof (cases "j < length thr \<and> thr ! j \<le> tot")
    case True
    with "1.prems"(1) have "advance thr tot v (Suc j) (vals[j := v]) = (j', vals')"
      by (simp add: advance.simps [of thr tot v j])
    from "1.IH" [OF True this] "1.prems"(2) True
    have ih: "Suc j \<le> j'" "j' \<le> length thr" "length vals' = length thr" "j' < length thr \<longrightarrow> tot < thr ! j'"
      "\<And>k. Suc j \<le> k \<and> k < j' \<Longrightarrow> thr ! k \<le> tot \<and> vals' ! k = v"
      "\<And>k. k < Suc j \<or> j' \<le> k \<Longrightarrow> vals' ! k = vals[j := v] ! k" by auto
    have "thr ! k \<le> tot \<and> vals' ! k = v" if "j \<le> k" "k < j'" for k
      using that ih(5) [of k] ih(6) [of k] True "1.prems"(2) by (cases "k = j") auto
    moreover have "vals' ! k = vals ! k" if "k < j \<or> j' \<le> k" for k
      using that ih(1) ih(6) [of k] by auto
    ultimately show ?thesis using ih(1-4) by auto
  next
    case False
    with "1.prems" have "j' = j" "vals' = vals" by (simp_all add: advance.simps [of thr tot v j])
    with False "1.prems" show ?thesis by auto
  qed
qed

lemma cum_count_sum:
  "(\<Sum>t \<leftarrow> ths. cum_count (c t) n) = cum_count (\<lambda>i. \<Sum>t \<leftarrow> ths. c t i) n"
  by (induction n) (simp_all add: sum_list_addf sum_list_0)

lemma cum_count_cong: "(\<And>i. i < n \<Longrightarrow> c i = d i) \<Longrightarrow> cum_count c n = cum_count d n"
  by (induction n) simp_all

text \<open>Counts that do not wrap: the running count never falls.\<close>

definition counts_fit :: "(nat \<Rightarrow> u64) \<Rightarrow> nat \<Rightarrow> bool" where
  "counts_fit cnt nb \<longleftrightarrow> (\<Sum>k < nb. unat (cnt k)) < 2 ^ 64"

lemma cum_count_unat:
  assumes "counts_fit cnt nb" "n \<le> nb"
  shows "unat (cum_count cnt n) = (\<Sum>k < n. unat (cnt k))"
  using assms(2)
proof (induction n)
  case (Suc n)
  have "(\<Sum>k < Suc n. unat (cnt k)) \<le> (\<Sum>k < nb. unat (cnt k))" using Suc.prems by (intro sum_mono2) auto
  then have "unat (cum_count cnt n) + unat (cnt n) < 2 ^ 64"
    using Suc.IH Suc.prems assms(1) by (simp add: counts_fit_def)
  then show ?case using Suc.IH Suc.prems unat_add_lem [of "cum_count cnt n" "cnt n"] by simp
qed simp

lemma cum_count_mono:
  assumes "counts_fit cnt nb" "a \<le> b" "b \<le> nb"
  shows "cum_count cnt a \<le> cum_count cnt b"
  unfolding word_le_nat_alt using assms cum_count_unat [OF assms(1)]
  by (simp add: sum_mono2 lessThan_subset_iff)

text \<open>The percentile \<open>j\<close> and those before it are reached in bucket \<open>i\<close>.\<close>

definition reached :: "u64 list \<Rightarrow> (nat \<Rightarrow> u64) \<Rightarrow> nat \<Rightarrow> nat \<Rightarrow> bool" where
  "reached thr cnt j i \<longleftrightarrow> (\<forall>k \<le> j. thr ! k \<le> cum_count cnt (Suc i))"

lemma reached_mono:
  assumes "counts_fit cnt nb" "reached thr cnt j i" "i \<le> i'" "i' < nb"
  shows "reached thr cnt j i'"
  using assms cum_count_mono [OF assms(1), of "Suc i" "Suc i'"]
  unfolding reached_def by (meson Suc_le_eq Suc_le_mono order_trans)

lemma pct_scan_inv:
  assumes "counts_fit cnt nb" "length vals = length thr" "n \<le> nb"
  shows "\<exists>j vals'. fold (pct_step thr cnt latdiv) [0 ..< n] (0, 0, vals) = (cum_count cnt n, j, vals')
    \<and> j \<le> length thr \<and> length vals' = length thr
    \<and> (\<forall>k < j. \<exists>i < n. reached thr cnt k i \<and> (\<forall>i' < i. \<not> reached thr cnt k i')
          \<and> vals' ! k = (int i + 1) * latdiv)
    \<and> (\<forall>k. j \<le> k \<longrightarrow> vals' ! k = vals ! k)
    \<and> (\<forall>k < length thr. j \<le> k \<longrightarrow> (\<forall>i < n. \<not> reached thr cnt k i))"
  using assms(3)
proof (induction n)
  case 0
  then show ?case using assms(2) by auto
next
  case (Suc n)
  then obtain j vs where st: "fold (pct_step thr cnt latdiv) [0 ..< n] (0, 0, vals) = (cum_count cnt n, j, vs)"
    and j: "j \<le> length thr" "length vs = length thr"
    and dn: "\<And>k. k < j \<Longrightarrow> \<exists>i < n. reached thr cnt k i \<and> (\<forall>i' < i. \<not> reached thr cnt k i')
          \<and> vs ! k = (int i + 1) * latdiv"
    and old: "\<And>k. j \<le> k \<Longrightarrow> vs ! k = vals ! k"
    and todo: "\<And>k i. k < length thr \<Longrightarrow> j \<le> k \<Longrightarrow> i < n \<Longrightarrow> \<not> reached thr cnt k i" by auto
  let ?c = "cum_count cnt (Suc n)" and ?v = "(int n + 1) * latdiv"
  obtain j' vs' where ad: "advance thr ?c ?v j vs = (j', vs')" by fastforce
  note a = advance_spec [OF ad j(2,1)]
  have all: "thr ! k \<le> ?c" if "k < j'" for k
  proof (cases "k < j")
    case True
    then obtain i where "i < n" "reached thr cnt k i" using dn by blast
    then have "reached thr cnt k n" using reached_mono [OF assms(1)] Suc.prems by (meson Suc_le_eq less_imp_le)
    then show ?thesis by (simp add: reached_def)
  qed (use a that in auto)
  have "\<exists>i < Suc n. reached thr cnt k i \<and> (\<forall>i' < i. \<not> reached thr cnt k i') \<and> vs' ! k = (int i + 1) * latdiv"
    if k: "k < j'" for k
  proof (cases "k < j")
    case True
    with dn a show ?thesis by (metis less_SucI)
  next
    case False
    then have "vs' ! k = ?v" using a k by auto
    moreover have "reached thr cnt k n" using all k by (simp add: reached_def)
    moreover have "\<forall>i' < n. \<not> reached thr cnt k i'" using todo [of k] False k a by auto
    ultimately show ?thesis by blast
  qed
  moreover have "\<not> reached thr cnt k i" if "k < length thr" "j' \<le> k" "i < Suc n" for k i
  proof (cases "i < n")
    case True
    then show ?thesis using todo that a by auto
  next
    case False
    then have "\<not> thr ! j' \<le> cum_count cnt (Suc i)" using a that by (simp add: not_le less_Suc_eq)
    then show ?thesis using that(2) by (auto simp: reached_def)
  qed
  moreover have "vs' ! k = vals ! k" if "j' \<le> k" for k using a old [of k] that by auto
  moreover have "fold (pct_step thr cnt latdiv) [0 ..< Suc n] (0, 0, vals) = (?c, j', vs')"
    using st ad by (simp add: pct_step_def Let_def)
  ultimately show ?case using a by blast
qed

lemma pct_scan_spec:
  assumes "counts_fit cnt nb" "length vals = length thr" "j < length thr"
  shows "(\<exists>i < nb. reached thr cnt j i \<and> (\<forall>i' < i. \<not> reached thr cnt j i')
        \<and> pct_scan thr cnt latdiv nb vals ! j = (int i + 1) * latdiv)
    \<or> (\<forall>i < nb. \<not> reached thr cnt j i) \<and> pct_scan thr cnt latdiv nb vals ! j = vals ! j"
proof -
  from pct_scan_inv [OF assms(1,2) order_refl, of latdiv] obtain n vs where
    f: "fold (pct_step thr cnt latdiv) [0 ..< nb] (0, 0, vals) = (cum_count cnt nb, n, vs)"
    and r: "\<forall>k < n. \<exists>i < nb. reached thr cnt k i \<and> (\<forall>i' < i. \<not> reached thr cnt k i')
          \<and> vs ! k = (int i + 1) * latdiv" "\<forall>k. n \<le> k \<longrightarrow> vs ! k = vals ! k"
      "\<forall>k < length thr. n \<le> k \<longrightarrow> (\<forall>i < nb. \<not> reached thr cnt k i)" by blast
  have p: "pct_scan thr cnt latdiv nb vals = vs" by (simp add: pct_scan_def f)
  show ?thesis unfolding p using r assms(3) by (cases "j < n") auto
qed

lemma pct_scan_length:
  assumes "counts_fit cnt nb" "length vals = length thr"
  shows "length (pct_scan thr cnt latdiv nb vals) = length thr"
  using pct_scan_inv [OF assms order_refl, of latdiv] by (auto simp: pct_scan_def)

section \<open>The lines of the histogram\<close>

text \<open>The line of the buckets \<open>i\<close> to \<open>i + n - 1\<close>, for buckets of ten microseconds.\<close>

definition row_of :: "(nat \<Rightarrow> u64) list \<Rightarrow> u64 list \<Rightarrow> nat \<Rightarrow> nat \<Rightarrow> hist_row" where
  "row_of cols tots i n = make_row (10 * int (i + n)) (map (\<lambda>c. group_sum c i n) cols)
     (map (\<lambda>c. cum_count c (i + n)) cols) tots"

definition narrow_rows :: "(nat \<Rightarrow> u64) list \<Rightarrow> u64 list \<Rightarrow> nat \<Rightarrow> hist_row list" where
  "narrow_rows cols tots m = map (\<lambda>q. row_of cols tots (5 * q) 5) [m ..< 200]"

definition wide_rows :: "(nat \<Rightarrow> u64) list \<Rightarrow> u64 list \<Rightarrow> nat \<Rightarrow> hist_row list" where
  "wide_rows cols tots m = map (\<lambda>q. row_of cols tots (1000 * q) 1000) [m ..< 100]"

lemma cum_count_group: "cum_count cnt (i + n) = cum_count cnt i + group_sum cnt i n"
  unfolding cum_count_def group_sum_def upt_add_eq_append [OF le0, of i n] by simp

lemma add_groups:
  "map2 (+) (map (\<lambda>c. cum_count c i) cols) (map (\<lambda>c. group_sum c i n) cols)
     = map (\<lambda>c. cum_count c (i + n)) cols"
  by (induction cols) (simp_all add: cum_count_group)

lemma hist_step:
  assumes "i < nb" "gn < 2" "n = min (lgroup ! gn) (nb - i)" "gn' = next_group (10 * int (i + n)) gn"
    and "hist_rows cols tots 10000 nb gn' (i + n) (10 * int (i + n)) (map (\<lambda>c. cum_count c (i + n)) cols) = Inr rows"
  shows "hist_rows cols tots 10000 nb gn i (10 * int i) (map (\<lambda>c. cum_count c i) cols)
    = Inr (row_of cols tots i n # rows)"
proof -
  have l: "10 * int i + int n * (10000 sdiv 1000) = 10 * int (i + n)"
    by (simp add: signed_divide_int_def)
  show ?thesis
    unfolding hist_rows.simps [of cols tots 10000 nb gn] Let_def assms(3) [symmetric] l add_groups assms(4) [symmetric] assms(5)
    using assms(1,2) by (simp add: row_of_def lgroup_def lgmax_def)
qed

lemma unat_latency:
  assumes "10 * n < 2 ^ 32"
  shows "unat (u32_of_int (10 * int n)) = 10 * n"
proof -
  have "u32_of_int (10 * int n) = of_nat (10 * n)" by simp
  then show ?thesis using assms by (simp only: unat_of_nat) simp
qed

lemma wide_rows_eq:
  assumes "m \<le> 100"
  shows "hist_rows cols tots 10000 100000 1 (1000 * m) (10 * int (1000 * m)) (map (\<lambda>c. cum_count c (1000 * m)) cols)
    = Inr (wide_rows cols tots m)"
  using assms
proof (induction "100 - m" arbitrary: m)
  case 0
  then show ?case by (simp add: hist_rows.simps [of _ _ _ _ "Suc 0"] wide_rows_def)
next
  case (Suc d)
  then have m: "m < 100" "d = 100 - Suc m" by auto
  have e: "1000 * m + 1000 = 1000 * Suc m" by simp
  have "next_group (10 * int (1000 * m + 1000)) 1 = 1"
  proof -
    have "unat (u32_of_int (10 * int (1000 * m + 1000))) = 10 * (1000 * m + 1000)"
      using m by (intro unat_latency) simp
    then have "\<not> (0xffffffff :: u32) \<le> u32_of_int (10 * int (1000 * m + 1000))"
      using m by (simp add: word_le_nat_alt)
    then show ?thesis by (simp add: next_group_def lgmax_def)
  qed
  from hist_step [OF _ _ _ this [symmetric], where nb = 100000, unfolded e, OF _ _ _ Suc.hyps(1) [OF m(2)]] m
  show ?case by (simp add: lgroup_def wide_rows_def upt_conv_Cons)
qed


lemma narrow_rows_eq:
  assumes "m < 200"
  shows "hist_rows cols tots 10000 100000 0 (5 * m) (10 * int (5 * m)) (map (\<lambda>c. cum_count c (5 * m)) cols)
    = Inr (narrow_rows cols tots m @ wide_rows cols tots 1)"
  using assms
proof (induction "199 - m" arbitrary: m)
  case 0
  then have m: "m = 199" by simp
  have e: "995 + 5 = 1000 * (1 :: nat)" by simp
  have "next_group (10 * int (995 + 5)) 0 = 1" by (simp add: next_group_def lgmax_def)
  from hist_step [OF _ _ _ this [symmetric], where nb = 100000, unfolded e, OF _ _ _ wide_rows_eq, of cols tots]
  show ?case by (simp add: m lgroup_def narrow_rows_def upt_conv_Cons)
next
  case (Suc d)
  then have m: "Suc m < 200" "d = 199 - Suc m" by auto
  have e: "5 * m + 5 = 5 * Suc m" by simp
  have "next_group (10 * int (5 * m + 5)) 0 = 0"
  proof -
    have "unat (u32_of_int (10 * int (5 * m + 5))) = 10 * (5 * m + 5)"
      using m by (intro unat_latency) simp
    then have "\<not> (10000 :: u32) \<le> u32_of_int (10 * int (5 * m + 5))"
      using m by (simp add: word_le_nat_alt)
    then show ?thesis by (simp add: next_group_def lgmax_def)
  qed
  from hist_step [OF _ _ _ this [symmetric], where nb = 100000, unfolded e, OF _ _ _ Suc.hyps(1) [OF m(2,1)]] m
  show ?case by (simp add: lgroup_def narrow_rows_def upt_conv_Cons)
qed

text \<open>
  The whole histogram of 100,000 buckets of ten microseconds: 200 lines of 50 microseconds, then 99 lines of ten
  milliseconds; the lines cover every bucket once.
\<close>

definition hist_lines :: "(nat \<Rightarrow> u64) list \<Rightarrow> u64 list \<Rightarrow> hist_row list" where
  "hist_lines cols tots = narrow_rows cols tots 0 @ wide_rows cols tots 1"

lemma hist_rows_eq:
  "hist_rows cols tots 10000 100000 0 0 0 (replicate (length cols) 0) = Inr (hist_lines cols tots)"
  using narrow_rows_eq [of 0 cols tots] by (simp add: map_replicate_const hist_lines_def)

lemma hist_lines_length: "length (hist_lines cols tots) = 299"
  by (simp add: hist_lines_def narrow_rows_def wide_rows_def)

lemma sum_groups: "(\<Sum>q \<leftarrow> [a ..< a + n]. group_sum c (w * q) w) = group_sum c (w * a) (w * n)"
proof (induction n)
  case 0
  then show ?case by (simp add: group_sum_def)
next
  case (Suc n)
  have "group_sum c (w * a) (w * Suc n) = group_sum c (w * a) (w * n) + group_sum c (w * a + w * n) w"
    using cum_count_group [of c "w * a" "w * Suc n"] cum_count_group [of c "w * a" "w * n"]
      cum_count_group [of c "w * a + w * n" w] by (simp add: algebra_simps)
  with Suc show ?case by (simp add: algebra_simps)
qed

lemma row_of_counts: "length tots = length cols \<Longrightarrow> map fst (row_cols (row_of cols tots i n)) = map (\<lambda>c. group_sum c i n) cols"
  by (simp add: row_of_def make_row_def)

lemma column_sum:
  assumes "length tots = length cols" "k < length cols"
  shows "(\<Sum>r \<leftarrow> hist_lines cols tots. map fst (row_cols r) ! k) = cum_count (cols ! k) 100000"
proof -
  let ?c = "cols ! k"
  have "(\<Sum>r \<leftarrow> hist_lines cols tots. map fst (row_cols r) ! k)
    = (\<Sum>q \<leftarrow> [0 ..< 200]. group_sum ?c (5 * q) 5) + (\<Sum>q \<leftarrow> [1 ..< 100]. group_sum ?c (1000 * q) 1000)"
    using assms by (simp add: hist_lines_def narrow_rows_def wide_rows_def comp_def row_of_counts)
  also have "\<dots> = group_sum ?c 0 1000 + group_sum ?c 1000 99000"
    using sum_groups [of ?c 5 0 200] sum_groups [of ?c 1000 1 99] by simp
  also have "\<dots> = cum_count ?c 100000"
    using cum_count_group [of ?c 0 1000] cum_count_group [of ?c 1000 99000] by simp
  finally show ?thesis .
qed

lemma wide_last: "last (wide_rows cols tots 1) = row_of cols tots 99000 1000"
  by (simp add: wide_rows_def last_map)

lemma hist_last: "last (hist_lines cols tots) = row_of cols tots 99000 1000"
proof -
  have "wide_rows cols tots 1 \<noteq> []" by (simp add: wide_rows_def)
  then show ?thesis using wide_last [of cols tots] by (simp add: hist_lines_def)
qed

section \<open>Thresholds lie between one and the total\<close>

lemma scale_down_le: "2 ^ 52 * u \<le> x \<Longrightarrow> 0 < u \<Longrightarrow> 2 ^ 52 * scale_down k x u \<le> x \<and> 0 < scale_down k x u"
  by (induction k arbitrary: u) auto

lemma scale_up_le:
  "2 ^ 52 * u \<le> 2 ^ k * x \<Longrightarrow> 0 < u \<Longrightarrow> 2 ^ 52 * scale_up k x u \<le> x \<and> 0 < scale_up k x u"
proof (induction k arbitrary: u)
  case (Suc k)
  show ?case
  proof (cases "x < 2 ^ 52 * u")
    case True
    have "2 ^ 52 * (u / 2) \<le> 2 ^ k * x" using Suc.prems(1) by (simp add: mult.commute)
    with Suc.IH [of "u / 2"] Suc.prems(2) True show ?thesis by simp
  next
    case False
    with Suc.prems show ?thesis by simp
  qed
qed simp

lemma ulp_le:
  assumes "1 / 2 ^ 1000 \<le> x"
  shows "2 ^ 52 * ulp_of x \<le> x" "0 < ulp_of x"
proof -
  have "2 ^ 52 * (1 :: rat) \<le> 2 ^ 1075 * (1 / 2 ^ 1000)" by simp
  also have "\<dots> \<le> 2 ^ 1075 * x" by (intro mult_left_mono assms) simp
  finally have "2 ^ 52 * (1 :: rat) \<le> 2 ^ 1075 * x" .
  from scale_up_le [OF this] scale_down_le [of 1 x 1075]
  show "2 ^ 52 * ulp_of x \<le> x" "0 < ulp_of x" by (simp_all add: ulp_of_def not_less)
qed

lemma round_even_bounds: "x - 1 / 2 \<le> of_int (round_even x)" "of_int (round_even x) \<le> x + 1 / 2"
  by (auto simp: round_even_def Let_def) linarith+

lemma rnd_bounds:
  assumes "1 / 2 ^ 1000 \<le> x"
  shows "3 / 4 * x \<le> rnd x" "rnd x \<le> 5 / 4 * x"
proof -
  have x: "0 < x" using assms by (rule order_less_le_trans [rotated]) simp
  let ?u = "ulp_of x"
  note u = ulp_le [OF assms]
  have r: "rnd x = of_int (round_even (x / ?u)) * ?u" using x by (simp add: rnd_def Let_def)
  have "rnd x \<le> (x / ?u + 1 / 2) * ?u"
    unfolding r using round_even_bounds(2) u(2) by (intro mult_right_mono) auto
  also have "\<dots> = x + ?u / 2" using u(2) by (simp add: field_simps)
  finally show "rnd x \<le> 5 / 4 * x" using u by simp
  have "(x / ?u - 1 / 2) * ?u \<le> rnd x"
    unfolding r using round_even_bounds(1) u(2) by (intro mult_right_mono) auto
  moreover have "(x / ?u - 1 / 2) * ?u = x - ?u / 2" using u(2) by (simp add: field_simps)
  ultimately show "3 / 4 * x \<le> rnd x" using u by simp
qed

lemma percentile_bounds:
  assumes "p \<in> set percentile"
  shows "1 / 2 ^ 20 \<le> p" "p \<le> 5 / 8"
proof -
  obtain q where q: "p = rnd q" "1 / 10000 \<le> q" "q \<le> 1 / 2" using assms by (auto simp: percentile_def)
  have "(1 :: rat) / 2 ^ 1000 \<le> 1 / 10000" by simp
  then have "1 / 2 ^ 1000 \<le> q" using q(2) by (rule order_trans)
  note r = rnd_bounds [OF this]
  have "(1 :: rat) / 2 ^ 20 \<le> 3 / 4 * (1 / 10000)" by simp
  with r(1) q(1,2) show "1 / 2 ^ 20 \<le> p" by simp
  show "p \<le> 5 / 8" using r(2) q(1,3) by simp
qed

lemma threshold_bounds:
  assumes "tot \<noteq> 0" "p \<in> set percentile"
  shows "pct_threshold tot p \<noteq> 0" "pct_threshold tot p \<le> tot"
proof -
  let ?N = "of_nat (unat tot) :: rat"
  note p = percentile_bounds [OF assms(2)]
  have "1 \<le> unat tot" using assms(1) by (simp add: Suc_leI unat_gt_0)
  then have "of_nat 1 \<le> ?N" by (simp only: of_nat_le_iff)
  then have N: "1 \<le> ?N" by (simp only: of_nat_1)
  have tiny: "(1 :: rat) / 2 ^ 1000 \<le> 1 / 2 ^ 21" by simp
  have "(1 :: rat) / 2 ^ 1000 \<le> 1" by simp
  with N have "1 / 2 ^ 1000 \<le> ?N" by (rule order_trans [rotated])
  note rN = rnd_bounds [OF this]
  let ?y = "rnd ?N * p"
  have "1 / 2 ^ 21 \<le> 3 / 4 * 1 * (1 / 2 ^ 20 :: rat)" by simp
  also have "\<dots> \<le> rnd ?N * p" using rN(1) N p(1) by (intro mult_mono) auto
  finally have y: "1 / 2 ^ 21 \<le> ?y" .
  have y2: "?y \<le> (5 / 4 * ?N) * (5 / 8)" using rN(2) N p by (intro mult_mono) auto
  note ry = rnd_bounds [OF order_trans [OF tiny y]]
  have x: "0 \<le> rnd ?y" "rnd ?y < ?N" using ry y y2 N by auto
  define f where "f = \<lfloor>rnd ?y\<rfloor>"
  have f: "0 \<le> f" "f < int (unat tot)" unfolding f_def using x by (simp_all add: floor_less_iff)
  have "int (unat tot) < 2 ^ 64" using unsigned_less [of tot] by simp
  then have uf: "unat (u64_of_int f) = nat f" using f by (simp add: unsigned_of_int take_bit_int_eq_self)
  have e: "pct_threshold tot p = tot - u64_of_int f"
    by (simp add: pct_threshold_def dbl_mult_def dbl_of_u64_def u64_of_dbl_def f_def)
  have nf: "nat f < unat tot" using f by linarith
  then have le: "u64_of_int f \<le> tot" by (simp add: word_le_nat_alt uf)
  have d: "unat (tot - u64_of_int f) = unat tot - nat f" using unat_sub [OF le] uf by simp
  then show "pct_threshold tot p \<le> tot" unfolding e word_le_nat_alt by simp
  have "unat (tot - u64_of_int f) \<noteq> 0" using d nf by simp
  then show "pct_threshold tot p \<noteq> 0" unfolding e by (metis unat_0)
qed

lemma threshold_one: "p \<in> set percentile \<Longrightarrow> pct_threshold 1 p = 1"
  using threshold_bounds [of 1 p] by (metis one_neq_zero word_le_sub1 word_less_1 nle_le order_le_less)

section \<open>What a percentile is\<close>

text \<open>
  Written out: the number of I/Os that must have been counted for percentile \<open>k\<close>, whether bucket \<open>i\<close> is one at which the counts
  so far suffice for it and all before it, and the value reported: the upper edge of the first such bucket, or, when
  there were no I/Os at all, the value reported before.
\<close>

definition share :: "u64 \<Rightarrow> nat \<Rightarrow> u64" where
  "share tot k = tot - u64_of_dbl (dbl_mult (dbl_of_u64 tot) (rnd ([1 / 2, 1 / 10, 1 / 100, 1 / 1000, 1 / 10000] ! k)))"

definition met :: "u64 \<Rightarrow> (nat \<Rightarrow> u64) \<Rightarrow> nat \<Rightarrow> nat \<Rightarrow> bool" where
  "met tot cnt j i \<longleftrightarrow> (\<forall>k \<le> j. share tot k \<le> (\<Sum>b \<leftarrow> [0 ..< Suc i]. cnt b))"

definition pctval_of :: "u64 \<Rightarrow> (nat \<Rightarrow> u64) \<Rightarrow> nat \<Rightarrow> int \<Rightarrow> int \<Rightarrow> bool" where
  "pctval_of tot cnt j old v \<longleftrightarrow>
     (if tot = 0 then v = old
      else \<exists>i < 100000. v = (int i + 1) * 10000 \<and> met tot cnt j i \<and> (\<forall>i' < i. \<not> met tot cnt j i'))"

lemma met_reached: "j < NPERCENT \<Longrightarrow> met tot cnt j i = reached (pct_thresholds tot) cnt j i"
proof -
  assume j: "j < NPERCENT"
  have "cum_count cnt n = (\<Sum>b \<leftarrow> [0 ..< n]. cnt b)" for n by (induction n) simp_all
  moreover have "pct_thresholds tot ! k = share tot k" if "k \<le> j" for k
  proof -
    have "k < length [1 / 2, 1 / 10, 1 / 100, 1 / 1000, 1 / 10000 :: rat]" using that j by simp
    then show ?thesis
      unfolding pct_thresholds_def percentile_def share_def by (simp only: nth_map length_map pct_threshold_def)
  qed
  ultimately show ?thesis by (simp add: met_def reached_def)
qed

section \<open>The interface between \<open>output\<close> and \<open>printbuckets\<close>\<close>

text \<open>
  A report source: states in which the total of a column is the sum of its buckets. \<open>output\<close> establishes this before it
  calls \<open>printbuckets\<close>; what the report then shows follows here once, for both tools.
\<close>

locale bucket_totals =
  fixes cnt :: "'s \<Rightarrow> nat \<Rightarrow> u64" and tot :: "'s \<Rightarrow> u64" and ok :: "'s \<Rightarrow> bool"
  assumes fit: "ok s \<Longrightarrow> counts_fit (cnt s) 100000"
    and total: "ok s \<Longrightarrow> tot s = cum_count (cnt s) 100000"
begin

lemma percentile_found:
  assumes "ok s" "tot s \<noteq> 0" "j < NPERCENT" "length vals = NPERCENT"
  shows "\<exists>i < 100000. reached (pct_thresholds (tot s)) (cnt s) j i
    \<and> (\<forall>i' < i. \<not> reached (pct_thresholds (tot s)) (cnt s) j i')
    \<and> pct_scan (pct_thresholds (tot s)) (cnt s) latdiv 100000 vals ! j = (int i + 1) * latdiv"
proof -
  let ?thr = "pct_thresholds (tot s)"
  have len: "length ?thr = 5" by (simp add: pct_thresholds_def percentile_def)
  have "?thr ! k \<le> tot s" if "k \<le> j" for k
  proof -
    have k: "k < length percentile" using that assms(3) by (simp add: percentile_def)
    then show ?thesis using threshold_bounds(2) [OF assms(2) nth_mem [OF k]] by (simp add: pct_thresholds_def)
  qed
  then have "reached ?thr (cnt s) j 99999"
    unfolding reached_def using total [OF assms(1)] by simp
  then have "\<not> (\<forall>i < 100000. \<not> reached ?thr (cnt s) j i)" by force
  with pct_scan_spec [OF fit [OF assms(1)], of vals ?thr j latdiv] assms(3,4) len show ?thesis by auto
qed

lemma no_ios_stale:
  assumes "ok s" "tot s = 0" "j < NPERCENT" "length vals = NPERCENT"
  shows "pct_scan (pct_thresholds 1) (cnt s) latdiv 100000 vals ! j = vals ! j"
proof -
  have len: "length (pct_thresholds 1) = 5" by (simp add: pct_thresholds_def percentile_def)
  have "cum_count (cnt s) (Suc i) = 0" if "i < 100000" for i
    using cum_count_mono [OF fit [OF assms(1)], of "Suc i" 100000] total [OF assms(1)] assms(2) that by simp
  moreover have "pct_thresholds 1 ! 0 = 1"
    using threshold_one by (simp add: pct_thresholds_def percentile_def)
  ultimately have "\<not> reached (pct_thresholds 1) (cnt s) j i" if "i < 100000" for i
    using that by (auto simp: reached_def intro: exI [of _ 0])
  with pct_scan_spec [OF fit [OF assms(1)], of vals "pct_thresholds 1" j latdiv] assms(3,4) len show ?thesis by auto
qed

lemma percentile_value:
  assumes "ok s" "j < NPERCENT" "length vals = NPERCENT" "thr = (if tot s = 0 then 1 else tot s)"
  shows "pctval_of (tot s) (cnt s) j (vals ! j) (pct_scan (pct_thresholds thr) (cnt s) 10000 100000 vals ! j)"
proof (cases "tot s = 0")
  case True
  with no_ios_stale [OF assms(1) True assms(2,3)] assms(4) show ?thesis by (simp add: pctval_of_def)
next
  case False
  with percentile_found [OF assms(1) False assms(2,3), of 10000] assms(4) show ?thesis
    by (auto simp: pctval_of_def met_reached [OF assms(2)])
qed

lemma column_total:
  assumes "ok s" "length tots = length cols" "k < length cols" "cols ! k = cnt s"
  shows "(\<Sum>r \<leftarrow> hist_lines cols tots. map fst (row_cols r) ! k) = tot s"
  using column_sum [OF assms(2,3)] assms(4) total [OF assms(1)] by simp

end

end
