(* ===== verification/FillOutput.thy ===== *)
theory FillOutput
  imports FillRun Reports
begin

text \<open>
  \<open>iofill/iof_output.c\<close>: the totals of a run and the four report files. A report is the sequence of its
  formatted lines; the lists of files and threads are never empty when \<open>output\<close> runs, and following a null pointer is a
  fault of the model.
\<close>

section \<open>Totals\<close>

definition add_types :: "(nat \<Rightarrow> u64) \<Rightarrow> (nat \<Rightarrow> u64) \<Rightarrow> nat \<Rightarrow> u64" where
  "add_types f g = (\<lambda>j. if j < N_OPTYPES then f j + g j else f j)"

definition add_buckets :: "(nat \<Rightarrow> nat \<Rightarrow> u64) \<Rightarrow> (nat \<Rightarrow> nat \<Rightarrow> u64) \<Rightarrow> nat \<Rightarrow> nat \<Rightarrow> u64" where
  "add_buckets h k = (\<lambda>i. if i < NLATBKTS then add_types (h i) (k i) else h i)"

text \<open>The number of I/Os of a thread, by type, from its buckets.\<close>

definition count_thread :: "iothread \<Rightarrow> iothread" where
  "count_thread t = fold (\<lambda>i t.
     t\<lparr>totreads := totreads t + latbuckets t i (nat READ),
       totwrites := totwrites t + latbuckets t i (nat WRITE),
       totflushes := totflushes t + latbuckets t i (nat FLUSH),
       totpflushes := totpflushes t + latbuckets t i (nat POSTFLUSH)\<rparr>) [0 ..< NLATBKTS] t"

definition add_thread :: "iothread \<Rightarrow> fthread \<Rightarrow> fthread" where
  "add_thread t f =
     f\<lparr>f_totlat := add_types (f_totlat f) (totlat t),
       f_totbytes := add_types (f_totbytes f) (totbytes t),
       f_latbuckets := add_buckets (f_latbuckets f) (latbuckets t),
       f_totreads := f_totreads f + totreads t,
       f_totwrites := f_totwrites f + totwrites t,
       f_totflushes := f_totflushes f + totflushes t,
       f_totpflushes := f_totpflushes f + totpflushes t\<rparr>"

definition file_total :: "fthread \<Rightarrow> fthread" where
  "file_total f =
     (let ths = map count_thread (ithreads f) in fold add_thread ths (f\<lparr>ithreads := ths\<rparr>))"

definition sum_file :: "fthread \<Rightarrow> fthread \<Rightarrow> fthread \<times> fthread" where
  "sum_file f sys = (file_total f, fold add_thread (map count_thread (ithreads f)) sys)"

fun sum_files :: "fthread list \<Rightarrow> fthread \<Rightarrow> fthread list \<times> fthread" where
  "sum_files [] sys = ([], sys)"
| "sum_files (f # fs) sys =
     (let (f', sys1) = sum_file f sys; (fs', sys2) = sum_files fs sys1 in (f' # fs', sys2))"

definition empty_systot :: fthread where
  "empty_systot = zero_fthread\<lparr>filename := ''All Files''\<rparr>"

section \<open>The results file\<close>

definition printname :: "fthread \<Rightarrow> outline" where
  "printname f = Printf ''%-32s''
     [S (snprintf256 (''File'' @ pad_right 2 (dec_int (fileno f)) @ ''  '' @ filename f @ '',''))]"

definition file_rates :: "fthread \<Rightarrow> outline list" where
  "file_rates f =
     [printname f,
      Printf (''Reads, %9.2f R/s,  %10.2f KB/s,  Writes, %9.2f W/s,  %10.2f KB/s,'' @ nl)
        (rate_vals (f_totreads f) (f_totwrites f) (f_totbytes f)
          (dbl_seconds (f_starttime f) (f_stoptime f)))]"

definition thread_rates :: "fthread \<Rightarrow> iothread \<Rightarrow> outline list" where
  "thread_rates f t =
     [printname f,
      Printf (''Thread %2d,  Reads, %9.2f R/s,  %10.2f KB/s,  Writes, %9.2f W/s,  %10.2f KB/s,'' @ nl)
        (I (threadid t) # rate_vals (totreads t) (totwrites t) (totbytes t)
          (dbl_seconds (starttime t) (stoptime t)))]"

text \<open>The threads of a file, when it has more than one.\<close>

definition file_threads :: "fthread \<Rightarrow> outline list \<Rightarrow> outline list res" where
  "file_threads f out =
     (case ithreads f of
        [] \<Rightarrow> Inl OutOfBounds
      | [t] \<Rightarrow> Inr out
      | ts \<Rightarrow> Inr (out @ concat (map (thread_rates f) ts) @ [Printf nl []]))"

definition file_params :: "fthread \<Rightarrow> outline list" where
  "file_params f =
     (let p = f_params f in
      [printname f, Printf nl [],
       Printf ('','' @ tabs 1 @ ''number of repetitions,'' @ tabs 1 @ ''%llu,'' @ nl) [U (nrep p)],
       Printf ('','' @ tabs 1 @ ''number of I/Os,'' @ tabs 2 @ ''%llu,'' @ nl) [U (nio p)],
       Printf ('','' @ tabs 1 @ ''size of I/Os,'' @ tabs 2 @ ''%d,'' @ nl) [I (iosize p)],
       Printf ('','' @ tabs 1 @ ''nthreads,'' @ tabs 2 @ ''%d,'' @ nl) [I (nthreads p)],
       Printf ('','' @ tabs 1 @ ''header size,'' @ tabs 2 @ ''%llu KB,'' @ nl) [U (headersz p div 1024)],
       Printf ('','' @ tabs 1 @ ''initial offset,'' @ tabs 2 @ ''%llu KB,'' @ nl) [U (seekoff p div 1024)],
       Printf ('','' @ tabs 1 @ ''min offset,'' @ tabs 2 @ ''%llu KB,'' @ nl) [U (minoff p div 1024)],
       Printf ('','' @ tabs 1 @ ''max offset,'' @ tabs 2 @ ''%llu KB,'' @ nl) [U (maxoff p div 1024)],
       Printf ('','' @ tabs 1 @ ''skip,'' @ tabs 3 @ ''%d,'' @ nl) [I (skip p)],
       Printf ('','' @ tabs 1 @ ''multiplier,'' @ tabs 2 @ ''%d,'' @ nl) [I (multiplier p)],
       Printf ('','' @ tabs 1 @ ''base random seed,'' @ tabs 1 @ ''%d,'' @ nl) [I (int_of_u32 (randseed p))],
       (if maxtime p \<noteq> 0
        then Printf ('','' @ tabs 1 @ ''max run time,'' @ tabs 2 @ ''%lld seconds,'' @ nl) [U (maxtime p div IOB_NSEC_TO_SEC)]
        else Printf ('','' @ tabs 1 @ ''max run time,'' @ tabs 2 @ ''no limit,'' @ nl) []),
       Printf ('','' @ tabs 1 @ ''data type,'' @ tabs 2 @ ''%s,'' @ nl) [S (iob_dttostr (datatype_of p))],
       Printf ('','' @ tabs 1 @ ''dedup blks,'' @ tabs 2 @ ''%llu,'' @ nl)
         [U (dedupblks p * of_nat IOB_NDATAPAGES * of_nat (IOB_PAGE div IOB_SECTOR))],
       Printf nl []])"

definition cpu_lines :: "u64 \<Rightarrow> u64 \<Rightarrow> rusage \<Rightarrow> rusage \<Rightarrow> outline list" where
  "cpu_lines start stop br er =
     [Printf (''total time,        %9.3f seconds,'' @ nl) [D (dbl_seconds start stop)],
      Printf (''total system time, %9.3f seconds,'' @ nl)
        [D (dbl_div (dbl_of_u64 (usec_between (stime_sec br) (stime_usec br) (stime_sec er) (stime_usec er))) 1000000)],
      Printf (''total   user time, %9.3f seconds,'' @ nl @ nl)
        [D (dbl_div (dbl_of_u64 (usec_between (utime_sec br) (utime_usec br) (utime_sec er) (utime_usec er))) 1000000)]]"

definition all_files_rates :: "u64 \<Rightarrow> u64 \<Rightarrow> fthread \<Rightarrow> outline list" where
  "all_files_rates start stop sys =
     [Printf ''            Total All Files,    '' [],
      Printf (''Reads, %9.2f R/s,  %10.2f KB/s,  Writes, %9.2f W/s,  %10.2f KB/s,'' @ nl)
        (rate_vals (f_totreads sys) (f_totwrites sys) (f_totbytes sys) (dbl_seconds start stop))]"

definition output_times ::
    "libstate \<Rightarrow> (string \<Rightarrow> bool) \<Rightarrow> string \<Rightarrow> u64 \<Rightarrow> u64 \<Rightarrow> rusage \<Rightarrow> rusage \<Rightarrow> fthread list \<Rightarrow> fthread \<Rightarrow> report res" where
  "output_times lib can_open prefix start stop br er flist sys =
     bind_res (fopen_report lib can_open ''Can't create output file '' (prefix @ ''_results.csv'')) (\<lambda>name.
     bind_res (loop_res file_threads flist []) (\<lambda>threads.
       Inr \<lparr>rp_name = name,
            rp_lines = cpu_lines start stop br er
              @ (if tl flist \<noteq> [] then all_files_rates start stop sys else [])
              @ concat (map file_rates flist) @ [Printf nl []]
              @ threads @ [Printf (''Test Parameters,'' @ nl @ nl) []]
              @ concat (map file_params flist)\<rparr>))"

section \<open>The seconds file\<close>

definition max_seconds :: "fthread list \<Rightarrow> nat" where
  "max_seconds flist = fold (\<lambda>f m. fold (\<lambda>t m. if m < nseconds t then nseconds t else m) (ithreads f) m) flist 0"

definition second_row :: "fthread list \<Rightarrow> nat \<Rightarrow> outline list" where
  "second_row flist i =
     (let ios = concat (map (\<lambda>f. map (\<lambda>t. seconds t i) (ithreads f)) flist) in
      [Printf ''%7d,'' [I (int i)]]
      @ map (\<lambda>n. Printf ''  %6d,'' [I n]) ios
      @ (if tl flist \<noteq> [] then [Printf ''  %6d,'' [I (sum_list ios)]] else [])
      @ [Printf nl []])"

definition second_heads :: "fthread list \<Rightarrow> outline list" where
  "second_heads flist =
     concat (map (\<lambda>f. map (\<lambda>t.
       Printf ''  %6s,'' [S (snprintf256 (''F'' @ dec_int (fileno f) @ ''T'' @ dec_int (threadid t)))]) (ithreads f)) flist)
     @ (if tl flist \<noteq> [] then [Printf ''  %6s,'' [S ''ALL'']] else [])"

definition output_seconds :: "libstate \<Rightarrow> (string \<Rightarrow> bool) \<Rightarrow> string \<Rightarrow> fthread list \<Rightarrow> report res" where
  "output_seconds lib can_open prefix flist =
     bind_res (fopen_report lib can_open ''Can't create seconds file '' (prefix @ ''_seconds.csv'')) (\<lambda>name.
       let m = max_seconds flist; maxsec = (if m < NSEC then m + 1 else m) in
       if NSEC < maxsec then Inl OutOfBounds
       else Inr \<lparr>rp_name = name,
         rp_lines = concat (map (\<lambda>f. [printname f, Printf nl []]) flist)
           @ [Printf (nl @ ''I/Os per thread each second,'' @ nl) [], Printf ''Seconds,'' []]
           @ second_heads flist @ [Printf nl []]
           @ concat (map (second_row flist) [0 ..< maxsec])\<rparr>)"

section \<open>The details file\<close>

definition output_details ::
    "libstate \<Rightarrow> (string \<Rightarrow> bool) \<Rightarrow> string \<Rightarrow> fthread list \<Rightarrow> dtable \<Rightarrow> (report \<times> detail_row list) res" where
  "output_details lib can_open prefix flist dt =
     bind_res (fopen_report lib can_open ''Can't create detailed file '' (prefix @ ''_details.csv'')) (\<lambda>name.
     bind_res (iob_details_output dt False 0 0 0) (\<lambda>(rows, _).
       Inr (\<lparr>rp_name = name,
             rp_lines = concat (map (\<lambda>f. [printname f, Printf nl [],
                 Printf ('','' @ tabs 1 @ ''details for I/O longer than,'' @ tabs 2 @ ''%lld us,'' @ nl) [I (sint (iodettime (f_params f)) sdiv 1000)]]) flist)
               @ [Printf nl []]\<rparr>, rows)))"

section \<open>The latency file\<close>

text \<open>\<open>printbuckets\<close> first replaces totals of zero by one, in the structure itself.\<close>

definition nonzero_totals :: "fthread \<Rightarrow> fthread" where
  "nonzero_totals f =
     f\<lparr>f_totreads := one_if_zero (f_totreads f), f_totwrites := one_if_zero (f_totwrites f),
       f_totflushes := one_if_zero (f_totflushes f), f_totpflushes := one_if_zero (f_totpflushes f)\<rparr>"

definition bucket_column :: "fthread \<Rightarrow> int \<Rightarrow> nat \<Rightarrow> u64" where
  "bucket_column f ty = (\<lambda>i. f_latbuckets f i (nat ty))"

definition file_percentiles :: "fthread \<Rightarrow> pctvals \<Rightarrow> pctvals" where
  "file_percentiles f pv =
     (pct_scan (pct_thresholds (f_totreads f)) (bucket_column f READ) (uint LATDIV) NLATBKTS (fst pv),
      pct_scan (pct_thresholds (f_totwrites f)) (bucket_column f WRITE) (uint LATDIV) NLATBKTS (snd pv))"

definition average_lines :: "u64 \<Rightarrow> fthread \<Rightarrow> outline list" where
  "average_lines totio f =
     [printname f,
      Printf (''Average Read Latency,  %8lld (us),'' @ nl) [U (f_totlat f (nat READ) div f_totreads f div 1000)],
      printname f,
      Printf (''Average Write Latency, %8lld (us),'' @ nl) [U (f_totlat f (nat WRITE) div f_totwrites f div 1000)],
      printname f,
      Printf (''Average R+W Latency,   %8llu (us),'' @ nl @ nl)
        [U ((f_totlat f (nat READ) + f_totlat f (nat WRITE)) div totio div 1000)]]"

definition percentile_lines :: "fthread \<Rightarrow> pctvals \<Rightarrow> outline list" where
  "percentile_lines f pv =
     concat (map (\<lambda>i. [printname f,
       Printf (''Percentile  %.2f%%      Reads  %8d (us)      Writes %8d (us)'' @ nl)
         [D (dbl_mult (dbl_minus 1 (percentile ! i)) 100), I (fst pv ! i sdiv 1000), I (snd pv ! i sdiv 1000)]])
       [0 ..< NPERCENT])"

definition histogram_line :: "hist_row \<Rightarrow> outline list" where
  "histogram_line r =
     (case row_cols r of
        [(rc, rpct), (wc, wpct), (fc, fpct), (pc, pfpct)] \<Rightarrow>
          [Printf ''%7d,    %8lld,   %11.9f,'' [I (row_latency r), U rc, D rpct],
           Printf ''   %8lld,    %11.9f,'' [U wc, D wpct],
           Printf ''   %8lld,    %11.9f,'' [U fc, D fpct],
           Printf (''   %8lld,    %11.9f,'' @ nl) [U pc, D pfpct]]
      | _ \<Rightarrow> [])"

definition file_columns :: "fthread \<Rightarrow> (nat \<Rightarrow> u64) list" where
  "file_columns f = map (bucket_column f) [READ, WRITE, FLUSH, POSTFLUSH]"

definition file_totals :: "fthread \<Rightarrow> u64 list" where
  "file_totals f = [f_totreads f, f_totwrites f, f_totflushes f, f_totpflushes f]"

definition printbuckets :: "fthread \<Rightarrow> pctvals \<Rightarrow> (outline list \<times> fthread \<times> pctvals) res" where
  "printbuckets f0 pv =
     (let totio = one_if_zero (f_totreads f0 + f_totwrites f0);
          f = nonzero_totals f0;
          pv' = file_percentiles f pv
      in bind_res (hist_rows (file_columns f) (file_totals f) (uint LATDIV) NLATBKTS 0 0 0 [0, 0, 0, 0]) (\<lambda>rows.
           Inr (average_lines totio f @ percentile_lines f pv'
             @ [Printf nl [],
                Printf (''       ,        Read,       Read,         Write,        Write,         Flush,        Flush,        PFlush,       PFlush,'' @ nl) [],
                Printf (''Latency,       Count,        Pct,         Count,         Pct,          Count,         Pct,          Count,         Pct,'' @ nl) []]
             @ concat (map histogram_line rows), f, pv')))"

definition latency_section :: "fthread \<Rightarrow> outline list \<times> fthread list \<times> pctvals \<Rightarrow> (outline list \<times> fthread list \<times> pctvals) res" where
  "latency_section f = (\<lambda>(out, fs, pv).
     bind_res (printbuckets f pv) (\<lambda>(ls, f', pv').
       Inr (out @ [printname f, Printf (nl @ nl) []] @ ls @ [Printf (nl @ nl) []], fs @ [f'], pv')))"

definition output_latency ::
    "libstate \<Rightarrow> (string \<Rightarrow> bool) \<Rightarrow> string \<Rightarrow> fthread list \<Rightarrow> fthread \<Rightarrow> pctvals \<Rightarrow> (report \<times> fthread list \<times> pctvals) res" where
  "output_latency lib can_open prefix flist sys pv =
     bind_res (fopen_report lib can_open ''Can't create latency file '' (prefix @ ''_latency.csv'')) (\<lambda>name.
     bind_res (loop_res latency_section ((if tl flist \<noteq> [] then [sys] else []) @ flist) ([], [], pv)) (\<lambda>(out, fs, pv').
       Inr (\<lparr>rp_name = name, rp_lines = out\<rparr>, fs, pv')))"

section \<open>The whole output\<close>

record reports =
  results_file :: report
  latency_file :: report
  details_file :: report
  details_rows :: "detail_row list"
  seconds_file :: report

definition fill_output ::
    "libstate \<Rightarrow> (string \<Rightarrow> bool) \<Rightarrow> string \<Rightarrow> u64 \<Rightarrow> u64 \<Rightarrow> rusage \<Rightarrow> rusage \<Rightarrow> fthread list \<Rightarrow> dtable \<Rightarrow> reports res" where
  "fill_output lib can_open prefix start stop br er flist dt =
     (if flist = [] then Inl OutOfBounds
      else let (fs, sys) = sum_files flist empty_systot in
      bind_res (output_times lib can_open prefix start stop br er fs sys) (\<lambda>results.
      bind_res (output_latency lib can_open prefix fs sys zero_pctvals) (\<lambda>(latency, _, _).
      bind_res (output_details lib can_open prefix fs dt) (\<lambda>(dets, rows).
      bind_res (output_seconds lib can_open prefix fs) (\<lambda>secs.
        Inr \<lparr>results_file = results, latency_file = latency, details_file = dets, details_rows = rows,
             seconds_file = secs\<rparr>)))))"

section \<open>The totals agree with the buckets\<close>

lemma count_thread_simps [simp]:
  "totreads (count_thread t) = totreads t + cum_count (\<lambda>i. latbuckets t i (nat READ)) NLATBKTS"
  "totwrites (count_thread t) = totwrites t + cum_count (\<lambda>i. latbuckets t i (nat WRITE)) NLATBKTS"
  "latbuckets (count_thread t) = latbuckets t"
  "nseconds (count_thread t) = nseconds t"
proof -
  have "totreads (fold (\<lambda>i t. t\<lparr>totreads := totreads t + latbuckets t i (nat READ),
       totwrites := totwrites t + latbuckets t i (nat WRITE),
       totflushes := totflushes t + latbuckets t i (nat FLUSH),
       totpflushes := totpflushes t + latbuckets t i (nat POSTFLUSH)\<rparr>) [0 ..< n] t)
      = totreads t + cum_count (\<lambda>i. latbuckets t i (nat READ)) n
    \<and> totwrites (fold (\<lambda>i t. t\<lparr>totreads := totreads t + latbuckets t i (nat READ),
       totwrites := totwrites t + latbuckets t i (nat WRITE),
       totflushes := totflushes t + latbuckets t i (nat FLUSH),
       totpflushes := totpflushes t + latbuckets t i (nat POSTFLUSH)\<rparr>) [0 ..< n] t)
      = totwrites t + cum_count (\<lambda>i. latbuckets t i (nat WRITE)) n
    \<and> latbuckets (fold (\<lambda>i t. t\<lparr>totreads := totreads t + latbuckets t i (nat READ),
       totwrites := totwrites t + latbuckets t i (nat WRITE),
       totflushes := totflushes t + latbuckets t i (nat FLUSH),
       totpflushes := totpflushes t + latbuckets t i (nat POSTFLUSH)\<rparr>) [0 ..< n] t) = latbuckets t
    \<and> nseconds (fold (\<lambda>i t. t\<lparr>totreads := totreads t + latbuckets t i (nat READ),
       totwrites := totwrites t + latbuckets t i (nat WRITE),
       totflushes := totflushes t + latbuckets t i (nat FLUSH),
       totpflushes := totpflushes t + latbuckets t i (nat POSTFLUSH)\<rparr>) [0 ..< n] t) = nseconds t" for n
    by (induction n) simp_all
  from this [of NLATBKTS]
  show "totreads (count_thread t) = totreads t + cum_count (\<lambda>i. latbuckets t i (nat READ)) NLATBKTS"
    "totwrites (count_thread t) = totwrites t + cum_count (\<lambda>i. latbuckets t i (nat WRITE)) NLATBKTS"
    "latbuckets (count_thread t) = latbuckets t" "nseconds (count_thread t) = nseconds t"
    by (simp_all only: count_thread_def)
qed

lemma add_thread_simps [simp]:
  "f_totreads (add_thread t f) = f_totreads f + totreads t"
  "f_totwrites (add_thread t f) = f_totwrites f + totwrites t"
  "f_latbuckets (add_thread t f) = add_buckets (f_latbuckets f) (latbuckets t)"
  "ithreads (add_thread t f) = ithreads f"
  by (simp_all add: add_thread_def)

lemma add_threads_simps [simp]:
  "f_totreads (fold add_thread ths f) = f_totreads f + (\<Sum>t \<leftarrow> ths. totreads t)"
  "f_totwrites (fold add_thread ths f) = f_totwrites f + (\<Sum>t \<leftarrow> ths. totwrites t)"
  "ithreads (fold add_thread ths f) = ithreads f"
  by (induction ths arbitrary: f) (simp_all add: algebra_simps)

lemma add_threads_buckets:
  "f_latbuckets (fold add_thread ths f) i j =
     (if i < NLATBKTS \<and> j < N_OPTYPES then f_latbuckets f i j + (\<Sum>t \<leftarrow> ths. latbuckets t i j)
      else f_latbuckets f i j)"
  by (induction ths arbitrary: f) (auto simp: add_buckets_def add_types_def algebra_simps)

text \<open>A file nothing has been added to yet, and whose threads have not been counted.\<close>

definition fresh_file :: "fthread \<Rightarrow> bool" where
  "fresh_file f \<longleftrightarrow> f_totreads f = 0 \<and> f_totwrites f = 0 \<and> f_totflushes f = 0 \<and> f_totpflushes f = 0
     \<and> f_latbuckets f = (\<lambda>_ _. 0) \<and> (\<forall>t \<in> set (ithreads f). totreads t = 0 \<and> totwrites t = 0)"

text \<open>The I/Os of one type of all threads together fit 64 bits.\<close>

definition ios_fit :: "int \<Rightarrow> fthread \<Rightarrow> bool" where
  "ios_fit ty f \<longleftrightarrow> counts_fit (\<lambda>i. \<Sum>t \<leftarrow> ithreads f. latbuckets t i (nat ty)) NLATBKTS"

lemma column_buckets:
  assumes "fresh_file f" "ty = READ \<or> ty = WRITE" "i < NLATBKTS"
  shows "bucket_column (file_total f) ty i = (\<Sum>t \<leftarrow> ithreads f. latbuckets t i (nat ty))"
  using assms by (auto simp: bucket_column_def file_total_def Let_def add_threads_buckets fresh_file_def comp_def)

lemma flush_column:
  assumes "fresh_file f" "ty = FLUSH \<or> ty = POSTFLUSH"
  shows "bucket_column (file_total f) ty i = 0"
  using assms by (auto simp: bucket_column_def file_total_def Let_def add_threads_buckets fresh_file_def)

lemma column_fit:
  assumes "fresh_file f" "ios_fit ty f" "ty = READ \<or> ty = WRITE"
  shows "counts_fit (bucket_column (file_total f) ty) 100000"
  using assms(2) column_buckets [OF assms(1,3)] by (simp add: ios_fit_def counts_fit_def)

lemma column_count:
  assumes "fresh_file f" "ty = READ \<or> ty = WRITE"
  shows "cum_count (bucket_column (file_total f) ty) 100000
    = (\<Sum>t \<leftarrow> ithreads f. cum_count (\<lambda>i. latbuckets t i (nat ty)) NLATBKTS)"
  unfolding cum_count_sum NLATBKTS_def
  using column_buckets [OF assms] by (intro cum_count_cong) simp

lemma total_reads:
  assumes "fresh_file f"
  shows "f_totreads (file_total f) = cum_count (bucket_column (file_total f) READ) 100000"
proof -
  have "map (\<lambda>t. totreads (count_thread t)) (ithreads f)
      = map (\<lambda>t. cum_count (\<lambda>i. latbuckets t i (nat READ)) NLATBKTS) (ithreads f)"
    using assms by (intro map_cong) (auto simp: fresh_file_def)
  moreover have "f_totreads (file_total f) = (\<Sum>t \<leftarrow> ithreads f. totreads (count_thread t))"
    using assms by (simp add: file_total_def Let_def fresh_file_def comp_def del: count_thread_simps)
  ultimately show ?thesis using column_count [OF assms, of READ] by (simp only: simp_thms)
qed

lemma total_writes:
  assumes "fresh_file f"
  shows "f_totwrites (file_total f) = cum_count (bucket_column (file_total f) WRITE) 100000"
proof -
  have "map (\<lambda>t. totwrites (count_thread t)) (ithreads f)
      = map (\<lambda>t. cum_count (\<lambda>i. latbuckets t i (nat WRITE)) NLATBKTS) (ithreads f)"
    using assms by (intro map_cong) (auto simp: fresh_file_def)
  moreover have "f_totwrites (file_total f) = (\<Sum>t \<leftarrow> ithreads f. totwrites (count_thread t))"
    using assms by (simp add: file_total_def Let_def fresh_file_def comp_def del: count_thread_simps)
  ultimately show ?thesis using column_count [OF assms, of WRITE] by (simp only: simp_thms)
qed

interpretation reads: bucket_totals "\<lambda>f. bucket_column (file_total f) READ" "\<lambda>f. f_totreads (file_total f)"
    "\<lambda>f. fresh_file f \<and> ios_fit READ f"
  by unfold_locales (simp_all add: column_fit total_reads del: READ_def)

interpretation writes: bucket_totals "\<lambda>f. bucket_column (file_total f) WRITE" "\<lambda>f. f_totwrites (file_total f)"
    "\<lambda>f. fresh_file f \<and> ios_fit WRITE f"
  by unfold_locales (simp_all add: column_fit total_writes del: WRITE_def)

section \<open>Reports\<close>

lemma printbuckets_eq:
  "printbuckets f0 pv =
     (let f = nonzero_totals f0; pv' = file_percentiles f pv; ls = hist_lines (file_columns f) (file_totals f)
      in Inr (average_lines (one_if_zero (f_totreads f0 + f_totwrites f0)) f @ percentile_lines f pv'
        @ [Printf nl [],
           Printf (''       ,        Read,       Read,         Write,        Write,         Flush,        Flush,        PFlush,       PFlush,'' @ nl) [],
           Printf (''Latency,       Count,        Pct,         Count,         Pct,          Count,         Pct,          Count,         Pct,'' @ nl) []]
        @ concat (map histogram_line ls), f, pv'))"
proof -
  have "hist_rows (file_columns f) (file_totals f) (uint LATDIV) NLATBKTS 0 0 0 [0, 0, 0, 0]
      = Inr (hist_lines (file_columns f) (file_totals f))" for f
  proof -
    have "replicate (length (file_columns f)) 0 = [0, 0, 0, 0 :: u64]"
      by (simp add: file_columns_def numeral_eq_Suc)
    moreover have "uint LATDIV = 10000" by simp
    ultimately show ?thesis
      using hist_rows_eq [of "file_columns f" "file_totals f"] by (simp only: NLATBKTS_def)
  qed
  then show ?thesis by (simp only: printbuckets_def Let_def bind_res_simps)
qed

lemma LATDIV_int: "uint LATDIV = 10000" by simp

text \<open>
  Property C21. The percentiles a file's report shows, for reads and for writes, are percentiles of the file's own I/Os of that kind when
  there were any: each is the upper edge of the first ten-microsecond bucket at which the I/Os counted so far suffice, by the
  thresholds computed from the file's total. For a kind of which there were none, the value is the one an earlier file
  left in the shared array. (A run of \<open>iofill\<close> only writes: its reads are always of the second sort.)
\<close>

theorem percentiles_from_buckets:
  assumes "fresh_file f" and "ios_fit READ f" and "ios_fit WRITE f"
    and "j < NPERCENT" and "length (fst pv) = NPERCENT" and "length (snd pv) = NPERCENT"
  shows "\<exists>ls f' pv'. printbuckets (file_total f) pv = Inr (ls, f', pv')
    \<and> pctval_of (f_totreads (file_total f)) (bucket_column (file_total f) READ) j (fst pv ! j) (fst pv' ! j)
    \<and> pctval_of (f_totwrites (file_total f)) (bucket_column (file_total f) WRITE) j (snd pv ! j) (snd pv' ! j)"
proof -
  let ?f = "nonzero_totals (file_total f)"
  have t: "f_totreads ?f = one_if_zero (f_totreads (file_total f))" "f_totwrites ?f = one_if_zero (f_totwrites (file_total f))"
    "bucket_column ?f ty = bucket_column (file_total f) ty" for ty
    by (simp_all add: nonzero_totals_def bucket_column_def)
  have "pctval_of (f_totreads (file_total f)) (bucket_column (file_total f) READ) j (fst pv ! j) (fst (file_percentiles ?f pv) ! j)"
    using reads.percentile_value [of f j "fst pv", OF _ assms(4,5) refl] assms(1,2)
    by (simp only: file_percentiles_def fst_conv t one_if_zero_def LATDIV_int NLATBKTS_def)
  moreover have "pctval_of (f_totwrites (file_total f)) (bucket_column (file_total f) WRITE) j (snd pv ! j) (snd (file_percentiles ?f pv) ! j)"
    using writes.percentile_value [of f j "snd pv", OF _ assms(4,6) refl] assms(1,3)
    by (simp only: file_percentiles_def snd_conv t one_if_zero_def LATDIV_int NLATBKTS_def)
  ultimately show ?thesis unfolding printbuckets_eq Let_def by blast
qed

text \<open>A file of one thread that has counted twelve I/Os of a type, all in bucket seven.\<close>

definition demo_counted :: "int \<Rightarrow> fthread" where
  "demo_counted ty = zero_fthread\<lparr>filename := ''/dev/sdb'', ithreads :=
     [zero_iothread\<lparr>latbuckets := (\<lambda>i j. if i = 7 \<and> j = nat ty then 12 else 0)\<rparr>]\<rparr>"

lemma demo_counted_ok: "fresh_file (demo_counted ty)" "ios_fit ty' (demo_counted ty)"
proof -
  show "fresh_file (demo_counted ty)"
    by (simp add: fresh_file_def demo_counted_def zero_fthread_def zero_iothread_def)
  let ?u = "\<lambda>i. if i = 7 then (if nat ty' = nat ty then 12 else 0) else (0 :: nat)"
  have "unat (\<Sum>t \<leftarrow> ithreads (demo_counted ty). latbuckets t i (nat ty')) = ?u i" for i
    by (simp add: demo_counted_def)
  then have "(\<Sum>k < NLATBKTS. unat (\<Sum>t \<leftarrow> ithreads (demo_counted ty). latbuckets t k (nat ty')))
      = (\<Sum>k < NLATBKTS. ?u k)" by (simp only:)
  also have "\<dots> \<le> 12" by (simp only: sum.delta finite_lessThan lessThan_iff) simp
  finally show "ios_fit ty' (demo_counted ty)" by (simp add: ios_fit_def counts_fit_def)
qed

lemma demo_counted_reads:
  "f_totreads (file_total (demo_counted READ)) = 12" "f_totreads (file_total (demo_counted WRITE)) = 0"
proof -
  have c: "cum_count (\<lambda>i. if i = 7 then w else 0) n = (if 7 < n then w else 0)" for w n
    by (induction n) auto
  have "f_totreads (file_total (demo_counted ty))
      = cum_count (\<lambda>i. if i = 7 then if 0 = nat ty then 12 else 0 else 0) 100000" for ty
    unfolding total_reads [OF demo_counted_ok(1)] column_count [OF demo_counted_ok(1) disjI1 [OF refl]]
    by (simp add: demo_counted_def)
  then show "f_totreads (file_total (demo_counted READ)) = 12" "f_totreads (file_total (demo_counted WRITE)) = 0"
    unfolding c by simp_all
qed

lemma demo_counted_writes: "f_totwrites (file_total (demo_counted WRITE)) = 12"
proof -
  have c: "cum_count (\<lambda>i. if i = 7 then w else 0) n = (if 7 < n then w else 0)" for w n
    by (induction n) auto
  show ?thesis unfolding total_writes [OF demo_counted_ok(1)] column_count [OF demo_counted_ok(1) disjI2 [OF refl]]
    by (simp add: demo_counted_def c)
qed

theorem percentiles_from_buckets_witness:
  "\<exists>ls f' pv'. printbuckets (file_total (demo_counted WRITE)) ([80000, 80000, 80000, 80000, 80000], replicate 5 0) = Inr (ls, f', pv')
    \<and> fst pv' ! 1 = 80000
    \<and> (\<exists>i < 100000. snd pv' ! 1 = (int i + 1) * 10000 \<and> met 12 (bucket_column (file_total (demo_counted WRITE)) WRITE) 1 i)"
proof -
  have "1 < NPERCENT" "length (fst ([80000, 80000, 80000, 80000, 80000], replicate 5 (0 :: int))) = NPERCENT"
    "length (snd ([80000 :: int, 80000, 80000, 80000, 80000], replicate 5 (0 :: int))) = NPERCENT" by simp_all
  from percentiles_from_buckets [OF demo_counted_ok(1) [of WRITE] demo_counted_ok(2) [of READ WRITE] demo_counted_ok(2) [of WRITE WRITE] this]
  show ?thesis unfolding pctval_of_def demo_counted_reads(2) demo_counted_writes by (auto simp del: READ_def WRITE_def)
qed

text \<open>
  For a file on which nothing was read, the percentiles reported for reads are the ones reported for the file before
  it: \<open>pctval\<close> is never cleared, and a total of zero is replaced by one that no bucket can reach.
\<close>

theorem percentiles_stale:
  assumes "fresh_file f" and "ios_fit READ f" and "f_totreads (file_total f) = 0"
    and "j < NPERCENT" and "length (fst pv) = NPERCENT"
  shows "\<exists>ls f' pv'. printbuckets (file_total f) pv = Inr (ls, f', pv') \<and> fst pv' ! j = fst pv ! j"
proof -
  let ?f = "nonzero_totals (file_total f)"
  have t: "f_totreads ?f = 1" "bucket_column ?f READ = bucket_column (file_total f) READ"
    using assms(3) by (simp_all add: nonzero_totals_def one_if_zero_def bucket_column_def)
  have "fst (file_percentiles ?f pv) ! j = fst pv ! j"
    unfolding file_percentiles_def fst_conv t using reads.no_ios_stale [of f j "fst pv" 10000] assms by simp
  then show ?thesis unfolding printbuckets_eq Let_def by blast
qed

theorem percentiles_stale_witness:
  "\<exists>ls f' pv'. printbuckets (file_total (demo_counted WRITE)) ([80000, 80000, 80000, 80000, 80000], replicate 5 0)
      = Inr (ls, f', pv') \<and> fst pv' ! 1 = 80000"
  using percentiles_stale [of "demo_counted WRITE" 1 "([80000, 80000, 80000, 80000, 80000], replicate 5 0)"]
    demo_counted_ok(1) [of WRITE] demo_counted_ok(2) [of READ WRITE] demo_counted_reads(2) by simp

text \<open>
  Property C22. The histogram of a file always has 299 lines, which cover all buckets: the counts of its read and write columns add
  up to the file's reads and writes. The flush columns, however, are zero in every line, whatever was flushed:
  \<open>output\<close> adds up the buckets of reads and writes only.
\<close>

theorem histogram_complete:
  assumes "fresh_file f"
  shows "\<exists>rows. hist_rows (file_columns (nonzero_totals (file_total f))) (file_totals (nonzero_totals (file_total f)))
        (uint LATDIV) NLATBKTS 0 0 0 [0, 0, 0, 0] = Inr rows
    \<and> length rows = 299
    \<and> (\<Sum>r \<leftarrow> rows. map fst (row_cols r) ! 0) = f_totreads (file_total f)
    \<and> (\<Sum>r \<leftarrow> rows. map fst (row_cols r) ! 1) = f_totwrites (file_total f)
    \<and> list_all (\<lambda>r. map fst (row_cols r) ! 2 = 0 \<and> map fst (row_cols r) ! 3 = 0) rows"
proof -
  let ?f = "nonzero_totals (file_total f)"
  let ?cols = "file_columns ?f" and ?tots = "file_totals ?f"
  have len: "length ?tots = length ?cols" by (simp add: file_columns_def file_totals_def)
  have c: "?cols ! 0 = bucket_column (file_total f) READ" "?cols ! 1 = bucket_column (file_total f) WRITE"
    "?cols ! 2 = bucket_column (file_total f) FLUSH" "?cols ! 3 = bucket_column (file_total f) POSTFLUSH"
    "length ?cols = 4"
    by (simp_all add: file_columns_def bucket_column_def nonzero_totals_def del: READ_def WRITE_def)
  have z: "replicate (length ?cols) 0 = [0, 0, 0, 0 :: u64]"
    unfolding c(5) by (simp add: numeral_eq_Suc)
  have l: "uint LATDIV = 10000" by simp
  have rows: "hist_rows ?cols ?tots (uint LATDIV) NLATBKTS 0 0 0 [0, 0, 0, 0] = Inr (hist_lines ?cols ?tots)"
    using hist_rows_eq [of ?cols ?tots] unfolding z l NLATBKTS_def .
  have zero: "group_sum (bucket_column (file_total f) ty) i n = 0" if "ty = FLUSH \<or> ty = POSTFLUSH" for ty i n
    using flush_column [OF assms that] by (simp add: group_sum_def)
  have fl: "map fst (row_cols (row_of ?cols ?tots i n)) ! k = 0" if "k = 2 \<or> k = 3" for i n k
    using that c zero by (auto simp: row_of_counts [OF len])
  then have "list_all (\<lambda>r. map fst (row_cols r) ! 2 = 0 \<and> map fst (row_cols r) ! 3 = 0) (hist_lines ?cols ?tots)"
    by (simp only: hist_lines_def narrow_rows_def wide_rows_def list_all_append list.pred_map comp_def)
      (simp add: list_all_iff)
  moreover have "(\<Sum>r \<leftarrow> hist_lines ?cols ?tots. map fst (row_cols r) ! 0) = f_totreads (file_total f)"
    using column_sum [OF len, of 0] total_reads [OF assms] unfolding c by simp
  moreover have "(\<Sum>r \<leftarrow> hist_lines ?cols ?tots. map fst (row_cols r) ! 1) = f_totwrites (file_total f)"
    using column_sum [OF len, of 1] total_writes [OF assms] unfolding c by simp
  ultimately show ?thesis using rows hist_lines_length by blast
qed

theorem histogram_complete_witness:
  "\<exists>rows. hist_rows (file_columns (nonzero_totals (file_total (demo_counted READ))))
        (file_totals (nonzero_totals (file_total (demo_counted READ)))) (uint LATDIV) NLATBKTS 0 0 0 [0, 0, 0, 0] = Inr rows
    \<and> length rows = 299 \<and> (\<Sum>r \<leftarrow> rows. map fst (row_cols r) ! 0) = 12"
  using histogram_complete [OF demo_counted_ok(1) [of READ]] unfolding demo_counted_reads(1) by blast

section \<open>The report files\<close>

lemma fold_add_thread_nonempty: "ithreads (file_total f) = map count_thread (ithreads f)"
  by (simp add: file_total_def Let_def)

lemma file_threads_total:
  "\<forall>f \<in> set fs. ithreads f \<noteq> [] \<Longrightarrow> \<exists>out'. loop_res file_threads fs out = Inr out'"
proof (induction fs arbitrary: out)
  case (Cons f fs)
  then have "\<exists>out1. file_threads f out = Inr out1"
    by (auto simp: file_threads_def split: list.splits)
  with Cons show ?case by auto
qed simp

lemma latency_sections_total: "\<exists>r. loop_res latency_section fs acc = Inr r"
proof (induction fs arbitrary: acc)
  case (Cons f fs)
  obtain out gs pv where acc: "acc = (out, gs, pv)" by (cases acc rule: prod_cases3)
  have "\<exists>acc'. latency_section f acc = Inr acc'"
    by (simp add: acc latency_section_def printbuckets_eq Let_def)
  with Cons show ?case by auto
qed (metis loop_res.simps(1))

lemma sum_files_threads: "map ithreads (fst (sum_files fs sys)) = map (map count_thread \<circ> ithreads) fs"
proof (induction fs arbitrary: sys)
  case (Cons f fs)
  show ?case using Cons.IH [of "fold add_thread (map count_thread (ithreads f)) sys"]
    by (simp add: sum_file_def fold_add_thread_nonempty split_beta)
qed simp

lemma max_seconds_bound:
  assumes "\<forall>f \<in> set fs. \<forall>t \<in> set (ithreads f). nseconds t < NSEC"
  shows "max_seconds fs < NSEC"
proof -
  have inner: "fold (\<lambda>t m. if m < nseconds t then nseconds t else m) ts m < NSEC"
    if "\<forall>t \<in> set ts. nseconds t < NSEC" "m < NSEC" for ts :: "iothread list" and m
    using that by (induction ts arbitrary: m) auto
  have "fold (\<lambda>f m. fold (\<lambda>t m. if m < nseconds t then nseconds t else m) (ithreads f) m) fs m < NSEC"
    if "m < NSEC" for m
    using assms that by (induction fs arbitrary: m) (simp_all add: inner [simplified])
  then show ?thesis by (simp add: max_seconds_def)
qed

definition report_names :: "string \<Rightarrow> string list" where
  "report_names prefix = map (\<lambda>x. snprintf256 (prefix @ x)) [''_results.csv'', ''_latency.csv'', ''_details.csv'', ''_seconds.csv'']"



end
