(* ===== verification/FillTest.thy ===== *)
theory FillTest
  imports Gate FillStart FillOutput
begin

text \<open>
  \<open>iofill\<close>'s test as a whole: \<open>runtest\<close>, a \<open>file_thread\<close> for every file and the \<open>io_thread\<close>s of all files, in any
  interleaving. The loops of the I/O threads are those of \<open>FillRun\<close>; here they are started and awaited through the two
  layers of start gates. What the files share, the clock, the generator, the device and the detail table, is one state.
\<close>

section \<open>The places of the threads\<close>

datatype mplace =
    MCreate nat
  | MGather nat
  | MStart                       \<comment> \<open>before \<open>getrusage\<close> and the first reading of the clock\<close>
  | MRelease nat u64 rusage
  | MCollect nat u64 rusage
  | MOutput u64 rusage
  | MDone

datatype fplace =
    FNew
  | FCreate nat
  | FGather nat
  | FMeet                        \<comment> \<open>before the first post of \<open>stop\<close>\<close>
  | FWait
  | FBegin                       \<comment> \<open>before \<open>starttime\<close> is taken\<close>
  | FRelease nat
  | FCollect nat
  | FLeave                       \<comment> \<open>before \<open>stoptime\<close> is taken and \<open>stop\<close> is posted again\<close>
  | FGone

datatype iplace =
    INew
  | IPrologue                    \<comment> \<open>before the post of \<open>stop\<close>\<close>
  | IReady
  | IBegin                       \<comment> \<open>before \<open>starttime\<close> is taken\<close>
  | ILoop                        \<comment> \<open>in the loop, at the place \<open>FillRun\<close> keeps for it\<close>

record fview =
  v_file :: fthread
  v_ths :: "iothread list"
  v_locs :: "iolocals list"
  v_pcs :: "pc list"
  v_in :: "iplace list"
  v_at :: fplace

record isys =
  i_g :: gstate                  \<comment> \<open>its \<open>pthread\<close> is that of the file that stepped last\<close>
  i_files :: "fview list"
  i_main :: mplace
  i_out :: "reports option"

text \<open>The threads of the program.\<close>

datatype iactor = AMain | AFile nat | AIo nat nat

record fill_env =
  fe_create :: "iactor \<Rightarrow> int"   \<comment> \<open>what \<open>pthread_create\<close> returns for a thread\<close>
  fe_prefix :: string
  fe_can_open :: "string \<Rightarrow> bool"
  fe_ru :: "nat \<Rightarrow> rusage"       \<comment> \<open>\<open>getrusage\<close>, by the number of clock readings so far\<close>

text \<open>The system can create every thread; when it cannot, \<open>iob_thr_create\<close> ends the program.\<close>

definition can_create :: "fill_env \<Rightarrow> bool" where
  "can_create env \<longleftrightarrow> (\<forall>a. fe_create env a = 0)"

section \<open>The steps\<close>

definition file_g :: "nat \<Rightarrow> isys \<Rightarrow> gstate" where
  "file_g k s = (i_g s)\<lparr>pthread := v_file (i_files s ! k)\<rparr>"

definition put_file :: "nat \<Rightarrow> fview \<Rightarrow> gstate \<Rightarrow> isys \<Rightarrow> isys" where
  "put_file k v g s = s\<lparr>i_g := g, i_files := (i_files s)[k := v\<lparr>v_file := pthread g\<rparr>]\<rparr>"

definition post_stop_of :: "iothread \<Rightarrow> iothread" where
  "post_stop_of tp = tp\<lparr>th_stop := th_stop tp + 1\<rparr>"

definition io_step :: "nat \<Rightarrow> nat \<Rightarrow> nat \<Rightarrow> isys \<Rightarrow> isys res" where
  "io_step fuel k j s =
     (let v = i_files s ! k; tp = v_ths v ! j in
      case v_in v ! j of
        INew \<Rightarrow> Inl Blocked
      | IPrologue \<Rightarrow> bind_res (io_prologue tp (file_g k s)) (\<lambda>(tp1, g).
          Inr (put_file k (v\<lparr>v_ths := (v_ths v)[j := post_stop_of tp1], v_in := (v_in v)[j := IReady]\<rparr>) g s))
      | IReady \<Rightarrow> bind_res (sem_wait (th_start tp)) (\<lambda>a.
          Inr (put_file k (v\<lparr>v_ths := (v_ths v)[j := tp\<lparr>th_start := a\<rparr>], v_in := (v_in v)[j := IBegin]\<rparr>) (file_g k s) s))
      | IBegin \<Rightarrow> (let ((tp1, l), g) = io_begin tp (file_g k s) in
          Inr (put_file k (v\<lparr>v_ths := (v_ths v)[j := tp1], v_locs := (v_locs v)[j := l], v_pcs := (v_pcs v)[j := Top],
                 v_in := (v_in v)[j := ILoop]\<rparr>) g s))
      | ILoop \<Rightarrow> bind_res (thread_step fuel j
            \<lparr>sys_g = file_g k s, sys_ths = v_ths v, sys_locs = v_locs v, sys_pcs = v_pcs v\<rparr>) (\<lambda>t.
          Inr (put_file k (v\<lparr>v_ths := sys_ths t, v_locs := sys_locs t, v_pcs := sys_pcs t\<rparr>) (sys_g t) s)))"

definition wait_thread :: "nat \<Rightarrow> fplace \<Rightarrow> fview \<Rightarrow> fview res" where
  "wait_thread j next v =
     bind_res (sem_wait (th_stop (v_ths v ! j))) (\<lambda>b.
       Inr (v\<lparr>v_ths := (v_ths v)[j := (v_ths v ! j)\<lparr>th_stop := b\<rparr>], v_at := next\<rparr>))"

definition file_end :: "gstate \<Rightarrow> gstate" where
  "file_end g = (let (now, g1) = tick g; f = pthread g1
     in g1\<lparr>pthread := f\<lparr>f_stoptime := now, f_stop := f_stop f + 1\<rparr>\<rparr>)"

definition file_step :: "fill_env \<Rightarrow> nat \<Rightarrow> isys \<Rightarrow> isys res" where
  "file_step env k s =
     (let v = i_files s ! k; n = length (v_ths v); g = file_g k s; f = v_file v in
      case v_at v of
        FNew \<Rightarrow> Inl Blocked
      | FCreate j \<Rightarrow> if j < n
          then bind_res (iob_thr_create (glib g) (fe_create env (AIo k j))) (\<lambda>_.
            Inr (put_file k (v\<lparr>v_in := (v_in v)[j := IPrologue], v_at := FCreate (j + 1)\<rparr>) g s))
          else Inr (put_file k (v\<lparr>v_at := FGather 0\<rparr>) g s)
      | FGather j \<Rightarrow> if j < n then bind_res (wait_thread j (FGather (j + 1)) v) (\<lambda>v'. Inr (put_file k v' g s))
                    else Inr (put_file k (v\<lparr>v_at := FMeet\<rparr>) g s)
      | FMeet \<Rightarrow> Inr (put_file k (v\<lparr>v_at := FWait\<rparr>) (g\<lparr>pthread := f\<lparr>f_stop := f_stop f + 1\<rparr>\<rparr>) s)
      | FWait \<Rightarrow> bind_res (sem_wait (f_start f)) (\<lambda>a.
          Inr (put_file k (v\<lparr>v_at := FBegin\<rparr>) (g\<lparr>pthread := f\<lparr>f_start := a\<rparr>\<rparr>) s))
      | FBegin \<Rightarrow> (let (f1, e) = file_begin f (genv g)
          in Inr (put_file k (v\<lparr>v_at := FRelease 0\<rparr>) (g\<lparr>genv := e, pthread := f1\<rparr>) s))
      | FRelease j \<Rightarrow> Inr (put_file k (if j < n
            then v\<lparr>v_ths := (v_ths v)[j := (v_ths v ! j)\<lparr>th_start := th_start (v_ths v ! j) + 1\<rparr>], v_at := FRelease (j + 1)\<rparr>
            else v\<lparr>v_at := FCollect 0\<rparr>) g s)
      | FCollect j \<Rightarrow> if j < n then bind_res (wait_thread j (FCollect (j + 1)) v) (\<lambda>v'. Inr (put_file k v' g s))
                     else Inr (put_file k (v\<lparr>v_at := FLeave\<rparr>) g s)
      | FLeave \<Rightarrow> Inr (put_file k (v\<lparr>v_at := FGone\<rparr>) (file_end g) s)
      | FGone \<Rightarrow> Inl Blocked)"

definition set_view :: "nat \<Rightarrow> fview \<Rightarrow> isys \<Rightarrow> isys" where
  "set_view k v s = s\<lparr>i_files := (i_files s)[k := v]\<rparr>"

definition wait_file :: "nat \<Rightarrow> mplace \<Rightarrow> isys \<Rightarrow> isys res" where
  "wait_file k next s =
     (let v = i_files s ! k; f = v_file v in
      bind_res (sem_wait (f_stop f)) (\<lambda>b. Inr ((set_view k (v\<lparr>v_file := f\<lparr>f_stop := b\<rparr>\<rparr>) s)\<lparr>i_main := next\<rparr>)))"

text \<open>The structures of the files as \<open>output\<close> finds them.\<close>

definition final_files :: "isys \<Rightarrow> fthread list" where
  "final_files s = map (\<lambda>v. (v_file v)\<lparr>ithreads := v_ths v\<rparr>) (i_files s)"

definition runtest_step :: "fill_env \<Rightarrow> isys \<Rightarrow> isys res" where
  "runtest_step env s =
     (let n = length (i_files s) in
      case i_main s of
        MCreate k \<Rightarrow> if k < n
          then bind_res (iob_thr_create (glib (i_g s)) (fe_create env (AFile k))) (\<lambda>_.
            Inr ((set_view k ((i_files s ! k)\<lparr>v_at := FCreate 0\<rparr>) s)\<lparr>i_main := MCreate (k + 1)\<rparr>))
          else Inr (s\<lparr>i_main := MGather 0\<rparr>)
      | MGather k \<Rightarrow> if k < n then wait_file k (MGather (k + 1)) s else Inr (s\<lparr>i_main := MStart\<rparr>)
      | MStart \<Rightarrow> (let before = fe_ru env (ticks (genv (i_g s))); (start, g) = tick (i_g s)
          in Inr (s\<lparr>i_g := g, i_main := MRelease 0 start before\<rparr>))
      | MRelease k start before \<Rightarrow>
          Inr (if k < n
               then (let v = i_files s ! k; f = v_file v
                 in (set_view k (v\<lparr>v_file := f\<lparr>f_start := f_start f + 1\<rparr>\<rparr>) s)\<lparr>i_main := MRelease (k + 1) start before\<rparr>)
               else s\<lparr>i_main := MCollect 0 start before\<rparr>)
      | MCollect k start before \<Rightarrow> if k < n then wait_file k (MCollect (k + 1) start before) s
                                  else Inr (s\<lparr>i_main := MOutput start before\<rparr>)
      | MOutput start before \<Rightarrow>
          (let (stop, g) = tick (i_g s)
           in bind_res (fill_output (glib g) (fe_can_open env) (fe_prefix env) start stop before
                 (fe_ru env (ticks (genv g))) (final_files s) (gdt g)) (\<lambda>r.
              Inr (s\<lparr>i_g := g, i_main := MDone, i_out := Some r\<rparr>)))
      | MDone \<Rightarrow> Inl (Exited 0 []))"

definition istep :: "fill_env \<Rightarrow> nat \<Rightarrow> iactor \<Rightarrow> isys \<Rightarrow> isys res" where
  "istep env fuel a s =
     (case a of
        AMain \<Rightarrow> runtest_step env s
      | AFile k \<Rightarrow> if k < length (i_files s) then file_step env k s else Inl Blocked
      | AIo k j \<Rightarrow> if k < length (i_files s) \<and> j < length (v_ths (i_files s ! k)) then io_step fuel k j s else Inl Blocked)"

definition imove :: "fill_env \<Rightarrow> nat \<Rightarrow> isys \<Rightarrow> isys \<Rightarrow> bool" where
  "imove env fuel s s' \<longleftrightarrow> (\<exists>a. istep env fuel a s = Inr s')"

text \<open>The local variables of a thread that has not reached its loop: placeholders, which \<open>io_begin\<close> replaces.\<close>

definition no_locals :: "iothread \<Rightarrow> iolocals" where
  "no_locals tp = \<lparr>l_next = 0, l_nextflush = 0, l_injbno = 0, l_ionum = 0, l_cursize = iosize (params tp), l_altcount = 0\<rparr>"

definition new_view :: "fthread \<Rightarrow> fview" where
  "new_view f = (let ts = ithreads f in
     \<lparr>v_file = f, v_ths = ts, v_locs = map no_locals ts, v_pcs = map (\<lambda>_. Top) ts, v_in = map (\<lambda>_. INew) ts, v_at = FNew\<rparr>)"

definition start_test :: "gstate \<Rightarrow> fthread list \<Rightarrow> isys" where
  "start_test g flist = \<lparr>i_g = g, i_files = map new_view flist, i_main = MCreate 0, i_out = None\<rparr>"

section \<open>The loop leaves the gates alone\<close>

text \<open>The semaphores of the two gates, and the number of the requests so far.\<close>

definition sems :: "iothread \<Rightarrow> nat \<times> nat" where
  "sems tp = (th_start tp, th_stop tp)"

definition fsems :: "gstate \<Rightarrow> nat \<times> nat" where
  "fsems g = (f_start (pthread g), f_stop (pthread g))"

lemma sems_simps [simp]:
  "sems (tp\<lparr>iorp := r\<rparr>) = sems tp" "sems (tp\<lparr>params := p\<rparr>) = sems tp" "sems (tp\<lparr>nextsec := n\<rparr>) = sems tp"
  "sems (tp\<lparr>nseconds := m\<rparr>) = sems tp" "sems (tp\<lparr>latbuckets := h\<rparr>) = sems tp" "sems (tp\<lparr>totlat := q\<rparr>) = sems tp"
  "sems (tp\<lparr>totbytes := q\<rparr>) = sems tp" "sems (tp\<lparr>seconds := sc\<rparr>) = sems tp" "sems (tp\<lparr>rec_runlen := i\<rparr>) = sems tp"
  "sems (tp\<lparr>recovered := i\<rparr>) = sems tp" "sems (tp\<lparr>iocount := n\<rparr>) = sems tp" "sems (tp\<lparr>flushnum := i\<rparr>) = sems tp"
  "sems (tp\<lparr>pflushnum := i\<rparr>) = sems tp" "sems (tp\<lparr>writenum := i\<rparr>) = sems tp" "sems (tp\<lparr>cursegoff := us\<rparr>) = sems tp"
  "sems (tp\<lparr>segwrite := is\<rparr>) = sems tp" "sems (tp\<lparr>writebuf := bs\<rparr>) = sems tp" "sems (tp\<lparr>iostop := m\<rparr>) = sems tp"
  "sems (tp\<lparr>iostart := m\<rparr>) = sems tp" "sems (tp\<lparr>nextbno := n\<rparr>) = sems tp" "sems (tp\<lparr>starttime := n\<rparr>) = sems tp"
  "sems (set_detail d tp) = sems tp" "sems (set_request a b c e tp) = sems tp" "sems (set_target n o' z tp) = sems tp"
  by (simp_all add: sems_def set_detail_def set_request_def set_target_def)

lemma fsems_simps [simp]:
  "fsems (g\<lparr>genv := e\<rparr>) = fsems g" "fsems (g\<lparr>gdt := d\<rparr>) = fsems g" "fsems (g\<lparr>gerr := l\<rparr>) = fsems g" "fsems (g\<lparr>gout := l\<rparr>) = fsems g"
  "fsems (set_rng x g) = fsems g" "fsems (snd (tick g)) = fsems g" "fsems (snd (draw64 g)) = fsems g" "fsems (snd (draw_dbl g)) = fsems g"
  "fsems (snd (draw31 g)) = fsems g" "fsems (snd (add_bno k g)) = fsems g" "fsems (raise_iowait g) = fsems g"
  by (simp_all add: fsems_def set_rng_def tick_def draw64_def draw_dbl_def draw31_def add_bno_def raise_iowait_def fetch_and_add_def
      split_beta)

lemma new_second_sems: "new_second t tp g = (tp', g') \<Longrightarrow> sems tp' = sems tp \<and> fsems g' = fsems g"
  by (auto simp: new_second_def split: if_splits)

lemma io_finish_sems: "io_finish tp g = Inr (tp', g') \<Longrightarrow> sems tp' = sems tp \<and> fsems g' = fsems g"
proof -
  assume f: "io_finish tp g = Inr (tp', g')"
  obtain tp1 g1 where n: "new_second (d_start (detail (iorp tp))) tp g = (tp1, g1)" by fastforce
  from f new_second_sems [OF n] show ?thesis
    unfolding io_finish_def n Let_def prod.case
    by (auto simp: bind_res_Inr_iff count_io_def report_io_def recovery_run_def Let_def split: if_splits)
qed

lemma io_start_sems: "io_start buf tp g = Inr (tp', g') \<Longrightarrow> sems tp' = sems tp \<and> fsems g' = fsems g"
proof -
  assume st: "io_start buf tp g = Inr (tp', g')"
  obtain t0 g1 where t0: "tick g = (t0, g1)" by fastforce
  then have g1: "fsems g1 = fsems g" using fsems_simps(6) [of g] by simp
  let ?idp = "(detail (iorp tp))\<lparr>d_start := t0\<rparr>"
  obtain ret en e2 where io: "(if uint (d_type ?idp) = READ then iob_read (fd (iorp tp)) (d_size ?idp) (d_offset ?idp) (genv g1)
      else iob_write (fd (iorp tp)) buf (d_size ?idp) (d_offset ?idp) (genv g1)) = ((ret, en), e2)" by (metis surj_pair)
  obtain t1 g2 where t1: "tick (g1\<lparr>genv := e2\<rparr>) = (t1, g2)" by fastforce
  then have g2: "fsems g2 = fsems g" using fsems_simps(6) [of "g1\<lparr>genv := e2\<rparr>"] g1 by simp
  from st show ?thesis unfolding io_start_def t0 Let_def prod.case io t1 using io_finish_sems g2 by fastforce
qed

lemma flush_once_sems: "flush_once (tp, g) = Inr (tp', g') \<Longrightarrow> sems tp' = sems tp \<and> fsems g' = fsems g"
  unfolding flush_once_def prod.case using io_start_sems by fastforce

lemma flush_reads_sems: "flush_reads n stop tp g = Inr (tp', g') \<Longrightarrow> sems tp' = sems tp \<and> fsems g' = fsems g"
proof (induction n arbitrary: tp g)
  case (Suc n)
  obtain now g1 where t: "tick g = (now, g1)" by fastforce
  obtain r g2 where d: "draw64 g1 = (r, g2)" by fastforce
  have g: "fsems g1 = fsems g" "fsems g2 = fsems g1" using fsems_simps(6) [of g] fsems_simps(7) [of g1] t d by simp_all
  show ?case
  proof (cases "now < stop \<and> recovered tp = 0")
    case True
    with Suc.prems obtain tq tp2 g3 where i: "io_start [] tq g2 = Inr (tp2, g3)" "sems tq = sems tp"
      and r: "flush_reads n stop tp2 g3 = Inr (tp', g')"
      by (auto simp: t d Let_def bind_res_Inr_iff)
    show ?thesis using io_start_sems [OF i(1)] i(2) Suc.IH [OF r] g by simp
  next
    case False
    with Suc.prems g show ?thesis by (auto simp: t)
  qed
qed simp

text \<open>A loop keeps what its body keeps.\<close>

lemma loop_res_keeps:
  assumes "loop_res f xs s = Inr s'" "\<And>x s s'. f x s = Inr s' \<Longrightarrow> h s' = h s"
  shows "h s' = h s"
  using assms(1)
proof (induction xs arbitrary: s)
  case (Cons x xs)
  from Cons.prems obtain s1 where "f x s = Inr s1" "loop_res f xs s1 = Inr s'" by (auto simp: bind_res_Inr_iff)
  with Cons.IH assms(2) show ?case by metis
qed simp

definition gate_view :: "iothread \<times> gstate \<Rightarrow> (nat \<times> nat) \<times> (nat \<times> nat)" where
  "gate_view = (\<lambda>(tp, g). (sems tp, fsems g))"

lemma gate_view_simp [simp]: "gate_view (tp, g) = (sems tp, fsems g)"
  by (simp add: gate_view_def)

lemma do_flush_sems: "do_flush_cache fuel pp (tp, g) = Inr (tp', g') \<Longrightarrow> sems tp' = sems tp \<and> fsems g' = fsems g"
proof -
  assume f: "do_flush_cache fuel pp (tp, g) = Inr (tp', g')"
  have l: "gate_view y = gate_view x" if "flush_once x = Inr y" for x y
    using that flush_once_sems by (cases x; cases y) auto
  from f obtain tp1 g1 where 1: "(if pp AND 0x2 \<noteq> 0 then loop_res (\<lambda>_. flush_once) [0 ..< nat (flushcount (params tp))] (tp, g)
      else Inr (tp, g)) = Inr (tp1, g1)"
    and 2: "(if pp AND 0x4 \<noteq> 0 \<and> (postflushtype (params tp) = PFLUSH_READ \<or> postflushtype (params tp) = PFLUSH_MIXED) then
       let (now, g2) = tick g1
       in flush_reads fuel (now + postflushinterval (params tp)) (tp1\<lparr>recovered := 0, rec_runlen := 0\<rparr>) g2
     else Inr (tp1, g1)) = Inr (tp', g')"
    unfolding do_flush_cache_def Let_def prod.case by (auto simp: bind_res_Inr_iff simp del: fsems_simps)
  have a: "gate_view (tp1, g1) = gate_view (tp, g)"
    using 1 loop_res_keeps [of "\<lambda>_. flush_once" _ "(tp, g)" "(tp1, g1)" gate_view] l by (auto split: if_splits)
  obtain now g2 where t: "tick g1 = (now, g2)" by fastforce
  then have "fsems g2 = fsems g1" using fsems_simps(6) [of g1] by simp
  with 2 a show ?thesis by (auto simp: t dest!: flush_reads_sems split: if_splits)
qed

lemma draw64_sems: "draw64 g = (r, g') \<Longrightarrow> fsems g' = fsems g"
  using fsems_simps(7) [of g] by simp

lemma draw31_sems: "draw31 g = (r, g') \<Longrightarrow> fsems g' = fsems g"
  using fsems_simps(9) [of g] by simp

lemma draw_dbl_sems: "draw_dbl g = (r, g') \<Longrightarrow> fsems g' = fsems g"
  using fsems_simps(8) [of g] by simp

lemma next_segment_sems:
  assumes "next_segment fuel j (tp, g, b) = Inr (tp', g', b')"
  shows "sems tp' = sems tp \<and> fsems g' = fsems g"
proof -
  obtain r g1 where d: "draw64 g = (r, g1)" by fastforce
  from assms show ?thesis unfolding next_segment_def prod.case d Let_def
    using draw64_sems [OF d] by (auto simp: bind_res_Inr_iff dest!: do_flush_sems split: if_splits)
qed

lemma inject_one_sems:
  assumes "inject_one fuel j (tp, g, b) = Inr (tp', g', b')"
  shows "sems tp' = sems tp \<and> fsems g' = fsems g"
proof -
  from assms obtain tp1 g1 b1 where n: "next_segment fuel j (tp, g, b) = Inr (tp1, g1, b1)"
    and r: "\<exists>buf tq x tp2 g2. io_start buf tq (set_rng x g1) = Inr (tp2, g2) \<and> sems tq = sems tp1 \<and> (tp', g') = (tp2, g2)"
    unfolding inject_one_def Let_def by (auto simp: bind_res_Inr_iff split: if_splits) (metis sems_simps)+
  from r obtain buf tq x where i: "io_start buf tq (set_rng x g1) = Inr (tp', g')" "sems tq = sems tp1" by blast
  show ?thesis using next_segment_sems [OF n] io_start_sems [OF i(1)] i(2) by simp
qed

definition inject_view :: "iothread \<times> gstate \<times> bool \<Rightarrow> (nat \<times> nat) \<times> (nat \<times> nat)" where
  "inject_view = (\<lambda>(tp, g, b). (sems tp, fsems g))"

lemma inject_segment_view: "inject_segment fuel j x = Inr y \<Longrightarrow> inject_view y = inject_view x"
proof -
  assume f: "inject_segment fuel j x = Inr y"
  obtain tp g b where x: "x = (tp, g, b)" by (cases x)
  obtain r g1 where d: "draw31 g = (r, g1)" by fastforce
  have one: "inject_view t = inject_view s" if "inject_one fuel j s = Inr t" for s t
    using that inject_one_sems by (cases s; cases t) (auto simp: inject_view_def)
  have loop: "inject_view y = inject_view s" if "loop_res (\<lambda>_. inject_one fuel j) [0 ..< n] s = Inr y" for s n
    by (rule loop_res_keeps [OF that]) (rule one)
  from f show ?thesis unfolding x inject_segment_def prod.case Let_def d
    by (auto simp: inject_view_def draw31_sems [OF d] dest!: loop split: if_splits)
qed

lemma wait_iostops_sems: "wait_iostops ts = Inr ts' \<Longrightarrow> map sems ts' = map sems ts"
  by (induction ts arbitrary: ts') (auto simp: bind_res_Inr_iff)

lemma io_restart_sems: "io_restart (ts, g) = (ts', g') \<Longrightarrow> map sems ts' = map sems ts \<and> fsems g' = fsems g"
  by (auto simp: io_restart_def fsems_def comp_def)

lemma do_write_inject_sems:
  assumes "do_write_inject fuel flush (tp, ts, g) = Inr (tp', ts', g')"
  shows "sems tp' = sems tp \<and> map sems ts' = map sems ts \<and> fsems g' = fsems g"
proof -
  let ?flush = "\<lambda>c pp x. if c then do_flush_cache fuel pp x else Inr x"
  have fl: "gate_view y = gate_view x" if "?flush c pp x = Inr y" for c pp x y
    using that do_flush_sems by (cases x; cases y) (auto split: if_splits)
  have seg: "inject_view y = inject_view x" if "loop_res (inject_segment fuel) xs x = Inr y" for xs x y
    by (rule loop_res_keeps [OF that]) (rule inject_segment_view)
  let ?fm = "flush_mode (params tp)"
  from assms obtain ts1 where st: "wait_iostops ts = Inr ts1"
    unfolding do_write_inject_def io_stop_def prod.case Let_def by (auto simp: bind_res_Inr_iff)
  let ?g1 = "raise_iowait g"
  have last: "map sems ts' = map sems ts \<and> fsems g' = fsems gq" if "io_restart (ts1, gq) = (ts', g')" for gq
    using io_restart_sems [OF that] wait_iostops_sems [OF st] by simp
  show ?thesis
  proof (cases "flush \<and> ?fm = FLUSH_ONLY")
    case True
    with assms st obtain gq where x: "do_flush_cache fuel 7 (tp, ?g1) = Inr (tp', gq)" "io_restart (ts1, gq) = (ts', g')"
      unfolding do_write_inject_def io_stop_def prod.case Let_def by (auto simp: bind_res_Inr_iff split_beta)
    show ?thesis using do_flush_sems [OF x(1)] last [OF x(2)] by simp
  next
    case False
    note e = assms [unfolded do_write_inject_def io_stop_def prod.case Let_def st bind_res_simps if_not_P [OF False]]
    from e obtain x1 x2 tp3 g4 d x4 gq where c: "?flush (flush \<and> ?fm = FLUSH_BEF) 7 (tp, ?g1) = Inr x1"
      "?flush (?fm = FLUSH_SEG) 1 x1 = Inr x2"
      "loop_res (inject_segment fuel) [0 ..< nat (nsegments (params tp))] (fst x2, snd x2, False) = Inr (tp3, g4, d)"
      "?flush d 6 (tp3, g4) = Inr x4" "?flush (flush \<and> ?fm = FLUSH_AFT) 7 x4 = Inr (tp', gq)" "io_restart (ts1, gq) = (ts', g')"
      by (clarsimp simp: bind_res_Inr_iff split: prod.splits split del: if_split)
    have "gate_view x2 = (sems tp, fsems g)" using fl [OF c(1)] fl [OF c(2)] by simp
    moreover have "inject_view (tp3, g4, d) = inject_view (fst x2, snd x2, False)" using seg [OF c(3)] .
    ultimately show ?thesis using fl [OF c(4)] fl [OF c(5)] last [OF c(6)]
      by (cases x2; cases x4) (simp add: inject_view_def)
  qed
qed

lemma prepare_sems: "prepare cs tp g = Inr (tp', g') \<Longrightarrow> sems tp' = sems tp \<and> fsems g' = fsems g"
proof -
  assume p: "prepare cs tp g = Inr (tp', g')"
  obtain d g1 where d: "draw_dbl g = (d, g1)" by fastforce
  from p draw_dbl_sems [OF d] show ?thesis unfolding prepare_def d Let_def prod.case
    by (auto simp: bind_res_Inr_iff split: if_splits)
qed

lemma do_transfer_sems: "do_transfer cs tp g = Inr (tp', g') \<Longrightarrow> sems tp' = sems tp \<and> fsems g' = fsems g"
  by (auto simp: do_transfer_def bind_res_Inr_iff dest!: prepare_sems io_start_sems)

lemma header_io_sems: "header_io h (tp, l) g = Inr ((tp', l'), g') \<Longrightarrow> sems tp' = sems tp \<and> fsems g' = fsems g"
  by (auto simp: header_io_def bind_res_Inr_iff dest!: do_transfer_sems)

lemma block_io_sems: "block_io h f b (tp, l) g = Inr ((tp', l'), g') \<Longrightarrow> sems tp' = sems tp \<and> fsems g' = fsems g"
  by (auto simp: block_io_def progress_def Let_def bind_res_Inr_iff dest!: do_transfer_sems split: if_splits)

lemma map_sems_update: "i < length ths \<Longrightarrow> sems x = sems (ths ! i) \<Longrightarrow> map sems (ths[i := x]) = map sems ths"
  by (simp add: map_update list_update_same_conv)

lemma pick_block_sems:
  assumes "pick_block bno i (ths, g) = Inr (b, ths', g')"
  shows "map sems ths' = map sems ths \<and> fsems g' = fsems g"
proof -
  have "map sems (ths[h := (ths ! h)\<lparr>nextbno := c\<rparr>]) = map sems ths" for h c
    by (cases "h < length ths") (simp add: map_sems_update, simp add: list_update_beyond)
  with assms show ?thesis
    by (auto simp: pick_block_def Let_def fetch_and_add_def bind_res_Inr_iff draw64_sems split: if_splits prod.splits)
qed

lemma run_block_sems:
  assumes "run_block f bno i l (ths, g) = Inr (l', ths', g')" "i < length ths"
  shows "map sems ths' = map sems ths \<and> fsems g' = fsems g"
proof -
  let ?h = "ths ! streamhead (ths ! i)"
  from assms(1) obtain tp1 l1 g1 tp2 where
    1: "(if bno = 0 \<and> headersz (params (ths ! i)) \<noteq> 0 then header_io ?h (ths ! i, l) g else Inr ((ths ! i, l), g))
        = Inr ((tp1, l1), g1)"
    and 2: "block_io ?h f bno (tp1, l1) g1 = Inr ((tp2, l'), g')" "ths' = ths[i := tp2]"
    unfolding run_block_def prod.case Let_def by (clarsimp simp: bind_res_Inr_iff split del: if_split)
  from 1 have "sems tp1 = sems (ths ! i) \<and> fsems g1 = fsems g" by (auto dest!: header_io_sems split: if_splits)
  with block_io_sems [OF 2(1)] assms(2) 2(2) show ?thesis by (simp add: map_sems_update)
qed

lemma io_turn_sems:
  assumes "io_turn bno i l (ths, g) = Inr (l', ths', g')" "i < length ths"
  shows "map sems ths' = map sems ths \<and> fsems g' = fsems g"
proof -
  from assms(1) obtain b ths1 g1 where p: "pick_block bno i (ths, g) = Inr (b, ths1, g1)"
    and r: "run_block bno b i l (ths1, g1) = Inr (l', ths', g')" by (auto simp: io_turn_def bind_res_Inr_iff)
  note q = pick_block_sems [OF p]
  then have "i < length ths1" using assms(2) by (metis length_map)
  with run_block_sems [OF r] q show ?thesis by simp
qed

lemma inject_at_sems:
  assumes "inject_at fuel flush i (ths, g) = Inr (ths', g')" "i < length ths"
  shows "map sems ths' = map sems ths \<and> fsems g' = fsems g"
proof -
  let ?o = "take i ths @ drop (Suc i) ths"
  from assms(1) obtain tp o' where d: "do_write_inject fuel flush (ths ! i, ?o, g) = Inr (tp, o', g')"
    and e: "ths' = take i o' @ tp # drop i o'" by (auto simp: inject_at_def bind_res_Inr_iff)
  note s = do_write_inject_sems [OF d]
  have "map sems ths' = take i (map sems o') @ sems tp # drop i (map sems o')" by (simp add: e take_map drop_map)
  also have "\<dots> = take i (map sems ths) @ sems (ths ! i) # drop (Suc i) (map sems ths)"
    using s assms(2) by (simp add: take_map drop_map)
  also have "\<dots> = map sems ths" using assms(2) by (metis id_take_nth_drop length_map nth_map)
  finally show ?thesis using s by simp
qed

text \<open>What a step of the loop does to the gates: nothing, but for the last one, which posts \<open>stop\<close>.\<close>

definition lengths_ok :: "fsys \<Rightarrow> bool" where
  "lengths_ok s \<longleftrightarrow> length (sys_locs s) = length (sys_ths s) \<and> length (sys_pcs s) = length (sys_ths s)"

definition kept :: "nat \<Rightarrow> pc \<Rightarrow> fsys \<Rightarrow> fsys \<Rightarrow> bool" where
  "kept j p s s' \<longleftrightarrow> lengths_ok s' \<and> length (sys_ths s') = length (sys_ths s) \<and> fsems (sys_g s') = fsems (sys_g s)
     \<and> sys_pcs s' = (sys_pcs s)[j := p]
     \<and> map sems (sys_ths s') = (if p = Ended
          then (map sems (sys_ths s))[j := (th_start (sys_ths s ! j), Suc (th_stop (sys_ths s ! j)))] else map sems (sys_ths s))"

lemma quiet_kept:
  assumes "lengths_ok s" "p \<noteq> Ended" "sys_pcs s' = (sys_pcs s)[j := p]" "length (sys_locs s') = length (sys_locs s)"
    and "map sems (sys_ths s') = map sems (sys_ths s)" "fsems (sys_g s') = fsems (sys_g s)"
  shows "\<exists>p. kept j p s s'"
proof -
  have "length (sys_ths s') = length (sys_ths s)" using assms(5) by (metis length_map)
  then have "kept j p s s'" using assms by (simp add: kept_def lengths_ok_def)
  then show ?thesis ..
qed

lemma thread_step_kept:
  assumes "thread_step fuel j s = Inr s'" "j < length (sys_ths s)" "lengths_ok s"
  shows "\<exists>p. kept j p s s'"
proof (cases "sys_pcs s ! j")
  case Top
  obtain now g where t: "tick (sys_g s) = (now, g)" by fastforce
  then have g: "fsems g = fsems (sys_g s)" using fsems_simps(6) [of "sys_g s"] by simp
  have s': "s' = step_top j s" using assms(1) Top by (simp add: thread_step_def)
  show ?thesis
  proof (cases "time_due (sys_ths s ! j) (sys_locs s ! j) now")
    case True
    obtain f l where n: "time_next (sys_ths s ! j) now (sys_locs s ! j) = (f, l)" by fastforce
    show ?thesis by (rule quiet_kept [OF assms(3), of "Inj_time f"]) (use g in \<open>simp_all add: s' step_top_def t True n goto_def\<close>)
  next
    case False
    show ?thesis by (rule quiet_kept [OF assms(3), of Check]) (use g in \<open>simp_all add: s' step_top_def t False goto_def\<close>)
  qed
next
  case (Inj_time f)
  with assms(1) obtain ths g where i: "inject_at fuel f j (sys_ths s, sys_g s) = Inr (ths, g)"
    and s': "s' = goto j Check (s\<lparr>sys_g := g, sys_ths := ths\<rparr>)" by (auto simp: thread_step_def step_inject_def bind_res_Inr_iff)
  show ?thesis by (rule quiet_kept [OF assms(3), of Check]) (use inject_at_sems [OF i assms(2)] in \<open>simp_all add: s' goto_def\<close>)
next
  case Check
  let ?p = "if iowait (pthread (sys_g s)) \<noteq> 0 then Paused else Draw"
  have s': "s' = step_check j s" using assms(1) Check by (simp add: thread_step_def)
  show ?thesis
    by (rule quiet_kept [OF assms(3), of ?p])
      (use assms(2) in \<open>simp_all add: s' step_check_def goto_def pause_post_def map_sems_update\<close>)
next
  case Paused
  with assms(1) obtain a where s': "s' = goto j Draw (s\<lparr>sys_ths := (sys_ths s)[j := (sys_ths s ! j)\<lparr>iostart := a\<rparr>]\<rparr>)"
    by (auto simp: thread_step_def step_paused_def pause_wait_def bind_res_Inr_iff)
  show ?thesis by (rule quiet_kept [OF assms(3), of Draw]) (use assms(2) in \<open>simp_all add: s' goto_def map_sems_update\<close>)
next
  case Draw
  obtain b more g where t: "draw_block (sys_g s) = ((b, more), g)" by (metis surj_pair)
  then have g: "fsems g = fsems (sys_g s)" using fsems_simps(10) [of 1 "sys_g s"] by (auto simp: draw_block_def split_beta)
  have s': "s' = step_draw j s" using assms(1) Draw by (simp add: thread_step_def)
  let ?p = "if \<not> more then Leaving else if count_due (sys_ths s ! j) (sys_locs s ! j) b then Inj_count b else Turn b"
  show ?thesis by (rule quiet_kept [OF assms(3), of ?p]) (use g in \<open>simp_all add: s' step_draw_def t goto_def Let_def\<close>)
next
  case (Inj_count b)
  with assms(1) obtain ths g where i: "inject_at fuel True j (sys_ths s, sys_g s) = Inr (ths, g)"
    and s': "s' = count_injected j (goto j (Turn b) (s\<lparr>sys_g := g, sys_ths := ths\<rparr>))"
    by (auto simp: thread_step_def step_inject_def bind_res_Inr_iff)
  show ?thesis by (rule quiet_kept [OF assms(3), of "Turn b"])
      (use inject_at_sems [OF i assms(2)] in \<open>simp_all add: s' goto_def count_injected_def Let_def\<close>)
next
  case (Turn b)
  with assms(1) obtain l ths g where i: "io_turn b j (sys_locs s ! j) (sys_ths s, sys_g s) = Inr (l, ths, g)"
    and s': "s' = goto j Top (s\<lparr>sys_g := g, sys_ths := ths, sys_locs := (sys_locs s)[j := l]\<rparr>)"
    by (auto simp: thread_step_def step_turn_def bind_res_Inr_iff)
  show ?thesis by (rule quiet_kept [OF assms(3), of Top]) (use io_turn_sems [OF i assms(2)] in \<open>simp_all add: s' goto_def\<close>)
next
  case Leaving
  obtain now g where t: "tick (sys_g s) = (now, g)" by fastforce
  then have g: "fsems g = fsems (sys_g s)" using fsems_simps(6) [of "sys_g s"] by simp
  have s': "s' = step_leave j s" using assms(1) Leaving by (simp add: thread_step_def)
  have "kept j Ended s s'" using g assms(3)
    by (simp add: s' step_leave_def io_end_def t goto_def kept_def lengths_ok_def map_update sems_def)
  then show ?thesis ..
next
  case Ended
  with assms(1) show ?thesis by (simp add: thread_step_def)
qed

section \<open>The two gates\<close>

fun io_stage :: "iplace \<Rightarrow> pc \<Rightarrow> stage" where
  "io_stage INew p = Unborn"
| "io_stage IPrologue p = Arriving"
| "io_stage IReady p = Ready"
| "io_stage IBegin p = Inside"
| "io_stage ILoop p = (if p = Ended then Left else Inside)"

definition io_kid :: "fview \<Rightarrow> nat \<Rightarrow> kid" where
  "io_kid v j = (io_stage (v_in v ! j) (v_pcs v ! j), sems (v_ths v ! j))"

definition io_kids :: "fview \<Rightarrow> kid list" where
  "io_kids v = map (io_kid v) [0 ..< length (v_ths v)]"

fun file_stage :: "fplace \<Rightarrow> stage" where
  "file_stage FNew = Unborn"
| "file_stage (FCreate j) = Arriving"
| "file_stage (FGather j) = Arriving"
| "file_stage FMeet = Arriving"
| "file_stage FWait = Ready"
| "file_stage FGone = Left"
| "file_stage p = Inside"

fun file_par :: "fplace \<Rightarrow> pstage" where
  "file_par FNew = PCreate 0"
| "file_par (FCreate j) = PCreate j"
| "file_par (FGather j) = PGather j"
| "file_par (FRelease j) = PRelease j"
| "file_par (FCollect j) = PCollect j"
| "file_par FLeave = PDone"
| "file_par FGone = PDone"
| "file_par p = PHold"

definition file_kid :: "fview \<Rightarrow> kid" where
  "file_kid v = (file_stage (v_at v), f_start (v_file v), f_stop (v_file v))"

definition file_kids :: "isys \<Rightarrow> kid list" where
  "file_kids s = map file_kid (i_files s)"

fun main_par :: "mplace \<Rightarrow> pstage" where
  "main_par (MCreate k) = PCreate k"
| "main_par (MGather k) = PGather k"
| "main_par MStart = PHold"
| "main_par (MRelease k t r) = PRelease k"
| "main_par (MCollect k t r) = PCollect k"
| "main_par (MOutput t r) = PDone"
| "main_par MDone = PDone"

text \<open>The lists of a file go together.\<close>

definition view_ok :: "fview \<Rightarrow> bool" where
  "view_ok v \<longleftrightarrow> length (v_locs v) = length (v_ths v) \<and> length (v_pcs v) = length (v_ths v) \<and> length (v_in v) = length (v_ths v)"

definition sys_ok :: "isys \<Rightarrow> bool" where
  "sys_ok s \<longleftrightarrow> list_all view_ok (i_files s)"

text \<open>What a step inside a file owes to the two gates it belongs to.\<close>

definition view_move :: "fview \<Rightarrow> fview \<Rightarrow> bool" where
  "view_move v w \<longleftrightarrow> view_ok w \<and> length (v_ths w) = length (v_ths v) \<and> kid_move (file_kid v) (file_kid w)
     \<and> gate_move (file_par (v_at v), io_kids v) (file_par (v_at w), io_kids w)"

lemma length_io_kids [simp]: "length (io_kids v) = length (v_ths v)"
  by (simp add: io_kids_def)

lemma nth_io_kids [simp]: "j < length (v_ths v) \<Longrightarrow> io_kids v ! j = io_kid v j"
  by (simp add: io_kids_def)

lemma io_kids_cong:
  assumes "length (v_ths w) = length (v_ths v)" "\<And>i. i < length (v_ths v) \<Longrightarrow> io_kid w i = io_kid v i"
  shows "io_kids w = io_kids v"
  using assms by (intro nth_equalityI) simp_all

lemma io_kids_update:
  assumes "length (v_ths w) = length (v_ths v)" "j < length (v_ths v)"
    and "\<And>i. i < length (v_ths v) \<Longrightarrow> i \<noteq> j \<Longrightarrow> io_kid w i = io_kid v i"
  shows "io_kids w = (io_kids v)[j := io_kid w j]"
  using assms by (intro nth_equalityI) (auto simp: nth_list_update)

lemma kid_step:
  assumes "view_ok w" "length (v_ths w) = length (v_ths v)" "file_kid w = file_kid v" "v_at w = v_at v" "j < length (v_ths v)"
    and "\<And>i. i < length (v_ths v) \<Longrightarrow> i \<noteq> j \<Longrightarrow> io_kid w i = io_kid v i" "kid_move (io_kid v j) (io_kid w j)"
  shows "view_move v w"
proof -
  have u: "io_kids w = (io_kids v)[j := io_kid w j]" by (rule io_kids_update [OF assms(2,5,6)])
  have "gate_move (file_par (v_at v), io_kids v) (file_par (v_at v), (io_kids v)[j := io_kid w j])"
    using gm_kid [of j "io_kids v" "io_kid w j"] assms(5,7) by simp
  then show ?thesis using assms(1-4) by (simp add: view_move_def u kid_move.intros(1))
qed

lemma pc_Ended_step: "thread_step fuel j s = Inr s' \<Longrightarrow> sys_pcs s ! j \<noteq> Ended"
  by (auto simp: thread_step_def)

lemma tick_sems: "tick g = (t, g') \<Longrightarrow> fsems g' = fsems g"
  using fsems_simps(6) [of g] by simp

lemma set_rng_calls [simp]: "calls (genv (set_rng x g)) = calls (genv g)"
  by (simp add: set_rng_def)

lemma draws_quiet:
  "draw64 g = (r, g') \<Longrightarrow> fsems g' = fsems g \<and> calls (genv g') = calls (genv g)"
  "draw_dbl g = (d, g') \<Longrightarrow> fsems g' = fsems g \<and> calls (genv g') = calls (genv g)"
  using draw64_sems draw_dbl_sems by (auto simp: draw64_def draw_dbl_def split_beta)

lemma io_prologue_sems:
  assumes "io_prologue tp g = Inr (tp', g')"
  shows "sems tp' = sems tp \<and> fsems g' = fsems g \<and> calls (genv g') = calls (genv g)"
  using assms unfolding io_prologue_def Let_def
  by (auto simp: bind_res_Inr_iff dest!: draws_quiet split: if_splits prod.splits)

lemma kid_of_fsems: "fsems g = (f_start (v_file v), f_stop (v_file v)) \<Longrightarrow> file_kid (v\<lparr>v_file := pthread g\<rparr>) = file_kid v"
  by (simp add: file_kid_def fsems_def)

lemma fsems_file_g [simp]: "fsems (file_g k s) = (f_start (v_file (i_files s ! k)), f_stop (v_file (i_files s ! k)))"
  by (simp add: file_g_def fsems_def)

lemma io_step_moves:
  assumes "io_step fuel k j s = Inr s'" "k < length (i_files s)" "j < length (v_ths (i_files s ! k))" "view_ok (i_files s ! k)"
  shows "\<exists>w. i_files s' = (i_files s)[k := w] \<and> view_move (i_files s ! k) w \<and> i_main s' = i_main s"
proof -
  let ?v = "i_files s ! k" and ?g = "file_g k s"
  have len: "length (v_locs ?v) = length (v_ths ?v)" "length (v_pcs ?v) = length (v_ths ?v)" "length (v_in ?v) = length (v_ths ?v)"
    using assms(4) by (simp_all add: view_ok_def)
  have put: "\<exists>w. i_files (put_file k w g s) = (i_files s)[k := w\<lparr>v_file := pthread g\<rparr>] \<and> i_main (put_file k w g s) = i_main s" for w g
    by (simp add: put_file_def)
  show ?thesis
  proof (cases "v_in ?v ! j")
    case INew with assms(1) show ?thesis by (simp add: io_step_def Let_def)
  next
    case IPrologue
    with assms(1) obtain tp g where p: "io_prologue (v_ths ?v ! j) ?g = Inr (tp, g)"
      and s': "s' = put_file k (?v\<lparr>v_ths := (v_ths ?v)[j := post_stop_of tp], v_in := (v_in ?v)[j := IReady]\<rparr>) g s"
      by (auto simp: io_step_def Let_def bind_res_Inr_iff)
    note q = io_prologue_sems [OF p]
    let ?w = "?v\<lparr>v_ths := (v_ths ?v)[j := post_stop_of tp], v_in := (v_in ?v)[j := IReady], v_file := pthread g\<rparr>"
    have "view_move ?v ?w"
      using q len assms(3) IPrologue
      by (intro kid_step [of _ _ j])
        (auto simp: view_ok_def file_kid_def fsems_def io_kid_def post_stop_of_def sems_def file_g_def intro: kid_move.intros)
    then show ?thesis by (auto simp: s' put_file_def)
  next
    case IReady
    with assms(1) obtain a where p: "th_start (v_ths ?v ! j) = Suc a"
      and s': "s' = put_file k (?v\<lparr>v_ths := (v_ths ?v)[j := (v_ths ?v ! j)\<lparr>th_start := a\<rparr>], v_in := (v_in ?v)[j := IBegin]\<rparr>) ?g s"
      by (auto simp: io_step_def sem_wait_def Let_def bind_res_Inr_iff gr0_conv_Suc split: if_splits)
    let ?w = "?v\<lparr>v_ths := (v_ths ?v)[j := (v_ths ?v ! j)\<lparr>th_start := a\<rparr>], v_in := (v_in ?v)[j := IBegin], v_file := pthread ?g\<rparr>"
    have "view_move ?v ?w"
      using p len assms(3) IReady
      by (intro kid_step [of _ _ j])
        (auto simp: view_ok_def file_kid_def file_g_def io_kid_def sems_def intro: kid_move.intros)
    then show ?thesis by (auto simp: s' put_file_def)
  next
    case IBegin
    obtain tp l g where p: "io_begin (v_ths ?v ! j) ?g = ((tp, l), g)" by (metis surj_pair)
    then have q: "sems tp = sems (v_ths ?v ! j)" "fsems g = fsems ?g"
      by (auto simp: io_begin_def Let_def dest!: tick_sems split: prod.splits)
    let ?w = "?v\<lparr>v_ths := (v_ths ?v)[j := tp], v_locs := (v_locs ?v)[j := l], v_pcs := (v_pcs ?v)[j := Top],
                 v_in := (v_in ?v)[j := ILoop], v_file := pthread g\<rparr>"
    from assms(1) IBegin have s': "s' = put_file k (?v\<lparr>v_ths := (v_ths ?v)[j := tp], v_locs := (v_locs ?v)[j := l],
        v_pcs := (v_pcs ?v)[j := Top], v_in := (v_in ?v)[j := ILoop]\<rparr>) g s" by (simp add: io_step_def p Let_def)
    have "view_move ?v ?w"
      using q len assms(3) IBegin
      by (intro kid_step [of _ _ j]) (auto simp: view_ok_def file_kid_def fsems_def io_kid_def file_g_def intro: kid_move.intros)
    then show ?thesis by (auto simp: s' put_file_def)
  next
    case ILoop
    let ?s = "\<lparr>sys_g = ?g, sys_ths = v_ths ?v, sys_locs = v_locs ?v, sys_pcs = v_pcs ?v\<rparr>"
    from assms(1) ILoop obtain t where t: "thread_step fuel j ?s = Inr t"
      and s': "s' = put_file k (?v\<lparr>v_ths := sys_ths t, v_locs := sys_locs t, v_pcs := sys_pcs t\<rparr>) (sys_g t) s"
      by (auto simp: io_step_def Let_def bind_res_Inr_iff)
    have "lengths_ok ?s" using len by (simp add: lengths_ok_def)
    with thread_step_kept [OF t] assms(3) obtain p where kp: "kept j p ?s t" by auto
    let ?w = "?v\<lparr>v_ths := sys_ths t, v_locs := sys_locs t, v_pcs := sys_pcs t, v_file := pthread (sys_g t)\<rparr>"
    have l: "length (sys_ths t) = length (v_ths ?v)" "sys_pcs t = (v_pcs ?v)[j := p]" "fsems (sys_g t) = fsems ?g"
      "length (sys_locs t) = length (v_ths ?v)"
      and m: "map sems (sys_ths t) = (if p = Ended then (map sems (v_ths ?v))[j := (th_start (v_ths ?v ! j), Suc (th_stop (v_ths ?v ! j)))]
          else map sems (v_ths ?v))"
      using kp by (simp_all add: kept_def lengths_ok_def)
    have n: "sems (sys_ths t ! i) = (if i = j \<and> p = Ended then (th_start (v_ths ?v ! j), Suc (th_stop (v_ths ?v ! j))) else sems (v_ths ?v ! i))"
      if "i < length (v_ths ?v)" for i
      using arg_cong [OF m, of "\<lambda>xs. xs ! i"] that l(1) by (auto simp: nth_list_update split: if_splits)
    have np: "v_pcs ?v ! j \<noteq> Ended" using pc_Ended_step [OF t] by simp
    have "view_move ?v ?w"
    proof (rule kid_step [of _ _ j])
      show "view_ok ?w" using len l by (simp add: view_ok_def)
      show "file_kid ?w = file_kid ?v" using l(3) by (simp add: file_kid_def fsems_def file_g_def)
      show "io_kid ?w i = io_kid ?v i" if "i < length (v_ths ?v)" "i \<noteq> j" for i
        using n [OF that(1)] that(2) l(2) by (simp add: io_kid_def)
      show "kid_move (io_kid ?v j) (io_kid ?w j)"
        using n [OF assms(3)] l(2) len assms(3) ILoop np
        by (cases "p = Ended") (auto simp: io_kid_def sems_def intro: kid_move.intros)
    qed (use l assms(3) in simp_all)
    then show ?thesis by (auto simp: s' put_file_def)
  qed
qed

lemma io_kids_rest [simp]:
  "io_kids (v\<lparr>v_at := a\<rparr>) = io_kids v" "io_kids (v\<lparr>v_file := f\<rparr>) = io_kids v"
  by (simp_all add: io_kids_def io_kid_def)

lemma io_kids_in:
  "view_ok v \<Longrightarrow> j < length (v_ths v) \<Longrightarrow>
    io_kids (v\<lparr>v_in := (v_in v)[j := p]\<rparr>) = (io_kids v)[j := (io_stage p (v_pcs v ! j), snd (io_kids v ! j))]"
  by (rule nth_equalityI) (auto simp: view_ok_def io_kid_def nth_list_update)

lemma io_kids_ths:
  "j < length (v_ths v) \<Longrightarrow> io_kids (v\<lparr>v_ths := (v_ths v)[j := tp]\<rparr>) = (io_kids v)[j := (fst (io_kids v ! j), sems tp)]"
  by (rule nth_equalityI) (auto simp: io_kid_def nth_list_update)

lemma wait_thread_move:
  assumes "wait_thread j a v = Inr w" "j < length (v_ths v)"
  shows "\<exists>b. th_stop (v_ths v ! j) = Suc b \<and> io_kids w = (io_kids v)[j := (fst (io_kids v ! j), th_start (v_ths v ! j), b)]
    \<and> v_at w = a \<and> v_file w = v_file v \<and> length (v_ths w) = length (v_ths v) \<and> (view_ok v \<longrightarrow> view_ok w)"
proof -
  from assms(1) obtain b where b: "th_stop (v_ths v ! j) = Suc b"
    and w: "w = v\<lparr>v_ths := (v_ths v)[j := (v_ths v ! j)\<lparr>th_stop := b\<rparr>]\<rparr>\<lparr>v_at := a\<rparr>"
    by (auto simp: wait_thread_def sem_wait_def bind_res_Inr_iff gr0_conv_Suc split: if_splits)
  show ?thesis unfolding w io_kids_rest(1) io_kids_ths [OF assms(2)] using b by (simp add: sems_def view_ok_def)
qed

lemma parent_step:
  assumes "view_ok w" "length (v_ths w) = length (v_ths v)" "kid_move (file_kid v) (file_kid w)"
    and "gate_move (file_par (v_at v), io_kids v) (file_par (v_at w), ks)" "io_kids w = ks"
  shows "view_move v w"
  using assms by (simp add: view_move_def)

lemma put_view:
  "i_files (put_file k w g s) = (i_files s)[k := w\<lparr>v_file := pthread g\<rparr>]" "i_main (put_file k w g s) = i_main s"
  by (simp_all add: put_file_def)

lemma file_g_file [simp]: "pthread (file_g k s) = v_file (i_files s ! k)"
  by (simp add: file_g_def)

lemma view_self [simp]: "v\<lparr>v_file := v_file v\<rparr> = v"
  by simp

lemma file_step_moves:
  assumes "file_step env k s = Inr s'" "view_ok (i_files s ! k)"
  shows "\<exists>w. i_files s' = (i_files s)[k := w] \<and> view_move (i_files s ! k) w \<and> i_main s' = i_main s"
proof -
  let ?v = "i_files s ! k" and ?g = "file_g k s"
  let ?n = "length (v_ths ?v)"
  have fin: "?thesis" if "s' = put_file k w g s" "view_move ?v (w\<lparr>v_file := pthread g\<rparr>)" for w g
    using that by (auto simp: put_view)
  have refl: "kid_move x x" for x by (rule kid_move.intros(1))
  show ?thesis
  proof (cases "v_at ?v")
    case FNew with assms(1) show ?thesis by (simp add: file_step_def Let_def)
  next
    case (FCreate j)
    show ?thesis
    proof (cases "j < ?n")
      case True
      let ?w = "?v\<lparr>v_in := (v_in ?v)[j := IPrologue]\<rparr>\<lparr>v_at := FCreate (j + 1)\<rparr>"
      have "view_move ?v ?w"
        by (rule parent_step [where ks = "(io_kids ?v)[j := (Arriving, snd (io_kids ?v ! j))]"])
          (use assms(2) True FCreate gm_create [of j "io_kids ?v"] in
            \<open>simp_all add: view_ok_def file_kid_def io_kids_in [OF assms(2) True] refl del: nth_io_kids\<close>)
      then show ?thesis using assms(1) FCreate True by (intro fin [of ?w ?g]) (simp_all add: file_step_def Let_def)
    next
      case False
      have "view_move ?v (?v\<lparr>v_at := FGather 0\<rparr>)"
        by (rule parent_step [where ks = "io_kids ?v"])
          (use assms(2) False FCreate gm_created [of j "io_kids ?v"] in \<open>simp_all add: view_ok_def file_kid_def refl\<close>)
      then show ?thesis using assms(1) FCreate False by (intro fin [of "?v\<lparr>v_at := FGather 0\<rparr>" ?g]) (simp_all add: file_step_def Let_def)
    qed
  next
    case (FGather j)
    show ?thesis
    proof (cases "j < ?n")
      case True
      with assms(1) FGather obtain w where w: "wait_thread j (FGather (j + 1)) ?v = Inr w" and s': "s' = put_file k w ?g s"
        by (auto simp: file_step_def Let_def bind_res_Inr_iff)
      from wait_thread_move [OF w True] assms(2) obtain b where b: "th_stop (v_ths ?v ! j) = Suc b"
        "io_kids w = (io_kids ?v)[j := (fst (io_kids ?v ! j), th_start (v_ths ?v ! j), b)]"
        "v_at w = FGather (j + 1)" "v_file w = v_file ?v" "length (v_ths w) = ?n" "view_ok w" by blast
      have "io_kids ?v ! j = (fst (io_kids ?v ! j), th_start (v_ths ?v ! j), Suc b)" using True b(1) by (simp add: io_kid_def sems_def)
      from gm_gather [OF _ this] True have "view_move ?v w"
        by (intro parent_step [OF _ _ _ _ b(2)]) (simp_all add: b FGather file_kid_def refl)
      moreover have "w\<lparr>v_file := v_file ?v\<rparr> = w" unfolding b(4) [symmetric] by simp
      ultimately show ?thesis by (intro fin [OF s']) simp
    next
      case False
      have "view_move ?v (?v\<lparr>v_at := FMeet\<rparr>)"
        by (rule parent_step [where ks = "io_kids ?v"])
          (use assms(2) False FGather gm_gathered [of j "io_kids ?v"] in \<open>simp_all add: view_ok_def file_kid_def refl\<close>)
      then show ?thesis using assms(1) FGather False by (intro fin [of "?v\<lparr>v_at := FMeet\<rparr>" ?g]) (simp_all add: file_step_def Let_def)
    qed
  next
    case FMeet
    let ?f = "(v_file ?v)\<lparr>f_stop := f_stop (v_file ?v) + 1\<rparr>"
    have "view_move ?v (?v\<lparr>v_at := FWait\<rparr>\<lparr>v_file := ?f\<rparr>)"
      by (rule parent_step [where ks = "io_kids ?v"])
        (use assms(2) FMeet gm_same in \<open>simp_all add: view_ok_def file_kid_def kid_move.intros\<close>)
    then show ?thesis using assms(1) FMeet
      by (intro fin [of "?v\<lparr>v_at := FWait\<rparr>" "?g\<lparr>pthread := ?f\<rparr>"]) (simp_all add: file_step_def Let_def)
  next
    case FWait
    with assms(1) obtain a where a: "f_start (v_file ?v) = Suc a"
      and s': "s' = put_file k (?v\<lparr>v_at := FBegin\<rparr>) (?g\<lparr>pthread := (v_file ?v)\<lparr>f_start := a\<rparr>\<rparr>) s"
      by (auto simp: file_step_def sem_wait_def Let_def bind_res_Inr_iff gr0_conv_Suc split: if_splits)
    have "view_move ?v (?v\<lparr>v_at := FBegin\<rparr>\<lparr>v_file := (v_file ?v)\<lparr>f_start := a\<rparr>\<rparr>)"
      by (rule parent_step [where ks = "io_kids ?v"])
        (use assms(2) FWait gm_same a in \<open>simp_all add: view_ok_def file_kid_def kid_move.intros\<close>)
    then show ?thesis by (intro fin [OF s']) simp
  next
    case FBegin
    obtain f e where f: "file_begin (v_file ?v) (genv ?g) = (f, e)" by fastforce
    then have fs: "f_start f = f_start (v_file ?v)" "f_stop f = f_stop (v_file ?v)"
      by (auto simp: file_begin_def Let_def split: prod.splits)
    have "view_move ?v (?v\<lparr>v_at := FRelease 0\<rparr>\<lparr>v_file := f\<rparr>)"
      by (rule parent_step [where ks = "io_kids ?v"])
        (use assms(2) FBegin gm_open fs in \<open>simp_all add: view_ok_def file_kid_def refl\<close>)
    then show ?thesis using assms(1) FBegin f
      by (intro fin [of "?v\<lparr>v_at := FRelease 0\<rparr>" "?g\<lparr>genv := e, pthread := f\<rparr>"]) (simp_all add: file_step_def Let_def)
  next
    case (FRelease j)
    show ?thesis
    proof (cases "j < ?n")
      case True
      let ?tp = "(v_ths ?v ! j)\<lparr>th_start := th_start (v_ths ?v ! j) + 1\<rparr>"
      let ?w = "?v\<lparr>v_ths := (v_ths ?v)[j := ?tp]\<rparr>\<lparr>v_at := FRelease (j + 1)\<rparr>"
      have e: "io_kids ?v ! j = (fst (io_kids ?v ! j), th_start (v_ths ?v ! j), th_stop (v_ths ?v ! j))"
        using True by (simp add: io_kid_def sems_def)
      have "view_move ?v ?w"
        by (rule parent_step [where ks = "(io_kids ?v)[j := (fst (io_kids ?v ! j), Suc (th_start (v_ths ?v ! j)), th_stop (v_ths ?v ! j))]"])
          (use assms(2) True FRelease gm_release [OF _ e] in
            \<open>simp_all add: view_ok_def file_kid_def io_kids_ths sems_def refl del: nth_io_kids\<close>)
      then show ?thesis using assms(1) FRelease True by (intro fin [of ?w ?g]) (simp_all add: file_step_def Let_def)
    next
      case False
      have "view_move ?v (?v\<lparr>v_at := FCollect 0\<rparr>)"
        by (rule parent_step [where ks = "io_kids ?v"])
          (use assms(2) False FRelease gm_released [of j "io_kids ?v"] in \<open>simp_all add: view_ok_def file_kid_def refl\<close>)
      then show ?thesis using assms(1) FRelease False by (intro fin [of "?v\<lparr>v_at := FCollect 0\<rparr>" ?g]) (simp_all add: file_step_def Let_def)
    qed
  next
    case (FCollect j)
    show ?thesis
    proof (cases "j < ?n")
      case True
      with assms(1) FCollect obtain w where w: "wait_thread j (FCollect (j + 1)) ?v = Inr w" and s': "s' = put_file k w ?g s"
        by (auto simp: file_step_def Let_def bind_res_Inr_iff)
      from wait_thread_move [OF w True] assms(2) obtain b where b: "th_stop (v_ths ?v ! j) = Suc b"
        "io_kids w = (io_kids ?v)[j := (fst (io_kids ?v ! j), th_start (v_ths ?v ! j), b)]"
        "v_at w = FCollect (j + 1)" "v_file w = v_file ?v" "length (v_ths w) = ?n" "view_ok w" by blast
      have "io_kids ?v ! j = (fst (io_kids ?v ! j), th_start (v_ths ?v ! j), Suc b)" using True b(1) by (simp add: io_kid_def sems_def)
      from gm_collect [OF _ this] True have "view_move ?v w"
        by (intro parent_step [OF _ _ _ _ b(2)]) (simp_all add: b FCollect file_kid_def refl)
      moreover have "w\<lparr>v_file := v_file ?v\<rparr> = w" unfolding b(4) [symmetric] by simp
      ultimately show ?thesis by (intro fin [OF s']) simp
    next
      case False
      have "view_move ?v (?v\<lparr>v_at := FLeave\<rparr>)"
        by (rule parent_step [where ks = "io_kids ?v"])
          (use assms(2) False FCollect gm_collected [of j "io_kids ?v"] in \<open>simp_all add: view_ok_def file_kid_def refl\<close>)
      then show ?thesis using assms(1) FCollect False by (intro fin [of "?v\<lparr>v_at := FLeave\<rparr>" ?g]) (simp_all add: file_step_def Let_def)
    qed
  next
    case FLeave
    have fs: "f_start (pthread (file_end ?g)) = f_start (v_file ?v)" "f_stop (pthread (file_end ?g)) = Suc (f_stop (v_file ?v))"
      by (auto simp: file_end_def tick_def Let_def split: prod.splits)
    have "view_move ?v (?v\<lparr>v_at := FGone\<rparr>\<lparr>v_file := pthread (file_end ?g)\<rparr>)"
      by (rule parent_step [where ks = "io_kids ?v"])
        (use assms(2) FLeave gm_same fs in \<open>simp_all add: view_ok_def file_kid_def kid_move.intros\<close>)
    then show ?thesis using assms(1) FLeave
      by (intro fin [of "?v\<lparr>v_at := FGone\<rparr>" "file_end ?g"]) (simp_all add: file_step_def Let_def)
  next
    case FGone with assms(1) show ?thesis by (simp add: file_step_def Let_def)
  qed
qed

lemma file_kids_set [simp]:
  "file_kids (set_view k w s) = (file_kids s)[k := file_kid w]" "length (file_kids s) = length (i_files s)"
  "file_kids (s\<lparr>i_main := m\<rparr>) = file_kids s" "file_kids (s\<lparr>i_g := g\<rparr>) = file_kids s" "file_kids (s\<lparr>i_out := r\<rparr>) = file_kids s"
  by (simp_all add: file_kids_def set_view_def map_update)

lemma nth_file_kids [simp]: "k < length (i_files s) \<Longrightarrow> file_kids s ! k = file_kid (i_files s ! k)"
  by (simp add: file_kids_def)

text \<open>What a step of the main thread does: a move of its own gate, and nothing to those of the files but to create a file thread.\<close>

definition files_kept :: "isys \<Rightarrow> isys \<Rightarrow> bool" where
  "files_kept s s' \<longleftrightarrow> length (i_files s') = length (i_files s)
     \<and> (\<forall>k < length (i_files s). io_kids (i_files s' ! k) = io_kids (i_files s ! k)
          \<and> (view_ok (i_files s ! k) \<longrightarrow> view_ok (i_files s' ! k))
          \<and> (v_at (i_files s' ! k) = v_at (i_files s ! k) \<or> i_main s = MCreate k \<and> v_at (i_files s' ! k) = FCreate 0))"

lemma files_kept_same: "i_files s' = i_files s \<Longrightarrow> files_kept s s'"
  by (simp add: files_kept_def)

lemma files_kept_update:
  assumes "i_files s' = (i_files s)[k := w]" "k < length (i_files s)" "io_kids w = io_kids (i_files s ! k)"
    and "view_ok (i_files s ! k) \<longrightarrow> view_ok w" "v_at w = v_at (i_files s ! k) \<or> i_main s = MCreate k \<and> v_at w = FCreate 0"
  shows "files_kept s s'"
  using assms by (auto simp: files_kept_def nth_list_update)

lemma wait_file_move:
  assumes "wait_file k m s = Inr s'" "k < length (i_files s)"
  shows "\<exists>b. f_stop (v_file (i_files s ! k)) = Suc b \<and> i_main s' = m \<and> files_kept s s' \<and> genv (i_g s') = genv (i_g s)
    \<and> file_kids s' = (file_kids s)[k := (file_stage (v_at (i_files s ! k)), f_start (v_file (i_files s ! k)), b)]"
proof -
  let ?v = "i_files s ! k"
  from assms(1) obtain b where b: "f_stop (v_file ?v) = Suc b"
    and s': "s' = (set_view k (?v\<lparr>v_file := (v_file ?v)\<lparr>f_stop := b\<rparr>\<rparr>) s)\<lparr>i_main := m\<rparr>"
    by (auto simp: wait_file_def sem_wait_def Let_def bind_res_Inr_iff gr0_conv_Suc split: if_splits)
  have "files_kept s s'"
    by (rule files_kept_update [of _ _ k "?v\<lparr>v_file := (v_file ?v)\<lparr>f_stop := b\<rparr>\<rparr>"])
      (use assms(2) in \<open>simp_all add: s' set_view_def view_ok_def\<close>)
  with b show ?thesis by (simp add: s' file_kid_def) (simp add: set_view_def)
qed

lemma tick_calls: "tick g = (t, g') \<Longrightarrow> calls (genv g') = calls (genv g)"
  by (auto simp: tick_def iob_gettime_def split: prod.splits)

lemma runtest_moves:
  assumes "runtest_step env s = Inr s'"
  shows "gate_move (main_par (i_main s), file_kids s) (main_par (i_main s'), file_kids s')" "files_kept s s'"
    "calls (genv (i_g s')) = calls (genv (i_g s))"
proof -
  let ?n = "length (i_files s)" and ?ks = "file_kids s"
  have "gate_move (main_par (i_main s), ?ks) (main_par (i_main s'), file_kids s') \<and> files_kept s s'
    \<and> calls (genv (i_g s')) = calls (genv (i_g s))"
  proof (cases "i_main s")
    case (MCreate k)
    show ?thesis
    proof (cases "k < ?n")
      case True
      let ?w = "(i_files s ! k)\<lparr>v_at := FCreate 0\<rparr>"
      have s': "s' = (set_view k ?w s)\<lparr>i_main := MCreate (k + 1)\<rparr>" using assms MCreate True by (simp add: runtest_step_def Let_def)
      have "file_kid ?w = (Arriving, snd (?ks ! k))" using True by (simp add: file_kid_def)
      moreover have "files_kept s s'"
        by (rule files_kept_update [of _ _ k ?w]) (use True MCreate in \<open>simp_all add: s' set_view_def view_ok_def\<close>)
      ultimately show ?thesis using gm_create [of k ?ks] True MCreate by (simp add: s' del: nth_file_kids) (simp add: set_view_def)
    next
      case False
      with assms MCreate have s': "s' = s\<lparr>i_main := MGather 0\<rparr>" by (simp add: runtest_step_def Let_def)
      show ?thesis using gm_created [of k ?ks] False MCreate by (simp add: s' files_kept_same)
    qed
  next
    case (MGather k)
    show ?thesis
    proof (cases "k < ?n")
      case True
      with assms MGather have w: "wait_file k (MGather (k + 1)) s = Inr s'" by (simp add: runtest_step_def Let_def)
      from wait_file_move [OF w True] obtain b where b: "f_stop (v_file (i_files s ! k)) = Suc b" "i_main s' = MGather (k + 1)"
        "files_kept s s'" "genv (i_g s') = genv (i_g s)"
        "file_kids s' = ?ks[k := (file_stage (v_at (i_files s ! k)), f_start (v_file (i_files s ! k)), b)]" by blast
      have "?ks ! k = (file_stage (v_at (i_files s ! k)), f_start (v_file (i_files s ! k)), Suc b)" using True b(1) by (simp add: file_kid_def)
      from gm_gather [OF _ this] True b MGather show ?thesis by simp
    next
      case False
      with assms MGather have s': "s' = s\<lparr>i_main := MStart\<rparr>" by (simp add: runtest_step_def Let_def)
      show ?thesis using gm_gathered [of k ?ks] False MGather by (simp add: s' files_kept_same)
    qed
  next
    case MStart
    obtain t g where t: "tick (i_g s) = (t, g)" by fastforce
    with assms MStart have s': "s' = s\<lparr>i_g := g, i_main := MRelease 0 t (fe_ru env (ticks (genv (i_g s))))\<rparr>"
      by (simp add: runtest_step_def Let_def)
    show ?thesis using gm_open MStart tick_calls [OF t] by (simp add: s' files_kept_same)
  next
    case (MRelease k t r)
    show ?thesis
    proof (cases "k < ?n")
      case True
      let ?v = "i_files s ! k"
      let ?w = "?v\<lparr>v_file := (v_file ?v)\<lparr>f_start := f_start (v_file ?v) + 1\<rparr>\<rparr>"
      have s': "s' = (set_view k ?w s)\<lparr>i_main := MRelease (k + 1) t r\<rparr>" using assms MRelease True by (simp add: runtest_step_def Let_def)
      have "?ks ! k = (file_stage (v_at ?v), f_start (v_file ?v), f_stop (v_file ?v))" using True by (simp add: file_kid_def)
      note m = gm_release [OF _ this]
      have "file_kid ?w = (file_stage (v_at ?v), Suc (f_start (v_file ?v)), f_stop (v_file ?v))" by (simp add: file_kid_def)
      moreover have "files_kept s s'"
        by (rule files_kept_update [of _ _ k ?w]) (use True in \<open>simp_all add: s' set_view_def view_ok_def\<close>)
      ultimately show ?thesis using m True MRelease by (simp add: s') (simp add: set_view_def)
    next
      case False
      with assms MRelease have s': "s' = s\<lparr>i_main := MCollect 0 t r\<rparr>" by (simp add: runtest_step_def Let_def)
      show ?thesis using gm_released [of k ?ks] False MRelease by (simp add: s' files_kept_same)
    qed
  next
    case (MCollect k t r)
    show ?thesis
    proof (cases "k < ?n")
      case True
      with assms MCollect have w: "wait_file k (MCollect (k + 1) t r) s = Inr s'" by (simp add: runtest_step_def Let_def)
      from wait_file_move [OF w True] obtain b where b: "f_stop (v_file (i_files s ! k)) = Suc b" "i_main s' = MCollect (k + 1) t r"
        "files_kept s s'" "genv (i_g s') = genv (i_g s)"
        "file_kids s' = ?ks[k := (file_stage (v_at (i_files s ! k)), f_start (v_file (i_files s ! k)), b)]" by blast
      have "?ks ! k = (file_stage (v_at (i_files s ! k)), f_start (v_file (i_files s ! k)), Suc b)" using True b(1) by (simp add: file_kid_def)
      from gm_collect [OF _ this] True b MCollect show ?thesis by simp
    next
      case False
      with assms MCollect have s': "s' = s\<lparr>i_main := MOutput t r\<rparr>" by (simp add: runtest_step_def Let_def)
      show ?thesis using gm_collected [of k ?ks] False MCollect by (simp add: s' files_kept_same)
    qed
  next
    case (MOutput t r)
    obtain t2 g where t: "tick (i_g s) = (t2, g)" by fastforce
    with assms MOutput obtain o' where s': "s' = s\<lparr>i_g := g, i_main := MDone, i_out := Some o'\<rparr>"
      by (auto simp: runtest_step_def Let_def bind_res_Inr_iff)
    show ?thesis using gm_same MOutput tick_calls [OF t] by (simp add: s' files_kept_same)
  next
    case MDone
    with assms show ?thesis by (simp add: runtest_step_def Let_def)
  qed
  then show "gate_move (main_par (i_main s), file_kids s) (main_par (i_main s'), file_kids s')" "files_kept s s'"
    "calls (genv (i_g s')) = calls (genv (i_g s))" by blast+
qed

text \<open>Any step, seen from the main gate.\<close>

lemma inner_gate:
  assumes "i_files s' = (i_files s)[k := w]" "k < length (i_files s)" "view_move (i_files s ! k) w" "i_main s' = i_main s" "sys_ok s"
  shows "sys_ok s' \<and> gate_move (main_par (i_main s), file_kids s) (main_par (i_main s'), file_kids s')"
proof -
  have "file_kids s' = (file_kids s)[k := file_kid w]" using assms(1) by (simp add: file_kids_def map_update)
  then have "gate_move (main_par (i_main s), file_kids s) (main_par (i_main s'), file_kids s')"
    using gm_kid [of k "file_kids s" "file_kid w"] assms(2-4) by (simp add: view_move_def)
  moreover have "sys_ok s'" using assms by (auto simp: sys_ok_def list_all_length nth_list_update view_move_def)
  ultimately show ?thesis by blast
qed

lemma istep_inner:
  assumes "istep env fuel a s = Inr s'" "a \<noteq> AMain" "sys_ok s"
  shows "\<exists>k w. k < length (i_files s) \<and> i_files s' = (i_files s)[k := w] \<and> view_move (i_files s ! k) w \<and> i_main s' = i_main s"
proof (cases a)
  case AMain with assms(2) show ?thesis by simp
next
  case (AFile k)
  with assms(1) have k: "k < length (i_files s)" "file_step env k s = Inr s'" by (auto simp: istep_def split: if_splits)
  with assms(3) have "view_ok (i_files s ! k)" by (simp add: sys_ok_def list_all_length)
  from file_step_moves [OF k(2) this] k(1) show ?thesis by blast
next
  case (AIo k j)
  with assms(1) have k: "k < length (i_files s)" "j < length (v_ths (i_files s ! k))" "io_step fuel k j s = Inr s'"
    by (auto simp: istep_def split: if_splits)
  with assms(3) have "view_ok (i_files s ! k)" by (simp add: sys_ok_def list_all_length)
  from io_step_moves [OF k(3,1,2) this] k(1) show ?thesis by blast
qed

lemma imove_main_gate:
  assumes "imove env fuel s s'" "sys_ok s"
  shows "sys_ok s' \<and> gate_move (main_par (i_main s), file_kids s) (main_par (i_main s'), file_kids s')"
proof -
  from assms(1) obtain a where a: "istep env fuel a s = Inr s'" by (auto simp: imove_def)
  show ?thesis
  proof (cases "a = AMain")
    case True
    with a have r: "runtest_step env s = Inr s'" by (simp add: istep_def)
    show ?thesis using runtest_moves [OF r] assms(2) by (auto simp: sys_ok_def files_kept_def list_all_length)
  next
    case False
    from istep_inner [OF a False assms(2)] inner_gate assms(2) show ?thesis by blast
  qed
qed

interpretation files: gate "imove env fuel" sys_ok "\<lambda>s. main_par (i_main s)" file_kids for env fuel
  by unfold_locales (use imove_main_gate in blast)+

text \<open>Seen from the gate of the k-th file, whose thread the main thread creates only once.\<close>

definition file_good :: "nat \<Rightarrow> isys \<Rightarrow> bool" where
  "file_good k s \<longleftrightarrow> sys_ok s \<and> gate_ok (main_par (i_main s)) (file_kids s) \<and> k < length (i_files s)"

lemma file_gate:
  assumes "imove env fuel s s'" "file_good k s"
  shows "file_good k s' \<and> gate_move (file_par (v_at (i_files s ! k)), io_kids (i_files s ! k)) (file_par (v_at (i_files s' ! k)), io_kids (i_files s' ! k))"
proof -
  from assms(1) obtain a where a: "istep env fuel a s = Inr s'" by (auto simp: imove_def)
  have k: "k < length (i_files s)" "sys_ok s" and g: "gate_ok (main_par (i_main s)) (file_kids s)"
    using assms(2) by (simp_all add: file_good_def)
  note m = imove_main_gate [OF assms(1) k(2)]
  have "length (file_kids s') = length (file_kids s)"
    using m gate_move_length by blast
  with m gate_move_ok [OF _ g] k(1) have good: "file_good k s'" by (auto simp: file_good_def)
  show ?thesis
  proof (cases "a = AMain")
    case True
    with a have r: "runtest_step env s = Inr s'" by (simp add: istep_def)
    have fk: "io_kids (i_files s' ! k) = io_kids (i_files s ! k)"
      "v_at (i_files s' ! k) = v_at (i_files s ! k) \<or> i_main s = MCreate k \<and> v_at (i_files s' ! k) = FCreate 0"
      using runtest_moves(2) [OF r] k(1) by (auto simp: files_kept_def)
    have "v_at (i_files s ! k) = FNew" if "i_main s = MCreate k"
    proof -
      have "file_kid (i_files s ! k) = (Unborn, 0, 0)" using g k(1) that by (auto simp: gate_ok_def)
      then show ?thesis by (cases "v_at (i_files s ! k)") (simp_all add: file_kid_def)
    qed
    with fk have "file_par (v_at (i_files s' ! k)) = file_par (v_at (i_files s ! k))" by auto
    then show ?thesis using fk(1) gm_same good by simp
  next
    case False
    from istep_inner [OF a False k(2)] obtain i w where "i_files s' = (i_files s)[i := w]" "view_move (i_files s ! i) w" by blast
    then show ?thesis using k(1) gm_same good by (cases "i = k") (auto simp: view_move_def)
  qed
qed

interpretation threads: gate "imove env fuel" "file_good k"
    "\<lambda>s. file_par (v_at (i_files s ! k))" "\<lambda>s. io_kids (i_files s ! k)" for env fuel k
  by unfold_locales (use file_gate in blast)+
end
