(* ===== verification/FillOrder.thy ===== *)
theory FillOrder
  imports FillTest
begin

text \<open>
  What the two layers of start gates give \<open>iofill\<close>: all I/O lies between the two readings of the clock that the report is about,
  and no run gets stuck at a gate. The facts of the gates are those of the interpretations in \<open>FillTest\<close>.
\<close>

section \<open>Fresh files\<close>

definition fresh_files :: "fthread list \<Rightarrow> bool" where
  "fresh_files flist \<longleftrightarrow> (\<forall>f \<in> set flist. f_start f = 0 \<and> f_stop f = 0 \<and> (\<forall>t \<in> set (ithreads f). sems t = (0, 0)))"

lemma set_range_sems: "set_range tp = Inr tp' \<Longrightarrow> sems tp' = sems tp"
  by (auto simp: set_range_def Let_def bind_res_Inr_iff sems_def)

lemma reduce_header_sems: "reduce_header tp = Inr tp' \<Longrightarrow> sems tp' = sems tp"
  by (auto simp: reduce_header_def Let_def bind_res_Inr_iff split: if_splits)

lemma init_segments_sems: "init_segments lib tp x = Inr (tp', x') \<Longrightarrow> sems tp' = sems tp"
  by (auto simp: init_segments_def Let_def bind_res_Inr_iff sems_def split: if_splits prod.splits)

lemma ithreadinit_sems:
  assumes "ithreadinit lib opn ftp tid cp e = Inr (tp, e')"
  shows "sems tp = (0, 0)"
proof -
  from assms obtain z tp1 tp2 x c y where 1: "set_range z = Inr tp1" "sems z = (0, 0)"
    and 2: "(if c then init_segments lib tp1 y else Inr (tp1, y)) = Inr (tp2, x)" "reduce_header tp2 = Inr tp"
    unfolding ithreadinit_def Let_def split_beta
    by (auto elim!: bind_res_InrE simp: sems_def zero_iothread_def split del: if_split)
  from 2(1) have "sems tp2 = sems tp1" by (auto dest: init_segments_sems split: if_splits)
  with 1 2(2) set_range_sems reduce_header_sems show ?thesis by metis
qed

lemma make_threads_sems:
  "make_threads lib opn ftp cp al n acc e = Inr (ths, e') \<Longrightarrow> \<forall>t \<in> set acc. sems t = (0, 0) \<Longrightarrow> \<forall>t \<in> set ths. sems t = (0, 0)"
proof (induction n arbitrary: acc e)
  case (Suc n)
  from Suc.prems(1) obtain tp e1 where 1: "ithreadinit lib opn ftp (int n) cp e = Inr (tp, e1)"
    and 2: "make_threads lib opn ftp cp al n
        (tp\<lparr>th_align := al, shared_area := shared_block ftp + (n + 1) * IOB_CACHE_LINE\<rparr> # acc) e1 = Inr (ths, e')"
    by (auto simp: bind_res_Inr_iff)
  show ?case by (rule Suc.IH [OF 2]) (use ithreadinit_sems [OF 1] Suc.prems(2) in \<open>simp add: sems_def\<close>)
qed simp

lemma link_streams_sems: "\<forall>t \<in> set ths. sems t = (0, 0) \<Longrightarrow> \<forall>t \<in> set (link_streams cp ths). sems t = (0, 0)"
  by (auto simp: link_streams_def set_streamhead_def sems_def split: option.splits)

lemma fill_files_fresh:
  assumes "fill_files lib opn cp al fs e = Inr (fs', e')" "\<forall>f \<in> set fs. f_start f = 0 \<and> f_stop f = 0"
  shows "fresh_files fs'"
  using assms
proof (induction fs arbitrary: e fs')
  case Nil
  then show ?case by (simp add: fresh_files_def)
next
  case (Cons f fs)
  from Cons.prems(1) obtain ths e1 fs1 e2 where 1: "make_threads lib opn f cp al (nat (nthreads cp)) [] e = Inr (ths, e1)"
    and 2: "fill_files lib opn cp al fs e1 = Inr (fs1, e')" and 3: "fs' = f\<lparr>ithreads := link_streams cp ths\<rparr> # fs1"
    by (auto simp: bind_res_Inr_iff)
  from link_streams_sems make_threads_sems [OF 1] have "\<forall>t \<in> set (link_streams cp ths). sems t = (0, 0)" by simp
  with Cons.IH [OF 2] Cons.prems(2) 3 show ?case by (simp add: fresh_files_def)
qed

lemma make_files_fresh:
  "make_files lib fnames cp n fl = Inr fs \<Longrightarrow> \<forall>f \<in> set fl. f_start f = 0 \<and> f_stop f = 0 \<Longrightarrow> \<forall>f \<in> set fs. f_start f = 0 \<and> f_stop f = 0"
proof (induction n arbitrary: fl)
  case (Suc n)
  from Suc.prems(1) obtain f where 1: "fthreadinit lib (fnames ! n) cp = Inr f"
    and 2: "make_files lib fnames cp n (f\<lparr>shared_block := IOB_CACHE_LINE * nat (nthreads cp + 1) * n, fileno := int n\<rparr> # fl) = Inr fs"
    by (auto simp: bind_res_Inr_iff)
  have "f_start f = 0 \<and> f_stop f = 0" using 1 by (auto simp: fthreadinit_def bind_res_Inr_iff zero_fthread_def)
  with Suc.IH [OF 2] Suc.prems(2) show ?case by simp
qed simp

lemma init_threads_fresh:
  assumes "init_threads lib opn vm pst files cp e = Inr (flist, pools, dt, e')"
  shows "fresh_files flist"
proof -
  from assms obtain x where c: "create_files lib opn files cp (e\<lparr>rng := x\<rparr>) = Inr (flist, e')"
    unfolding init_threads_def Let_def by (elim bind_res_InrE bind_res_pairE) (simp only: sum.inject prod.inject)
  from c obtain fl al where 1: "make_files lib files cp (length files) [] = Inr fl"
    and 2: "fill_files lib opn cp al fl (e\<lparr>rng := x\<rparr>) = Inr (flist, e')"
    unfolding create_files_def Let_def by (elim bind_res_InrE)
  show ?thesis using fill_files_fresh [OF 2] make_files_fresh [OF 1] by simp
qed

section \<open>Reachable states\<close>

lemma start_gates:
  assumes "fresh_files flist"
  shows "sys_ok (start_test g flist)" "gate_ok (main_par (i_main (start_test g flist))) (file_kids (start_test g flist))"
    "k < length flist \<Longrightarrow> file_good k (start_test g flist)"
    "k < length flist \<Longrightarrow> gate_ok (file_par (v_at (i_files (start_test g flist) ! k))) (io_kids (i_files (start_test g flist) ! k))"
proof -
  show s: "sys_ok (start_test g flist)"
    by (simp add: sys_ok_def start_test_def list_all_length new_view_def view_ok_def Let_def)
  show m: "gate_ok (main_par (i_main (start_test g flist))) (file_kids (start_test g flist))"
    using assms by (simp add: gate_ok_def start_test_def new_view_def file_kid_def fresh_files_def Let_def)
  show "k < length flist \<Longrightarrow> file_good k (start_test g flist)"
    using s m by (simp add: file_good_def) (simp add: start_test_def)
  show "k < length flist \<Longrightarrow> gate_ok (file_par (v_at (i_files (start_test g flist) ! k))) (io_kids (i_files (start_test g flist) ! k))"
  proof -
    assume k: "k < length flist"
    then have "sems (ithreads (flist ! k) ! j) = (0, 0)" if "j < length (ithreads (flist ! k))" for j
      using assms [unfolded fresh_files_def] nth_mem [OF k] nth_mem [OF that] by blast
    then show ?thesis using k by (simp add: gate_ok_def start_test_def new_view_def io_kid_def Let_def)
  qed
qed

lemma reach_gates:
  assumes "rtranclp (imove env fuel) (start_test g flist) s" "fresh_files flist"
  shows "sys_ok s" "gate_ok (main_par (i_main s)) (file_kids s)" "length (i_files s) = length flist"
    "k < length flist \<Longrightarrow> gate_ok (file_par (v_at (i_files s ! k))) (io_kids (i_files s ! k))"
proof -
  note st = start_gates [OF assms(2), where g = g]
  note m = files.gate_reach [OF assms(1) st(1,2)]
  show "sys_ok s" "gate_ok (main_par (i_main s)) (file_kids s)" using m by simp_all
  show len: "length (i_files s) = length flist"
    using assms(1)
  proof (induction rule: rtranclp_induct)
    case base
    then show ?case by (simp add: start_test_def)
  next
    case (step y z)
    have "sys_ok y" using files.gate_reach [OF step.hyps(1) st(1,2)] by simp
    from imove_main_gate [OF step.hyps(2) this] gate_move_length have "length (file_kids z) = length (file_kids y)" by blast
    with step.IH show ?case by simp
  qed
  show "gate_ok (file_par (v_at (i_files s ! k))) (io_kids (i_files s ! k))" if "k < length flist"
    using threads.gate_reach [OF assms(1) st(3) [OF that] st(4) [OF that]] by simp
qed

text \<open>While the main gate is shut no file is past its own, and no I/O thread is in its loop.\<close>

lemma shut_file: "gate_ok (main_par (i_main s)) (file_kids s) \<Longrightarrow> shut (main_par (i_main s)) \<Longrightarrow> k < length (i_files s) \<Longrightarrow>
    v_at (i_files s ! k) \<noteq> FLeave \<and> shut (file_par (v_at (i_files s ! k)))"
  using shut_outside [of "main_par (i_main s)" "file_kids s" k] by (cases "v_at (i_files s ! k)") (simp_all add: file_kid_def)

lemma shut_thread:
  assumes "gate_ok (file_par (v_at v)) (io_kids v)" "shut (file_par (v_at v))" "j < length (v_ths v)"
  shows "v_in v ! j \<noteq> ILoop"
  using shut_outside [OF assms(1,2), of j] assms(3) by (auto simp: io_kid_def split: if_splits)

text \<open>When the main thread has collected all files, every thread of every file is out of its loop.\<close>

lemma all_ended:
  assumes "sys_ok s" "gate_ok (main_par (i_main s)) (file_kids s)" "main_par (i_main s) = PDone" "k < length (i_files s)"
    and "gate_ok (file_par (v_at (i_files s ! k))) (io_kids (i_files s ! k))" "j < length (v_ths (i_files s ! k))"
  shows "v_at (i_files s ! k) = FGone" "v_in (i_files s ! k) ! j = ILoop \<and> v_pcs (i_files s ! k) ! j = Ended"
proof -
  have "file_kid (i_files s ! k) = (Left, 0, 0)" using assms(2-4) by (auto simp: gate_ok_def)
  then show g: "v_at (i_files s ! k) = FGone" by (cases "v_at (i_files s ! k)") (simp_all add: file_kid_def)
  with assms(5,6) have "io_kid (i_files s ! k) j = (Left, 0, 0)" by (auto simp: gate_ok_def)
  then show "v_in (i_files s ! k) ! j = ILoop \<and> v_pcs (i_files s ! k) ! j = Ended"
    by (cases "v_in (i_files s ! k) ! j") (auto simp: io_kid_def split: if_splits)
qed

section \<open>Requests\<close>

definition requests :: "isys \<Rightarrow> iocall list" where
  "requests s = calls (genv (i_g s))"

lemma file_step_requests:
  assumes "file_step env k s = Inr s'"
  shows "requests s' = requests s"
proof -
  have g: "genv (file_g k s) = genv (i_g s)" by (simp add: file_g_def)
  have e: "calls (genv (file_end g)) = calls (genv g)" for g
    by (auto simp: file_end_def Let_def dest!: tick_calls split: prod.splits)
  have b: "calls e = calls (genv (i_g s))" if "file_begin f (genv (i_g s)) = (f', e)" for f f' e
    using that by (auto simp: file_begin_def iob_gettime_def Let_def split: prod.splits)
  show ?thesis using assms
    by (cases "v_at (i_files s ! k)")
      (auto simp: file_step_def Let_def requests_def put_file_def bind_res_Inr_iff g e split: if_splits prod.splits dest!: b)
qed

lemma io_step_requests:
  assumes "io_step fuel k j s = Inr s'" "v_in (i_files s ! k) ! j \<noteq> ILoop"
  shows "requests s' = requests s"
proof -
  have g: "genv (file_g k s) = genv (i_g s)" by (simp add: file_g_def)
  show ?thesis
  proof (cases "v_in (i_files s ! k) ! j")
    case IPrologue
    with assms(1) show ?thesis
      by (auto simp: io_step_def Let_def requests_def put_file_def bind_res_Inr_iff g dest!: io_prologue_sems)
  next
    case IBegin
    with assms(1) show ?thesis
      by (auto simp: io_step_def io_begin_def Let_def requests_def put_file_def g dest!: tick_calls split: prod.splits)
  qed (use assms in \<open>auto simp: io_step_def Let_def requests_def put_file_def bind_res_Inr_iff g\<close>)
qed

text \<open>A step that issues a request is one of a thread in its loop.\<close>

lemma quiet_step:
  assumes "istep env fuel a s = Inr s'"
    and "\<And>k j. k < length (i_files s) \<Longrightarrow> j < length (v_ths (i_files s ! k)) \<Longrightarrow>
      v_in (i_files s ! k) ! j \<noteq> ILoop \<or> v_pcs (i_files s ! k) ! j = Ended"
  shows "requests s' = requests s"
proof (cases a)
  case AMain
  with assms(1) have "runtest_step env s = Inr s'" by (simp add: istep_def)
  from runtest_moves(3) [OF this] show ?thesis by (simp add: requests_def)
next
  case (AFile k)
  with assms(1) show ?thesis by (auto simp: istep_def file_step_requests split: if_splits)
next
  case (AIo k j)
  with assms(1) have k: "k < length (i_files s)" "j < length (v_ths (i_files s ! k))" "io_step fuel k j s = Inr s'"
    by (auto simp: istep_def split: if_splits)
  have "v_in (i_files s ! k) ! j \<noteq> ILoop"
  proof
    assume l: "v_in (i_files s ! k) ! j = ILoop"
    with assms(2) [OF k(1,2)] have "v_pcs (i_files s ! k) ! j = Ended" by blast
    with k(3) l show False by (simp add: io_step_def Let_def thread_step_def)
  qed
  then show ?thesis by (rule io_step_requests [OF k(3)])
qed

lemma before_start:
  assumes "rtranclp (imove env fuel) (start_test g flist) s" "fresh_files flist" "shut (main_par (i_main s))"
  shows "requests s = calls (genv g)"
  using assms(1,3)
proof (induction rule: rtranclp_induct)
  case base
  then show ?case by (simp add: requests_def start_test_def)
next
  case (step y z)
  note r = reach_gates [OF step.hyps(1) assms(2)]
  have still: "gate_move (p, ks) (p', ks') \<Longrightarrow> shut p' \<Longrightarrow> shut p" for p p' ks ks'
    by (auto elim: gate_move.cases)
  have sh: "shut (main_par (i_main y))"
    using imove_main_gate [OF step.hyps(2) r(1)] still step.prems by blast
  from step.hyps(2) obtain a where a: "istep env fuel a y = Inr z" by (auto simp: imove_def)
  have "requests z = requests y"
  proof (rule quiet_step [OF a])
    fix k j assume k: "k < length (i_files y)" and j: "j < length (v_ths (i_files y ! k))"
    have "k < length flist" using k r(3) by simp
    from shut_thread [OF r(4) [OF this] _ j] shut_file [OF r(2) sh k]
    show "v_in (i_files y ! k) ! j \<noteq> ILoop \<or> v_pcs (i_files y ! k) ! j = Ended" by blast
  qed
  with step.IH sh show ?case by simp
qed

lemma after_end:
  assumes "rtranclp (imove env fuel) s s'" "rtranclp (imove env fuel) (start_test g flist) s" "fresh_files flist"
    and "main_par (i_main s) = PDone"
  shows "requests s' = requests s \<and> main_par (i_main s') = PDone"
  using assms(1)
proof (induction rule: rtranclp_induct)
  case base
  with assms(4) show ?case by simp
next
  case (step y z)
  have y: "rtranclp (imove env fuel) (start_test g flist) y" using assms(2) step.hyps(1) by (rule rtranclp_trans)
  note r = reach_gates [OF y assms(3)]
  have stays: "gate_move (PDone, ks) (p', ks') \<Longrightarrow> p' = PDone" for p' ks ks'
    by (auto elim: gate_move.cases)
  have d: "main_par (i_main z) = PDone" using imove_main_gate [OF step.hyps(2) r(1)] stays step.IH by metis
  from step.hyps(2) obtain a where a: "istep env fuel a y = Inr z" by (auto simp: imove_def)
  have "requests z = requests y"
  proof (rule quiet_step [OF a])
    fix k j assume k: "k < length (i_files y)" and j: "j < length (v_ths (i_files y ! k))"
    have "k < length flist" using k r(3) by simp
    from all_ended(2) [OF r(1,2) _ k r(4) [OF this] j] step.IH
    show "v_in (i_files y ! k) ! j \<noteq> ILoop \<or> v_pcs (i_files y ! k) ! j = Ended" by blast
  qed
  with step.IH d show ?case by simp
qed

section \<open>Who waits\<close>

text \<open>Waiting for a semaphore of a gate, not yet created, or gone; the pauses of write injection inside the loop are not meant.\<close>

definition iwaits :: "iactor \<Rightarrow> isys \<Rightarrow> bool" where
  "iwaits a s =
     (case a of
        AMain \<Rightarrow> (case i_main s of
            MGather k \<Rightarrow> k < length (i_files s) \<and> f_stop (v_file (i_files s ! k)) = 0
          | MCollect k t r \<Rightarrow> k < length (i_files s) \<and> f_stop (v_file (i_files s ! k)) = 0
          | MDone \<Rightarrow> True
          | _ \<Rightarrow> False)
      | AFile k \<Rightarrow> k < length (i_files s) \<longrightarrow> (let v = i_files s ! k in case v_at v of
            FNew \<Rightarrow> True
          | FGather j \<Rightarrow> j < length (v_ths v) \<and> th_stop (v_ths v ! j) = 0
          | FWait \<Rightarrow> f_start (v_file v) = 0
          | FCollect j \<Rightarrow> j < length (v_ths v) \<and> th_stop (v_ths v ! j) = 0
          | FGone \<Rightarrow> True
          | _ \<Rightarrow> False)
      | AIo k j \<Rightarrow> k < length (i_files s) \<and> j < length (v_ths (i_files s ! k)) \<longrightarrow> (let v = i_files s ! k in case v_in v ! j of
            INew \<Rightarrow> True
          | IReady \<Rightarrow> th_start (v_ths v ! j) = 0
          | ILoop \<Rightarrow> v_pcs v ! j = Ended
          | _ \<Rightarrow> False))"

lemma iwaits_blocked: "iwaits a s \<Longrightarrow> i_main s \<noteq> MDone \<Longrightarrow> istep env fuel a s = Inl Blocked"
  by (cases a)
    (auto simp: iwaits_def istep_def runtest_step_def file_step_def io_step_def wait_file_def wait_thread_def sem_wait_def
      thread_step_def Let_def split: mplace.splits fplace.splits iplace.splits)

lemma active_thread:
  assumes "k < length (i_files s)" "j < length (v_ths (i_files s ! k))" "kid_active (io_kids (i_files s ! k) ! j)"
  shows "\<not> iwaits (AIo k j) s"
  using assms by (cases "v_in (i_files s ! k) ! j") (auto simp: iwaits_def io_kid_def sems_def Let_def split: if_splits)

lemma active_file:
  assumes "k < length (i_files s)" "gate_ok (file_par (v_at (i_files s ! k))) (io_kids (i_files s ! k))"
    and "kid_active (file_kid (i_files s ! k))"
  shows "\<exists>a. \<not> iwaits a s"
proof (cases "iwaits (AFile k) s")
  case True
  with assms(1,3) have "parent_waits (file_par (v_at (i_files s ! k))) (io_kids (i_files s ! k))"
    by (cases "v_at (i_files s ! k)") (auto simp: iwaits_def file_kid_def io_kid_def sems_def Let_def)
  from awaited_active [OF assms(2) this] active_thread [OF assms(1)] show ?thesis by auto
qed blast

lemma never_stuck_at_gate:
  assumes "rtranclp (imove env fuel) (start_test g flist) s" "fresh_files flist" "i_main s \<noteq> MDone"
  shows "\<exists>a. \<not> iwaits a s"
proof (cases "iwaits AMain s")
  case True
  note r = reach_gates [OF assms(1,2)]
  from True assms(3) have "parent_waits (main_par (i_main s)) (file_kids s)"
    by (cases "i_main s") (auto simp: iwaits_def file_kid_def)
  from awaited_active [OF r(2) this] obtain k where "k < length (i_files s)" "kid_active (file_kid (i_files s ! k))" by auto
  with active_file r(3,4) show ?thesis by simp
qed blast

section \<open>Properties\<close>

text \<open>Following a schedule.\<close>

fun ifollow :: "fill_env \<Rightarrow> nat \<Rightarrow> iactor list \<Rightarrow> isys \<Rightarrow> isys res" where
  "ifollow env fuel [] s = Inr s"
| "ifollow env fuel (a # as) s = bind_res (istep env fuel a s) (ifollow env fuel as)"

lemma ifollow_reach: "ifollow env fuel as s = Inr s' \<Longrightarrow> rtranclp (imove env fuel) s s'"
proof (induction as arbitrary: s)
  case (Cons a as)
  then obtain s1 where "istep env fuel a s = Inr s1" "rtranclp (imove env fuel) s1 s'" by (auto simp: bind_res_Inr_iff)
  moreover from this(1) have "imove env fuel s s1" by (auto simp: imove_def)
  ultimately show ?case by (metis converse_rtranclp_into_rtranclp)
qed simp

text \<open>One file with one thread and nothing to write.\<close>

definition demo_files :: "fthread list" where
  "demo_files = [zero_fthread\<lparr>ithreads := [zero_iothread]\<rparr>]"

definition demo_fill_env :: fill_env where
  "demo_fill_env = \<lparr>fe_create = (\<lambda>_. 0), fe_prefix = ''out'', fe_can_open = (\<lambda>_. True), fe_ru = (\<lambda>_. zero_rusage)\<rparr>"

definition to_loop :: "iactor list" where
  "to_loop = [AMain, AFile 0, AIo 0 0, AFile 0, AFile 0, AFile 0, AFile 0, AMain, AMain, AMain, AMain, AMain,
     AFile 0, AFile 0, AFile 0, AIo 0 0, AIo 0 0]"

definition to_output :: "iactor list" where
  "to_output = [AIo 0 0, AIo 0 0, AIo 0 0, AIo 0 0, AFile 0, AFile 0, AFile 0, AFile 0, AMain, AMain, AMain]"

lemmas istep_defs = istep_def runtest_step_def file_step_def io_step_def wait_file_def wait_thread_def sem_wait_def
  put_file_def set_view_def file_g_def

lemma demo_fresh: "fresh_files demo_files"
  by (simp add: fresh_files_def demo_files_def zero_fthread_def zero_iothread_def sems_def)

text \<open>The state in which the thread has come into its loop.\<close>

definition in_loop :: "gstate \<Rightarrow> fthread \<Rightarrow> iothread \<Rightarrow> iolocals \<Rightarrow> u64 \<Rightarrow> isys" where
  "in_loop g f tp l t = \<lparr>i_g = g, i_files = [\<lparr>v_file = f, v_ths = [tp], v_locs = [l], v_pcs = [Top], v_in = [ILoop], v_at = FRelease 1\<rparr>],
     i_main = MRelease 1 t zero_rusage, i_out = None\<rparr>"

lemma start_to_loop:
  assumes "ithreads f = [tp]" "f_start f = 0" "f_stop f = 0" "sems tp = (0, 0)" "streams (params tp) = 0" "fe_ru env = (\<lambda>_. zero_rusage)"
    "fe_create env = (\<lambda>_. 0)"
  shows "\<exists>g' f' tp' l t. ifollow env 0 to_loop (start_test g [f]) = Inr (in_loop g' f' tp' l t)
    \<and> th_stop tp' = 0 \<and> params tp' = params tp \<and> iowait f' = iowait f \<and> totalio f' = totalio f
    \<and> thread_bno f' = thread_bno f \<and> f_stop f' = 0"
  using assms
  by (auto simp: to_loop_def start_test_def new_view_def istep_defs io_prologue_def io_begin_def file_begin_def sems_def
      post_stop_of_def in_loop_def set_rng_def tick_def Let_def split: prod.splits)

lemma loop_ends:
  assumes "th_stop tp = 0" "writeinject (params tp) = 0" "iowait f = 0" "totalio f = 0" "thread_bno f = 0" "f_stop f = 0"
  shows "\<exists>g' f' tp'. ifollow env 0 [AIo 0 0, AIo 0 0, AIo 0 0, AIo 0 0] (in_loop g f tp l t) = Inr \<lparr>i_g = g', i_files =
        [\<lparr>v_file = f', v_ths = [tp'], v_locs = [l], v_pcs = [Ended], v_in = [ILoop], v_at = FRelease 1\<rparr>],
      i_main = MRelease 1 t zero_rusage, i_out = None\<rparr> \<and> th_stop tp' = 1 \<and> f_stop f' = 0"
proof -
  obtain n1 g1 where 1: "tick (g\<lparr>pthread := f\<rparr>) = (n1, g1)" by fastforce
  then have p1: "pthread g1 = f" by (auto simp: tick_def split: prod.splits)
  let ?f2 = "f\<lparr>thread_bno := 1\<rparr>"
  obtain n2 g2 where 2: "tick (g1\<lparr>pthread := ?f2\<rparr>) = (n2, g2)" by fastforce
  then have p2: "pthread g2 = ?f2" by (auto simp: tick_def split: prod.splits)
  have same: "g1\<lparr>pthread := f\<rparr> = g1" using p1 by (metis gstate.surjective gstate.update_convs(8))
  show ?thesis using assms
    by (simp add: in_loop_def istep_defs thread_step_def step_top_def time_due_def step_check_def
      step_draw_def draw_block_def add_bno_def fetch_and_add_def step_leave_def io_end_def goto_def Let_def 1 p1 2 p2 same)
qed

lemma ended_to_output:
  assumes "th_stop tp = 1" "f_stop f = 0"
  shows "\<exists>s. ifollow env 0 [AFile 0, AFile 0, AFile 0, AFile 0, AMain, AMain, AMain] \<lparr>i_g = g, i_files =
        [\<lparr>v_file = f, v_ths = [tp], v_locs = [l], v_pcs = [Ended], v_in = [ILoop], v_at = FRelease 1\<rparr>],
      i_main = MRelease 1 t zero_rusage, i_out = None\<rparr> = Inr s \<and> i_main s = MOutput t zero_rusage"
proof -
  have "f_stop (pthread (file_end (g\<lparr>pthread := f\<rparr>))) = 1"
    using assms(2) by (auto simp: file_end_def tick_def Let_def split: prod.splits)
  then show ?thesis using assms by (simp add: istep_defs Let_def)
qed

lemma ifollow_append: "ifollow env fuel (xs @ ys) s = bind_res (ifollow env fuel xs s) (ifollow env fuel ys)"
  by (induction xs arbitrary: s) (auto simp: bind_res_def split: sum.splits)

lemma loop_to_output:
  assumes "th_stop tp = 0" "writeinject (params tp) = 0" "iowait f = 0" "totalio f = 0" "thread_bno f = 0" "f_stop f = 0"
  shows "\<exists>s. ifollow env 0 to_output (in_loop g f tp l t) = Inr s \<and> i_main s = MOutput t zero_rusage"
proof -
  have a: "to_output = [AIo 0 0, AIo 0 0, AIo 0 0, AIo 0 0] @ [AFile 0, AFile 0, AFile 0, AFile 0, AMain, AMain, AMain]"
    by (simp add: to_output_def)
  from loop_ends [OF assms] obtain g' f' tp' where 1: "ifollow env 0 [AIo 0 0, AIo 0 0, AIo 0 0, AIo 0 0] (in_loop g f tp l t) = Inr \<lparr>i_g = g', i_files =
        [\<lparr>v_file = f', v_ths = [tp'], v_locs = [l], v_pcs = [Ended], v_in = [ILoop], v_at = FRelease 1\<rparr>],
      i_main = MRelease 1 t zero_rusage, i_out = None\<rparr>" and 2: "th_stop tp' = 1" "f_stop f' = 0" by blast
  show ?thesis unfolding a ifollow_append 1 bind_res_simps by (rule ended_to_output [OF 2])
qed

lemma demo_reach:
  "\<exists>s s' t r. rtranclp (imove demo_fill_env 0) (start_test demo_state demo_files) s \<and> rtranclp (imove demo_fill_env 0) s s'
    \<and> (\<exists>g f tp l t. s = in_loop g f tp l t) \<and> i_main s' = MOutput t r"
proof -
  let ?f = "zero_fthread\<lparr>ithreads := [zero_iothread]\<rparr>"
  have "\<exists>g' f' tp' l t. ifollow demo_fill_env 0 to_loop (start_test demo_state [?f]) = Inr (in_loop g' f' tp' l t)
    \<and> th_stop tp' = 0 \<and> params tp' = params zero_iothread \<and> iowait f' = iowait ?f \<and> totalio f' = totalio ?f
    \<and> thread_bno f' = thread_bno ?f \<and> f_stop f' = 0"
    by (rule start_to_loop) (simp_all add: zero_fthread_def zero_iothread_def zero_params_def sems_def demo_fill_env_def)
  then obtain g f tp l t where 1: "ifollow demo_fill_env 0 to_loop (start_test demo_state demo_files) = Inr (in_loop g f tp l t)"
    and 2: "th_stop tp = 0" "writeinject (params tp) = 0" "iowait f = 0" "totalio f = 0" "thread_bno f = 0" "f_stop f = 0"
    by (auto simp: demo_files_def zero_fthread_def zero_iothread_def zero_params_def)
  from loop_to_output [OF 2] obtain s' where "ifollow demo_fill_env 0 to_output (in_loop g f tp l t) = Inr s'"
    "i_main s' = MOutput t zero_rusage" by blast
  with 1 ifollow_reach show ?thesis by blast
qed

text \<open>
  Property C6. The two readings of the clock that \<open>iofill\<close> reports on enclose all its I/O, in every interleaving of its threads
  over all files: before \<open>runtest\<close> opens the gates nothing has been requested of a device, and once it has collected the last file
  every thread of every file has ended and nothing more is ever requested. The files are as \<open>init_threads\<close> makes them
  (\<open>init_threads_fresh\<close>), all semaphores at zero.
\<close>

theorem all_io_measured:
  assumes "fresh_files flist" and "rtranclp (imove env fuel) (start_test g flist) s"
  shows "(shut (main_par (i_main s)) \<longrightarrow> requests s = calls (genv g))
    \<and> (main_par (i_main s) = PDone \<longrightarrow>
        (\<forall>k < length (i_files s). \<forall>j < length (v_ths (i_files s ! k)). v_pcs (i_files s ! k) ! j = Ended)
      \<and> (\<forall>s'. rtranclp (imove env fuel) s s' \<longrightarrow> requests s' = requests s))"
proof -
  note fr = assms(1)
  note r = reach_gates [OF assms(2) fr]
  have "v_pcs (i_files s ! k) ! j = Ended"
    if "main_par (i_main s) = PDone" "k < length (i_files s)" "j < length (v_ths (i_files s ! k))" for k j
    using all_ended(2) [OF r(1,2) that(1,2) r(4) that(3)] that(2) r(3) by simp
  then show ?thesis using before_start [OF assms(2) fr] after_end [OF _ assms(2) fr] by blast
qed

theorem all_io_measured_witness:
  "\<exists>s. rtranclp (imove demo_fill_env 0) (start_test demo_state demo_files) s \<and> main_par (i_main s) = PDone
    \<and> (\<forall>s'. rtranclp (imove demo_fill_env 0) s s' \<longrightarrow> requests s' = requests s)"
proof -
  from demo_reach obtain s0 s t r where r: "rtranclp (imove demo_fill_env 0) (start_test demo_state demo_files) s0"
    "rtranclp (imove demo_fill_env 0) s0 s" "i_main s = MOutput t r" by blast
  have "rtranclp (imove demo_fill_env 0) (start_test demo_state demo_files) s" using r(1,2) by (rule rtranclp_trans)
  with all_io_measured [OF demo_fresh this] r(3) show ?thesis by auto
qed

text \<open>Where \<open>runtest\<close> and the thread of its file stand while a thread is in its loop.\<close>

lemma places_around_loop:
  assumes "fresh_files flist" and "rtranclp (imove env fuel) (start_test g flist) s"
    and "k < length (i_files s)" and "j < length (v_ths (i_files s ! k))" and "v_in (i_files s ! k) ! j = ILoop"
    and "v_pcs (i_files s ! k) ! j \<noteq> Ended"
  shows "(\<exists>m. v_at (i_files s ! k) = FRelease m \<and> j < m \<or> v_at (i_files s ! k) = FCollect m \<and> m \<le> j)
    \<and> (\<exists>m t r. i_main s = MRelease m t r \<and> k < m \<or> i_main s = MCollect m t r \<and> m \<le> k)"
proof -
  note fr = assms(1)
  note r = reach_gates [OF assms(2) fr]
  let ?v = "i_files s ! k"
  have "kid_ok (file_par (v_at ?v)) j (io_kid ?v j)" using r(3,4) assms(3,4) by (force simp: gate_ok_def)
  with assms(5,6) have f: "\<exists>m. v_at ?v = FRelease m \<and> j < m \<or> v_at ?v = FCollect m \<and> m \<le> j"
    by (cases "v_at ?v") (auto simp: io_kid_def early_kid_def split: if_splits)
  have "kid_ok (main_par (i_main s)) k (file_kid ?v)" using r(2) assms(3) by (force simp: gate_ok_def)
  with f have "\<exists>m t r. i_main s = MRelease m t r \<and> k < m \<or> i_main s = MCollect m t r \<and> m \<le> k"
    by (cases "i_main s") (auto simp: file_kid_def early_kid_def split: if_splits)
  with f show ?thesis by blast
qed

text \<open>
  Property C8. An I/O thread of \<open>iofill\<close> is in its loop only between the release of its file by \<open>runtest\<close> and its collection, and
  between its own release by its \<open>file_thread\<close> and its collection.
\<close>

theorem loop_behind_gates:
  assumes "fresh_files flist" and "rtranclp (imove env fuel) (start_test g flist) s"
    and "k < length (i_files s)" and "j < length (v_ths (i_files s ! k))" and "v_in (i_files s ! k) ! j = ILoop"
    and "v_pcs (i_files s ! k) ! j \<noteq> Ended"
  shows "(\<exists>m. v_at (i_files s ! k) = FRelease m \<and> j < m \<or> v_at (i_files s ! k) = FCollect m \<and> m \<le> j)
    \<and> (\<exists>m t r. i_main s = MRelease m t r \<and> k < m \<or> i_main s = MCollect m t r \<and> m \<le> k)"
  using assms by (rule places_around_loop)

theorem loop_behind_gates_witness:
  "\<exists>s m. rtranclp (imove demo_fill_env 0) (start_test demo_state demo_files) s \<and> v_at (i_files s ! 0) = FRelease m \<and> 0 < m"
proof -
  from demo_reach obtain g f tp l t where
    r: "rtranclp (imove demo_fill_env 0) (start_test demo_state demo_files) (in_loop g f tp l t)" by blast
  from loop_behind_gates [OF demo_fresh r, of 0 0] r show ?thesis by (auto simp: in_loop_def)
qed

text \<open>
  Property C7. No run of \<open>iofill\<close> is stuck at a gate: until \<open>runtest\<close> has written its reports, in every reachable state some thread
  is not waiting for a \<open>start\<close> or a \<open>stop\<close>, whatever the number of files and threads.
\<close>

theorem fill_test_never_stuck:
  assumes "fresh_files flist" and "rtranclp (imove env fuel) (start_test g flist) s" and "i_main s \<noteq> MDone"
  shows "\<exists>a. \<not> iwaits a s"
  using never_stuck_at_gate [OF assms(2,1,3)] .

theorem fill_test_never_stuck_witness:
  "\<exists>s a. rtranclp (imove demo_fill_env 0) (start_test demo_state demo_files) s \<and> i_main s \<noteq> MDone \<and> \<not> iwaits a s"
proof -
  from demo_reach obtain g f tp l t where
    r: "rtranclp (imove demo_fill_env 0) (start_test demo_state demo_files) (in_loop g f tp l t)" by blast
  from fill_test_never_stuck [OF demo_fresh r] r show ?thesis by (auto simp: in_loop_def)
qed
end
