(* ===== verification/FillWhole.thy ===== *)
theory FillWhole
  imports FillOrder
begin

text \<open>
  The whole test of a plain fill: what \<open>FillRun\<close> shows of the threads of one file, seen through its projection \<open>file_sys\<close>,
  holds of every file while the threads of all of them, their \<open>file_thread\<close>s and \<open>runtest\<close> interleave. The files share the device
  and the table of details, but each writes through descriptors of its own.
\<close>

section \<open>A file within the test\<close>

text \<open>
  The time limit of a file is set when its test begins; until then the projection shows one that will do.
\<close>

fun begun :: "fplace \<Rightarrow> bool" where
  "begun (FRelease j) = True"
| "begun (FCollect j) = True"
| "begun FLeave = True"
| "begun FGone = True"
| "begun p = False"

definition file_limit :: "u64 \<Rightarrow> fview \<Rightarrow> u64" where
  "file_limit until v = (if begun (v_at v) then endtime (v_file v) else until)"

definition file_sys :: "u64 \<Rightarrow> gstate \<Rightarrow> fview \<Rightarrow> fsys" where
  "file_sys until g v = \<lparr>sys_g = g\<lparr>pthread := (v_file v)\<lparr>endtime := file_limit until v\<rparr>\<rparr>, sys_ths = v_ths v,
     sys_locs = v_locs v, sys_pcs = v_pcs v\<rparr>"

text \<open>The clock never passes the limit of a file, whenever it begins.\<close>

definition time_allowed :: "u64 \<Rightarrow> u64" where
  "time_allowed mt = (if mt \<noteq> 0 then mt else IOB_NSEC_TO_SEC * 100000000)"

definition timely :: "u64 \<Rightarrow> env \<Rightarrow> bool" where
  "timely mt e \<longleftrightarrow> (\<forall>n. within_time (timespec_ns (fst (clk e n)) (snd (clk e n)) + time_allowed mt) e)"

definition world :: "gstate \<Rightarrow> libstate \<times> pools \<times> u64 \<times> (nat \<Rightarrow> int \<times> int) \<times> (nat \<Rightarrow> iocall \<Rightarrow> int \<times> int)" where
  "world g = (glib g, gpools g, gstatusmb g, env_fixed (genv g))"

lemma world_simps [simp]:
  "world (g\<lparr>pthread := f\<rparr>) = world g" "world (g\<lparr>gdt := d\<rparr>) = world g" "world (set_rng x g) = world g"
  by (simp_all add: world_def set_rng_def env_fixed_def)

lemma fixed_world: "shared_fixed g' = shared_fixed g \<Longrightarrow> world g' = world g"
  by (simp add: shared_fixed_def world_def)

lemma world_timely: "world g' = world g \<Longrightarrow> timely mt (genv g') = timely mt (genv g)"
  by (simp add: world_def env_fixed_def timely_def within_time_def)

definition file_inv :: "shape \<Rightarrow> u64 \<Rightarrow> u64 \<Rightarrow> u64 \<Rightarrow> gstate \<Rightarrow> fview \<Rightarrow> (nat \<times> u64) list \<Rightarrow> bool" where
  "file_inv G T until mt g v evs \<longleftrightarrow> fill_inv G T (length (v_ths v)) evs (file_sys until g v)
     \<and> (\<forall>j < length (v_ths v). v_in v ! j \<noteq> ILoop \<longrightarrow> v_pcs v ! j = Top)
     \<and> (\<not> begun (v_at v) \<longrightarrow> maxtime (f_params (v_file v)) = mt)"

lemma file_inv_parts:
  assumes "file_inv G T until mt g v evs"
  shows "threads_ok G T (v_ths v)" "length (v_locs v) = length (v_ths v)" "length (v_pcs v) = length (v_ths v)"
    "\<forall>l \<in> set (v_locs v). l_cursize l = g_size G \<and> l_injbno l = 0" "table_ok (gdt g)"
    "within_time (file_limit until v) (genv g)"
    "\<And>j. j < length (v_ths v) \<Longrightarrow> v_in v ! j \<noteq> ILoop \<Longrightarrow> v_pcs v ! j = Top"
  using assms by (simp_all add: file_inv_def fill_inv_def static_inv_def file_sys_def shared_ok_def)

text \<open>What a file's part of the invariant depends on.\<close>

lemma file_inv_cong:
  assumes inv: "file_inv G T until mt g v evs"
    and g: "world g' = world g" "table_ok (gdt g')"
      "written_on (g_fds G) (calls (genv g')) = written_on (g_fds G) (calls (genv g))"
    and w: "threads_ok G T (v_ths w)" "length (v_ths w) = length (v_ths v)" "length (v_locs w) = length (v_ths v)"
      "\<forall>l \<in> set (v_locs w). l_cursize l = g_size G \<and> l_injbno l = 0" "v_pcs w = v_pcs v"
      "\<And>j. j < length (v_ths v) \<Longrightarrow> v_in w ! j \<noteq> ILoop \<Longrightarrow> v_pcs v ! j = Top"
    and f: "iowait (v_file w) = iowait (v_file v)" "totalio (v_file w) = totalio (v_file v)"
      "thread_bno (v_file w) = thread_bno (v_file v)"
      "\<not> begun (v_at w) \<Longrightarrow> \<not> begun (v_at v) \<and> f_params (v_file w) = f_params (v_file v)"
      "within_time (file_limit until w) (genv g)"
  shows "file_inv G T until mt g' w evs"
proof -
  have i: "fill_inv G T (length (v_ths v)) evs (file_sys until g v)" using inv by (simp add: file_inv_def)
  then have "shared_ok (sys_g (file_sys until g v))" by (simp add: fill_inv_def static_inv_def)
  then have "shared_ok (sys_g (file_sys until g' w))"
    using g f(5) by (simp add: shared_ok_def file_sys_def world_def env_fixed_def full_transfers_def within_time_def)
  then have "fill_inv G T (length (v_ths v)) evs (file_sys until g' w)"
    by (intro fill_inv_cong [OF i]) (use g w f in \<open>simp_all add: file_sys_def\<close>)
  then show ?thesis using inv w f(4) by (simp add: file_inv_def)
qed

lemma file_inv_else:
  assumes "file_inv G T until mt g v evs" "world g' = world g" "table_ok (gdt g')"
    and "written_on (g_fds G) (calls (genv g')) = written_on (g_fds G) (calls (genv g))"
  shows "file_inv G T until mt g' v evs"
  by (rule file_inv_cong [OF assms(1-4)]) (use file_inv_parts [OF assms(1)] in auto)

text \<open>The structure of a thread, of its file, or of both changes in what the invariant does not see.\<close>

lemma file_inv_keep:
  assumes inv: "file_inv G T until mt g v evs"
    and g: "world g' = world g" "gdt g' = gdt g" "calls (genv g') = calls (genv g)"
    and w: "threads_ok G T (v_ths w)" "length (v_ths w) = length (v_ths v)" "v_locs w = v_locs v" "v_pcs w = v_pcs v"
      "\<And>j. j < length (v_ths v) \<Longrightarrow> v_in w ! j \<noteq> ILoop \<Longrightarrow> v_pcs v ! j = Top"
    and f: "iowait (v_file w) = iowait (v_file v)" "totalio (v_file w) = totalio (v_file v)"
      "thread_bno (v_file w) = thread_bno (v_file v)" "f_params (v_file w) = f_params (v_file v)"
      "endtime (v_file w) = endtime (v_file v)" "begun (v_at w) = begun (v_at v)"
  shows "file_inv G T until mt g' w evs"
  by (rule file_inv_cong [OF inv g(1)]) (use file_inv_parts [OF inv] g w f in \<open>auto simp: file_limit_def\<close>)

section \<open>Steps left\<close>

fun io_left :: "iplace \<Rightarrow> nat" where
  "io_left INew = 3"
| "io_left IPrologue = 3"
| "io_left IReady = 2"
| "io_left IBegin = 1"
| "io_left ILoop = 0"

fun file_left :: "nat \<Rightarrow> fplace \<Rightarrow> nat" where
  "file_left n FNew = 4 * n + 8"
| "file_left n (FCreate j) = (n - j) + 3 * n + 8"
| "file_left n (FGather j) = (n - j) + 2 * n + 7"
| "file_left n FMeet = 2 * n + 6"
| "file_left n FWait = 2 * n + 5"
| "file_left n FBegin = 2 * n + 4"
| "file_left n (FRelease j) = (n - j) + n + 3"
| "file_left n (FCollect j) = (n - j) + 2"
| "file_left n FLeave = 1"
| "file_left n FGone = 0"

fun main_left :: "nat \<Rightarrow> mplace \<Rightarrow> nat" where
  "main_left n (MCreate k) = (n - k) + 3 * n + 6"
| "main_left n (MGather k) = (n - k) + 2 * n + 5"
| "main_left n MStart = 2 * n + 4"
| "main_left n (MRelease k t r) = (n - k) + n + 3"
| "main_left n (MCollect k t r) = (n - k) + 2"
| "main_left n (MOutput t r) = 1"
| "main_left n MDone = 0"

definition view_left :: "u64 \<Rightarrow> fview \<Rightarrow> nat \<Rightarrow> nat" where
  "view_left T v m = file_left (length (v_ths v)) (v_at v) + sum_list (map io_left (v_in v))
     + sum_list (map pc_weight (v_pcs v)) + 4 * (unat T - m)"

lemma view_left_file [simp]: "view_left T (v\<lparr>v_file := f\<rparr>) m = view_left T v m"
  by (simp add: view_left_def)

lemma in_left: "j < length xs \<Longrightarrow> sum_list (map io_left (xs[j := x])) + io_left (xs ! j) = sum_list (map io_left xs) + io_left x"
  by (rule sum_update)

section \<open>The steps of a file's threads\<close>

text \<open>What a step of a file's threads owes to its own file and to the others.\<close>

definition file_moves :: "shape \<Rightarrow> u64 \<Rightarrow> u64 \<Rightarrow> u64 \<Rightarrow> (nat \<times> u64) list \<Rightarrow> nat \<Rightarrow> isys \<Rightarrow> isys \<Rightarrow> bool" where
  "file_moves G T until mt evs k s s' \<longleftrightarrow> i_main s' = i_main s
     \<and> (\<exists>w evs'. i_files s' = (i_files s)[k := w] \<and> file_inv G T until mt (i_g s') w evs'
          \<and> Suc (view_left T w (length evs')) = view_left T (i_files s ! k) (length evs))
     \<and> world (i_g s') = world (i_g s) \<and> (\<exists>X. issued (g_fds G) (requests s) (requests s') X)"

lemma file_movesI:
  assumes "s' = put_file k w g s" "file_inv G T until mt g (w\<lparr>v_file := pthread g\<rparr>) evs'"
    and "Suc (view_left T w (length evs')) = view_left T (i_files s ! k) (length evs)"
    and "world g = world (i_g s)" "issued (g_fds G) (requests s) (calls (genv g)) X"
  shows "file_moves G T until mt evs k s s'"
  unfolding file_moves_def
proof (intro conjI)
  show "\<exists>w' evs'. i_files s' = (i_files s)[k := w'] \<and> file_inv G T until mt (i_g s') w' evs'
      \<and> Suc (view_left T w' (length evs')) = view_left T (i_files s ! k) (length evs)"
    using assms(1-3) by (intro exI [of _ "w\<lparr>v_file := pthread g\<rparr>"] exI [of _ evs']) (simp add: put_file_def)
qed (use assms in \<open>auto simp: put_file_def requests_def\<close>)

text \<open>A step that makes no request and keeps the world.\<close>

lemma quiet_moves:
  assumes inv: "file_inv G T until mt (i_g s) (i_files s ! k) evs"
    and s': "s' = put_file k w g s" and g: "world g = world (i_g s)" "gdt g = gdt (i_g s)" "calls (genv g) = calls (genv (i_g s))"
    and w: "threads_ok G T (v_ths w)" "length (v_ths w) = length (v_ths (i_files s ! k))"
      "v_locs w = v_locs (i_files s ! k)" "v_pcs w = v_pcs (i_files s ! k)"
      "\<And>j. j < length (v_ths (i_files s ! k)) \<Longrightarrow> v_in w ! j \<noteq> ILoop \<Longrightarrow> v_pcs (i_files s ! k) ! j = Top"
    and f: "iowait (pthread g) = iowait (v_file (i_files s ! k))" "totalio (pthread g) = totalio (v_file (i_files s ! k))"
      "thread_bno (pthread g) = thread_bno (v_file (i_files s ! k))" "f_params (pthread g) = f_params (v_file (i_files s ! k))"
      "endtime (pthread g) = endtime (v_file (i_files s ! k))" "begun (v_at w) = begun (v_at (i_files s ! k))"
    and l: "Suc (view_left T w (length evs)) = view_left T (i_files s ! k) (length evs)"
  shows "file_moves G T until mt evs k s s'"
proof (rule file_movesI [OF s' _ l g(1)])
  show "file_inv G T until mt g (w\<lparr>v_file := pthread g\<rparr>) evs"
    by (rule file_inv_keep [OF inv g]) (use w f in simp_all)
  show "issued (g_fds G) (requests s) (calls (genv g)) {}" using g(3) by (simp add: requests_def)
qed

lemma thread_upd:
  assumes "file_inv G T until mt g v evs" "j < length (v_ths v)" "thread_fixed tp = thread_fixed (v_ths v ! j)"
    and "nseconds tp = nseconds (v_ths v ! j)"
  shows "threads_ok G T ((v_ths v)[j := tp])"
proof (rule threads_ok_update [OF file_inv_parts(1) [OF assms(1)] assms(2,3)])
  show "nseconds tp < NSEC" using file_inv_parts(1) [OF assms(1)] assms(2,4) by (simp add: threads_ok_def)
qed

lemma begin_moves:
  assumes inv: "file_inv G T until mt (i_g s) (i_files s ! k) evs" and st: "file_step env k s = Inr s'"
    and t: "timely mt (genv (i_g s))" and p: "v_at (i_files s ! k) = FBegin"
  shows "file_moves G T until mt evs k s s'"
proof -
  let ?v = "i_files s ! k" and ?g = "file_g k s"
  note pa = file_inv_parts [OF inv]
  obtain now e where gt: "iob_gettime (genv (i_g s)) = (now, e)" by fastforce
  have mt: "maxtime (f_params (v_file ?v)) = mt" using inv p by (simp add: file_inv_def)
  define f where "f = (v_file ?v)\<lparr>f_starttime := now, endtime := now + time_allowed mt\<rparr>"
  define g where "g = ?g\<lparr>genv := e, pthread := f\<rparr>"
  have s': "s' = put_file k (?v\<lparr>v_at := FRelease 0\<rparr>) g s"
    using st p gt mt by (simp add: file_step_def file_begin_def Let_def f_def g_def time_allowed_def) (auto simp: file_g_def gt)
  have e: "env_fixed e = env_fixed (genv (i_g s))" "calls e = calls (genv (i_g s))"
    and now: "\<exists>n. now = timespec_ns (fst (clk (genv (i_g s)) n)) (snd (clk (genv (i_g s)) n))"
    using gt by (auto simp: iob_gettime_def env_fixed_def split: prod.splits) (metis fst_conv snd_conv)
  have w: "within_time (now + time_allowed mt) (genv (i_g s))" using t now by (auto simp: timely_def)
  have gw: "world g = world (i_g s)" using e by (simp add: g_def world_def file_g_def)
  have gg: "table_ok (gdt g)" "calls (genv g) = calls (genv (i_g s))" "pthread g = f" using pa e by (simp_all add: g_def file_g_def)
  show ?thesis
  proof (rule file_movesI [OF s' _ _ gw])
    show "file_inv G T until mt g (?v\<lparr>v_at := FRelease 0\<rparr>\<lparr>v_file := pthread g\<rparr>) evs"
      by (rule file_inv_cong [OF inv gw gg(1)]) (use pa gg w in \<open>auto simp: f_def file_limit_def\<close>)
    show "Suc (view_left T (?v\<lparr>v_at := FRelease 0\<rparr>) (length evs)) = view_left T ?v (length evs)" using p by (simp add: view_left_def)
    show "issued (g_fds G) (requests s) (calls (genv g)) {}" using gg by (simp add: requests_def)
  qed
qed

lemma wait_thread_ok:
  "wait_thread j next v = Inr w \<Longrightarrow> \<exists>b. th_stop (v_ths v ! j) = Suc b
    \<and> w = v\<lparr>v_ths := (v_ths v)[j := (v_ths v ! j)\<lparr>th_stop := b\<rparr>], v_at := next\<rparr>"
  by (auto simp: wait_thread_def sem_wait_def bind_res_Inr_iff gr0_conv_Suc split: if_splits)

lemma file_file_moves:
  assumes inv: "file_inv G T until mt (i_g s) (i_files s ! k) evs" and st: "file_step env k s = Inr s'"
    and t: "timely mt (genv (i_g s))" and v: "view_ok (i_files s ! k)"
    and ga: "gate_ok (file_par (v_at (i_files s ! k))) (io_kids (i_files s ! k))"
  shows "file_moves G T until mt evs k s s'"
proof -
  let ?v = "i_files s ! k" and ?g = "file_g k s"
  let ?n = "length (v_ths ?v)"
  note pa = file_inv_parts [OF inv]
  have ln: "length (v_in ?v) = ?n" using v by (simp add: view_ok_def)
  have g: "world ?g = world (i_g s)" "gdt ?g = gdt (i_g s)" "genv ?g = genv (i_g s)" "pthread ?g = v_file ?v"
    by (simp_all add: file_g_def)
  note qm = quiet_moves [OF inv]
  have up: "threads_ok G T ((v_ths ?v)[j := (v_ths ?v ! j)\<lparr>th_stop := a\<rparr>])"
    "threads_ok G T ((v_ths ?v)[j := (v_ths ?v ! j)\<lparr>th_start := a\<rparr>])" if "j < ?n" for j a
    using thread_upd [OF inv that] by (simp_all add: thread_fixed_def)
  show ?thesis
  proof (cases "v_at ?v")
    case FNew with st show ?thesis by (simp add: file_step_def Let_def)
  next
    case (FCreate j)
    show ?thesis
    proof (cases "j < ?n")
      case True
      have "kid_ok (PCreate j) j (io_kid ?v j)" using ga FCreate True by (force simp: gate_ok_def)
      then have new: "v_in ?v ! j = INew" by (cases "v_in ?v ! j") (auto simp: io_kid_def split: if_splits)
      have s': "s' = put_file k (?v\<lparr>v_in := (v_in ?v)[j := IPrologue], v_at := FCreate (j + 1)\<rparr>) ?g s"
        using st FCreate True by (simp add: file_step_def Let_def)
      have top: "v_pcs ?v ! i = Top" if "i < ?n" "(v_in ?v)[j := IPrologue] ! i \<noteq> ILoop" for i
        using pa(7) [of i] new that ln by (cases "i = j") simp_all
      show ?thesis
        by (rule qm [OF s']) (use g pa(1-6) top FCreate True new ln in_left [of j "v_in ?v" IPrologue] in
          \<open>auto simp: view_left_def\<close>)
    next
      case False
      with st FCreate have s': "s' = put_file k (?v\<lparr>v_at := FGather 0\<rparr>) ?g s" by (simp add: file_step_def Let_def)
      show ?thesis by (rule qm [OF s']) (use g pa FCreate False in \<open>auto simp: view_left_def\<close>)
    qed
  next
    case (FGather j)
    show ?thesis
    proof (cases "j < ?n")
      case True
      with st FGather obtain w where w: "wait_thread j (FGather (j + 1)) ?v = Inr w" "s' = put_file k w ?g s"
        by (auto simp: file_step_def Let_def bind_res_Inr_iff)
      from wait_thread_ok [OF w(1)] obtain b where
        b: "w = ?v\<lparr>v_ths := (v_ths ?v)[j := (v_ths ?v ! j)\<lparr>th_stop := b\<rparr>], v_at := FGather (j + 1)\<rparr>" by blast
      show ?thesis by (rule qm [OF w(2)]) (use g pa FGather True up in \<open>auto simp: b view_left_def\<close>)
    next
      case False
      with st FGather have s': "s' = put_file k (?v\<lparr>v_at := FMeet\<rparr>) ?g s" by (simp add: file_step_def Let_def)
      show ?thesis by (rule qm [OF s']) (use g pa FGather False in \<open>auto simp: view_left_def\<close>)
    qed
  next
    case FMeet
    with st have s': "s' = put_file k (?v\<lparr>v_at := FWait\<rparr>) (?g\<lparr>pthread := (v_file ?v)\<lparr>f_stop := f_stop (v_file ?v) + 1\<rparr>\<rparr>) s"
      by (simp add: file_step_def Let_def)
    show ?thesis by (rule qm [OF s']) (use g pa FMeet in \<open>auto simp: view_left_def\<close>)
  next
    case FWait
    with st obtain a where s': "s' = put_file k (?v\<lparr>v_at := FBegin\<rparr>) (?g\<lparr>pthread := (v_file ?v)\<lparr>f_start := a\<rparr>\<rparr>) s"
      by (auto simp: file_step_def Let_def bind_res_Inr_iff)
    show ?thesis by (rule qm [OF s']) (use g pa FWait in \<open>auto simp: view_left_def\<close>)
  next
    case FBegin
    from begin_moves [OF inv st t this] show ?thesis .
  next
    case (FRelease j)
    show ?thesis
    proof (cases "j < ?n")
      case True
      with st FRelease have s': "s' = put_file k (?v\<lparr>v_ths := (v_ths ?v)[j := (v_ths ?v ! j)\<lparr>th_start := th_start (v_ths ?v ! j) + 1\<rparr>],
          v_at := FRelease (j + 1)\<rparr>) ?g s" by (simp add: file_step_def Let_def)
      show ?thesis by (rule qm [OF s']) (use g pa FRelease True up in \<open>auto simp: view_left_def\<close>)
    next
      case False
      with st FRelease have s': "s' = put_file k (?v\<lparr>v_at := FCollect 0\<rparr>) ?g s" by (simp add: file_step_def Let_def)
      show ?thesis by (rule qm [OF s']) (use g pa FRelease False in \<open>auto simp: view_left_def\<close>)
    qed
  next
    case (FCollect j)
    show ?thesis
    proof (cases "j < ?n")
      case True
      with st FCollect obtain w where w: "wait_thread j (FCollect (j + 1)) ?v = Inr w" "s' = put_file k w ?g s"
        by (auto simp: file_step_def Let_def bind_res_Inr_iff)
      from wait_thread_ok [OF w(1)] obtain b where
        b: "w = ?v\<lparr>v_ths := (v_ths ?v)[j := (v_ths ?v ! j)\<lparr>th_stop := b\<rparr>], v_at := FCollect (j + 1)\<rparr>" by blast
      show ?thesis by (rule qm [OF w(2)]) (use g pa FCollect True up in \<open>auto simp: b view_left_def\<close>)
    next
      case False
      with st FCollect have s': "s' = put_file k (?v\<lparr>v_at := FLeave\<rparr>) ?g s" by (simp add: file_step_def Let_def)
      show ?thesis by (rule qm [OF s']) (use g pa FCollect False in \<open>auto simp: view_left_def\<close>)
    qed
  next
    case FLeave
    obtain now g1 where tk: "tick ?g = (now, g1)" by fastforce
    note g1 = tick_simps [OF tk]
    have s': "s' = put_file k (?v\<lparr>v_at := FGone\<rparr>)
        (g1\<lparr>pthread := (v_file ?v)\<lparr>f_stoptime := now, f_stop := f_stop (v_file ?v) + 1\<rparr>\<rparr>) s"
      using st FLeave tk g1 g by (simp add: file_step_def file_end_def Let_def)
    have "world g1 = world (i_g s)" using fixed_world [of g1 ?g] g1 g by simp
    then show ?thesis by (intro qm [OF s']) (use g g1 pa FLeave in \<open>auto simp: view_left_def\<close>)
  next
    case FGone with st show ?thesis by (simp add: file_step_def Let_def)
  qed
qed

lemma prologue_plain:
  assumes "straight G tp"
  shows "io_prologue tp g = Inr (tp, set_rng (srand48 (randseed (params tp))) g)"
  using assms by (simp add: io_prologue_def straight_def Let_def)

lemma loop_begun:
  assumes "gate_ok (file_par (v_at v)) (io_kids v)" "j < length (v_ths v)" "v_in v ! j = ILoop" "v_pcs v ! j \<noteq> Ended"
  shows "begun (v_at v)"
proof -
  have "kid_ok (file_par (v_at v)) j (io_kid v j)" using assms(1,2) by (force simp: gate_ok_def)
  with assms(3,4) show ?thesis by (cases "v_at v") (auto simp: io_kid_def early_kid_def split: if_splits)
qed

lemma begun_sys:
  "begun (v_at (i_files s ! k)) \<Longrightarrow> file_sys until (i_g s) (i_files s ! k) = \<lparr>sys_g = file_g k s, sys_ths = v_ths (i_files s ! k),
     sys_locs = v_locs (i_files s ! k), sys_pcs = v_pcs (i_files s ! k)\<rparr>"
  by (cases "v_file (i_files s ! k)") (simp add: file_sys_def file_limit_def file_g_def)

lemma loop_moves:
  assumes inv: "file_inv G T until mt (i_g s) (i_files s ! k) evs" and st: "io_step fuel k j s = Inr s'"
    and v: "view_ok (i_files s ! k)" and ga: "gate_ok (file_par (v_at (i_files s ! k))) (io_kids (i_files s ! k))"
    and j: "j < length (v_ths (i_files s ! k))" and p: "v_in (i_files s ! k) ! j = ILoop"
    and G: "shape_ok G" "unat T + length (v_ths (i_files s ! k)) < 2 ^ 64"
  shows "file_moves G T until mt evs k s s'"
proof -
  let ?v = "i_files s ! k"
  let ?t0 = "\<lparr>sys_g = file_g k s, sys_ths = v_ths ?v, sys_locs = v_locs ?v, sys_pcs = v_pcs ?v\<rparr>"
  obtain t where t: "thread_step fuel j ?t0 = Inr t"
    and s': "s' = put_file k (?v\<lparr>v_ths := sys_ths t, v_locs := sys_locs t, v_pcs := sys_pcs t\<rparr>) (sys_g t) s"
    using st p by (auto simp: io_step_def Let_def bind_res_Inr_iff)
  have ne: "v_pcs ?v ! j \<noteq> Ended" using t by (auto simp: thread_step_def)
  have b: "begun (v_at ?v)" using loop_begun [OF ga j p ne] .
  have sys: "file_sys until (i_g s) ?v = ?t0" using begun_sys [OF b] .
  have fi: "fill_inv G T (length (v_ths ?v)) evs ?t0" using inv by (simp add: file_inv_def sys)
  obtain evs' where e: "fill_inv G T (length (v_ths ?v)) evs' t" "Suc (steps_left T evs' t) = steps_left T evs ?t0"
    using fill_progress [OF fi G(1) j G(2), of fuel] t by auto
  from step_issues [OF fi G(1) j t] obtain X where
    i: "shared_fixed (sys_g t) = shared_fixed (file_g k s)" "issued (g_fds G) (calls (genv (file_g k s))) (calls (genv (sys_g t))) X"
    by auto
  have lk: "lengths_ok ?t0" using v by (simp add: lengths_ok_def view_ok_def)
  from thread_step_kept [OF t _ lk] j obtain q where
    kp: "length (sys_ths t) = length (v_ths ?v)" "sys_pcs t = (v_pcs ?v)[j := q]" by (auto simp: kept_def)
  let ?w = "?v\<lparr>v_ths := sys_ths t, v_locs := sys_locs t, v_pcs := sys_pcs t\<rparr>"
  have top: "(v_pcs ?v)[j := q] ! i = Top" if "i < length (v_ths ?v)" "v_in ?v ! i \<noteq> ILoop" for i
    using file_inv_parts(7) [OF inv that] that(2) p by (cases "i = j") simp_all
  have tw: "file_sys until (sys_g t) (?w\<lparr>v_file := pthread (sys_g t)\<rparr>) = t"
  proof -
    have r: "g\<lparr>pthread := (pthread g)\<lparr>endtime := endtime (pthread g)\<rparr>\<rparr> = g" for g by (cases g; cases "pthread g") simp
    show ?thesis using b by (simp add: file_sys_def file_limit_def r)
  qed
  show ?thesis
  proof (rule file_movesI [OF s'])
    show "file_inv G T until mt (sys_g t) (?w\<lparr>v_file := pthread (sys_g t)\<rparr>) evs'"
      using e(1) kp b top unfolding file_inv_def tw by simp
    show "Suc (view_left T ?w (length evs')) = view_left T ?v (length evs)"
      using e(2) kp(1) by (simp add: view_left_def steps_left_def)
    show "world (sys_g t) = world (i_g s)" using fixed_world [OF i(1)] by (simp add: file_g_def)
    show "issued (g_fds G) (requests s) (calls (genv (sys_g t))) X" using i(2) by (simp add: requests_def file_g_def)
  qed
qed

lemma io_io_moves:
  assumes inv: "file_inv G T until mt (i_g s) (i_files s ! k) evs" and st: "io_step fuel k j s = Inr s'"
    and v: "view_ok (i_files s ! k)" and ga: "gate_ok (file_par (v_at (i_files s ! k))) (io_kids (i_files s ! k))"
    and j: "j < length (v_ths (i_files s ! k))"
    and G: "shape_ok G" "unat T + length (v_ths (i_files s ! k)) < 2 ^ 64"
  shows "file_moves G T until mt evs k s s'"
proof -
  let ?v = "i_files s ! k" and ?g = "file_g k s"
  let ?tp = "v_ths ?v ! j"
  note pa = file_inv_parts [OF inv]
  have ln: "length (v_in ?v) = length (v_ths ?v)" "length (v_locs ?v) = length (v_ths ?v)" using v by (simp_all add: view_ok_def)
  have g: "world ?g = world (i_g s)" "gdt ?g = gdt (i_g s)" "genv ?g = genv (i_g s)" "pthread ?g = v_file ?v"
    by (simp_all add: file_g_def)
  have top: "v_pcs ?v ! i = Top" if "i < length (v_ths ?v)" "v_in ?v ! j \<noteq> ILoop" "(v_in ?v)[j := x] ! i \<noteq> ILoop" for i x
    using pa(7) [of i] that ln j by (cases "i = j") simp_all
  note sum = in_left [of j "v_in ?v"]
  show ?thesis
  proof (cases "v_in ?v ! j")
    case INew with st show ?thesis by (simp add: io_step_def Let_def)
  next
    case IPrologue
    let ?g1 = "set_rng (srand48 (randseed (params ?tp))) ?g"
    have "straight G ?tp" using pa(1) j by (simp add: threads_ok_def)
    from prologue_plain [OF this] st IPrologue have
      s': "s' = put_file k (?v\<lparr>v_ths := (v_ths ?v)[j := post_stop_of ?tp], v_in := (v_in ?v)[j := IReady]\<rparr>) ?g1 s"
      by (simp add: io_step_def Let_def)
    have g1: "world ?g1 = world (i_g s)" "gdt ?g1 = gdt (i_g s)" "calls (genv ?g1) = calls (genv (i_g s))" "pthread ?g1 = v_file ?v"
      unfolding world_simps using g by (simp_all add: set_rng_def)
    have up: "threads_ok G T ((v_ths ?v)[j := post_stop_of ?tp])"
      by (rule thread_upd [OF inv j]) (simp_all add: post_stop_of_def thread_fixed_def)
    show ?thesis
      by (rule quiet_moves [OF inv s' g1(1-3)]) (use g1 up top IPrologue j ln sum [of IReady] in \<open>auto simp: view_left_def\<close>)
  next
    case IReady
    with st obtain a where
      s': "s' = put_file k (?v\<lparr>v_ths := (v_ths ?v)[j := ?tp\<lparr>th_start := a\<rparr>], v_in := (v_in ?v)[j := IBegin]\<rparr>) ?g s"
      by (auto simp: io_step_def Let_def bind_res_Inr_iff)
    have up: "threads_ok G T ((v_ths ?v)[j := ?tp\<lparr>th_start := a\<rparr>])"
      by (rule thread_upd [OF inv j]) (simp_all add: thread_fixed_def)
    show ?thesis
      by (rule quiet_moves [OF inv s']) (use g up top IReady j ln sum [of IBegin] in \<open>auto simp: view_left_def\<close>)
  next
    case IBegin
    obtain now g1 where tk: "tick ?g = (now, g1)" by fastforce
    note g1 = tick_simps [OF tk]
    define l where "l = snd (fst (io_begin ?tp ?g))"
    have l: "l_cursize l = iosize (params ?tp)" "l_injbno l = 0" using tk by (simp_all add: l_def io_begin_def Let_def)
    let ?w = "?v\<lparr>v_ths := (v_ths ?v)[j := ?tp\<lparr>starttime := now\<rparr>], v_locs := (v_locs ?v)[j := l], v_pcs := (v_pcs ?v)[j := Top],
        v_in := (v_in ?v)[j := ILoop]\<rparr>"
    have s': "s' = put_file k ?w g1 s" using st IBegin tk by (simp add: io_step_def io_begin_def l_def Let_def)
    have same: "(v_pcs ?v)[j := Top] = v_pcs ?v" using pa(7) [OF j] IBegin by (metis iplace.distinct(19) list_update_id)
    have up: "threads_ok G T ((v_ths ?v)[j := ?tp\<lparr>starttime := now\<rparr>])"
      by (rule thread_upd [OF inv j]) (simp_all add: thread_fixed_def)
    have "iosize (params ?tp) = g_size G" using pa(1) j by (simp add: threads_ok_def straight_def Let_def)
    then have ls: "\<forall>l' \<in> set ((v_locs ?v)[j := l]). l_cursize l' = g_size G \<and> l_injbno l' = 0"
      using pa(4) l set_update_subset_insert [of "v_locs ?v" j l] by auto
    have w1: "world g1 = world (i_g s)" using fixed_world [of g1 ?g] g1 g by simp
    have c1: "pthread g1 = v_file ?v" "table_ok (gdt g1)" "calls (genv g1) = calls (genv (i_g s))" using g1 g pa(5) by simp_all
    show ?thesis
    proof (rule file_movesI [OF s' _ _ w1])
      show "file_inv G T until mt g1 (?w\<lparr>v_file := pthread g1\<rparr>) evs"
        by (rule file_inv_cong [OF inv w1 c1(2)]) (use c1 up ls same pa ln top IBegin in \<open>auto simp: file_limit_def\<close>)
      show "Suc (view_left T ?w (length evs)) = view_left T ?v (length evs)"
        using IBegin j ln sum [of ILoop] same by (simp add: view_left_def)
      show "issued (g_fds G) (requests s) (calls (genv g1)) {}" using c1 by (simp add: requests_def)
    qed
  next
    case ILoop
    from loop_moves [OF inv st v ga j this G] show ?thesis .
  qed
qed

text \<open>Where a step does not go on, it waits: no plain fill faults.\<close>

lemma io_no_fault:
  assumes inv: "file_inv G T until mt (i_g s) (i_files s ! k) evs" and st: "io_step fuel k j s = Inl e"
    and ga: "gate_ok (file_par (v_at (i_files s ! k))) (io_kids (i_files s ! k))" and j: "j < length (v_ths (i_files s ! k))"
    and G: "shape_ok G" "unat T + length (v_ths (i_files s ! k)) < 2 ^ 64"
  shows "e = Blocked \<and> iwaits (AIo k j) s"
proof -
  let ?v = "i_files s ! k"
  show ?thesis
  proof (cases "v_in ?v ! j")
    case IPrologue
    have "straight G (v_ths ?v ! j)" using file_inv_parts(1) [OF inv] j by (simp add: threads_ok_def)
    from prologue_plain [OF this] st IPrologue show ?thesis by (simp add: io_step_def Let_def)
  next
    case ILoop
    show ?thesis
    proof (cases "v_pcs ?v ! j = Ended")
      case True
      with st ILoop show ?thesis by (simp add: io_step_def iwaits_def thread_step_def Let_def)
    next
      case False
      have "fill_inv G T (length (v_ths ?v)) evs (file_sys until (i_g s) ?v)" using inv by (simp add: file_inv_def)
      from fill_progress [OF this G(1) j G(2), of fuel] False st ILoop show ?thesis
        unfolding begun_sys [OF loop_begun [OF ga j ILoop False]] by (auto simp: io_step_def Let_def)
    qed
  qed (use st in \<open>auto simp: io_step_def io_begin_def sem_wait_def iwaits_def Let_def split: if_splits prod.splits\<close>)
qed

lemma file_no_fault: "file_step env k s = Inl e \<Longrightarrow> can_create env \<Longrightarrow> e = Blocked \<and> iwaits (AFile k) s"
  by (cases "v_at (i_files s ! k)")
    (auto simp: can_create_def file_step_def wait_thread_def sem_wait_def iwaits_def Let_def split: if_splits prod.splits)

section \<open>All files together\<close>

definition files_apart :: "nat \<Rightarrow> (nat \<Rightarrow> shape) \<Rightarrow> bool" where
  "files_apart n Gs \<longleftrightarrow> (\<forall>k < n. shape_ok (Gs k)) \<and> (\<forall>k < n. \<forall>l < n. k \<noteq> l \<longrightarrow> g_fds (Gs k) \<inter> g_fds (Gs l) = {})"

definition whole_inv :: "(nat \<Rightarrow> shape) \<Rightarrow> u64 \<Rightarrow> u64 \<Rightarrow> u64 \<Rightarrow> (nat \<Rightarrow> (nat \<times> u64) list) \<Rightarrow> isys \<Rightarrow> bool" where
  "whole_inv Gs T until mt evss s \<longleftrightarrow> timely mt (genv (i_g s))
     \<and> (\<forall>k < length (i_files s). 0 < length (v_ths (i_files s ! k)) \<and> unat T + length (v_ths (i_files s ! k)) < 2 ^ 64
          \<and> file_inv (Gs k) T until mt (i_g s) (i_files s ! k) (evss k))"

definition test_left :: "u64 \<Rightarrow> (nat \<Rightarrow> (nat \<times> u64) list) \<Rightarrow> isys \<Rightarrow> nat" where
  "test_left T evss s = main_left (length (i_files s)) (i_main s)
     + (\<Sum>k < length (i_files s). view_left T (i_files s ! k) (length (evss k)))"

lemma sum_one_less:
  fixes f g :: "nat \<Rightarrow> nat"
  assumes "k < n" "Suc (g k) = f k" "\<And>i. i < n \<Longrightarrow> i \<noteq> k \<Longrightarrow> g i = f i"
  shows "Suc (\<Sum>i < n. g i) = (\<Sum>i < n. f i)"
proof -
  have "(\<Sum>i < n. h i) = h k + (\<Sum>i \<in> {..<n} - {k}. h i)" for h :: "nat \<Rightarrow> nat"
    using assms(1) by (simp add: sum.remove)
  moreover have "(\<Sum>i \<in> {..<n} - {k}. g i) = (\<Sum>i \<in> {..<n} - {k}. f i)" by (rule sum.cong) (use assms(3) in auto)
  ultimately show ?thesis using assms(2) by (metis add_Suc)
qed

lemma inner_whole:
  assumes inv: "whole_inv Gs T until mt evss s" and k: "k < length (i_files s)" and ap: "files_apart (length (i_files s)) Gs"
    and m: "file_moves (Gs k) T until mt (evss k) k s s'" and v: "\<And>w. i_files s' = (i_files s)[k := w] \<Longrightarrow> length (v_ths w) = length (v_ths (i_files s ! k))"
  shows "\<exists>evss'. whole_inv Gs T until mt evss' s' \<and> Suc (test_left T evss' s') = test_left T evss s"
proof -
  from m obtain w evs' X where f: "i_files s' = (i_files s)[k := w]" "i_main s' = i_main s"
    and w: "file_inv (Gs k) T until mt (i_g s') w evs'" "Suc (view_left T w (length evs')) = view_left T (i_files s ! k) (length (evss k))"
    and g: "world (i_g s') = world (i_g s)" "issued (g_fds (Gs k)) (requests s) (requests s') X"
    by (auto simp: file_moves_def)
  have tb: "table_ok (gdt (i_g s'))" using file_inv_parts(5) [OF w(1)] .
  have "file_inv (Gs i) T until mt (i_g s') (i_files s ! i) (evss i)" if "i < length (i_files s)" "i \<noteq> k" for i
  proof (rule file_inv_else [OF _ g(1) tb])
    show "file_inv (Gs i) T until mt (i_g s) (i_files s ! i) (evss i)" using inv that(1) by (simp add: whole_inv_def)
    have "g_fds (Gs k) \<inter> g_fds (Gs i) = {}" using ap k that by (auto simp: files_apart_def)
    from issued_elsewhere [OF g(2) this]
    show "written_on (g_fds (Gs i)) (calls (genv (i_g s'))) = written_on (g_fds (Gs i)) (calls (genv (i_g s)))"
      by (simp add: requests_def)
  qed
  then have "whole_inv Gs T until mt (evss(k := evs')) s'"
    using inv w(1) k world_timely [OF g(1)] v [OF f(1)] by (auto simp: whole_inv_def f(1) nth_list_update)
  moreover have "Suc (test_left T (evss(k := evs')) s') = test_left T evss s"
    using sum_one_less [OF k, of "\<lambda>i. view_left T (i_files s' ! i) (length ((evss(k := evs')) i))"
        "\<lambda>i. view_left T (i_files s ! i) (length (evss i))"] w(2) k f by (simp add: test_left_def)
  ultimately show ?thesis by blast
qed

text \<open>What \<open>runtest\<close> does to a file: it posts and waits for its semaphores, and creates its thread.\<close>

definition poked :: "fview \<Rightarrow> fview \<Rightarrow> bool" where
  "poked v w \<longleftrightarrow> (\<exists>a b p. w = v\<lparr>v_file := (v_file v)\<lparr>f_start := a, f_stop := b\<rparr>, v_at := p\<rparr>
     \<and> (p = v_at v \<or> v_at v = FNew \<and> p = FCreate 0))"

lemma poked_keeps:
  assumes "poked v w" "file_inv G T until mt g v evs"
  shows "file_inv G T until mt g w evs" "view_left T w m = view_left T v m" "v_ths w = v_ths v"
proof -
  from assms(1) obtain a b p where w: "w = v\<lparr>v_file := (v_file v)\<lparr>f_start := a, f_stop := b\<rparr>, v_at := p\<rparr>"
    "p = v_at v \<or> v_at v = FNew \<and> p = FCreate 0" by (auto simp: poked_def)
  show "file_inv G T until mt g w evs"
    by (rule file_inv_keep [OF assms(2)]) (use w file_inv_parts [OF assms(2)] in auto)
  show "view_left T w m = view_left T v m" "v_ths w = v_ths v" using w by (auto simp: view_left_def)
qed

lemma poke_whole:
  assumes inv: "whole_inv Gs T until mt evss s" and k: "k < length (i_files s)" and p: "poked (i_files s ! k) w"
    and s': "s' = (set_view k w s)\<lparr>i_main := m\<rparr>" and l: "Suc (main_left (length (i_files s)) m) = main_left (length (i_files s)) (i_main s)"
  shows "whole_inv Gs T until mt evss s' \<and> Suc (test_left T evss s') = test_left T evss s"
proof -
  have "file_inv (Gs k) T until mt (i_g s) (i_files s ! k) (evss k)" using inv k by (simp add: whole_inv_def)
  note q = poked_keeps [OF p this]
  have f: "i_files s' = (i_files s)[k := w]" "i_g s' = i_g s" "i_main s' = m" by (simp_all add: s' set_view_def)
  have "whole_inv Gs T until mt evss s'" using inv q k by (auto simp: whole_inv_def f nth_list_update)
  moreover have "(\<Sum>i < length (i_files s). view_left T (i_files s' ! i) (length (evss i)))
      = (\<Sum>i < length (i_files s). view_left T (i_files s ! i) (length (evss i)))"
    by (rule sum.cong) (use q(2) k in \<open>auto simp: f nth_list_update\<close>)
  ultimately show ?thesis using l by (simp add: test_left_def f)
qed

lemma calm_whole:
  assumes inv: "whole_inv Gs T until mt evss s" and s': "i_files s' = i_files s" "world (i_g s') = world (i_g s)" "gdt (i_g s') = gdt (i_g s)"
      "calls (genv (i_g s')) = calls (genv (i_g s))"
    and l: "Suc (main_left (length (i_files s)) (i_main s')) = main_left (length (i_files s)) (i_main s)"
  shows "whole_inv Gs T until mt evss s' \<and> Suc (test_left T evss s') = test_left T evss s"
proof -
  have "file_inv (Gs k) T until mt (i_g s') (i_files s ! k) (evss k)" if k: "k < length (i_files s)" for k
  proof -
    have fi: "file_inv (Gs k) T until mt (i_g s) (i_files s ! k) (evss k)" using inv k by (simp add: whole_inv_def)
    show ?thesis by (rule file_inv_else [OF fi s'(2)]) (use s' file_inv_parts(5) [OF fi] in simp_all)
  qed
  then have "whole_inv Gs T until mt evss s'" using inv s'(1) world_timely [OF s'(2)] by (simp add: whole_inv_def)
  moreover have "Suc (test_left T evss s') = test_left T evss s" using l by (simp add: test_left_def s'(1))
  ultimately show ?thesis by blast
qed

lemma wait_file_ok:
  assumes "wait_file k m s = Inr s'"
  shows "\<exists>w. poked (i_files s ! k) w \<and> s' = (set_view k w s)\<lparr>i_main := m\<rparr>"
proof -
  let ?v = "i_files s ! k"
  from assms obtain b where "s' = (set_view k (?v\<lparr>v_file := (v_file ?v)\<lparr>f_stop := b\<rparr>\<rparr>) s)\<lparr>i_main := m\<rparr>"
    by (auto simp: wait_file_def Let_def bind_res_Inr_iff)
  moreover have "poked ?v (?v\<lparr>v_file := (v_file ?v)\<lparr>f_stop := b\<rparr>\<rparr>)"
    unfolding poked_def by (rule exI [of _ "f_start (v_file ?v)"], rule exI [of _ b], rule exI [of _ "v_at ?v"]) simp
  ultimately show ?thesis by blast
qed

lemma main_whole:
  assumes inv: "whole_inv Gs T until mt evss s" and st: "runtest_step env s = Inr s'" and ga: "gate_ok (main_par (i_main s)) (file_kids s)"
  shows "whole_inv Gs T until mt evss s' \<and> Suc (test_left T evss s') = test_left T evss s"
proof -
  let ?n = "length (i_files s)"
  note calm = calm_whole [OF inv] and poke = poke_whole [OF inv]
  have ticked: "world g = world (i_g s) \<and> gdt g = gdt (i_g s) \<and> calls (genv g) = calls (genv (i_g s))"
    if "tick (i_g s) = (t, g)" for t g
    using tick_simps [OF that] fixed_world [of g "i_g s"] by simp
  show ?thesis
  proof (cases "i_main s")
    case (MCreate k)
    show ?thesis
    proof (cases "k < ?n")
      case True
      have "file_kid (i_files s ! k) = (Unborn, 0, 0)" using ga MCreate True by (auto simp: gate_ok_def)
      then have at: "v_at (i_files s ! k) = FNew" by (cases "v_at (i_files s ! k)") (simp_all add: file_kid_def)
      let ?w = "(i_files s ! k)\<lparr>v_at := FCreate 0\<rparr>"
      have "poked (i_files s ! k) ?w" unfolding poked_def
        by (rule exI [of _ "f_start (v_file (i_files s ! k))"], rule exI [of _ "f_stop (v_file (i_files s ! k))"],
            rule exI [of _ "FCreate 0"]) (simp add: at)
      from poke [OF True this, of s' "MCreate (k + 1)"] st MCreate True show ?thesis by (simp add: runtest_step_def Let_def)
    next
      case False
      with st MCreate show ?thesis by (intro calm) (auto simp: runtest_step_def Let_def)
    qed
  next
    case (MGather k)
    show ?thesis
    proof (cases "k < ?n")
      case True
      with st MGather have "wait_file k (MGather (k + 1)) s = Inr s'" by (simp add: runtest_step_def Let_def)
      from wait_file_ok [OF this] obtain w where "poked (i_files s ! k) w" "s' = (set_view k w s)\<lparr>i_main := MGather (k + 1)\<rparr>" by blast
      from poke [OF True this] MGather True show ?thesis by simp
    next
      case False
      with st MGather show ?thesis by (intro calm) (auto simp: runtest_step_def Let_def)
    qed
  next
    case MStart
    obtain t g where t: "tick (i_g s) = (t, g)" by fastforce
    with st MStart ticked [OF t] show ?thesis by (intro calm) (auto simp: runtest_step_def Let_def)
  next
    case (MRelease k t r)
    show ?thesis
    proof (cases "k < ?n")
      case True
      let ?v = "i_files s ! k"
      let ?w = "?v\<lparr>v_file := (v_file ?v)\<lparr>f_start := f_start (v_file ?v) + 1\<rparr>\<rparr>"
      have "poked ?v ?w" unfolding poked_def
        by (rule exI [of _ "f_start (v_file ?v) + 1"], rule exI [of _ "f_stop (v_file ?v)"], rule exI [of _ "v_at ?v"]) simp
      from poke [OF True this, of s' "MRelease (k + 1) t r"] st MRelease True show ?thesis by (simp add: runtest_step_def Let_def)
    next
      case False
      with st MRelease show ?thesis by (intro calm) (auto simp: runtest_step_def Let_def)
    qed
  next
    case (MCollect k t r)
    show ?thesis
    proof (cases "k < ?n")
      case True
      with st MCollect have "wait_file k (MCollect (k + 1) t r) s = Inr s'" by (simp add: runtest_step_def Let_def)
      from wait_file_ok [OF this] obtain w where "poked (i_files s ! k) w" "s' = (set_view k w s)\<lparr>i_main := MCollect (k + 1) t r\<rparr>" by blast
      from poke [OF True this] MCollect True show ?thesis by simp
    next
      case False
      with st MCollect show ?thesis by (intro calm) (auto simp: runtest_step_def Let_def)
    qed
  next
    case (MOutput t r)
    obtain t2 g where t: "tick (i_g s) = (t2, g)" by fastforce
    with st MOutput ticked [OF t] show ?thesis by (intro calm) (auto simp: runtest_step_def Let_def bind_res_Inr_iff)
  next
    case MDone
    with st show ?thesis by (simp add: runtest_step_def Let_def)
  qed
qed

lemma main_no_fault:
  assumes "runtest_step env s = Inl e" "main_par (i_main s) \<noteq> PDone" "can_create env"
  shows "e = Blocked \<and> iwaits AMain s"
  using assms
  by (cases "i_main s")
    (auto simp: can_create_def runtest_step_def wait_file_def sem_wait_def iwaits_def Let_def split: if_splits prod.splits)

lemma istep_whole:
  assumes inv: "whole_inv Gs T until mt evss s" and ap: "files_apart (length (i_files s)) Gs" and st: "istep env fuel a s = Inr s'"
    and ok: "sys_ok s" and ga: "gate_ok (main_par (i_main s)) (file_kids s)"
    and gf: "\<And>k. k < length (i_files s) \<Longrightarrow> gate_ok (file_par (v_at (i_files s ! k))) (io_kids (i_files s ! k))"
  shows "\<exists>evss'. whole_inv Gs T until mt evss' s' \<and> Suc (test_left T evss' s') = test_left T evss s"
proof (cases a)
  case AMain
  with st have "runtest_step env s = Inr s'" by (simp add: istep_def)
  from main_whole [OF inv this ga] show ?thesis by blast
next
  case (AFile k)
  with st have k: "k < length (i_files s)" "file_step env k s = Inr s'" by (auto simp: istep_def split: if_splits)
  have v: "view_ok (i_files s ! k)" using ok k(1) by (simp add: sys_ok_def list_all_length)
  have fi: "file_inv (Gs k) T until mt (i_g s) (i_files s ! k) (evss k)" and t: "timely mt (genv (i_g s))"
    using inv k(1) by (simp_all add: whole_inv_def)
  show ?thesis
  proof (rule inner_whole [OF inv k(1) ap file_file_moves [OF fi k(2) t v gf [OF k(1)]]])
    fix w assume "i_files s' = (i_files s)[k := w]"
    with file_step_moves [OF k(2) v] k(1) show "length (v_ths w) = length (v_ths (i_files s ! k))"
      by (metis nth_list_update_eq view_move_def)
  qed
next
  case (AIo k j)
  with st have k: "k < length (i_files s)" "j < length (v_ths (i_files s ! k))" "io_step fuel k j s = Inr s'"
    by (auto simp: istep_def split: if_splits)
  have v: "view_ok (i_files s ! k)" using ok k(1) by (simp add: sys_ok_def list_all_length)
  have fi: "file_inv (Gs k) T until mt (i_g s) (i_files s ! k) (evss k)" and b: "unat T + length (v_ths (i_files s ! k)) < 2 ^ 64"
    using inv k(1) by (simp_all add: whole_inv_def)
  have G: "shape_ok (Gs k)" using ap k(1) by (simp add: files_apart_def)
  show ?thesis
  proof (rule inner_whole [OF inv k(1) ap io_io_moves [OF fi k(3) v gf [OF k(1)] k(2) G b]])
    fix w assume "i_files s' = (i_files s)[k := w]"
    with io_step_moves [OF k(3,1,2) v] k(1) show "length (v_ths w) = length (v_ths (i_files s ! k))"
      by (metis nth_list_update_eq view_move_def)
  qed
qed

lemma istep_no_fault:
  assumes inv: "whole_inv Gs T until mt evss s" and ap: "files_apart (length (i_files s)) Gs" and st: "istep env fuel a s = Inl e"
    and gf: "\<And>k. k < length (i_files s) \<Longrightarrow> gate_ok (file_par (v_at (i_files s ! k))) (io_kids (i_files s ! k))"
    and m: "a = AMain \<Longrightarrow> main_par (i_main s) \<noteq> PDone" and cc: "can_create env"
  shows "e = Blocked \<and> iwaits a s"
proof (cases a)
  case AMain
  with st m main_no_fault [OF _ _ cc] show ?thesis by (simp add: istep_def)
next
  case (AFile k)
  with st file_no_fault [OF _ cc] show ?thesis by (auto simp: istep_def iwaits_def split: if_splits)
next
  case (AIo k j)
  show ?thesis
  proof (cases "k < length (i_files s) \<and> j < length (v_ths (i_files s ! k))")
    case True
    with st AIo have s: "io_step fuel k j s = Inl e" by (simp add: istep_def)
    from True inv ap have "file_inv (Gs k) T until mt (i_g s) (i_files s ! k) (evss k)" "shape_ok (Gs k)"
      "unat T + length (v_ths (i_files s ! k)) < 2 ^ 64" by (simp_all add: whole_inv_def files_apart_def)
    with io_no_fault [OF _ s gf] True AIo show ?thesis by blast
  next
    case False
    with st AIo show ?thesis by (auto simp: istep_def iwaits_def)
  qed
qed

section \<open>Descriptors\<close>

definition fds_of :: "fthread \<Rightarrow> int set" where
  "fds_of f = (\<lambda>t. fd (iorp t)) ` set (ithreads f)"

text \<open>What \<open>open\<close> promises: different files get different descriptors.\<close>

definition own_descriptors :: "opener \<Rightarrow> cmdparams \<Rightarrow> string list \<Rightarrow> bool" where
  "own_descriptors opn cp files \<longleftrightarrow> (\<forall>k < length files. \<forall>l < length files. k \<noteq> l \<longrightarrow>
     range (opn (files ! k) (openflags cp)) \<inter> range (opn (files ! l) (openflags cp)) = {})"

lemma make_threads_fds:
  assumes "plain_options cp"
  shows "make_threads lib opn ftp cp al n acc e = Inr (ths, e')
    \<Longrightarrow> \<forall>t \<in> set acc. fd (iorp t) \<in> range (opn (filename ftp) (openflags cp))
    \<Longrightarrow> \<forall>t \<in> set ths. fd (iorp t) \<in> range (opn (filename ftp) (openflags cp))"
proof (induction n arbitrary: acc e)
  case (Suc n)
  have p: "writeinject cp = 0" "partition cp = 0" using assms by (simp_all add: plain_options_def fill_params_ok_def)
  from Suc.prems(1) obtain tp e1 where 1: "ithreadinit lib opn ftp (int n) cp e = Inr (tp, e1)"
    and 2: "make_threads lib opn ftp cp al n
        (tp\<lparr>th_align := al, shared_area := shared_block ftp + (n + 1) * IOB_CACHE_LINE\<rparr> # acc) e1 = Inr (ths, e')"
    by (auto simp: bind_res_Inr_iff)
  show ?case by (rule Suc.IH [OF 2]) (use ithreadinit_plain [OF 1 p] Suc.prems(2) in auto)
qed simp

lemma fill_files_fds:
  assumes "plain_options cp" "fill_files lib opn cp al fs e = Inr (fs', e')"
  shows "map filename fs' = map filename fs \<and> (\<forall>f \<in> set fs'. fds_of f \<subseteq> range (opn (filename f) (openflags cp)))"
  using assms(2)
proof (induction fs arbitrary: e fs')
  case (Cons f fs)
  from Cons.prems obtain ths e1 fs1 e2 where 1: "make_threads lib opn f cp al (nat (nthreads cp)) [] e = Inr (ths, e1)"
    and 2: "fill_files lib opn cp al fs e1 = Inr (fs1, e')" and 3: "fs' = f\<lparr>ithreads := link_streams cp ths\<rparr> # fs1"
    by (auto simp: bind_res_Inr_iff)
  have "streams cp = 1" using assms(1) by (simp add: plain_options_def fill_params_ok_def)
  then have "link_streams cp ths = ths" by (simp add: link_streams_def)
  then show ?case using Cons.IH [OF 2] make_threads_fds [OF assms(1) 1] 3 by (auto simp: fds_of_def)
qed simp

lemma make_files_names:
  "make_files lib fnames cp n acc = Inr fl \<Longrightarrow> n \<le> length fnames \<Longrightarrow> map filename fl = take n fnames @ map filename acc"
proof (induction n arbitrary: acc)
  case (Suc i)
  from Suc.prems(1) obtain f where 1: "fthreadinit lib (fnames ! i) cp = Inr f"
    and 2: "make_files lib fnames cp i (f\<lparr>shared_block := IOB_CACHE_LINE * nat (nthreads cp + 1) * i, fileno := int i\<rparr> # acc) = Inr fl"
    by (auto simp: bind_res_Inr_iff)
  have "filename f = fnames ! i" using 1 by (auto simp: fthreadinit_def bind_res_Inr_iff)
  with Suc.IH [OF 2] Suc.prems(2) show ?case by (simp add: take_Suc_conv_app_nth)
qed simp

text \<open>The files keep to themselves: the shape of each, with the descriptors of its threads.\<close>

definition file_shape :: "cmdparams \<Rightarrow> fthread \<Rightarrow> shape" where
  "file_shape cp f = (shape_of cp)\<lparr>g_fds := fds_of f\<rparr>"

lemma file_shape_simps [simp]:
  "g_size (file_shape cp f) = iosize cp" "g_nio (file_shape cp f) = nio cp" "g_min (file_shape cp f) = minoff cp"
  "g_range (file_shape cp f) = range_of cp" "g_fds (file_shape cp f) = fds_of f"
  by (simp_all add: file_shape_def shape_of_def)

lemma init_apart:
  assumes "plain_options cp" "init_threads lib opn vm pst files cp e = Inr (flist, pools, dt, e')" "own_descriptors opn cp files"
  shows "length flist = length files" "files_apart (length flist) (\<lambda>k. file_shape cp (flist ! k))"
proof -
  from assms(2) obtain x where c: "create_files lib opn files cp (e\<lparr>rng := x\<rparr>) = Inr (flist, e')"
    unfolding init_threads_def Let_def by (elim bind_res_InrE bind_res_pairE) (simp only: sum.inject prod.inject)
  from c obtain fl al where 1: "make_files lib files cp (length files) [] = Inr fl"
    and 2: "fill_files lib opn cp al fl (e\<lparr>rng := x\<rparr>) = Inr (flist, e')"
    unfolding create_files_def Let_def by (elim bind_res_InrE)
  have n: "map filename flist = files" using fill_files_fds [OF assms(1) 2] make_files_names [OF 1] by simp
  then show len: "length flist = length files" by (metis length_map)
  have sub: "fds_of (flist ! k) \<subseteq> range (opn (files ! k) (openflags cp))" if "k < length flist" for k
    using fill_files_fds [OF assms(1) 2] that n by (metis nth_map nth_mem)
  have "fds_of (flist ! k) \<inter> fds_of (flist ! l) = {}" if "k < length flist" "l < length flist" "k \<noteq> l" for k l
  proof -
    have "range (opn (files ! k) (openflags cp)) \<inter> range (opn (files ! l) (openflags cp)) = {}"
      using assms(3) that len by (simp add: own_descriptors_def)
    with sub [OF that(1)] sub [OF that(2)] show ?thesis by blast
  qed
  moreover have "shape_ok (file_shape cp f)" for f using shape_of_ok [OF assms(1)] by (simp add: shape_ok_def file_shape_def)
  ultimately show "files_apart (length flist) (\<lambda>k. file_shape cp (flist ! k))" by (simp add: files_apart_def)
qed

section \<open>From the options to the end of the test\<close>

text \<open>The state \<open>runtest\<close> starts in, and what a test can count on: a device that completes its transfers, and time.\<close>

definition test_state :: "libstate \<Rightarrow> pools \<Rightarrow> dtable \<Rightarrow> u64 \<Rightarrow> env \<Rightarrow> gstate" where
  "test_state lib pools dt smb e = \<lparr>glib = lib, gpools = pools, genv = e, gdt = dt, gout = [], gerr = [], gstatusmb = smb,
     pthread = zero_fthread\<rparr>"

definition favourable :: "cmdparams \<Rightarrow> env \<Rightarrow> dtable \<Rightarrow> u64 \<Rightarrow> bool" where
  "favourable cp e dt smb \<longleftrightarrow> calls e = [] \<and> full_transfers e \<and> timely (maxtime cp) e \<and> table_ok dt \<and> smb \<noteq> 0"

text \<open>The number of steps of a test with \<open>n\<close> files of \<open>m\<close> threads, which draw \<open>t\<close> blocks from each file.\<close>

definition test_steps :: "nat \<Rightarrow> nat \<Rightarrow> nat \<Rightarrow> nat" where
  "test_steps n m t = 4 * n + 6 + n * (11 * m + 8 + 4 * t)"

definition first_limit :: "cmdparams \<Rightarrow> env \<Rightarrow> u64" where
  "first_limit cp e = timespec_ns (fst (clk e 0)) (snd (clk e 0)) + time_allowed (maxtime cp)"

lemma new_view_left: "view_left T (new_view f) 0 = 11 * length (ithreads f) + 8 + 4 * unat T"
  by (simp add: view_left_def new_view_def Let_def comp_def map_replicate_const sum_list_replicate)

lemma file_start:
  assumes cp: "plain_options cp" and i: "init_threads lib opn vm pst files cp e = Inr (flist, pools, dt, e')"
    and l: "length vm = table_size" "length pst = table_size" and fav: "favourable cp e dt smb" and f: "f \<in> set flist"
  shows "file_inv (file_shape cp f) (nio cp * nrep cp) (first_limit cp e) (maxtime cp) (test_state lib pools dt smb e') (new_view f) []"
proof -
  let ?G = "file_shape cp f" and ?T = "nio cp * nrep cp" and ?g = "test_state lib pools dt smb e'"
  note n = init_threads_new [OF cp i l]
  have e: "calls e' = []" "env_fixed e' = env_fixed e" and po: "pools_ok pools" using n fav by (simp_all add: favourable_def env_fixed_def)
  have fp: "f_params f = cp" "totalio f = ?T" "thread_bno f = 0" "iowait f = 0"
    and th: "\<And>i. i < length (ithreads f) \<Longrightarrow> new_thread cp i (ithreads f ! i)" using n f by blast+
  have st: "straight ?G t \<and> streamhead t < length (ithreads f) \<and> nseconds t < NSEC
      \<and> (injectinterval_io (params t) = 0 \<or> ?T \<le> injectinterval_io (params t))" if "t \<in> set (ithreads f)" for t
  proof -
    from that obtain i where i: "i < length (ithreads f)" "t = ithreads f ! i" by (metis in_set_conv_nth)
    have "fd (iorp t) \<in> fds_of f" using that by (simp add: fds_of_def)
    with th [OF i(1)] i show ?thesis by (auto simp: new_thread_def straight_def file_shape_def Let_def)
  qed
  have w: "within_time (first_limit cp e) e" using fav by (simp add: favourable_def timely_def first_limit_def)
  have so: "shared_ok (sys_g (file_sys (first_limit cp e) ?g (new_view f)))"
    using po fav e w by (simp add: shared_ok_def file_sys_def test_state_def new_view_def file_limit_def favourable_def full_transfers_def
        within_time_def env_fixed_def Let_def)
  have "static_inv ?G ?T (length (ithreads f)) (file_sys (first_limit cp e) ?g (new_view f))"
    using so st fp by (auto simp: static_inv_def file_sys_def new_view_def threads_ok_def no_locals_def straight_def Let_def)
  from idle_inv(1) [OF this, of "ithreads f"] fp e have
    "fill_inv ?G ?T (length (ithreads f)) [] (file_sys (first_limit cp e) ?g (new_view f))"
    by (simp add: file_sys_def new_view_def test_state_def Let_def)
  then show ?thesis using fp by (simp add: file_inv_def new_view_def Let_def)
qed

lemma whole_start:
  assumes cp: "plain_options cp" and i: "init_threads lib opn vm pst files cp e = Inr (flist, pools, dt, e')"
    and l: "length vm = table_size" "length pst = table_size" and fav: "favourable cp e dt smb"
  shows "whole_inv (\<lambda>k. file_shape cp (flist ! k)) (nio cp * nrep cp) (first_limit cp e) (maxtime cp) (\<lambda>_. [])
      (start_test (test_state lib pools dt smb e') flist)"
    and "test_left (nio cp * nrep cp) (\<lambda>_. []) (start_test (test_state lib pools dt smb e') flist)
      = test_steps (length flist) (nat (nthreads cp)) (unat (nio cp * nrep cp))"
proof -
  let ?T = "nio cp * nrep cp" and ?g = "test_state lib pools dt smb e'"
  note n = init_threads_new [OF cp i l]
  have ths: "length (ithreads f) = nat (nthreads cp)" if "f \<in> set flist" for f using n that by blast
  have "clk e' = clk e" using n by simp
  then have "timely (maxtime cp) e'" using fav by (simp add: favourable_def timely_def within_time_def)
  moreover have "unat ?T + nat (nthreads cp) < 2 ^ 64" "0 < nat (nthreads cp)" using cp by (simp_all add: plain_options_def)
  moreover from ths this(2) have "ithreads f \<noteq> []" if "f \<in> set flist" for f using that by fastforce
  ultimately show "whole_inv (\<lambda>k. file_shape cp (flist ! k)) ?T (first_limit cp e) (maxtime cp) (\<lambda>_. []) (start_test ?g flist)"
    using file_start [OF cp i l fav] ths
    by (simp add: whole_inv_def start_test_def) (simp add: test_state_def new_view_def Let_def)
  have "(\<Sum>k < length flist. view_left ?T (new_view (flist ! k)) 0) = (\<Sum>k < length flist. 11 * nat (nthreads cp) + 8 + 4 * unat ?T)"
    by (rule sum.cong) (simp_all only: new_view_left ths nth_mem lessThan_iff)
  then show "test_left ?T (\<lambda>_. []) (start_test ?g flist) = test_steps (length flist) (nat (nthreads cp)) (unat ?T)"
    by (simp add: test_left_def start_test_def test_steps_def)
qed

lemma whole_run:
  assumes "(imove env fuel ^^ n) (start_test g flist) s" "fresh_files flist" "files_apart (length flist) Gs"
    and "whole_inv Gs T until mt (\<lambda>_. []) (start_test g flist)"
  shows "\<exists>evss. whole_inv Gs T until mt evss s \<and> n + test_left T evss s = test_left T (\<lambda>_. []) (start_test g flist)"
  using assms(1)
proof (induction n arbitrary: s)
  case 0
  with assms(4) show ?case by auto
next
  case (Suc n)
  from Suc.prems obtain y where y: "(imove env fuel ^^ n) (start_test g flist) y" "imove env fuel y s" by auto
  from Suc.IH [OF y(1)] obtain evss where ev: "whole_inv Gs T until mt evss y"
    "n + test_left T evss y = test_left T (\<lambda>_. []) (start_test g flist)" by blast
  from y(2) obtain a where a: "istep env fuel a y = Inr s" by (auto simp: imove_def)
  have "rtranclp (imove env fuel) (start_test g flist) y" using y(1) by (rule relpowp_imp_rtranclp)
  note r = reach_gates [OF this assms(2)]
  from istep_whole [OF ev(1) _ a r(1,2) r(4)] assms(3) r(3) obtain evss' where
    "whole_inv Gs T until mt evss' s" "Suc (test_left T evss' s) = test_left T evss y" by auto
  with ev(2) show ?case by (intro exI [of _ evss']) simp
qed

text \<open>Once the last file has been collected only the reports are left.\<close>

lemma done_view:
  assumes inv: "file_inv G T until mt g v evs" and n: "0 < length (v_ths v)" "length (v_in v) = length (v_ths v)" and at: "v_at v = FGone"
    and e: "\<And>j. j < length (v_ths v) \<Longrightarrow> v_in v ! j = ILoop \<and> v_pcs v ! j = Ended"
  shows "view_left T v (length evs) = 0"
proof -
  have fi: "fill_inv G T (length (v_ths v)) evs (file_sys until g v)" using inv by (simp add: file_inv_def)
  have "\<forall>j < length (v_ths v). sys_pcs (file_sys until g v) ! j = Ended" using e by (simp add: file_sys_def)
  then have "length evs = unat T" by (rule ended_all_drawn(1) [OF fi n(1)])
  moreover have "v_in v = replicate (length (v_ths v)) ILoop" by (rule nth_equalityI) (use n e in simp_all)
  moreover have "v_pcs v = replicate (length (v_ths v)) Ended"
    by (rule nth_equalityI) (use file_inv_parts(3) [OF inv] e in simp_all)
  ultimately show ?thesis using at by (simp add: view_left_def sum_list_replicate)
qed

lemma whole_done:
  assumes inv: "whole_inv Gs T until mt evss s" and r: "rtranclp (imove env fuel) (start_test g flist) s" "fresh_files flist"
    and d: "main_par (i_main s) = PDone"
  shows "test_left T evss s = main_left (length (i_files s)) (i_main s)"
    "\<And>k. k < length (i_files s) \<Longrightarrow> \<forall>j < length (v_ths (i_files s ! k)). v_pcs (i_files s ! k) ! j = Ended"
proof -
  note rg = reach_gates [OF r]
  have ended: "v_at (i_files s ! k) = FGone"
    "\<And>j. j < length (v_ths (i_files s ! k)) \<Longrightarrow> v_in (i_files s ! k) ! j = ILoop \<and> v_pcs (i_files s ! k) ! j = Ended"
    if k: "k < length (i_files s)" for k
  proof -
    have ga: "gate_ok (file_par (v_at (i_files s ! k))) (io_kids (i_files s ! k))" using rg(3,4) k by simp
    have z: "0 < length (v_ths (i_files s ! k))" using inv k by (simp add: whole_inv_def)
    show "v_at (i_files s ! k) = FGone" using all_ended(1) [OF rg(1,2) d k ga z] .
    show "v_in (i_files s ! k) ! j = ILoop \<and> v_pcs (i_files s ! k) ! j = Ended" if "j < length (v_ths (i_files s ! k))" for j
      using all_ended(2) [OF rg(1,2) d k ga that] .
  qed
  show "\<forall>j < length (v_ths (i_files s ! k)). v_pcs (i_files s ! k) ! j = Ended" if "k < length (i_files s)" for k
    using ended(2) [OF that] by blast
  have "view_left T (i_files s ! k) (length (evss k)) = 0" if k: "k < length (i_files s)" for k
  proof -
    have fi: "file_inv (Gs k) T until mt (i_g s) (i_files s ! k) (evss k)" "0 < length (v_ths (i_files s ! k))"
      using inv k by (simp_all add: whole_inv_def)
    have "length (v_in (i_files s ! k)) = length (v_ths (i_files s ! k))"
      using rg(1) k by (simp add: sys_ok_def list_all_length view_ok_def)
    from done_view [OF fi this ended(1) [OF k] ended(2) [OF k]] show ?thesis .
  qed
  then show "test_left T evss s = main_left (length (i_files s)) (i_main s)" by (simp add: test_left_def)
qed

lemma test_reaches:
  assumes cp: "plain_options cp" and i: "init_threads lib opn vm pst files cp e = Inr (flist, pools, dt, e')"
    and l: "length vm = table_size" "length pst = table_size" and fav: "favourable cp e dt smb" and own: "own_descriptors opn cp files"
    and r: "(imove env fuel ^^ n) (start_test (test_state lib pools dt smb e') flist) s"
  shows "rtranclp (imove env fuel) (start_test (test_state lib pools dt smb e') flist) s"
    "\<exists>evss. whole_inv (\<lambda>k. file_shape cp (flist ! k)) (nio cp * nrep cp) (first_limit cp e) (maxtime cp) evss s
      \<and> n + test_left (nio cp * nrep cp) evss s = test_steps (length flist) (nat (nthreads cp)) (unat (nio cp * nrep cp))"
    "files_apart (length (i_files s)) (\<lambda>k. file_shape cp (flist ! k))" "length (i_files s) = length flist"
proof -
  note fr = init_threads_fresh [OF i] and ap = init_apart(2) [OF cp i own] and ws = whole_start [OF cp i l fav]
  show reach: "rtranclp (imove env fuel) (start_test (test_state lib pools dt smb e') flist) s"
    using r by (rule relpowp_imp_rtranclp)
  show "\<exists>evss. whole_inv (\<lambda>k. file_shape cp (flist ! k)) (nio cp * nrep cp) (first_limit cp e) (maxtime cp) evss s
      \<and> n + test_left (nio cp * nrep cp) evss s = test_steps (length flist) (nat (nthreads cp)) (unat (nio cp * nrep cp))"
    using whole_run [OF r fr ap ws(1)] unfolding ws(2) .
  show n: "length (i_files s) = length flist" using reach_gates(3) [OF reach fr] .
  show "files_apart (length (i_files s)) (\<lambda>k. file_shape cp (flist ! k))" using ap n by simp
qed

lemma test_goes_on:
  assumes inv: "whole_inv Gs T until mt evss s" and ap: "files_apart (length (i_files s)) Gs"
    and r: "rtranclp (imove env fuel) (start_test g flist) s" "fresh_files flist" and d: "main_par (i_main s) \<noteq> PDone"
    and cc: "can_create env"
  shows "\<exists>s'. imove env fuel s s'"
proof -
  have "i_main s \<noteq> MDone" using d by auto
  from never_stuck_at_gate [OF r this] obtain a where a: "\<not> iwaits a s" by blast
  have gf: "\<And>k. k < length (i_files s) \<Longrightarrow> gate_ok (file_par (v_at (i_files s ! k))) (io_kids (i_files s ! k))"
    using reach_gates(3,4) [OF r] by simp
  show ?thesis
  proof (cases "istep env fuel a s")
    case (Inl e)
    from istep_no_fault [OF inv ap Inl gf d cc] a show ?thesis by blast
  next
    case (Inr s')
    then show ?thesis by (auto simp: imove_def)
  qed
qed

lemma test_finishes:
  assumes cp: "plain_options cp" and i: "init_threads lib opn vm pst files cp e = Inr (flist, pools, dt, e')"
    and l: "length vm = table_size" "length pst = table_size" and fav: "favourable cp e dt smb" and own: "own_descriptors opn cp files"
    and cc: "can_create env" and r: "(imove env fuel ^^ n) (start_test (test_state lib pools dt smb e') flist) s"
  shows "\<exists>n' s'. (imove env fuel ^^ n') (start_test (test_state lib pools dt smb e') flist) s' \<and> main_par (i_main s') = PDone"
  using r
proof (induction "test_steps (length flist) (nat (nthreads cp)) (unat (nio cp * nrep cp)) - n" arbitrary: n s rule: less_induct)
  case less
  note t = test_reaches [OF cp i l fav own less.prems]
  show ?case
  proof (cases "main_par (i_main s) = PDone")
    case True
    with less.prems show ?thesis by blast
  next
    case False
    from t(2) obtain evss where ev: "whole_inv (\<lambda>k. file_shape cp (flist ! k)) (nio cp * nrep cp) (first_limit cp e) (maxtime cp) evss s"
      by blast
    from test_goes_on [OF ev t(3,1) init_threads_fresh [OF i] False cc] obtain s' where s': "imove env fuel s s'" by blast
    have r': "(imove env fuel ^^ Suc n) (start_test (test_state lib pools dt smb e') flist) s'"
      using less.prems s' by (rule relpowp_Suc_I)
    have "Suc n \<le> test_steps (length flist) (nat (nthreads cp)) (unat (nio cp * nrep cp))"
      using test_reaches(2) [OF cp i l fav own r'] by auto
    then show ?thesis by (intro less.hyps [OF _ r']) simp
  qed
qed

section \<open>What a test does\<close>

text \<open>The whole of a test, after \<open>init_threads\<close>: what it writes, and that it ends.\<close>

lemma test_fills:
  assumes "plain_options cp" and "init_threads lib opn vm pst files cp e = Inr (flist, pools, dt, e')"
    and "length vm = table_size" and "length pst = table_size" and "favourable cp e dt smb" and "own_descriptors opn cp files"
    and "unat (range_of cp) \<le> nat (iosize cp) * unat (nio cp)" and "nio cp \<le> nio cp * nrep cp"
    and "rtranclp (imove env fuel) (start_test (test_state lib pools dt smb e') flist) s" and "k < length flist"
  shows "written_on (fds_of (flist ! k)) (requests s) \<subseteq> {unat (minoff cp) ..< unat (minoff cp) + unat (range_of cp)}
    \<and> (main_par (i_main s) = PDone \<longrightarrow>
        written_on (fds_of (flist ! k)) (requests s) = {unat (minoff cp) ..< unat (minoff cp) + unat (range_of cp)})"
proof -
  let ?v = "i_files s ! k" and ?G = "file_shape cp (flist ! k)" and ?l = "first_limit cp e"
  from assms(9) obtain n where n: "(imove env fuel ^^ n) (start_test (test_state lib pools dt smb e') flist) s"
    by (auto simp: rtranclp_is_Sup_relpowp)
  note t = test_reaches [OF assms(1-6) n]
  from t(2) obtain evss where ev: "whole_inv (\<lambda>k. file_shape cp (flist ! k)) (nio cp * nrep cp) ?l (maxtime cp) evss s" by blast
  have k: "k < length (i_files s)" using assms(10) t(4) by simp
  have fi: "fill_inv ?G (nio cp * nrep cp) (length (v_ths ?v)) (evss k) (file_sys ?l (i_g s) ?v)" and z: "0 < length (v_ths ?v)"
    using ev k by (simp_all add: whole_inv_def file_inv_def)
  have G: "shape_ok ?G" using t(3) k by (simp add: files_apart_def)
  have q: "calls (genv (sys_g (file_sys ?l (i_g s) ?v))) = requests s" by (simp add: file_sys_def requests_def)
  have "written_on (fds_of (flist ! k)) (requests s) = {unat (minoff cp) ..< unat (minoff cp) + unat (range_of cp)}"
    if d: "main_par (i_main s) = PDone"
  proof -
    have "\<forall>j < length (v_ths ?v). sys_pcs (file_sys ?l (i_g s) ?v) ! j = Ended"
      using whole_done(2) [OF ev t(1) init_threads_fresh [OF assms(2)] d k] by (simp add: file_sys_def)
    from ended_covers [OF fi G z this] assms(7,8) q show ?thesis by simp
  qed
  moreover have "cover_inv ?G (length (evss k)) (file_sys ?l (i_g s) ?v)" using fi by (simp add: fill_inv_def)
  ultimately show ?thesis by (simp add: cover_inv_def q)
qed

lemma test_ends:
  assumes "plain_options cp" and "init_threads lib opn vm pst files cp e = Inr (flist, pools, dt, e')"
    and "length vm = table_size" and "length pst = table_size" and "favourable cp e dt smb" and "own_descriptors opn cp files"
    and "(imove env fuel ^^ n) (start_test (test_state lib pools dt smb e') flist) s" and "can_create env"
  shows "n \<le> test_steps (length flist) (nat (nthreads cp)) (unat (nio cp * nrep cp))
    \<and> (i_main s = MDone \<longrightarrow> n = test_steps (length flist) (nat (nthreads cp)) (unat (nio cp * nrep cp)))
    \<and> (main_par (i_main s) \<noteq> PDone \<longrightarrow> (\<exists>s'. imove env fuel s s'))
    \<and> (\<forall>a x. istep env fuel a s = Inl x \<longrightarrow> x = Blocked \<or> a = AMain \<and> main_par (i_main s) = PDone)"
proof -
  note t = test_reaches [OF assms(1-7)] and fr = init_threads_fresh [OF assms(2)]
  from t(2) obtain evss where ev: "whole_inv (\<lambda>k. file_shape cp (flist ! k)) (nio cp * nrep cp) (first_limit cp e) (maxtime cp) evss s"
    and m: "n + test_left (nio cp * nrep cp) evss s = test_steps (length flist) (nat (nthreads cp)) (unat (nio cp * nrep cp))" by blast
  have gf: "\<And>k. k < length (i_files s) \<Longrightarrow> gate_ok (file_par (v_at (i_files s ! k))) (io_kids (i_files s ! k))"
    using reach_gates(3,4) [OF t(1) fr] by simp
  have "n = test_steps (length flist) (nat (nthreads cp)) (unat (nio cp * nrep cp))" if "i_main s = MDone"
    using whole_done(1) [OF ev t(1) fr] m that by simp
  moreover have "x = Blocked \<or> a = AMain \<and> main_par (i_main s) = PDone" if "istep env fuel a s = Inl x" for a x
    using istep_no_fault [OF ev t(3) that gf _ assms(8)] by blast
  ultimately show ?thesis using m test_goes_on [OF ev t(3,1) fr _ assms(8)] by auto
qed

end
