(* ===== verification/FillProgram.thy ===== *)
theory FillProgram
  imports FillWhole
begin

text \<open>
  \<open>iofill\<close> from its command line on: \<open>main\<close>, with the options, \<open>init_threads\<close> and \<open>runtest\<close> put together, and what the program
  as a whole does to the devices it is given.
\<close>

section \<open>The program\<close>

text \<open>
  \<open>main\<close> up to the first step of \<open>runtest\<close>: the options, the names of the files, and the state of the test. \<open>opn\<close> answers \<open>open\<close>,
  \<open>vm\<close> and \<open>pst\<close> are the tables of data, and \<open>e\<close> is the kernel.
\<close>

definition fill_main ::
    "string \<Rightarrow> nat \<Rightarrow> opener \<Rightarrow> bytes \<Rightarrow> bytes \<Rightarrow> env \<Rightarrow> string list \<Rightarrow> (fill_opts \<times> string list \<times> isys) res" where
  "fill_main argv0 limit opn vm pst e args =
     bind_res (fill_cmdline argv0 limit args) (\<lambda>(opts, filenames).
     let lib = iob_libinit argv0 usage_text limit in
     bind_res (init_threads lib opn vm pst filenames (o_params opts) e) (\<lambda>(flist, pools, dt, e').
       Inr (opts, filenames, start_test (test_state lib pools dt (o_statusmb opts) e') flist)))"

text \<open>
  What an accepted command line does not guarantee: neither \<open>seek\<close>, \<open>skip\<close> nor \<open>multiplier\<close>, at least one thread and one block, a
  range that does not end before it starts, and numbers far enough from the limits of their types.
\<close>

definition plain_fill :: "cmdparams \<Rightarrow> bool" where
  "plain_fill cp \<longleftrightarrow> seekoff cp = 0 \<and> skip cp = 0 \<and> multiplier cp = 1
     \<and> 0 < nthreads cp \<and> nio cp \<noteq> 0 \<and> minoff cp \<le> maxoff cp
     \<and> unat (maxoff cp) + 3 * nat (iosize cp) < 2 ^ 64
     \<and> unat (header_of cp) + nat (iosize cp) * unat (nio cp) < 2 ^ 64
     \<and> unat (nio cp * nrep cp) + nat (nthreads cp) < 2 ^ 64
     \<and> unat (iodetcnt cp) * 88 < 2 ^ 31"

text \<open>The device completes every transfer, and the clock stays within the time limit.\<close>

definition kind_device :: "cmdparams \<Rightarrow> env \<Rightarrow> bool" where
  "kind_device cp e \<longleftrightarrow> calls e = [] \<and> full_transfers e \<and> timely (maxtime cp) e"

lemma details_table:
  assumes "iob_details_init lib (int_of_u32 (ucast cnt)) empty_dtable = Inr dt" "unat (cnt :: u64) * 88 < 2 ^ 31"
  shows "table_ok dt"
proof -
  let ?n = "int (unat cnt)"
  have lt: "unat cnt < 2 ^ 31" using assms(2) by simp
  have "int_of_u32 (ucast cnt) = ?n"
  proof -
    have "unat (ucast cnt :: u32) = unat cnt" using lt by (simp add: unsigned_ucast_eq take_bit_nat_eq_self)
    then show ?thesis using sint_of_small [of "ucast cnt :: u32"] lt by simp
  qed
  note i = assms(1) [unfolded this]
  show ?thesis
  proof (cases "cnt = 0")
    case True
    with i show ?thesis by (auto simp: iob_details_init_def empty_dtable_def table_ok_def)
  next
    case False
    then have "0 < unat cnt" by (simp only: unat_gt_0 not_False_eq_True)
    then have pos: "0 < ?n" by (simp only: of_nat_0_less_iff)
    have "int (unat cnt * 88) < int (2 ^ 31)" using assms(2) by (simp only: of_nat_less_iff)
    then have b: "?n * 88 < 2 ^ 31" by simp
    show ?thesis
    proof (cases "?n * 88 \<le> int (heap_limit lib)")
      case True
      from details_init_ok [OF pos b True] i show ?thesis by (auto simp: table_ok_def)
    next
      case False
      then have "int (heap_limit lib) < ?n * 88" by simp
      from details_init_short [OF pos b this] i show ?thesis by blast
    qed
  qed
qed

lemma fill_main_parts:
  assumes "fill_main argv0 limit opn vm pst e args = Inr (opts, files, s0)" "plain_fill (o_params opts)" "kind_device (o_params opts) e"
  shows "\<exists>lib flist pools dt e'. init_threads lib opn vm pst files (o_params opts) e = Inr (flist, pools, dt, e')
    \<and> s0 = start_test (test_state lib pools dt (o_statusmb opts) e') flist
    \<and> plain_options (o_params opts) \<and> favourable (o_params opts) e dt (o_statusmb opts)"
proof -
  let ?lib = "iob_libinit argv0 usage_text limit" and ?cp = "o_params opts"
  from assms(1) obtain flist pools dt e' where c: "fill_cmdline argv0 limit args = Inr (opts, files)"
    and i: "init_threads ?lib opn vm pst files ?cp e = Inr (flist, pools, dt, e')"
    and s0: "s0 = start_test (test_state ?lib pools dt (o_statusmb opts) e') flist"
    by (auto simp: fill_main_def bind_res_Inr_iff Let_def)
  note ok = fill_cmdline_ok [OF c]
  have p: "plain_options ?cp" using ok assms(2) by (simp add: plain_options_def plain_fill_def)
  have "iob_details_init ?lib (int_of_u32 (ucast (iodetcnt ?cp))) empty_dtable = Inr dt"
    using i by (auto simp: init_threads_def bind_res_Inr_iff Let_def)
  from details_table [OF this] have "favourable ?cp e dt (o_statusmb opts)"
    using ok assms(2,3) by (simp add: favourable_def kind_device_def plain_fill_def)
  with i s0 p show ?thesis by blast
qed

lemma start_test_simps [simp]:
  "length (i_files (start_test g flist)) = length flist"
  "k < length flist \<Longrightarrow> v_file (i_files (start_test g flist) ! k) = flist ! k"
  by (simp_all add: start_test_def new_view_def Let_def)

section \<open>A run\<close>

text \<open>\<open>iofill -m threads=2,maxoff=1024 /dev/sdb /dev/sdc\<close>: two devices, two threads on each, a megabyte to fill.\<close>

definition pair_args :: "string list" where
  "pair_args = [''-m'', ''threads=2,maxoff=1024'', ''/dev/sdb'', ''/dev/sdc'']"

definition pair_params :: cmdparams where
  "pair_params = defparams\<lparr>nthreads := 2, maxoff := 1048576, openflags := IOB_DIRECT OR O_RDWR\<rparr>"

definition pair_opts :: fill_opts where
  "pair_opts = \<lparr>o_params = pair_params, o_statusmb = statusmb, o_outputfile = outputfile\<rparr>"

definition pair_devices :: "string list" where
  "pair_devices = [''/dev/sdb'', ''/dev/sdc'']"

definition pair_open :: opener where
  "pair_open f fl t = (if f = ''/dev/sdb'' then 3 else 4)"

abbreviation pair_main :: "(fill_opts \<times> string list \<times> isys) res" where
  "pair_main \<equiv> fill_main ''iofill'' (2 ^ 32) pair_open (replicate table_size 1) (replicate table_size 1) demo_env pair_args"

lemma pair_cmdline: "fill_cmdline ''iofill'' (2 ^ 32) pair_args = Inr (pair_opts, pair_devices)"
proof -
  have n: "strtoull ''2'' = 2" "strtoull ''1024'' = 1024"
    using strtoull_dec_nat [of 2] strtoull_dec_nat [of 1024] by (simp_all add: dec_nat.simps char_of_def bit_Suc_0_iff)
  have g: "getsubopt modopts ''threads=2,maxoff=1024'' = (Some 0, Some ''2'', ''maxoff=1024'')"
    "getsubopt modopts ''maxoff=1024'' = (Some 6, Some ''1024'', [])"
    by (simp_all add: getsubopt_def modopts_def)
  have h: "getmodopt lib (Some 0) (Some ''2'') cp = Inr (cp\<lparr>nthreads := 2\<rparr>)"
    "getmodopt lib (Some 6) (Some ''1024'') cp = Inr (cp\<lparr>maxoff := 1048576\<rparr>)" for lib cp
    by (simp_all add: getmodopt_def iob_strtoul_def iob_strtoull_def n)
  have "getmodopts lib ''threads=2,maxoff=1024'' cp = Inr (cp\<lparr>nthreads := 2, maxoff := 1048576\<rparr>)" for lib cp
    unfolding getmodopts_def by (simp add: subopt_loop_step [OF _ g(1)] subopt_loop_step [OF _ g(2)] h)
  moreover have "readpct (defparams\<lparr>nthreads := 2, maxoff := 1048576\<rparr>) < 1" by (simp add: defparams_def)
  ultimately show ?thesis
    by (simp add: fill_cmdline_def pair_args_def fill_option_def pair_opts_def pair_params_def pair_devices_def Let_def)
qed

lemma pair_plain: "plain_fill pair_params" "plain_options pair_params"
  by (simp_all add: plain_fill_def plain_options_def pair_params_def fill_params_ok_def defparams_def header_of_def)

lemma pair_range: "range_of pair_params = 1048576" "unat (minoff pair_params) = 0"
  by (simp_all add: range_of_def first_blk_def end_blk_def pair_params_def defparams_def Let_def)

lemma pair_long:
  "unat (range_of pair_params) \<le> nat (iosize pair_params) * unat (nio pair_params)" "nio pair_params \<le> nio pair_params * nrep pair_params"
  unfolding pair_range by (simp_all add: pair_params_def defparams_def)

lemma pair_own: "own_descriptors pair_open cp pair_devices"
  by (auto simp: own_descriptors_def pair_devices_def pair_open_def less_Suc_eq)

lemma pair_kind: "kind_device pair_params demo_env"
  by (simp add: kind_device_def demo_env_def full_transfers_def timely_def within_time_def time_allowed_def timespec_ns_def
      pair_params_def defparams_def)

lemma demo_can_create: "can_create demo_fill_env"
  by (simp add: can_create_def demo_fill_env_def)

lemma pair_starts:
  "\<exists>s0. pair_main = Inr (pair_opts, pair_devices, s0) \<and> length (i_files s0) = 2
    \<and> (\<exists>n s. (imove demo_fill_env 0 ^^ n) s0 s \<and> main_par (i_main s) = PDone) \<and> i_main s0 \<noteq> MDone \<and> main_par (i_main s0) \<noteq> PDone"
proof -
  let ?lib = "iob_libinit ''iofill'' usage_text (2 ^ 32)" and ?vm = "replicate table_size 1 :: u8 list"
  have "roomy ?lib pair_open" by (simp add: roomy_def pair_open_def iob_libinit_def)
  moreover have "tables_fit pair_params (length pair_devices)" "length pair_devices = 2"
    by (simp_all add: tables_fit_def pair_params_def defparams_def pair_devices_def)
  moreover have l: "length ?vm = table_size" by simp
  ultimately obtain flist pools dt e' where i: "init_threads ?lib pair_open ?vm ?vm pair_devices pair_params demo_env
      = Inr (flist, pools, dt, e')" "length flist = 2" "table_ok dt"
    using init_threads_total [OF pair_plain(2), of ?lib pair_open pair_devices ?vm ?vm demo_env] by (auto simp: table_ok_def)
  have fav: "favourable pair_params demo_env dt statusmb"
    using pair_kind i(3) by (simp add: favourable_def kind_device_def statusmb_def)
  let ?s0 = "start_test (test_state ?lib pools dt statusmb e') flist"
  have z: "(imove demo_fill_env 0 ^^ 0) ?s0 ?s0" by simp
  from test_finishes [OF pair_plain(2) i(1) l l fav pair_own demo_can_create z] obtain n s where
    "(imove demo_fill_env 0 ^^ n) ?s0 s" "main_par (i_main s) = PDone" by blast
  moreover have "pair_main = Inr (pair_opts, pair_devices, ?s0)"
    using i(1) unfolding fill_main_def pair_cmdline bind_res_simps prod.case Let_def by (simp add: pair_opts_def)
  moreover have "i_main ?s0 \<noteq> MDone" "main_par (i_main ?s0) \<noteq> PDone" by (simp_all add: start_test_def)
  ultimately show ?thesis using i(2) by auto
qed

section \<open>Properties\<close>

text \<open>
  Property C1. The whole of \<open>iofill\<close>, from an accepted command line through \<open>init_threads\<close> and any interleaving of \<open>runtest\<close>, the
  file threads and the I/O threads: each file is only ever written, through its own descriptors, in the range from \<open>minoff\<close>, and once
  \<open>runtest\<close> has collected the last file, before anything is reported, every byte of the range of every file has been written. The
  options must be plain and the pass long enough for the range, different files must have different descriptors, transfers must succeed
  and the time limit must not be reached.
\<close>

theorem test_fills_all_files:
  assumes "fill_main argv0 limit opn vm pst e args = Inr (opts, files, s0)" and "length vm = table_size" and "length pst = table_size"
    and "cp = o_params opts" and "plain_fill cp" and "kind_device cp e" and "own_descriptors opn cp files"
    and "unat (range_of cp) \<le> nat (iosize cp) * unat (nio cp)" and "nio cp \<le> nio cp * nrep cp"
    and "rtranclp (imove env fuel) s0 s" and "k < length (i_files s0)"
  shows "written_on (fds_of (v_file (i_files s0 ! k))) (requests s) \<subseteq> {unat (minoff cp) ..< unat (minoff cp) + unat (range_of cp)}
    \<and> (main_par (i_main s) = PDone \<longrightarrow>
        written_on (fds_of (v_file (i_files s0 ! k))) (requests s) = {unat (minoff cp) ..< unat (minoff cp) + unat (range_of cp)})"
proof -
  from fill_main_parts [OF assms(1)] assms(4-6) obtain lib flist pools dt e' where
    i: "init_threads lib opn vm pst files cp e = Inr (flist, pools, dt, e')"
    and s0: "s0 = start_test (test_state lib pools dt (o_statusmb opts) e') flist"
    and p: "plain_options cp" "favourable cp e dt (o_statusmb opts)" by blast
  have k: "k < length flist" using assms(11) by (simp add: s0)
  from test_fills [OF p(1) i assms(2,3) p(2) assms(7-9) assms(10) [unfolded s0] k] k show ?thesis by (simp add: s0)
qed

theorem test_fills_all_files_witness:
  "\<exists>s0 s. pair_main = Inr (pair_opts, pair_devices, s0) \<and> rtranclp (imove demo_fill_env 0) s0 s
    \<and> written_on (fds_of (v_file (i_files s0 ! 0))) (requests s) = {0 ..< 1048576}
    \<and> written_on (fds_of (v_file (i_files s0 ! 1))) (requests s) = {0 ..< 1048576}"
proof -
  from pair_starts obtain s0 n s where m: "pair_main = Inr (pair_opts, pair_devices, s0)" "length (i_files s0) = 2"
    and n: "(imove demo_fill_env 0 ^^ n) s0 s" and e: "main_par (i_main s) = PDone" by blast
  have r: "rtranclp (imove demo_fill_env 0) s0 s" using n by (rule relpowp_imp_rtranclp)
  have l: "length (replicate table_size 1 :: u8 list) = table_size" and p: "pair_params = o_params pair_opts"
    by (simp_all add: pair_opts_def)
  have "written_on (fds_of (v_file (i_files s0 ! k))) (requests s) = {0 ..< 1048576}" if "k < 2" for k
    using that m(2) test_fills_all_files [OF m(1) l l p pair_plain(1) pair_kind pair_own pair_long r, of k] e
    unfolding pair_range by simp
  from this [of 0] this [of 1] m(1) r show ?thesis by (intro exI conjI) simp_all
qed

text \<open>
  Property C2. A run of \<open>iofill\<close> that nothing disturbs comes to its end in every schedule of all its threads, and takes the same number
  of steps in each: as long as \<open>runtest\<close> has not collected its last file some thread can make a step, no step
  faults but for a report that cannot be written, and a test that has ended has taken exactly \<open>test_steps\<close>. Nothing disturbs it
  when the options are plain, every transfer succeeds and the clock stays within the time limit (\<open>kind_device\<close>),
  \<open>pthread_create\<close> succeeds (\<open>can_create\<close>), and different files have different descriptors.
\<close>

theorem test_ends_in_time:
  assumes "fill_main argv0 limit opn vm pst e args = Inr (opts, files, s0)" and "length vm = table_size" and "length pst = table_size"
    and "cp = o_params opts" and "plain_fill cp" and "kind_device cp e" and "own_descriptors opn cp files"
    and "can_create env" and "(imove env fuel ^^ n) s0 s"
  shows "n \<le> test_steps (length (i_files s0)) (nat (nthreads cp)) (unat (nio cp * nrep cp))
    \<and> (i_main s = MDone \<longrightarrow> n = test_steps (length (i_files s0)) (nat (nthreads cp)) (unat (nio cp * nrep cp)))
    \<and> (main_par (i_main s) \<noteq> PDone \<longrightarrow> (\<exists>s'. imove env fuel s s'))
    \<and> (\<forall>a x. istep env fuel a s = Inl x \<longrightarrow> x = Blocked \<or> a = AMain \<and> main_par (i_main s) = PDone)"
proof -
  from fill_main_parts [OF assms(1)] assms(4-6) obtain lib flist pools dt e' where
    i: "init_threads lib opn vm pst files cp e = Inr (flist, pools, dt, e')"
    and s0: "s0 = start_test (test_state lib pools dt (o_statusmb opts) e') flist"
    and p: "plain_options cp" "favourable cp e dt (o_statusmb opts)" by blast
  from test_ends [OF p(1) i assms(2,3) p(2) assms(7) assms(9) [unfolded s0] assms(8)] show ?thesis by (simp add: s0)
qed

theorem test_ends_in_time_witness:
  "\<exists>s0 s'. pair_main = Inr (pair_opts, pair_devices, s0) \<and> imove demo_fill_env 0 s0 s'"
proof -
  from pair_starts obtain s0 where m: "pair_main = Inr (pair_opts, pair_devices, s0)" "main_par (i_main s0) \<noteq> PDone" by blast
  have l: "length (replicate table_size 1 :: u8 list) = table_size" and p: "pair_params = o_params pair_opts"
    by (simp_all add: pair_opts_def)
  have z: "(imove demo_fill_env 0 ^^ 0) s0 s0" by simp
  from test_ends_in_time [OF m(1) l l p pair_plain(1) pair_kind pair_own demo_can_create z] m show ?thesis by blast
qed

end
