(* ===== verification/FillInject.thy ===== *)
theory FillInject
  imports FillOrder
begin

text \<open>
  Write injection and the end of a thread. The injecting thread of a file waits for an \<open>iostop\<close> of every other thread; a thread
  that has left its loop posts none. Once a thread of the file has ended, an injection that is begun, or under way, never
  comes back, and neither does the test.
\<close>

section \<open>A thread that waits for one that has ended\<close>

definition injecting :: "pc \<Rightarrow> bool" where
  "injecting p \<longleftrightarrow> (case p of Inj_time flush \<Rightarrow> True | Inj_count bno \<Rightarrow> True | _ \<Rightarrow> False)"

text \<open>Thread \<open>i\<close> of a file injects, thread \<open>j\<close> has ended and left no \<open>iostop\<close> behind.\<close>

definition hung :: "nat \<Rightarrow> nat \<Rightarrow> iothread list \<Rightarrow> pc list \<Rightarrow> bool" where
  "hung i j ths pcs \<longleftrightarrow> i \<noteq> j \<and> i < length ths \<and> j < length ths \<and> length pcs = length ths
     \<and> injecting (pcs ! i) \<and> pcs ! j = Ended \<and> iostop (ths ! j) = 0"

lemma hung_frame:
  assumes "hung i j ths pcs" "length ths' = length ths" "length pcs' = length pcs"
    and "pcs' ! i = pcs ! i" "pcs' ! j = pcs ! j" "iostop (ths' ! j) = iostop (ths ! j)"
  shows "hung i j ths' pcs'"
  using assms by (simp add: hung_def)

lemma wait_iostops_blocked: "t \<in> set ts \<Longrightarrow> iostop t = 0 \<Longrightarrow> wait_iostops ts = Inl Blocked"
  by (induction ts) (auto simp: sem_wait_def bind_res_def)

text \<open>No injection goes through, whichever thread begins it.\<close>

lemma inject_at_blocked:
  assumes "a \<noteq> j" "j < length ths" "iostop (ths ! j) = 0"
  shows "inject_at fuel flush a (ths, g) = Inl Blocked"
proof -
  have "ths ! j \<in> set (take a ths @ drop (Suc a) ths)"
  proof (cases "j < a")
    case True
    then have "take a ths ! j = ths ! j" "j < length (take a ths)" using assms(2) by simp_all
    then show ?thesis by (metis Un_iff nth_mem set_append)
  next
    case False
    then have "drop (Suc a) ths ! (j - Suc a) = ths ! j" "j - Suc a < length (drop (Suc a) ths)" using assms(1,2) by simp_all
    then show ?thesis by (metis Un_iff nth_mem set_append)
  qed
  from wait_iostops_blocked [OF this assms(3)] show ?thesis
    by (simp add: inject_at_def do_write_inject_def io_stop_def Let_def bind_res_def)
qed

lemma hung_blocked:
  assumes "hung i j (sys_ths s) (sys_pcs s)"
  shows "thread_step fuel i s = Inl Blocked"
proof -
  have "inject_at fuel f i (sys_ths s, sys_g s) = Inl Blocked" for f
    using assms by (intro inject_at_blocked [of i j]) (auto simp: hung_def)
  then show ?thesis using assms
    by (auto simp: hung_def injecting_def thread_step_def step_inject_def bind_res_def split: pc.splits)
qed

text \<open>A turn of the loop does not touch the \<open>iostop\<close> of another thread.\<close>

lemma io_turn_others:
  assumes "io_turn bno a l (ths, g) = Inr (l', ths', g')" "a \<noteq> j"
  shows "length ths' = length ths \<and> iostop (ths' ! j) = iostop (ths ! j)"
proof -
  from assms(1) obtain b ths1 g1 where p: "pick_block bno a (ths, g) = Inr (b, ths1, g1)"
    and r: "run_block bno b a l (ths1, g1) = Inr (l', ths', g')" by (auto simp: io_turn_def bind_res_Inr_iff)
  have "iostop (ths[h := (ths ! h)\<lparr>nextbno := c\<rparr>] ! j) = iostop (ths ! j)" for h c
    by (cases "h < length ths"; cases "h = j") (simp_all add: list_update_beyond)
  with p have "length ths1 = length ths \<and> iostop (ths1 ! j) = iostop (ths ! j)"
    by (auto simp: pick_block_def Let_def fetch_and_add_def bind_res_Inr_iff split: if_splits prod.splits)
  moreover from r obtain tp where "ths' = ths1[a := tp]"
    unfolding run_block_def prod.case Let_def by (clarsimp simp: bind_res_Inr_iff split del: if_split)
  ultimately show ?thesis using assms(2) by simp
qed

lemma hung_step:
  assumes "thread_step fuel a s = Inr s'" "hung i j (sys_ths s) (sys_pcs s)"
  shows "hung i j (sys_ths s') (sys_pcs s') \<and> sys_pcs s' ! i = sys_pcs s ! i"
proof -
  have a: "a \<noteq> i" using hung_blocked [OF assms(2)] assms(1) by auto
  have j: "a \<noteq> j" using assms by (auto simp: hung_def thread_step_def)
  have blk: "inject_at fuel f a (sys_ths s, sys_g s) = Inl Blocked" for f
    using assms(2) j by (intro inject_at_blocked [of a j]) (auto simp: hung_def)
  have "\<exists>p ths. sys_pcs s' = (sys_pcs s)[a := p] \<and> sys_ths s' = ths \<and> length ths = length (sys_ths s)
      \<and> iostop (ths ! j) = iostop (sys_ths s ! j)"
  proof (cases "sys_pcs s ! a")
    case (Turn b)
    with assms(1) obtain l ths g where i: "io_turn b a (sys_locs s ! a) (sys_ths s, sys_g s) = Inr (l, ths, g)"
      and s': "s' = goto a Top (s\<lparr>sys_g := g, sys_ths := ths, sys_locs := (sys_locs s)[a := l]\<rparr>)"
      by (auto simp: thread_step_def step_turn_def bind_res_Inr_iff)
    then show ?thesis using io_turn_others [OF i j] by (auto simp: goto_def)
  qed (use assms(1) j blk in \<open>auto simp: thread_step_def step_top_def step_inject_def step_check_def step_paused_def
      step_draw_def step_leave_def io_end_def goto_def Let_def bind_res_Inr_iff split: prod.splits if_splits\<close>)
  then show ?thesis using hung_frame [OF assms(2)] a j by auto
qed

section \<open>The test that never ends\<close>

definition hung_file :: "nat \<Rightarrow> nat \<Rightarrow> nat \<Rightarrow> isys \<Rightarrow> bool" where
  "hung_file k i j s \<longleftrightarrow> k < length (i_files s) \<and> (let v = i_files s ! k in
     hung i j (v_ths v) (v_pcs v) \<and> v_in v ! i = ILoop \<and> v_in v ! j = ILoop)"

lemma hung_file_blocked: "hung_file k i j s \<Longrightarrow> istep env fuel (AIo k i) s = Inl Blocked"
  using hung_blocked [of i j "\<lparr>sys_g = file_g k s, sys_ths = v_ths (i_files s ! k), sys_locs = v_locs (i_files s ! k),
    sys_pcs = v_pcs (i_files s ! k)\<rparr>"]
  by (auto simp: hung_file_def istep_def io_step_def Let_def hung_def)

text \<open>A step that changes at most one file, and there leaves the two threads as they are.\<close>

lemma hung_file_frame:
  assumes "hung_file k i j s" "i_files s' = (i_files s)[m := w]"
    and "m = k \<Longrightarrow> hung i j (v_ths w) (v_pcs w) \<and> v_in w ! i = ILoop \<and> v_in w ! j = ILoop"
  shows "hung_file k i j s'"
  using assms by (cases "m = k") (auto simp: hung_file_def Let_def)

lemma hung_file_same: "hung_file k i j s \<Longrightarrow> i_files s' = i_files s \<Longrightarrow> hung_file k i j s'"
  by (simp add: hung_file_def)

lemma hung_io_step:
  assumes "io_step fuel a m s = Inr s'" "hung_file k i j s" "m < length (v_ths (i_files s ! a))"
  shows "hung_file k i j s'"
proof (cases "a = k")
  case False
  from assms(1) obtain w where "i_files s' = (i_files s)[a := w]"
    by (auto simp: io_step_def put_file_def Let_def bind_res_Inr_iff split: iplace.splits prod.splits)
  with hung_file_frame [OF assms(2)] False show ?thesis by blast
next
  case True
  let ?v = "i_files s ! k"
  let ?t = "\<lparr>sys_g = file_g k s, sys_ths = v_ths ?v, sys_locs = v_locs ?v, sys_pcs = v_pcs ?v\<rparr>"
  have h: "hung i j (v_ths ?v) (v_pcs ?v)" "v_in ?v ! i = ILoop" "v_in ?v ! j = ILoop"
    using assms(2) by (simp_all add: hung_file_def Let_def)
  show ?thesis
  proof (cases "v_in ?v ! m = ILoop")
    case loop: True
    from assms(1) True loop obtain t where t: "thread_step fuel m ?t = Inr t"
      and s': "s' = put_file k (?v\<lparr>v_ths := sys_ths t, v_locs := sys_locs t, v_pcs := sys_pcs t\<rparr>) (sys_g t) s"
      by (auto simp: io_step_def Let_def bind_res_Inr_iff)
    from hung_step [OF t] h(1) have "hung i j (sys_ths t) (sys_pcs t)" by simp
    with h show ?thesis
      by (intro hung_file_frame [OF assms(2), of s' k "?v\<lparr>v_ths := sys_ths t, v_locs := sys_locs t, v_pcs := sys_pcs t,
          v_file := pthread (sys_g t)\<rparr>"]) (simp_all add: s' put_file_def)
  next
    case False
    with h have m: "m \<noteq> i" "m \<noteq> j" by auto
    let ?w = "i_files s' ! k"
    have k: "k < length (i_files s)" using assms(2) by (simp add: hung_file_def)
    with assms(1) True False have w: "i_files s' = (i_files s)[k := ?w]" "\<exists>tp. v_ths ?w = (v_ths ?v)[m := tp]"
      "(\<exists>p. v_pcs ?w = (v_pcs ?v)[m := p]) \<or> v_pcs ?w = v_pcs ?v" "\<exists>q. v_in ?w = (v_in ?v)[m := q]"
      by (auto simp: io_step_def put_file_def Let_def bind_res_Inr_iff split: iplace.splits prod.splits)
    then have "hung i j (v_ths ?w) (v_pcs ?w)" by (intro hung_frame [OF h(1)]) (use m in auto)
    with w(4) h m show ?thesis by (intro hung_file_frame [OF assms(2) w(1)]) auto
  qed
qed

lemma hung_file_step:
  assumes "file_step env a s = Inr s'" "hung_file k i j s" "a < length (i_files s)" "\<And>m. v_at (i_files s ! k) \<noteq> FCreate m"
  shows "hung_file k i j s'"
proof -
  let ?v = "i_files s ! a" and ?w = "i_files s' ! a"
  have same: "(map iostop ths)[m := iostop (ths ! m)] = map iostop ths" for m ths
    by (cases "m < length ths") (simp_all add: list_update_beyond list_update_same_conv)
  from assms(1,3) have w: "i_files s' = (i_files s)[a := ?w]" "v_pcs ?w = v_pcs ?v"
    "v_in ?w = v_in ?v \<or> (\<exists>m. v_at ?v = FCreate m)" "map iostop (v_ths ?w) = map iostop (v_ths ?v)"
    by (auto simp: file_step_def put_file_def wait_thread_def Let_def bind_res_Inr_iff map_update same
        split: fplace.splits prod.splits if_splits)
  show ?thesis
  proof (rule hung_file_frame [OF assms(2) w(1)])
    assume "a = k"
    then have h: "hung i j (v_ths ?v) (v_pcs ?v)" "v_in ?v ! i = ILoop" "v_in ?v ! j = ILoop" "v_in ?w = v_in ?v"
      using assms(2,4) w(3) by (auto simp: hung_file_def Let_def)
    have l: "length (v_ths ?w) = length (v_ths ?v)" using w(4) by (metis length_map)
    have "iostop (v_ths ?w ! j) = iostop (v_ths ?v ! j)" using w(4) h(1) l by (metis hung_def nth_map)
    with h l w(2) show "hung i j (v_ths ?w) (v_pcs ?w) \<and> v_in ?w ! i = ILoop \<and> v_in ?w ! j = ILoop"
      by (simp add: hung_def)
  qed
qed

lemma hung_runtest:
  assumes "runtest_step env s = Inr s'" "hung_file k i j s"
  shows "hung_file k i j s'"
proof -
  have k: "k < length (i_files s)" using assms(2) by (simp add: hung_file_def)
  with assms(1) have "length (i_files s') = length (i_files s)" "v_ths (i_files s' ! k) = v_ths (i_files s ! k)"
    "v_pcs (i_files s' ! k) = v_pcs (i_files s ! k)" "v_in (i_files s' ! k) = v_in (i_files s ! k)"
    by (auto simp: runtest_step_def wait_file_def set_view_def Let_def bind_res_Inr_iff nth_list_update
        split: mplace.splits prod.splits if_splits)
  with assms(2) show ?thesis by (simp add: hung_file_def Let_def)
qed

text \<open>While it lasts the test is between the release and the collection of the file, and the file thread between those of its threads.\<close>

lemma hung_places:
  assumes "fresh_files flist" "rtranclp (imove env fuel) (start_test g flist) s" "hung_file k i j s"
  shows "(\<exists>m. v_at (i_files s ! k) = FRelease m \<or> v_at (i_files s ! k) = FCollect m)
    \<and> (\<exists>m t r. i_main s = MRelease m t r \<or> i_main s = MCollect m t r)"
proof -
  have "v_pcs (i_files s ! k) ! i \<noteq> Ended" "k < length (i_files s)" "i < length (v_ths (i_files s ! k))" "v_in (i_files s ! k) ! i = ILoop"
    using assms(3) by (auto simp: hung_file_def hung_def injecting_def Let_def)
  from places_around_loop [OF assms(1,2) this(2,3,4,1)] show ?thesis by blast
qed

lemma hung_for_ever:
  assumes "fresh_files flist" "rtranclp (imove env fuel) (start_test g flist) s" "hung_file k i j s" "rtranclp (imove env fuel) s s'"
  shows "hung_file k i j s'"
  using assms(4)
proof (induction rule: rtranclp_induct)
  case base
  show ?case by (rule assms(3))
next
  case (step s1 s2)
  have "rtranclp (imove env fuel) (start_test g flist) s1" using assms(2) step.hyps(1) by (rule rtranclp_trans)
  from hung_places [OF assms(1) this step.IH] have at: "v_at (i_files s1 ! k) \<noteq> FCreate m" for m by auto
  from step.hyps(2) obtain a where a: "istep env fuel a s1 = Inr s2" by (auto simp: imove_def)
  show ?case
  proof (cases a)
    case AMain
    with a hung_runtest [OF _ step.IH] show ?thesis by (simp add: istep_def)
  next
    case (AFile m)
    with a hung_file_step [OF _ step.IH _ at] show ?thesis by (auto simp: istep_def split: if_splits)
  next
    case (AIo m n)
    with a hung_io_step [OF _ step.IH] show ?thesis by (auto simp: istep_def split: if_splits)
  qed
qed

section \<open>A run that comes there\<close>

text \<open>A file with three threads, the first of which injects after every block, and two blocks.\<close>

definition race_file :: "iothread \<Rightarrow> fthread" where
  "race_file tp = zero_fthread\<lparr>totalio := 2, ithreads := [tp, zero_iothread, zero_iothread]\<rparr>"

definition race_thread :: iothread where
  "race_thread = zero_iothread\<lparr>params := zero_params\<lparr>writeinject := 1, injectinterval := 1000000000, injectinterval_io := 1\<rparr>\<rparr>"

definition race_start :: "iactor list" where
  "race_start = [AMain, AFile 0, AFile 0, AFile 0, AIo 0 0, AIo 0 1, AIo 0 2, AFile 0, AFile 0, AFile 0, AFile 0, AFile 0, AFile 0,
     AMain, AMain, AMain, AMain, AMain, AFile 0, AFile 0, AFile 0, AFile 0, AFile 0]"

text \<open>The second thread draws block 0, the third passes the test of \<open>iowait\<close>, the first draws block 1 and the third finds none left.\<close>

definition race_loop :: "iactor list" where
  "race_loop = [AIo 0 0, AIo 0 1, AIo 0 2, AIo 0 0, AIo 0 1, AIo 0 2, AIo 0 1, AIo 0 1, AIo 0 1, AIo 0 2, AIo 0 2,
     AIo 0 0, AIo 0 0, AIo 0 0, AIo 0 2, AIo 0 2]"

lemma race_fresh: "fresh_files [race_file race_thread]"
  by (simp add: fresh_files_def race_file_def race_thread_def zero_fthread_def zero_iothread_def sems_def)

lemmas race_defs = race_file_def race_thread_def zero_fthread_def zero_iothread_def zero_params_def demo_fill_env_def demo_state_def
  demo_env_def demo_lib_def

lemmas race_steps = istep_defs io_prologue_def file_begin_def post_stop_of_def set_rng_def tick_def iob_gettime_def Let_def

text \<open>The state with the three threads released, before they take the time.\<close>

definition race_released :: isys where
  "race_released = (case ifollow demo_fill_env 0 race_start (start_test demo_state [race_file race_thread]) of Inr s \<Rightarrow> s)"

lemma race_started:
  "ifollow demo_fill_env 0 race_start (start_test demo_state [race_file race_thread]) = Inr race_released"
  by (simp add: race_released_def race_start_def start_test_def new_view_def race_defs race_steps)

lemma race_goes_on:
  "\<exists>s. ifollow demo_fill_env 0 race_loop race_released = Inr s \<and> hung_file 0 0 2 s"
  by (simp add: race_released_def race_start_def race_loop_def start_test_def new_view_def race_defs race_steps
      io_begin_def thread_step_def step_top_def time_due_def step_check_def step_draw_def draw_block_def add_bno_def fetch_and_add_def
      count_due_def raise_iowait_def step_leave_def io_end_def goto_def timespec_ns_def hung_file_def hung_def injecting_def)

lemma race_reached:
  "\<exists>s. rtranclp (imove demo_fill_env 0) (start_test demo_state [race_file race_thread]) s \<and> hung_file 0 0 2 s"
proof -
  from race_goes_on obtain s where "ifollow demo_fill_env 0 race_loop race_released = Inr s" "hung_file 0 0 2 s" by blast
  with ifollow_reach [OF race_started] ifollow_reach show ?thesis by (metis rtranclp_trans)
qed

section \<open>Properties\<close>

text \<open>
  Write injection can hang \<open>iofill\<close>. If thread \<open>i\<close> of a file is in \<open>do_write_inject\<close>, by time or by count, when
  another thread of the file has found no block left and ended without a post of \<open>iostop\<close>, then in every continuation, under every
  schedule, thread \<open>i\<close> waits in \<open>io_stop\<close>, and \<open>runtest\<close> never comes to its reports. The example is a run from the start of a test.
  No option of this version turns write injection on (\<open>fill_params_ok\<close>): the threads of the example have \<open>writeinject\<close> set.
\<close>

theorem injection_after_end_hangs:
  assumes "fresh_files flist" and "rtranclp (imove env fuel) (start_test g flist) s"
    and "hung_file k i j s" and "rtranclp (imove env fuel) s s'"
  shows "istep env fuel (AIo k i) s' = Inl Blocked \<and> main_par (i_main s') \<noteq> PDone \<and> v_at (i_files s' ! k) \<noteq> FGone"
proof -
  note h = hung_for_ever [OF assms]
  have "rtranclp (imove env fuel) (start_test g flist) s'" using assms(2,4) by (rule rtranclp_trans)
  from hung_places [OF assms(1) this h] hung_file_blocked [OF h] show ?thesis by auto
qed

theorem injection_after_end_hangs_witness:
  "\<exists>s. rtranclp (imove demo_fill_env 0) (start_test demo_state [race_file race_thread]) s
    \<and> (\<forall>s'. rtranclp (imove demo_fill_env 0) s s' \<longrightarrow> i_main s' \<noteq> MDone)"
proof -
  from race_reached obtain s where r: "rtranclp (imove demo_fill_env 0) (start_test demo_state [race_file race_thread]) s"
    "hung_file 0 0 2 s" by blast
  have "i_main s' \<noteq> MDone" if "rtranclp (imove demo_fill_env 0) s s'" for s'
    using injection_after_end_hangs [OF race_fresh r that] by auto
  with r(1) show ?thesis by blast
qed

end
