(* ===== verification/LoadTypes.thy ===== *)
theory LoadTypes
  imports CLib Reports
begin

text \<open>
  \<open>ioload/ioload.h\<close>: the parameters, the I/O types, the statistics and the threads of \<open>ioload\<close>. The names of the members
  carry a prefix for the structure they belong to, because \<open>iofill\<close> has structures of the same names. As there,
  pointers become containment: a file holds its threads, a thread its request, and the list of I/O types is a list.
\<close>

section \<open>Constants\<close>

definition NLATBKTS_ld :: nat where [simp]: "NLATBKTS_ld = 100000"
definition LATDIV_ld :: u64 where [simp]: "LATDIV_ld = 10000"
definition NIOTRACE :: int where [simp]: "NIOTRACE = 100000"
definition O_DIRECT_ld :: int where [simp]: "O_DIRECT_ld = 0x4000"
definition O_CREAT_ld :: int where [simp]: "O_CREAT_ld = 0x40"
definition O_RDWR_ld :: int where [simp]: "O_RDWR_ld = 2"

section \<open>Parameters and I/O types\<close>

record params_ld =
  p_minoff :: u64
  p_maxoff :: u64
  p_headersz :: u64
  p_warmup :: u64
  p_interval :: u64
  p_maxlatency :: u32
  p_maxrate :: u32
  p_status :: u32
  p_multiplier :: int
  p_initthreads :: int
  p_maxthreads :: int
  p_incrthreads :: int
  p_maxiosize :: int

record itype =
  it_pct :: rat
  it_dedupblks :: u64
  it_optype :: int
  it_size :: u32
  it_dtype :: int
  it_longlat :: u64
  it_repwrite :: rat

section \<open>Statistics\<close>

record iostats =
  s_latbuckets :: "nat \<Rightarrow> nat \<Rightarrow> u64"
  s_totreads :: u64
  s_totwrites :: u64
  s_totlat :: "nat \<Rightarrow> u64"
  s_totbytes :: "nat \<Rightarrow> u64"

definition zero_iostats :: iostats where
  "zero_iostats = \<lparr>s_latbuckets = (\<lambda>_ _. 0), s_totreads = 0, s_totwrites = 0, s_totlat = (\<lambda>_. 0),
     s_totbytes = (\<lambda>_. 0)\<rparr>"

section \<open>Requests, threads and files\<close>

record ioreq_ld =
  q_detail :: iodet
  q_threadoff :: u64
  q_fd :: int
  q_error :: int
  q_syserr :: int
  q_rsize :: int
  q_readbp :: bytes
  q_writebp :: bytes
  q_itype :: "itype option"

record iothread_ld =
  t_iorp :: ioreq_ld
  t_params :: params_ld
  t_itlist :: "itype list"
  t_threadid :: int
  t_fd :: int
  t_maxblks :: u64
  t_minblks :: u64
  t_rangeoff :: u64
  t_cur :: iostats

record file_ld =
  f_ithreads :: "iothread_ld list"
  f_filename :: string
  f_fileno :: int
  f_params_ld :: params_ld
  f_itlist :: "itype list"
  f_cur :: iostats
  f_use :: iostats
  f_last :: iostats

text \<open>What the threads share with \<open>runtest\<close>: the number of active threads and the times of the running test.\<close>

record curtest =
  c_threads :: int
  c_endwarmup :: u64
  c_endinterval :: u64
  c_finish :: u64

definition zero_params_ld :: params_ld where
  "zero_params_ld = \<lparr>p_minoff = 0, p_maxoff = 0, p_headersz = 0, p_warmup = 0, p_interval = 0,
     p_maxlatency = 0, p_maxrate = 0, p_status = 0, p_multiplier = 0, p_initthreads = 0, p_maxthreads = 0,
     p_incrthreads = 0, p_maxiosize = 0\<rparr>"

definition zero_ioreq_ld :: ioreq_ld where
  "zero_ioreq_ld = \<lparr>q_detail = zero_iodet, q_threadoff = 0, q_fd = 0, q_error = 0, q_syserr = 0, q_rsize = 0,
     q_readbp = [], q_writebp = [], q_itype = None\<rparr>"

definition zero_iothread_ld :: iothread_ld where
  "zero_iothread_ld = \<lparr>t_iorp = zero_ioreq_ld, t_params = zero_params_ld, t_itlist = [], t_threadid = 0,
     t_fd = 0, t_maxblks = 0, t_minblks = 0, t_rangeoff = 0, t_cur = zero_iostats\<rparr>"

definition zero_file_ld :: file_ld where
  "zero_file_ld = \<lparr>f_ithreads = [], f_filename = [], f_fileno = 0, f_params_ld = zero_params_ld, f_itlist = [],
     f_cur = zero_iostats, f_use = zero_iostats, f_last = zero_iostats\<rparr>"

definition zero_curtest :: curtest where
  "zero_curtest = \<lparr>c_threads = 0, c_endwarmup = 0, c_endinterval = 0, c_finish = 0\<rparr>"

text \<open>The sizes of the structures on 64-bit Linux, for \<open>iob_malloc\<close>.\<close>

definition sizeof_itype :: int where [simp]: "sizeof_itype = 64"
definition sizeof_ioreq_ld :: int where [simp]: "sizeof_ioreq_ld = 144"
definition sizeof_iothread_ld :: int where [simp]: "sizeof_iothread_ld = 1600248"
definition sizeof_file_ld :: int where [simp]: "sizeof_file_ld = 4800256"
definition sizeof_curtest :: int where [simp]: "sizeof_curtest = 32"

end
