(* ===== verification/LoadMain.thy ===== *)
theory LoadMain
  imports LoadTypes
begin

text \<open>
  \<open>ioload/iol_main.c\<close>: the defaults, the command line with its two groups of suboptions, and the usage text. Each \<open>-i\<close> adds
  an I/O type to the end of the list, made from the default type.
\<close>

section \<open>Defaults and tables\<close>

definition defparams_ld :: params_ld where
  "defparams_ld = \<lparr>
     p_minoff = 0,
     p_maxoff = push_bit 20 204800,
     p_headersz = 1024,
     p_warmup = 60 * IOB_NSEC_TO_SEC,
     p_interval = 300 * IOB_NSEC_TO_SEC,
     p_maxlatency = 2000 * 1000,
     p_maxrate = 0,
     p_status = 0,
     p_multiplier = 1,
     p_initthreads = 5,
     p_maxthreads = 40,
     p_incrthreads = 5,
     p_maxiosize = 1048576\<rparr>"

definition defitype :: itype where
  "defitype = \<lparr>
     it_pct = 1,
     it_dedupblks = push_bit 50 1,
     it_optype = READ,
     it_size = 4096,
     it_dtype = IOB_DT_VM,
     it_longlat = NOT 0,
     it_repwrite = 0\<rparr>"

definition itypeopts :: "string list" where
  "itypeopts = [''size'', ''pct'', ''op'', ''dtype'', ''dedupblks'', ''longlat'', ''sleeptm'', ''repwrite'']"

definition modopts_ld :: "string list" where
  "modopts_ld = [''minoff'', ''maxoff'', ''warmup'', ''interval'', ''initthreads'', ''maxthreads'', ''incrthreads'',
     ''maxlat'', ''status'', ''maxrate'', ''multiplier'', ''maxiosize'', ''header'']"

section \<open>The usage text\<close>

definition usage_text_ld :: "string list" where
  "usage_text_ld =
    [''Usage: ioload [options] file1 [...]'',
     ''Valid options are:'',
     tabs 1 @ ''-n'' @ tabs 4 @ ''ignore I/O errors'',
     tabs 1 @ ''-v'' @ tabs 4 @ ''produce output details for each file'',
     tabs 1 @ ''-l'' @ tabs 4 @ ''report latency histogram'',
     tabs 1 @ ''-o outfile'' @ tabs 3 @ ''use outfile as basename for output file'',
     tabs 1 @ ''-i io_spec'' @ tabs 3 @ ''each -d option adds a new I/O type'',
     tabs 2 @ ''pct=n'' @ tabs 3 @ ''percentage of all test I/O that will be this type'',
     tabs 2 @ ''size=n'' @ tabs 3 @ ''size of I/O (default is 4096)'',
     tabs 2 @ ''sleeptm=n'' @ tabs 2 @ ''time to sleep in us (default is 5000)'',
     tabs 2 @ ''op=read|write|sleep'' @ tabs 1 @ ''type of I/O operation (default is read)'',
     tabs 2 @ ''dtype=type'' @ tabs 2 @ ''select the type of data for writes'',
     tabs 5 @ ''c'' @ tabs 1 @ ''write compressible data'',
     tabs 5 @ ''e'' @ tabs 1 @ ''write email data from pst files'',
     tabs 5 @ ''h1 or h'' @ tabs 1 @ ''write data compressible to approx 1% of original'',
     tabs 5 @ ''h10'' @ tabs 1 @ ''write data compressible to approx 10% of original'',
     tabs 5 @ ''h20'' @ tabs 1 @ ''write data compressible to approx 20% of original'',
     tabs 5 @ ''h40'' @ tabs 1 @ ''write data compressible to approx 40% of original'',
     tabs 5 @ ''o'' @ tabs 1 @ ''write a pattern of all ones'',
     tabs 5 @ ''p'' @ tabs 1 @ ''write one byte patterns in each sector'',
     tabs 5 @ ''u'' @ tabs 1 @ ''write uncompressible data'',
     tabs 5 @ ''v'' @ tabs 1 @ ''write virtual machine data (default)'',
     tabs 5 @ ''z'' @ tabs 1 @ ''write a pattern of all zeros'',
     tabs 2 @ ''dedupblks=n'' @ tabs 2 @ ''controls how many thousand pages in dedup set (default is 2^50)'',
     tabs 2 @ ''repwrite=pct'' @ tabs 2 @ ''percentage or repeat writes (default is 0.0)'',
     tabs 2 @ ''longlat=n'' @ tabs 2 @ ''report I/Os longer than n microseconds (default is off)'',
     tabs 1 @ ''-m mod_opts'',
     tabs 2 @ ''minoff=n'' @ tabs 2 @ ''minimum seek offset in MB (default is 0)'',
     tabs 2 @ ''maxoff=n'' @ tabs 2 @ ''maximum seek offset in MB (default is 200GB (204800))'',
     tabs 2 @ ''multipler=n'' @ tabs 2 @ ''multipler for sparse offsets (default is off)'',
     tabs 2 @ ''initthreads=n'' @ tabs 2 @ ''use n threads in initial test (default is 5)'',
     tabs 2 @ ''maxthreads=n'' @ tabs 2 @ ''increase load to a maximum of n threads (default is 40)'',
     tabs 2 @ ''incrthreads=n'' @ tabs 2 @ ''increase load by n threads each inteval (default is 5)'',
     tabs 2 @ ''warmup=n'' @ tabs 2 @ ''run for n seconds before measurement (default is 60)'',
     tabs 2 @ ''interval=n'' @ tabs 2 @ ''run for n seconds before increasing load (default is 300)'',
     tabs 2 @ ''status=n'' @ tabs 2 @ ''during run report status every n seconds (default is 0)'',
     tabs 2 @ ''header=n'' @ tabs 2 @ ''controls size of header (default is 1K)'',
     tabs 2 @ ''maxlat=n'' @ tabs 2 @ ''stop test at 90th percentile latency (in us) (default is 2000)'',
     tabs 2 @ ''maxrate=n'' @ tabs 2 @ ''maximum I/O rate per thread (default is unlimited (0))'',
     tabs 2 @ ''maxiosize=n'' @ tabs 2 @ ''breakup I/Os larger than n bytes (default is 1048576 (1MB))'']"

definition usage_ld :: "string list \<Rightarrow> fault" where
  "usage_ld msg = Exited 1 (msg @ usage_text_ld)"

section \<open>Suboptions of the test\<close>

definition getmodopt_ld :: "libstate \<Rightarrow> nat option \<Rightarrow> string option \<Rightarrow> params_ld \<Rightarrow> params_ld res" where
  "getmodopt_ld lib i value cp =
     (if i = Some 0 then
        bind_res (iob_strtoull lib value) (\<lambda>v.
          let cp' = cp\<lparr>p_minoff := push_bit 20 v\<rparr> in
          if p_maxoff cp' \<le> p_minoff cp' then Inl (usage_ld [''Error: minoff must be less than maxoff''])
          else Inr cp')
      else if i = Some 1 then
        bind_res (iob_strtoull lib value) (\<lambda>v.
          let cp' = cp\<lparr>p_maxoff := push_bit 20 v\<rparr> in
          if p_maxoff cp' \<le> p_minoff cp' then Inl (usage_ld [''Error: maxoff must be greater than minoff''])
          else Inr cp')
      else if i = Some 10 then bind_res (iob_strtoul lib value) (\<lambda>v. Inr (cp\<lparr>p_multiplier := int_of_u32 v\<rparr>))
      else if i = Some 8 then bind_res (iob_strtoul lib value) (\<lambda>v. Inr (cp\<lparr>p_status := v\<rparr>))
      else if i = Some 12 then bind_res (iob_strtoull lib value) (\<lambda>v. Inr (cp\<lparr>p_headersz := v * 1024\<rparr>))
      else if i = Some 2 then
        bind_res (iob_strtoull lib value) (\<lambda>v. Inr (cp\<lparr>p_warmup := v * IOB_NSEC_TO_SEC\<rparr>))
      else if i = Some 3 then
        bind_res (iob_strtoull lib value) (\<lambda>v. Inr (cp\<lparr>p_interval := v * IOB_NSEC_TO_SEC\<rparr>))
      else if i = Some 4 then bind_res (iob_strtoul lib value) (\<lambda>v. Inr (cp\<lparr>p_initthreads := int_of_u32 v\<rparr>))
      else if i = Some 5 then bind_res (iob_strtoul lib value) (\<lambda>v. Inr (cp\<lparr>p_maxthreads := int_of_u32 v\<rparr>))
      else if i = Some 6 then bind_res (iob_strtoul lib value) (\<lambda>v. Inr (cp\<lparr>p_incrthreads := int_of_u32 v\<rparr>))
      else if i = Some 7 then bind_res (iob_strtoul lib value) (\<lambda>v. Inr (cp\<lparr>p_maxlatency := v * 1000\<rparr>))
      else if i = Some 9 then bind_res (iob_strtoul lib value) (\<lambda>v. Inr (cp\<lparr>p_maxrate := v\<rparr>))
      else if i = Some 11 then bind_res (iob_strtoul lib value) (\<lambda>v. Inr (cp\<lparr>p_maxiosize := int_of_u32 v\<rparr>))
      else Inl (usage_ld [''unknown -m suboption '' @ the value]))"

definition getmodopts_ld :: "libstate \<Rightarrow> string \<Rightarrow> params_ld \<Rightarrow> params_ld res" where
  "getmodopts_ld lib = subopt_loop modopts_ld (getmodopt_ld lib)"

section \<open>Suboptions of an I/O type\<close>

text \<open>The type under construction, the sleep time given for it, and the global \<open>longlats\<close>.\<close>

record itype_opts =
  io_type :: itype
  io_sleeptm :: int
  io_longlats :: bool

definition set_optype :: "string option \<Rightarrow> itype_opts \<Rightarrow> itype_opts res" where
  "set_optype value st =
     (case value of
        None \<Rightarrow> Inl (usage_ld [''Error: Optional argument parameter not specified''])
      | Some s \<Rightarrow>
          if s = ''write'' then Inr (st\<lparr>io_type := (io_type st)\<lparr>it_optype := WRITE\<rparr>\<rparr>)
          else if s = ''read'' then Inr (st\<lparr>io_type := (io_type st)\<lparr>it_optype := READ\<rparr>\<rparr>)
          else if s = ''sleep'' then Inr (st\<lparr>io_type := (io_type st)\<lparr>it_optype := SLEEP\<rparr>\<rparr>)
          else Inl (usage_ld [''Error: Invalid operation specified'']))"

definition set_itsize :: "libstate \<Rightarrow> string option \<Rightarrow> itype_opts \<Rightarrow> itype_opts res" where
  "set_itsize lib value st =
     bind_res (iob_strtoul lib value) (\<lambda>v.
       if v < of_nat IOB_SECTOR \<or> v mod of_nat IOB_SECTOR \<noteq> 0
       then Inl (usage_ld [''Error: I/O size ('' @ dec_int (int_of_u32 v) @ '') must be a multiple of ''
              @ dec_nat IOB_SECTOR @ '' bytes''])
       else Inr (st\<lparr>io_type := (io_type st)\<lparr>it_size := v\<rparr>\<rparr>))"

definition set_sleeptm :: "libstate \<Rightarrow> string option \<Rightarrow> itype_opts \<Rightarrow> itype_opts res" where
  "set_sleeptm lib value st =
     bind_res (iob_strtoul lib value) (\<lambda>v.
       if int_of_u32 v < 50 then Inl (usage_ld [''Error: Can't specify sleep shorter than 50 us''])
       else Inr (st\<lparr>io_sleeptm := int_of_u32 v\<rparr>))"

definition set_dedupblks :: "libstate \<Rightarrow> string option \<Rightarrow> itype_opts \<Rightarrow> itype_opts res" where
  "set_dedupblks lib value st =
     bind_res (iob_strtoull lib value) (\<lambda>v.
       let v1 = (if v = 0 then 1 else v)
       in Inr (st\<lparr>io_type := (io_type st)\<lparr>it_dedupblks := (if push_bit 50 1 < v1 then push_bit 50 1 else v1)\<rparr>\<rparr>))"

definition getitypeopt :: "libstate \<Rightarrow> nat option \<Rightarrow> string option \<Rightarrow> itype_opts \<Rightarrow> itype_opts res" where
  "getitypeopt lib i value st =
     (if i = Some 0 then set_itsize lib value st
      else if i = Some 2 then set_optype value st
      else if i = Some 1 then
        bind_res (iob_strtod lib value) (\<lambda>v. Inr (st\<lparr>io_type := (io_type st)\<lparr>it_pct := v\<rparr>\<rparr>))
      else if i = Some 7 then
        bind_res (iob_strtod lib value) (\<lambda>v. Inr (st\<lparr>io_type := (io_type st)\<lparr>it_repwrite := v\<rparr>\<rparr>))
      else if i = Some 6 then set_sleeptm lib value st
      else if i = Some 5 then
        bind_res (iob_strtoull lib value) (\<lambda>v.
          Inr (st\<lparr>io_type := (io_type st)\<lparr>it_longlat := v * 1000\<rparr>, io_longlats := True\<rparr>))
      else if i = Some 3 then
        bind_res (iob_dtargparse lib value) (\<lambda>d. Inr (st\<lparr>io_type := (io_type st)\<lparr>it_dtype := d\<rparr>\<rparr>))
      else if i = Some 4 then set_dedupblks lib value st
      else Inl (usage_ld [''unknown -i suboption '' @ the value]))"

definition finish_itype :: "itype_opts \<Rightarrow> itype" where
  "finish_itype st =
     (let ip = io_type st in
      if it_optype ip = SLEEP
      then ip\<lparr>it_size := u32_of_int (if io_sleeptm st \<noteq> 0 then io_sleeptm st else 5000)\<rparr> else ip)"

definition getitypeopts :: "libstate \<Rightarrow> string \<Rightarrow> itype list \<times> bool \<Rightarrow> (itype list \<times> bool) res" where
  "getitypeopts lib s = (\<lambda>(itlist, longlats).
     bind_res (malloc_struct lib sizeof_itype) (\<lambda>_.
     bind_res (subopt_loop itypeopts (getitypeopt lib) s
                 \<lparr>io_type = defitype, io_sleeptm = 0, io_longlats = longlats\<rparr>) (\<lambda>st.
       Inr (itlist @ [finish_itype st], io_longlats st))))"

section \<open>The command line\<close>

record load_opts =
  lo_params :: params_ld
  lo_itlist :: "itype list"
  lo_outputfile :: string
  lo_verbose :: bool
  lo_lat_details :: bool
  lo_longlats :: bool
  lo_ign_errors :: bool

definition init_opts :: load_opts where
  "init_opts = \<lparr>lo_params = defparams_ld, lo_itlist = [], lo_outputfile = ''output'', lo_verbose = False,
     lo_lat_details = False, lo_longlats = False, lo_ign_errors = False\<rparr>"

definition load_option :: "libstate \<Rightarrow> optev \<Rightarrow> load_opts \<Rightarrow> load_opts res" where
  "load_option lib ev st =
     (case ev of
        OptFlag c \<Rightarrow>
          if c = CHR ''n'' then Inr (st\<lparr>lo_ign_errors := True\<rparr>)
          else if c = CHR ''v'' then Inr (st\<lparr>lo_verbose := True\<rparr>)
          else if c = CHR ''l'' then Inr (st\<lparr>lo_lat_details := True\<rparr>)
          else Inl (usage_ld [''unknown option '' @ [c]])
      | OptArg c arg \<Rightarrow>
          if c = CHR ''o'' then Inr (st\<lparr>lo_outputfile := arg\<rparr>)
          else if c = CHR ''m'' then
            bind_res (getmodopts_ld lib arg (lo_params st)) (\<lambda>p. Inr (st\<lparr>lo_params := p\<rparr>))
          else if c = CHR ''i'' then
            bind_res (getitypeopts lib arg (lo_itlist st, lo_longlats st)) (\<lambda>(its, ll).
              Inr (st\<lparr>lo_itlist := its, lo_longlats := ll\<rparr>))
          else Inl (usage_ld [''unknown option '' @ [c]])
      | OptBad c \<Rightarrow> Inl (usage_ld [''unknown option '' @ [c]]))"

text \<open>What \<open>main\<close> does up to \<open>init_threads\<close>.\<close>

definition load_cmdline :: "string \<Rightarrow> nat \<Rightarrow> string list \<Rightarrow> (load_opts \<times> string list) res" where
  "load_cmdline argv0 limit args =
     (let lib = iob_libinit argv0 usage_text_ld limit;
          (evs, filenames) = getopt ''nvlo:m:i:'' args
      in bind_res (loop_res (load_option lib) evs init_opts) (\<lambda>st.
           let st' = (if lo_itlist st = [] then st\<lparr>lo_itlist := [defitype]\<rparr> else st)
           in if filenames = [] then Inl (usage_ld []) else Inr (st', filenames)))"

section \<open>What the command line can set\<close>

definition load_params_ok :: "params_ld \<Rightarrow> bool" where
  "load_params_ok p \<longleftrightarrow> p_minoff p < p_maxoff p
     \<and> 2 ^ 20 dvd unat (p_minoff p) \<and> 2 ^ 20 dvd unat (p_maxoff p)"

definition itype_ok :: "itype \<Rightarrow> bool" where
  "itype_ok ip \<longleftrightarrow> 1 \<le> it_dedupblks ip \<and> it_dedupblks ip \<le> push_bit 50 1
     \<and> (if it_optype ip = SLEEP then 50 \<le> it_size ip
        else it_optype ip \<in> {READ, WRITE} \<and> 512 \<le> it_size ip \<and> 512 dvd unat (it_size ip))"

text \<open>The same, while the suboptions of a type are read.\<close>

definition itype_opts_ok :: "itype_opts \<Rightarrow> bool" where
  "itype_opts_ok st \<longleftrightarrow> (let ip = io_type st in
     1 \<le> it_dedupblks ip \<and> it_dedupblks ip \<le> push_bit 50 1
     \<and> it_optype ip \<in> {READ, WRITE, SLEEP} \<and> 512 \<le> it_size ip \<and> 512 dvd unat (it_size ip)
     \<and> (io_sleeptm st = 0 \<or> 50 \<le> io_sleeptm st \<and> io_sleeptm st < 2 ^ 31))"

lemma megabytes: "2 ^ 20 dvd unat (push_bit 20 (v :: u64))"
proof -
  have "unat (push_bit 20 v) = take_bit 64 (2 ^ 20 * unat v)"
    by (simp add: push_bit_eq_mult unat_word_ariths take_bit_eq_mod mult.commute)
  then show ?thesis by (simp add: take_bit_eq_mod dvd_mod_iff)
qed

lemma load_params_updates [simp]:
  "load_params_ok (p\<lparr>p_multiplier := n\<rparr>) = load_params_ok p"
  "load_params_ok (p\<lparr>p_status := w\<rparr>) = load_params_ok p"
  "load_params_ok (p\<lparr>p_headersz := v\<rparr>) = load_params_ok p"
  "load_params_ok (p\<lparr>p_warmup := v\<rparr>) = load_params_ok p"
  "load_params_ok (p\<lparr>p_interval := v\<rparr>) = load_params_ok p"
  "load_params_ok (p\<lparr>p_initthreads := n\<rparr>) = load_params_ok p"
  "load_params_ok (p\<lparr>p_maxthreads := n\<rparr>) = load_params_ok p"
  "load_params_ok (p\<lparr>p_incrthreads := n\<rparr>) = load_params_ok p"
  "load_params_ok (p\<lparr>p_maxlatency := w\<rparr>) = load_params_ok p"
  "load_params_ok (p\<lparr>p_maxrate := w\<rparr>) = load_params_ok p"
  "load_params_ok (p\<lparr>p_maxiosize := n\<rparr>) = load_params_ok p"
  by (simp_all add: load_params_ok_def)

lemma load_range_update:
  "load_params_ok p \<Longrightarrow> push_bit 20 v < p_maxoff p \<Longrightarrow> load_params_ok (p\<lparr>p_minoff := push_bit 20 v\<rparr>)"
  "load_params_ok p \<Longrightarrow> p_minoff p < push_bit 20 v \<Longrightarrow> load_params_ok (p\<lparr>p_maxoff := push_bit 20 v\<rparr>)"
  using megabytes [of v] by (simp_all add: load_params_ok_def)

interpretation lmod: subopt_handler modopts_ld "getmodopt_ld lib" load_params_ok for lib
proof unfold_locales
  fix st i v st'
  assume ok: "load_params_ok st" and h: "getmodopt_ld lib i v st = Inr st'"
  consider "i = Some 0" | "i = Some 1" | "i \<noteq> Some 0" "i \<noteq> Some 1" by blast
  then show "load_params_ok st'"
  proof cases
    case 1
    with h load_range_update(1) [OF ok] show ?thesis
      by (auto simp: getmodopt_ld_def bind_res_Inr_iff Let_def not_le split: if_splits)
  next
    case 2
    with h load_range_update(2) [OF ok] show ?thesis
      by (auto simp: getmodopt_ld_def bind_res_Inr_iff Let_def not_le split: if_splits)
  next
    case 3
    with h ok show ?thesis unfolding getmodopt_ld_def
      by (simp only: if_False) (auto simp: bind_res_Inr_iff split: if_splits)
  qed
qed

lemma set_itsize_ok:
  assumes "itype_opts_ok st" "set_itsize lib v st = Inr st'"
  shows "itype_opts_ok st'"
proof -
  let ?bad = "\<lambda>w :: u32. w < of_nat IOB_SECTOR \<or> w mod of_nat IOB_SECTOR \<noteq> 0"
  from assms(2) obtain w where "(if ?bad w
       then Inl (usage_ld [''Error: I/O size ('' @ dec_int (int_of_u32 w) @ '') must be a multiple of ''
              @ dec_nat IOB_SECTOR @ '' bytes''])
       else Inr (st\<lparr>io_type := (io_type st)\<lparr>it_size := w\<rparr>\<rparr>)) = Inr st'"
    unfolding set_itsize_def bind_res_Inr_iff by blast
  then have b: "\<not> ?bad w" and w: "st' = st\<lparr>io_type := (io_type st)\<lparr>it_size := w\<rparr>\<rparr>"
    by (cases "?bad w"; simp only: if_True if_False sum.inject sum.distinct)+
  have le: "512 \<le> w" using b by (simp add: not_less)
  have "unat (w mod of_nat IOB_SECTOR) = 0" using b by (metis unat_0)
  then have "unat w mod 512 = 0" unfolding unat_mod by simp
  then have "512 dvd unat w" by presburger
  with w le assms(1) show ?thesis by (simp add: itype_opts_ok_def Let_def)
qed

lemma set_optype_ok: "itype_opts_ok st \<Longrightarrow> set_optype v st = Inr st' \<Longrightarrow> itype_opts_ok st'"
  by (auto simp: set_optype_def itype_opts_ok_def Let_def split: option.splits if_splits)

lemma set_sleeptm_ok:
  assumes "itype_opts_ok st" "set_sleeptm lib v st = Inr st'"
  shows "itype_opts_ok st'"
proof -
  from assms(2) obtain w where w: "50 \<le> int_of_u32 w" "st' = st\<lparr>io_sleeptm := int_of_u32 w\<rparr>"
    by (auto simp: set_sleeptm_def bind_res_Inr_iff not_less split: if_splits)
  have "int_of_u32 w < 2 ^ 31" using sint_lt [of w] by simp
  with w assms(1) show ?thesis by (simp add: itype_opts_ok_def Let_def)
qed

lemma set_dedupblks_ok:
  assumes "itype_opts_ok st" "set_dedupblks lib v st = Inr st'"
  shows "itype_opts_ok st'"
proof -
  from assms(2) obtain w where "st' = st\<lparr>io_type := (io_type st)\<lparr>it_dedupblks :=
      (if push_bit 50 1 < (if w = 0 then 1 else w) then push_bit 50 1 else (if w = 0 then 1 else w))\<rparr>\<rparr>"
    unfolding set_dedupblks_def Let_def bind_res_Inr_iff by blast
  with assms(1) clamp_ok [of "if w = 0 then 1 else w"] show ?thesis by (simp add: itype_opts_ok_def Let_def)
qed

lemma itype_opts_updates [simp]:
  "itype_opts_ok (st\<lparr>io_type := (io_type st)\<lparr>it_pct := x\<rparr>\<rparr>) = itype_opts_ok st"
  "itype_opts_ok (st\<lparr>io_type := (io_type st)\<lparr>it_repwrite := x\<rparr>\<rparr>) = itype_opts_ok st"
  "itype_opts_ok (st\<lparr>io_type := (io_type st)\<lparr>it_dtype := d\<rparr>\<rparr>) = itype_opts_ok st"
  "itype_opts_ok (st\<lparr>io_type := (io_type st)\<lparr>it_longlat := w\<rparr>, io_longlats := b\<rparr>) = itype_opts_ok st"
  by (simp_all add: itype_opts_ok_def Let_def)

interpretation lit: subopt_handler itypeopts "getitypeopt lib" itype_opts_ok for lib
proof unfold_locales
  fix st i v st'
  assume ok: "itype_opts_ok st" and h: "getitypeopt lib i v st = Inr st'"
  note sets = set_itsize_ok [OF ok] set_optype_ok [OF ok] set_sleeptm_ok [OF ok] set_dedupblks_ok [OF ok]
  consider "i = Some 0" | "i = Some 2" | "i = Some 6" | "i = Some 4"
    | "i \<notin> {Some 0, Some 2, Some 6, Some 4}" by blast
  then show "itype_opts_ok st'"
  proof cases
    case 5
    with h ok show ?thesis unfolding getitypeopt_def
      by (auto simp: bind_res_Inr_iff split: if_splits)
  qed (use h sets in \<open>simp_all add: getitypeopt_def\<close>)
qed

lemma finish_itype_ok: "itype_opts_ok st \<Longrightarrow> itype_ok (finish_itype st)"
proof -
  assume ok: "itype_opts_ok st"
  have "50 \<le> u32_of_int (if io_sleeptm st \<noteq> 0 then io_sleeptm st else 5000)"
  proof (cases "io_sleeptm st = 0")
    case False
    then have "50 \<le> io_sleeptm st" "io_sleeptm st < 2 ^ 31" using ok by (auto simp: itype_opts_ok_def Let_def)
    then have "uint (u32_of_int (io_sleeptm st)) = io_sleeptm st" by (simp add: uint_word_of_int_eq take_bit_int_eq_self)
    then show ?thesis using False \<open>50 \<le> io_sleeptm st\<close> by (simp add: word_le_def)
  qed simp
  then show ?thesis using ok by (auto simp: itype_ok_def finish_itype_def itype_opts_ok_def Let_def)
qed

definition load_opts_ok :: "load_opts \<Rightarrow> bool" where
  "load_opts_ok st \<longleftrightarrow> load_params_ok (lo_params st) \<and> list_all itype_ok (lo_itlist st)"

lemma defaults_ok: "load_params_ok defparams_ld" "itype_ok defitype"
    "itype_opts_ok \<lparr>io_type = defitype, io_sleeptm = 0, io_longlats = b\<rparr>"
proof -
  show "load_params_ok defparams_ld" by (simp add: load_params_ok_def defparams_ld_def)
  show "itype_ok defitype" by (simp add: itype_ok_def defitype_def)
  show "itype_opts_ok \<lparr>io_type = defitype, io_sleeptm = 0, io_longlats = b\<rparr>"
    by (simp add: itype_opts_ok_def defitype_def Let_def)
qed

lemma getitypeopts_ok:
  assumes "getitypeopts lib s (its, ll) = Inr (its', ll')"
  shows "\<exists>ip. its' = its @ [ip] \<and> itype_ok ip"
proof -
  from assms obtain st where
    st: "subopt_loop itypeopts (getitypeopt lib) s \<lparr>io_type = defitype, io_sleeptm = 0, io_longlats = ll\<rparr> = Inr st"
    "its' = its @ [finish_itype st]"
    by (auto simp: getitypeopts_def bind_res_Inr_iff)
  from lit.loop_inv [OF defaults_ok(3) st(1)] finish_itype_ok st(2) show ?thesis by blast
qed

text \<open>Every \<open>-i\<close> on the command line adds one type.\<close>

definition is_itype_option :: "optev \<Rightarrow> bool" where
  "is_itype_option ev = (case ev of OptArg c arg \<Rightarrow> c = CHR ''i'' | _ \<Rightarrow> False)"

lemma load_option_ok:
  assumes ok: "load_opts_ok st" and h: "load_option lib ev st = Inr st'"
  shows "load_opts_ok st'
    \<and> length (lo_itlist st') = length (lo_itlist st) + (if is_itype_option ev then 1 else 0)"
proof (cases ev)
  case (OptFlag c)
  with h ok show ?thesis by (auto simp: load_option_def load_opts_ok_def is_itype_option_def split: if_splits)
next
  case (OptArg c arg)
  note h = h [unfolded OptArg load_option_def optev.case]
  consider "c = CHR ''o''" | "c = CHR ''m''" | "c = CHR ''i''" | "c \<notin> {CHR ''o'', CHR ''m'', CHR ''i''}" by blast
  then show ?thesis
  proof cases
    case 1
    with h ok show ?thesis by (auto simp: load_opts_ok_def is_itype_option_def OptArg)
  next
    case 2
    with h obtain p where "subopt_loop modopts_ld (getmodopt_ld lib) arg (lo_params st) = Inr p"
      "st' = st\<lparr>lo_params := p\<rparr>" by (auto simp: bind_res_Inr_iff getmodopts_ld_def)
    with lmod.loop_inv ok 2 show ?thesis
      unfolding load_opts_ok_def by (simp add: is_itype_option_def OptArg) blast
  next
    case 3
    with h obtain its ll where g: "getitypeopts lib arg (lo_itlist st, lo_longlats st) = Inr (its, ll)"
      "st' = st\<lparr>lo_itlist := its, lo_longlats := ll\<rparr>" by (auto simp: bind_res_Inr_iff)
    from getitypeopts_ok [OF g(1)] obtain ip where "its = lo_itlist st @ [ip]" "itype_ok ip" by blast
    with g ok 3 show ?thesis by (simp add: load_opts_ok_def is_itype_option_def OptArg)
  next
    case 4
    with h show ?thesis by simp
  qed
next
  case (OptBad c)
  with h show ?thesis by (simp add: load_option_def)
qed

lemma load_options_ok:
  assumes "loop_res (load_option lib) evs st = Inr st'" "load_opts_ok st"
  shows "load_opts_ok st'
    \<and> length (lo_itlist st') = length (lo_itlist st) + length (filter is_itype_option evs)"
  using assms
proof (induction evs arbitrary: st)
  case (Cons ev evs)
  from Cons.prems(1) obtain st1 where "load_option lib ev st = Inr st1"
    "loop_res (load_option lib) evs st1 = Inr st'" by (auto simp: bind_res_Inr_iff)
  with load_option_ok [OF Cons.prems(2)] Cons.IH show ?case by auto
qed simp

text \<open>What an accepted command line leaves.\<close>

lemma load_cmdline_ok:
  assumes "load_cmdline argv0 limit args = Inr (st, files)"
  shows "load_params_ok (lo_params st) \<and> list_all itype_ok (lo_itlist st) \<and> files \<noteq> []
    \<and> length (lo_itlist st) = max 1 (length (filter is_itype_option (fst (getopt ''nvlo:m:i:'' args))))"
proof -
  obtain evs ops where g: "getopt ''nvlo:m:i:'' args = (evs, ops)" by (cases "getopt ''nvlo:m:i:'' args")
  let ?upd = "\<lambda>st1. if lo_itlist st1 = [] then st1\<lparr>lo_itlist := [defitype]\<rparr> else st1"
  from assms obtain st1 where
    r: "loop_res (load_option (iob_libinit argv0 usage_text_ld limit)) evs init_opts = Inr st1"
    and e: "(if ops = [] then Inl (usage_ld []) else Inr (?upd st1, ops)) = Inr (st, files)"
    unfolding load_cmdline_def Let_def g prod.case bind_res_Inr_iff by blast
  from e have e: "ops \<noteq> []" "files = ops" "st = ?upd st1"
    by (cases "ops = []"; simp only: if_True if_False sum.inject prod.inject sum.distinct)+
  have "load_opts_ok init_opts" using defaults_ok(1) by (simp add: load_opts_ok_def init_opts_def)
  from load_options_ok [OF r this] have "load_opts_ok st1"
    "length (lo_itlist st1) = length (filter is_itype_option evs)" by (simp_all add: init_opts_def)
  then show ?thesis using e defaults_ok(2) unfolding g fst_conv
    by (cases "lo_itlist st1 = []") (auto simp: load_opts_ok_def max_def Suc_le_eq)
qed

text \<open>
  Property C24. A command line that \<open>ioload\<close> accepts leaves a test range in whole megabytes that is not empty, and one I/O type
  for each \<open>-i\<close> (the default type when there is none), each a read or write of whole sectors or a sleep
  of at least 50 microseconds, with a number of deduplication blocks the generator can take.
\<close>

theorem load_options_valid:
  assumes "load_cmdline argv0 limit args = Inr (st, files)"
  shows "load_params_ok (lo_params st) \<and> list_all itype_ok (lo_itlist st) \<and> files \<noteq> []
    \<and> length (lo_itlist st) = max 1 (length (filter is_itype_option (fst (getopt ''nvlo:m:i:'' args))))"
  using assms by (rule load_cmdline_ok)

lemma load_cmdline_demo:
  "load_cmdline ''ioload'' (10 ^ 9) [''-v'', ''/dev/sdb'']
    = Inr (init_opts\<lparr>lo_verbose := True, lo_itlist := [defitype]\<rparr>, [''/dev/sdb''])"
  by (simp add: load_cmdline_def load_option_def init_opts_def Let_def)

theorem load_options_valid_witness:
  "load_params_ok (lo_params (init_opts\<lparr>lo_verbose := True, lo_itlist := [defitype]\<rparr>))
    \<and> list_all itype_ok [defitype]"
  using load_options_valid [OF load_cmdline_demo] by simp

end
