(* ===== verification/LoadInit.thy ===== *)
theory LoadInit
  imports LoadMain
begin

text \<open>
  \<open>ioload/iol_init.c\<close>: the structures of a run. As in \<open>iofill\<close>, files and threads are created from the last to the
  first and pushed on their lists; all of them share the list of I/O types. \<open>maxsize\<close> is the largest size of a type.
\<close>

type_synonym opener_ld = "string \<Rightarrow> int \<Rightarrow> int \<Rightarrow> int"

section \<open>The test range\<close>

definition max_itsize :: "itype list \<Rightarrow> int" where
  "max_itsize itlist =
     fold (\<lambda>ip maxsize. if u32_of_int maxsize < it_size ip then int_of_u32 (it_size ip) else maxsize) itlist 0"

text \<open>\<open>if (cp->headersz < maxsize) cp->headersz = cp->headersz % maxsize\<close>.\<close>

definition reduce_headersz :: "int \<Rightarrow> params_ld \<Rightarrow> params_ld res" where
  "reduce_headersz maxsize cp =
     (if p_headersz cp < u64_of_int maxsize
      then bind_res (umod (p_headersz cp) (u64_of_int maxsize)) (\<lambda>h. Inr (cp\<lparr>p_headersz := h\<rparr>))
      else Inr cp)"

definition sectors :: "u64 \<Rightarrow> u64" where "sectors off = off div of_nat IOB_SECTOR"

definition last_sector :: "int \<Rightarrow> params_ld \<Rightarrow> u64" where
  "last_sector maxsize cp =
     (if p_headersz cp \<noteq> 0 then sectors (p_maxoff cp - u64_of_int maxsize) else sectors (p_maxoff cp))"

definition range_ld :: "int \<Rightarrow> params_ld \<Rightarrow> u64" where
  "range_ld maxsize cp = (last_sector maxsize cp - sectors (p_minoff cp)) * of_nat IOB_SECTOR"

definition check_range :: "int \<Rightarrow> params_ld \<Rightarrow> unit res" where
  "check_range maxsize cp =
     (if range_ld maxsize cp < u64_of_int maxsize + p_headersz cp
      then Inl (Exited 1 [''Error: maximum iosize ('' @ dec_int maxsize @ '') plus header ('' @ dec_nat (unat (p_headersz cp))
             @ '') is larger than test range ('' @ dec_nat (unat (p_minoff cp)) @ ''MB to ''
             @ dec_nat (unat (p_maxoff cp)) @ ''MB)''])
      else Inr ())"

section \<open>Threads and files\<close>

definition ithreadinit_ld ::
    "libstate \<Rightarrow> opener_ld \<Rightarrow> int \<Rightarrow> string \<Rightarrow> int \<Rightarrow> int \<Rightarrow> params_ld \<Rightarrow> itype list \<Rightarrow> int \<Rightarrow> iothread_ld res" where
  "ithreadinit_ld lib opn maxsize fname fileno tid cp itlist iosize =
     bind_res (malloc_struct lib sizeof_iothread_ld) (\<lambda>_.
     let dsc = opn fname (O_DIRECT_ld OR O_RDWR_ld OR O_CREAT_ld) tid in
     if dsc < 0 then Inl (iob_errlog lib False (''ioload: can't open '' @ fname))
     else bind_res (malloc_struct lib sizeof_ioreq_ld) (\<lambda>_.
       bind_res (iob_align_shmem lib iosize) (\<lambda>rbp.
       bind_res (iob_align_shmem lib iosize) (\<lambda>wbp.
         Inr (zero_iothread_ld\<lparr>
           t_iorp := zero_ioreq_ld\<lparr>q_readbp := rbp, q_writebp := wbp, q_fd := dsc,
             q_detail := zero_iodet\<lparr>d_fid := word_of_int fileno, d_tid := word_of_int tid\<rparr>\<rparr>,
           t_params := cp, t_itlist := itlist, t_threadid := tid, t_fd := dsc,
           t_minblks := sectors (p_minoff cp), t_maxblks := last_sector maxsize cp,
           t_rangeoff := range_ld maxsize cp\<rparr>)))))"

fun make_threads_ld ::
    "libstate \<Rightarrow> opener_ld \<Rightarrow> int \<Rightarrow> string \<Rightarrow> int \<Rightarrow> params_ld \<Rightarrow> itype list \<Rightarrow> int \<Rightarrow> nat
       \<Rightarrow> iothread_ld list \<Rightarrow> iothread_ld list res" where
  "make_threads_ld lib opn maxsize fname fileno cp itlist iosize 0 acc = Inr acc"
| "make_threads_ld lib opn maxsize fname fileno cp itlist iosize (Suc j) acc =
     bind_res (ithreadinit_ld lib opn maxsize fname fileno (int j) cp itlist iosize) (\<lambda>itp.
       make_threads_ld lib opn maxsize fname fileno cp itlist iosize j (itp # acc))"

fun make_files_ld ::
    "libstate \<Rightarrow> opener_ld \<Rightarrow> int \<Rightarrow> string list \<Rightarrow> params_ld \<Rightarrow> itype list \<Rightarrow> int \<Rightarrow> nat
       \<Rightarrow> file_ld list \<Rightarrow> file_ld list res" where
  "make_files_ld lib opn maxsize fnames cp itlist iosize 0 flist = Inr flist"
| "make_files_ld lib opn maxsize fnames cp itlist iosize (Suc i) flist =
     bind_res (malloc_struct lib sizeof_file_ld) (\<lambda>_.
     bind_res (make_threads_ld lib opn maxsize (fnames ! i) (int i + 1) cp itlist iosize
                 (nat (p_maxthreads cp)) []) (\<lambda>ths.
       make_files_ld lib opn maxsize fnames cp itlist iosize i
         (zero_file_ld\<lparr>f_filename := fnames ! i, f_fileno := int i + 1, f_params_ld := cp,
            f_itlist := itlist, f_ithreads := ths\<rparr> # flist)))"

definition create_files_ld ::
    "libstate \<Rightarrow> opener_ld \<Rightarrow> string list \<Rightarrow> params_ld \<Rightarrow> itype list \<Rightarrow> file_ld list res" where
  "create_files_ld lib opn filenames cp itlist =
     (let maxsize = max_itsize itlist in
      bind_res (reduce_headersz maxsize cp) (\<lambda>cp'.
      bind_res (check_range maxsize cp') (\<lambda>_.
        make_files_ld lib opn maxsize filenames cp' itlist
          (if p_maxiosize cp' < maxsize then p_maxiosize cp' else maxsize) (length filenames) [])))"

definition init_threads_ld ::
    "libstate \<Rightarrow> opener_ld \<Rightarrow> bytes \<Rightarrow> bytes \<Rightarrow> string list \<Rightarrow> params_ld \<Rightarrow> itype list
       \<Rightarrow> (file_ld list \<times> pools \<times> dtable \<times> u48) res" where
  "init_threads_ld lib opn vm pst filenames cp itlist =
     bind_res (iob_align_shmem lib sizeof_curtest) (\<lambda>_.
     bind_res (iob_initdata lib vm pst) (\<lambda>(pools, x).
     bind_res (iob_details_init lib NIOTRACE empty_dtable) (\<lambda>dt.
     bind_res (create_files_ld lib opn filenames cp itlist) (\<lambda>flist.
       Inr (flist, pools, dt, x)))))"

end
