(* ===== verification/LoadIo.thy ===== *)
theory LoadIo
  imports LoadInit
begin

text \<open>
  \<open>ioload/iol_iotest.c\<close>: what a thread does during a test. \<open>do_io\<close> issues requests until one starts after the test's end;
  its three nested loops take fuel, since none of them need end. The state of the process is a record: the environment, the
  shared \<open>struct curtest\<close>, the table of details, and what \<open>nanosleep\<close> answers.
\<close>

section \<open>State\<close>

record lstate =
  l_lib :: libstate
  l_pools :: pools
  l_env :: env
  l_dt :: dtable
  l_cur :: curtest
  l_starttime :: u64
  l_ign_errors :: bool
  l_nanosleep :: "nat \<Rightarrow> u64 \<times> u64 \<Rightarrow> int \<times> int"   \<comment> \<open>result and \<open>errno\<close> of the n-th sleep\<close>
  l_sleeps :: "(u64 \<times> u64) list"

definition tick_ld :: "lstate \<Rightarrow> u64 \<times> lstate" where
  "tick_ld s = (let (t, e) = iob_gettime (l_env s) in (t, s\<lparr>l_env := e\<rparr>))"

definition set_rng_ld :: "u48 \<Rightarrow> lstate \<Rightarrow> lstate" where
  "set_rng_ld x s = s\<lparr>l_env := (l_env s)\<lparr>rng := x\<rparr>\<rparr>"

definition nanosleep :: "u64 \<Rightarrow> u64 \<Rightarrow> lstate \<Rightarrow> (int \<times> int) \<times> lstate" where
  "nanosleep sec nsec s =
     (l_nanosleep s (length (l_sleeps s)) (sec, nsec), s\<lparr>l_sleeps := l_sleeps s @ [(sec, nsec)]\<rparr>)"

definition draw_dbl_ld :: "lstate \<Rightarrow> rat \<times> lstate" where
  "draw_dbl_ld s = (let (d, x) = drand48 (rng (l_env s)) in (d, set_rng_ld x s))"

definition draw64_ld :: "lstate \<Rightarrow> u64 \<times> lstate" where
  "draw64_ld s = (let (r, x) = IOB_RAND64 (rng (l_env s)) in (r, set_rng_ld x s))"

text \<open>\<open>(uint32_t)mrand48()\<close>.\<close>

definition draw32_ld :: "lstate \<Rightarrow> u32 \<times> lstate" where
  "draw32_ld s = (let (r, x) = mrand48 (rng (l_env s)) in (u32_of_int r, set_rng_ld x s))"

section \<open>Completion\<close>

definition in_window :: "curtest \<Rightarrow> u64 \<Rightarrow> bool" where
  "in_window c start \<longleftrightarrow> c_endwarmup c \<le> start \<and> start < c_endinterval c"

definition lat_bucket_ld :: "u64 \<Rightarrow> nat" where
  "lat_bucket_ld lat =
     (let bkt = (ucast (lat div LATDIV_ld) :: u32)
      in if of_nat NLATBKTS_ld \<le> bkt then NLATBKTS_ld - 1 else unat bkt)"

definition count_io_ld :: "iodet \<Rightarrow> u64 \<Rightarrow> iothread_ld \<Rightarrow> iothread_ld res" where
  "count_io_ld idp lat tp =
     (let ty = unat (d_type idp); c = t_cur tp in
      if uint (d_type idp) = SLEEP then Inr tp
      else if N_OPTYPES \<le> ty then Inl OutOfBounds
      else let b = lat_bucket_ld lat in
        Inr (tp\<lparr>t_cur := c\<lparr>
          s_latbuckets := (s_latbuckets c)(b := (s_latbuckets c b)(ty := s_latbuckets c b ty + 1)),
          s_totlat := (s_totlat c)(ty := s_totlat c ty + lat),
          s_totbytes := (s_totbytes c)(ty := s_totbytes c ty + ucast (d_size idp))\<rparr>\<rparr>))"

definition set_detail_ld :: "iodet \<Rightarrow> iothread_ld \<Rightarrow> iothread_ld" where
  "set_detail_ld d tp = tp\<lparr>t_iorp := (t_iorp tp)\<lparr>q_detail := d\<rparr>\<rparr>"

definition report_io_ld :: "iodet \<Rightarrow> u64 \<Rightarrow> itype option \<Rightarrow> lstate \<Rightarrow> (iodet \<times> lstate) res" where
  "report_io_ld idp lat ip s =
     (case ip of
        None \<Rightarrow> Inl OutOfBounds
      | Some it \<Rightarrow>
          if d_flag idp \<noteq> 0 \<or> it_longlat it \<le> lat
          then bind_res (iob_details_add idp (l_dt s)) (\<lambda>(idp', dt'). Inr (idp', s\<lparr>l_dt := dt'\<rparr>))
          else Inr (idp, s))"

definition io_finish_ld :: "iothread_ld \<Rightarrow> lstate \<Rightarrow> (iothread_ld \<times> lstate) res" where
  "io_finish_ld tp0 s =
     (let rp = t_iorp tp0 in
      if q_error rp \<noteq> 0 \<and> \<not> l_ign_errors s then Inl (iob_errlog (l_lib s) False ''I/O Error'')
      else
        let idp = (if q_error rp \<noteq> 0 then (q_detail rp)\<lparr>d_flag := d_flag (q_detail rp) OR IOD_ERROR\<rparr> else q_detail rp);
            tp = set_detail_ld idp tp0
        in if \<not> in_window (l_cur s) (d_start idp) then Inr (tp, s)
           else
             let lat = d_end idp - d_start idp;
                 idp1 = idp\<lparr>d_seconds := ucast ((d_end idp - l_starttime s) div IOB_NSEC_TO_SEC)\<rparr>
             in bind_res (count_io_ld idp1 lat tp) (\<lambda>tp1.
                bind_res (report_io_ld idp1 lat (q_itype rp) s) (\<lambda>(idp2, s1).
                  Inr (set_detail_ld idp2 tp1, s1))))"

section \<open>One request\<close>

text \<open>
  The time of a sleep is drawn anew for every request and replaces its size; the nanoseconds are computed in 32 bits.
\<close>

definition sleep_size :: "u32 \<Rightarrow> u32 \<Rightarrow> u32 res" where
  "sleep_size r nb =
     (if nb = 0 then Inl DivByZero
      else let slu = r mod nb + 50 in Inr (slu - slu mod 50))"

definition sleep_spec :: "u32 \<Rightarrow> u64 \<times> u64" where
  "sleep_spec nb = (ucast (nb div 1000000), ucast ((nb * 1000) mod 1000000000))"

definition do_sleep :: "iodet \<Rightarrow> lstate \<Rightarrow> (iodet \<times> (int \<times> int) \<times> lstate) res" where
  "do_sleep idp s =
     (let (r, s1) = draw32_ld s in
      bind_res (sleep_size r (d_size idp)) (\<lambda>sz.
        let (sec, nsec) = sleep_spec sz; ((ret, errno), s2) = nanosleep sec nsec s1
        in Inr (idp\<lparr>d_size := sz\<rparr>, (if ret = 0 then uint sz else ret, errno), s2)))"

definition do_request :: "ioreq_ld \<Rightarrow> iodet \<Rightarrow> lstate \<Rightarrow> (iodet \<times> (int \<times> int) \<times> lstate) res" where
  "do_request rp idp s =
     (if uint (d_type idp) = SLEEP then do_sleep idp s
      else let (r, e) = (if uint (d_type idp) = READ
                         then iob_read (q_fd rp) (d_size idp) (d_offset idp) (l_env s)
                         else iob_write (q_fd rp) (q_writebp rp) (d_size idp) (d_offset idp) (l_env s))
           in Inr (idp, r, s\<lparr>l_env := e\<rparr>))"

definition io_start_ld :: "iothread_ld \<Rightarrow> lstate \<Rightarrow> (iothread_ld \<times> lstate) res" where
  "io_start_ld tp s0 =
     (let (t0, s1) = tick_ld s0;
          rp = t_iorp tp; idp = (q_detail rp)\<lparr>d_flag := 0, d_start := t0\<rparr>
      in bind_res (do_request rp idp s1) (\<lambda>(idp1, (ret, errno), s2).
        let rp1 = (if ret \<noteq> uint (d_size idp1)
                   then rp\<lparr>q_error := 1, q_syserr := errno, q_rsize := ret\<rparr> else rp\<lparr>q_error := 0\<rparr>);
            (t1, s3) = tick_ld s2
        in io_finish_ld (tp\<lparr>t_iorp := rp1\<lparr>q_detail := idp1\<lparr>d_end := t1\<rparr>\<rparr>\<rparr>) s3))"

section \<open>The loops of \<open>do_io\<close>\<close>

text \<open>The type of the next I/O: the draw falls into the shares of the types, laid end to end; the last takes the rest.\<close>

fun select_itype :: "itype list \<Rightarrow> rat \<Rightarrow> itype res" where
  "select_itype [] d = Inl OutOfBounds"
| "select_itype [ip] d = Inr ip"
| "select_itype (ip # ips) d =
     (if d < it_pct ip then Inr ip else select_itype ips (dbl_minus d (it_pct ip)))"

definition pick_offset :: "iothread_ld \<Rightarrow> itype \<Rightarrow> u64 \<Rightarrow> u64 res" where
  "pick_offset tp ip r =
     (let p = t_params tp in
      bind_res (umod r (ucast (it_size ip))) (\<lambda>m.
      bind_res (umod (r - m + p_headersz p) (t_rangeoff tp)) (\<lambda>o'.
        Inr (o' * u64_of_int (p_multiplier p) + p_minoff p))))"

definition chunk_size :: "params_ld \<Rightarrow> int \<Rightarrow> u32" where
  "chunk_size p sz =
     (let s = u32_of_int sz in if u32_of_int (p_maxiosize p) < s then u32_of_int (p_maxiosize p) else s)"

definition set_chunk :: "itype \<Rightarrow> u32 \<Rightarrow> u64 \<Rightarrow> u64 \<Rightarrow> iothread_ld \<Rightarrow> iothread_ld" where
  "set_chunk ip nb baseoff ionum tp = tp\<lparr>t_iorp := (t_iorp tp)\<lparr>q_itype := Some ip,
     q_detail := (q_detail (t_iorp tp))\<lparr>d_size := nb, d_ionum := ucast ionum, d_offset := baseoff,
       d_type := word_of_int (it_optype ip), d_dtype := word_of_int (it_dtype ip)\<rparr>\<rparr>\<rparr>"

definition fill_chunk :: "itype \<Rightarrow> u32 \<Rightarrow> iothread_ld \<Rightarrow> lstate \<Rightarrow> (iothread_ld \<times> lstate) res" where
  "fill_chunk ip nb tp s =
     (if it_optype ip = WRITE then
        bind_res (iob_iodata (l_pools s) (q_writebp (t_iorp tp)) nb (it_dtype ip) (it_dedupblks ip) (rng (l_env s)))
          (\<lambda>(b, x). Inr (tp\<lparr>t_iorp := (t_iorp tp)\<lparr>q_writebp := b\<rparr>\<rparr>, set_rng_ld x s))
      else Inr (tp, s))"

fun chunks_ld ::
    "nat \<Rightarrow> itype \<Rightarrow> int \<Rightarrow> u64 \<Rightarrow> u64 \<times> iothread_ld \<times> lstate \<Rightarrow> (u64 \<times> iothread_ld \<times> lstate) res" where
  "chunks_ld 0 ip sz baseoff st = (if 0 < sz then Inl OutOfFuel else Inr st)"
| "chunks_ld (Suc fuel) ip sz baseoff (ionum, tp, s) =
     (if 0 < sz then
        let nb = chunk_size (t_params tp) sz in
        bind_res (fill_chunk ip nb (set_chunk ip nb baseoff ionum tp) s) (\<lambda>(tp1, s1).
        bind_res (io_start_ld tp1 s1) (\<lambda>(tp2, s2).
          let n = d_size (q_detail (t_iorp tp2))
          in chunks_ld fuel ip (int_of_u32 (u32_of_int sz - n)) (baseoff + ucast n) (ionum + 1, tp2, s2)))
      else Inr (ionum, tp, s))"

fun repeats_ld ::
    "nat \<Rightarrow> itype \<Rightarrow> u64 \<Rightarrow> u64 \<times> iothread_ld \<times> lstate \<Rightarrow> (u64 \<times> iothread_ld \<times> lstate) res" where
  "repeats_ld 0 ip offset st = Inl OutOfFuel"
| "repeats_ld (Suc fuel) ip offset st =
     bind_res (chunks_ld (Suc fuel) ip (int_of_u32 (it_size ip)) offset st) (\<lambda>(ionum, tp, s).
       if it_optype ip = WRITE then
         let (d, s1) = draw_dbl_ld s in
         if d < it_repwrite ip then repeats_ld fuel ip offset (ionum, tp, s1) else Inr (ionum, tp, s1)
       else Inr (ionum, tp, s))"

text \<open>A thread with a maximum rate waits for the time of its next request.\<close>

definition pace :: "u64 \<Rightarrow> u64 \<Rightarrow> iothread_ld \<Rightarrow> lstate \<Rightarrow> u64 \<times> lstate" where
  "pace iotime nextio tp s =
     (let now = d_end (q_detail (t_iorp tp));
          s1 = (if now < nextio
                then snd (nanosleep ((nextio - now) div 1000000000) ((nextio - now) mod 1000000000) s) else s);
          (r, s2) = draw32_ld s1
      in (nextio + ucast r mod (iotime * 2 + 1), s2))"

definition io_turn_ld ::
    "nat \<Rightarrow> u64 \<Rightarrow> u64 \<times> u64 \<times> iothread_ld \<times> lstate \<Rightarrow> (u64 \<times> u64 \<times> iothread_ld \<times> lstate) res" where
  "io_turn_ld fuel iotime = (\<lambda>(nextio, ionum, tp, s).
     (let (d, s1) = draw_dbl_ld s in
      bind_res (select_itype (t_itlist tp) d) (\<lambda>ip.
        let (r, s2) = draw64_ld s1 in
        bind_res (pick_offset tp ip r) (\<lambda>offset.
        bind_res (repeats_ld fuel ip offset (ionum, tp, s2)) (\<lambda>(ionum', tp', s3).
          let (nextio', s4) = pace iotime nextio tp' s3
          in Inr (nextio', ionum', tp', s4))))))"

fun io_loop_ld ::
    "nat \<Rightarrow> u64 \<Rightarrow> u64 \<times> u64 \<times> iothread_ld \<times> lstate \<Rightarrow> (iothread_ld \<times> lstate) res" where
  "io_loop_ld 0 iotime st = Inl OutOfFuel"
| "io_loop_ld (Suc fuel) iotime (nextio, ionum, tp, s) =
     (if d_start (q_detail (t_iorp tp)) < c_finish (l_cur s)
      then bind_res (io_turn_ld fuel iotime (nextio, ionum, tp, s)) (io_loop_ld fuel iotime)
      else Inr (tp, s))"

definition do_io :: "nat \<Rightarrow> u64 \<Rightarrow> iothread_ld \<Rightarrow> lstate \<Rightarrow> (iothread_ld \<times> lstate) res" where
  "do_io fuel ionum tp s =
     (if p_maxrate (t_params tp) \<noteq> 0 then
        let iotime = IOB_NSEC_TO_SEC div ucast (p_maxrate (t_params tp)); (now, s1) = tick_ld s
        in io_loop_ld fuel iotime (now + iotime, ionum, tp, s1)
      else io_loop_ld fuel 0 (0, ionum, tp, s))"

end
