(* ===== verification/LoadLoop.thy ===== *)
theory LoadLoop
  imports LoadIo
begin

text \<open>
  Why a thread of \<open>ioload\<close> does what its options say: each I/O becomes a sequence of requests that tile it, and the three
  nested loops of \<open>do_io\<close> end when the clock passes the end of the test. Every lemma starts from threads as the
  initialisation makes them, a device that completes its transfers and sleeps that are not interrupted.
\<close>


section \<open>One request at a time\<close>

text \<open>What a thread keeps, and what the shared state keeps, from request to request.\<close>

definition thread_fixed_ld ::
    "iothread_ld \<Rightarrow> params_ld \<times> itype list \<times> u64 \<times> int \<times> int \<times> nat" where
  "thread_fixed_ld tp = (t_params tp, t_itlist tp, t_rangeoff tp, t_threadid tp, q_fd (t_iorp tp),
     length (q_writebp (t_iorp tp)))"

definition state_fixed_ld ::
    "lstate \<Rightarrow> libstate \<times> pools \<times> curtest \<times> u64 \<times> bool \<times> (nat \<Rightarrow> u64 \<times> u64 \<Rightarrow> int \<times> int)
       \<times> (nat \<Rightarrow> int \<times> int) \<times> (nat \<Rightarrow> iocall \<Rightarrow> int \<times> int)" where
  "state_fixed_ld s = (l_lib s, l_pools s, l_cur s, l_starttime s, l_ign_errors s, l_nanosleep s, env_fixed (l_env s))"

text \<open>The table has its slots, transfers are complete, sleeps are not interrupted.\<close>

definition state_ok_ld :: "lstate \<Rightarrow> bool" where
  "state_ok_ld s \<longleftrightarrow> pools_ok (l_pools s) \<and> table_ok (l_dt s) \<and> full_transfers (l_env s)
     \<and> (\<forall>n ts. fst (l_nanosleep s n ts) = 0)"

lemma state_ok_fixed:
  "state_fixed_ld s' = state_fixed_ld s \<Longrightarrow> table_ok (l_dt s') \<Longrightarrow> state_ok_ld s \<Longrightarrow> state_ok_ld s'"
  by (simp add: state_ok_ld_def state_fixed_ld_def env_fixed_def full_transfers_def)

definition clock_at :: "lstate \<Rightarrow> nat \<Rightarrow> u64" where
  "clock_at s n = timespec_ns (fst (clk (l_env s) n)) (snd (clk (l_env s) n))"

lemma tick_ld_eq:
  "tick_ld s = (clock_at s (ticks (l_env s)), s\<lparr>l_env := (l_env s)\<lparr>ticks := Suc (ticks (l_env s))\<rparr>\<rparr>)"
  by (simp add: tick_ld_def iob_gettime_def clock_at_def split_beta)

lemma io_finish_ld_ok:
  assumes "q_error (t_iorp tp) = 0" "q_itype (t_iorp tp) = Some ip" "table_ok (l_dt s)"
    and "uint (d_type (q_detail (t_iorp tp))) \<in> {READ, WRITE, SLEEP}"
  shows "\<exists>tp' s'. io_finish_ld tp s = Inr (tp', s') \<and> thread_fixed_ld tp' = thread_fixed_ld tp
    \<and> state_fixed_ld s' = state_fixed_ld s \<and> l_env s' = l_env s \<and> l_sleeps s' = l_sleeps s \<and> table_ok (l_dt s')
    \<and> d_size (q_detail (t_iorp tp')) = d_size (q_detail (t_iorp tp))
    \<and> d_start (q_detail (t_iorp tp')) = d_start (q_detail (t_iorp tp))
    \<and> d_end (q_detail (t_iorp tp')) = d_end (q_detail (t_iorp tp))"
proof (cases "in_window (l_cur s) (d_start (q_detail (t_iorp tp)))")
  case False
  with assms(1,3) show ?thesis by (simp add: io_finish_ld_def set_detail_ld_def thread_fixed_ld_def Let_def)
next
  case True
  let ?d = "q_detail (t_iorp tp)"
  let ?d1 = "?d\<lparr>d_seconds := ucast ((d_end ?d - l_starttime s) div IOB_NSEC_TO_SEC)\<rparr>"
  let ?lat = "d_end ?d - d_start ?d" and ?tp = "set_detail_ld ?d tp"
  have ty: "uint (d_type ?d1) = SLEEP \<or> \<not> N_OPTYPES \<le> unat (d_type ?d1)"
  proof (cases "uint (d_type ?d) = SLEEP")
    case False
    then have "uint (d_type ?d) = 0 \<or> uint (d_type ?d) = 1" using assms(4) by auto
    moreover have "unat (d_type ?d) = nat (uint (d_type ?d))" by simp
    ultimately have "unat (d_type ?d) = nat 0 \<or> unat (d_type ?d) = nat 1" by metis
    then show ?thesis by auto
  qed simp
  have "\<exists>tp1. count_io_ld ?d1 ?lat ?tp = Inr tp1 \<and> (\<exists>c. tp1 = ?tp\<lparr>t_cur := c\<rparr>)"
  proof (cases "uint (d_type ?d1) = SLEEP")
    case True
    then show ?thesis by (auto simp: count_io_ld_def Let_def intro!: exI [of _ "t_cur ?tp"])
  next
    case False
    then show ?thesis using ty unfolding count_io_ld_def Let_def by (simp only: if_False) auto
  qed
  then obtain tp1 c where c: "count_io_ld ?d1 ?lat ?tp = Inr tp1" "tp1 = ?tp\<lparr>t_cur := c\<rparr>" by blast
  have "\<exists>d2 s1. report_io_ld ?d1 ?lat (Some ip) s = Inr (d2, s1) \<and> d_size d2 = d_size ?d \<and> d_start d2 = d_start ?d
      \<and> d_end d2 = d_end ?d \<and> (\<exists>dt. s1 = s\<lparr>l_dt := dt\<rparr> \<and> table_ok dt)"
  proof (cases "d_flag ?d1 \<noteq> 0 \<or> it_longlat ip \<le> ?lat")
    case True
    from details_add_total [OF assms(3), of ?d1] obtain d2 dt where
      "iob_details_add ?d1 (l_dt s) = Inr (d2, dt)" "table_ok dt" "d_size d2 = d_size ?d1"
      "d_start d2 = d_start ?d1" "d_end d2 = d_end ?d1" by blast
    then show ?thesis using True by (simp add: report_io_ld_def) blast
  next
    case False
    then show ?thesis using assms(3) by (auto simp: report_io_ld_def intro!: exI [of _ "l_dt s"])
  qed
  then obtain d2 dt where r: "report_io_ld ?d1 ?lat (Some ip) s = Inr (d2, s\<lparr>l_dt := dt\<rparr>)" "table_ok dt"
    "d_size d2 = d_size ?d" "d_start d2 = d_start ?d" "d_end d2 = d_end ?d" by blast
  have "io_finish_ld tp s = Inr (set_detail_ld d2 tp1, s\<lparr>l_dt := dt\<rparr>)"
    using True assms(1,2) c(1) r(1) by (simp add: io_finish_ld_def Let_def)
  then show ?thesis using r c(2)
    by (simp add: set_detail_ld_def thread_fixed_ld_def state_fixed_ld_def)
qed

text \<open>The transfer a request makes.\<close>

definition call_of :: "ioreq_ld \<Rightarrow> iocall" where
  "call_of rp = (let d = q_detail rp in
     if uint (d_type d) = READ then Pread (q_fd rp) (d_size d) (d_offset d)
     else Pwrite (q_fd rp) (take (unat (d_size d)) (q_writebp rp)) (d_offset d))"

lemma sleep_size_ok:
  assumes "0 < unat n" "unat n < 2 ^ 31"
  shows "\<exists>m. sleep_size r n = Inr m \<and> 50 \<le> unat m \<and> unat m \<le> unat n + 49"
proof -
  have lt: "unat (r mod n) < unat n" using assms(1) by (simp add: unat_mod)
  have slu: "unat (r mod n + 50) = unat (r mod n) + 50"
    using unat_add_lem [of "r mod n" 50] lt assms(2) by simp
  let ?k = "unat (r mod n) + 50"
  have m: "unat ((r mod n + 50) mod 50) = ?k mod 50" using slu by (simp add: unat_mod)
  have le: "(r mod n + 50) mod 50 \<le> r mod n + 50" unfolding word_le_nat_alt slu m by simp
  have "unat (r mod n + 50 - (r mod n + 50) mod 50) = ?k - ?k mod 50" using unat_sub [OF le] slu m by simp
  moreover have "50 \<le> ?k - ?k mod 50" by (simp add: minus_mod_eq_mult_div)
  moreover have "?k - ?k mod 50 \<le> unat n + 49" using lt by simp
  moreover have "n \<noteq> 0" using assms(1) by auto
  ultimately show ?thesis by (simp add: sleep_size_def Let_def)
qed

lemma io_start_ld_finish:
  assumes "q_itype (t_iorp tp) = Some ip" "state_ok_ld s"
    and "uint (d_type (q_detail (t_iorp tp))) \<in> {READ, WRITE, SLEEP}"
    and "uint (d_type (q_detail (t_iorp tp))) = SLEEP \<Longrightarrow> 0 < unat (d_size (q_detail (t_iorp tp)))"
    and "unat (d_size (q_detail (t_iorp tp))) < 2 ^ 31"
    and "uint (d_type (q_detail (t_iorp tp))) = WRITE
      \<Longrightarrow> unat (d_size (q_detail (t_iorp tp))) \<le> length (q_writebp (t_iorp tp))"
  shows "\<exists>d1 s3. io_start_ld tp s = io_finish_ld (tp\<lparr>t_iorp := (t_iorp tp)\<lparr>q_error := 0, q_detail := d1\<rparr>\<rparr>) s3
    \<and> state_fixed_ld s3 = state_fixed_ld s \<and> l_dt s3 = l_dt s \<and> ticks (l_env s3) = ticks (l_env s) + 2
    \<and> d_type d1 = d_type (q_detail (t_iorp tp)) \<and> d_flag d1 = 0 \<and> d_start d1 = clock_at s (ticks (l_env s))
    \<and> d_end d1 = clock_at s (ticks (l_env s) + 1)
    \<and> (if uint (d_type (q_detail (t_iorp tp))) = SLEEP
       then calls (l_env s3) = calls (l_env s) \<and> 50 \<le> unat (d_size d1)
         \<and> unat (d_size d1) \<le> unat (d_size (q_detail (t_iorp tp))) + 49
       else calls (l_env s3) = calls (l_env s) @ [call_of (t_iorp tp)] \<and> d_size d1 = d_size (q_detail (t_iorp tp)))"
proof -
  let ?rp = "t_iorp tp"
  let ?t0 = "clock_at s (ticks (l_env s))"
  let ?s1 = "s\<lparr>l_env := (l_env s)\<lparr>ticks := Suc (ticks (l_env s))\<rparr>\<rparr>"
  let ?d = "(q_detail ?rp)\<lparr>d_flag := 0, d_start := ?t0\<rparr>"
  have ok: "table_ok (l_dt s)" "full_transfers (l_env s)" "\<And>n ts. fst (l_nanosleep s n ts) = 0"
    using assms(2) unfolding state_ok_ld_def by blast+
  have "\<exists>d1 en s2. do_request ?rp ?d ?s1 = Inr (d1, (uint (d_size d1), en), s2)
      \<and> d1 = ?d\<lparr>d_size := d_size d1\<rparr> \<and> state_fixed_ld s2 = state_fixed_ld s \<and> l_dt s2 = l_dt s
      \<and> ticks (l_env s2) = Suc (ticks (l_env s))
      \<and> (if uint (d_type (q_detail ?rp)) = SLEEP
         then calls (l_env s2) = calls (l_env s) \<and> 50 \<le> unat (d_size d1) \<and> unat (d_size d1) \<le> unat (d_size (q_detail ?rp)) + 49
         else calls (l_env s2) = calls (l_env s) @ [call_of ?rp] \<and> d_size d1 = d_size (q_detail ?rp))"
  proof (cases "uint (d_type (q_detail ?rp)) = SLEEP")
    case True
    obtain r s2 where dr: "draw32_ld ?s1 = (r, s2)" by (cases "draw32_ld ?s1")
    have s2: "state_fixed_ld s2 = state_fixed_ld s" "l_dt s2 = l_dt s" "ticks (l_env s2) = Suc (ticks (l_env s))"
      "calls (l_env s2) = calls (l_env s)" "l_nanosleep s2 = l_nanosleep s"
      using dr by (auto simp: draw32_ld_def set_rng_ld_def state_fixed_ld_def env_fixed_def split: prod.splits)
    from sleep_size_ok [OF assms(4) [OF True] assms(5), of r] obtain m where m: "sleep_size r (d_size (q_detail ?rp)) = Inr m"
      "50 \<le> unat m" "unat m \<le> unat (d_size (q_detail ?rp)) + 49" by blast
    obtain sec nsec where sp: "sleep_spec m = (sec, nsec)" by (cases "sleep_spec m")
    obtain ret en where ns: "l_nanosleep s (length (l_sleeps s2)) (sec, nsec) = (ret, en)" by fastforce
    have "ret = 0" using ok(3) [of "length (l_sleeps s2)" "(sec, nsec)"] ns by simp
    with True dr m sp ns s2 show ?thesis
      by (simp add: do_request_def do_sleep_def nanosleep_def Let_def state_fixed_ld_def)
  next
    case False
    let ?c = "call_of ?rp"
    let ?r = "dev (l_env s) (length (calls (l_env s))) ?c"
    have len: "int (call_length ?c) = uint (d_size (q_detail ?rp))"
    proof (cases "uint (d_type (q_detail ?rp)) = READ")
      case True
      then show ?thesis by (simp add: call_of_def Let_def)
    next
      case F: False
      then have "unat (d_size (q_detail ?rp)) \<le> length (q_writebp ?rp)" using assms(3,6) False by auto
      then show ?thesis using F by (simp add: call_of_def Let_def min_def)
    qed
    have "fst ?r = uint (d_size (q_detail ?rp))" using ok(2) len by (simp add: full_transfers_def)
    then obtain en where en: "?r = (uint (d_size (q_detail ?rp)), en)" by (metis prod.collapse)
    have e: "?d\<lparr>d_size := d_size ?d\<rparr> = ?d" by simp
    have "do_request ?rp ?d ?s1 = Inr (?d, ?r, ?s1\<lparr>l_env := (l_env ?s1)\<lparr>calls := calls (l_env s) @ [?c]\<rparr>\<rparr>)"
      using False by (simp add: do_request_def iob_read_def iob_write_def do_call_def call_of_def Let_def)
    then show ?thesis using False en e
      by (intro exI [of _ ?d] exI [of _ en]) (simp add: state_fixed_ld_def env_fixed_def)
  qed
  then obtain d1 en s2 where rq: "do_request ?rp ?d ?s1 = Inr (d1, (uint (d_size d1), en), s2)"
    and d1: "d1 = ?d\<lparr>d_size := d_size d1\<rparr>" and s2: "state_fixed_ld s2 = state_fixed_ld s" "l_dt s2 = l_dt s"
      "ticks (l_env s2) = Suc (ticks (l_env s))"
    and res: "if uint (d_type (q_detail ?rp)) = SLEEP
         then calls (l_env s2) = calls (l_env s) \<and> 50 \<le> unat (d_size d1) \<and> unat (d_size d1) \<le> unat (d_size (q_detail ?rp)) + 49
         else calls (l_env s2) = calls (l_env s) @ [call_of ?rp] \<and> d_size d1 = d_size (q_detail ?rp)" by blast
  let ?s3 = "s2\<lparr>l_env := (l_env s2)\<lparr>ticks := Suc (ticks (l_env s2))\<rparr>\<rparr>"
  let ?d2 = "d1\<lparr>d_end := clock_at s2 (ticks (l_env s2))\<rparr>"
  let ?tp = "tp\<lparr>t_iorp := ?rp\<lparr>q_error := 0, q_detail := ?d2\<rparr>\<rparr>"
  have st: "io_start_ld tp s = io_finish_ld ?tp ?s3"
    using rq by (simp add: io_start_ld_def tick_ld_eq Let_def)
  have ty: "d_type d1 = d_type (q_detail ?rp)" "d_start d1 = ?t0" "d_flag d1 = 0" using d1
    by (metis iodet.select_convs iodet.update_convs iodet.surjective)+
  have "clk (l_env s2) = clk (l_env s)" using s2(1) by (simp add: state_fixed_ld_def env_fixed_def)
  then have "clock_at s2 (ticks (l_env s2)) = clock_at s (ticks (l_env s) + 1)" using s2(3) by (simp add: clock_at_def)
  moreover have "state_fixed_ld ?s3 = state_fixed_ld s" using s2(1) by (simp add: state_fixed_ld_def env_fixed_def)
  ultimately show ?thesis using st res s2(2,3) ty
    by (intro exI [of _ ?d2] exI [of _ ?s3]) simp
qed

lemma io_start_ld_ok:
  assumes "q_itype (t_iorp tp) = Some ip" "state_ok_ld s"
    and "uint (d_type (q_detail (t_iorp tp))) \<in> {READ, WRITE, SLEEP}"
    and "uint (d_type (q_detail (t_iorp tp))) = SLEEP \<Longrightarrow> 0 < unat (d_size (q_detail (t_iorp tp)))"
    and "unat (d_size (q_detail (t_iorp tp))) < 2 ^ 31"
    and "uint (d_type (q_detail (t_iorp tp))) = WRITE
      \<Longrightarrow> unat (d_size (q_detail (t_iorp tp))) \<le> length (q_writebp (t_iorp tp))"
  shows "\<exists>tp' s'. io_start_ld tp s = Inr (tp', s') \<and> thread_fixed_ld tp' = thread_fixed_ld tp
    \<and> state_fixed_ld s' = state_fixed_ld s \<and> state_ok_ld s'
    \<and> ticks (l_env s') = ticks (l_env s) + 2
    \<and> d_start (q_detail (t_iorp tp')) = clock_at s (ticks (l_env s))
    \<and> (if uint (d_type (q_detail (t_iorp tp))) = SLEEP
       then calls (l_env s') = calls (l_env s) \<and> 50 \<le> unat (d_size (q_detail (t_iorp tp')))
         \<and> unat (d_size (q_detail (t_iorp tp'))) \<le> unat (d_size (q_detail (t_iorp tp))) + 49
       else calls (l_env s') = calls (l_env s) @ [call_of (t_iorp tp)]
         \<and> d_size (q_detail (t_iorp tp')) = d_size (q_detail (t_iorp tp)))"
proof -
  from io_start_ld_finish [OF assms] obtain d1 s3 where
    st: "io_start_ld tp s = io_finish_ld (tp\<lparr>t_iorp := (t_iorp tp)\<lparr>q_error := 0, q_detail := d1\<rparr>\<rparr>) s3"
    and s3: "state_fixed_ld s3 = state_fixed_ld s" "l_dt s3 = l_dt s" "ticks (l_env s3) = ticks (l_env s) + 2"
    and d1: "d_type d1 = d_type (q_detail (t_iorp tp))" "d_start d1 = clock_at s (ticks (l_env s))"
    and res: "if uint (d_type (q_detail (t_iorp tp))) = SLEEP
       then calls (l_env s3) = calls (l_env s) \<and> 50 \<le> unat (d_size d1)
         \<and> unat (d_size d1) \<le> unat (d_size (q_detail (t_iorp tp))) + 49
       else calls (l_env s3) = calls (l_env s) @ [call_of (t_iorp tp)] \<and> d_size d1 = d_size (q_detail (t_iorp tp))" by blast
  let ?tp = "tp\<lparr>t_iorp := (t_iorp tp)\<lparr>q_error := 0, q_detail := d1\<rparr>\<rparr>"
  have "table_ok (l_dt s3)" using assms(2) s3(2) by (simp add: state_ok_ld_def)
  with io_finish_ld_ok [of ?tp ip s3] assms(1,3) d1 obtain tp' s' where
    f: "io_finish_ld ?tp s3 = Inr (tp', s')" "thread_fixed_ld tp' = thread_fixed_ld ?tp"
      "state_fixed_ld s' = state_fixed_ld s3" "l_env s' = l_env s3" "table_ok (l_dt s')"
      "d_size (q_detail (t_iorp tp')) = d_size d1" "d_start (q_detail (t_iorp tp')) = d_start d1" by auto
  have "thread_fixed_ld ?tp = thread_fixed_ld tp" by (simp add: thread_fixed_ld_def)
  moreover have fx: "state_fixed_ld s' = state_fixed_ld s" using f(3) s3(1) by simp
  moreover have "state_ok_ld s'" using state_ok_fixed [OF fx f(5) assms(2)] .
  ultimately show ?thesis using st f res s3(3) d1(2) by auto
qed

section \<open>The requests of one I/O\<close>

text \<open>What the initialisation gives a thread: a range, and buffers for the chunks of every type.\<close>

definition type_fits :: "iothread_ld \<Rightarrow> itype \<Rightarrow> bool" where
  "type_fits tp ip \<longleftrightarrow> itype_ok ip \<and> unat (it_size ip) < 2 ^ 31
     \<and> min (unat (it_size ip)) (nat (p_maxiosize (t_params tp))) \<le> length (q_writebp (t_iorp tp))"

definition thread_ok_ld :: "iothread_ld \<Rightarrow> bool" where
  "thread_ok_ld tp \<longleftrightarrow> t_itlist tp \<noteq> [] \<and> (\<forall>ip \<in> set (t_itlist tp). type_fits tp ip)
     \<and> 0 < p_maxiosize (t_params tp) \<and> p_maxiosize (t_params tp) < 2 ^ 31
     \<and> 512 dvd length (q_writebp (t_iorp tp)) \<and> t_rangeoff tp \<noteq> 0"

lemma thread_ok_fixed: "thread_fixed_ld tp' = thread_fixed_ld tp \<Longrightarrow> thread_ok_ld tp' = thread_ok_ld tp"
  by (simp add: thread_fixed_ld_def thread_ok_ld_def type_fits_def)

lemma chunk_size_min:
  assumes "0 < sz" "sz < 2 ^ 31" "0 < p_maxiosize p" "p_maxiosize p < 2 ^ 31"
  shows "unat (chunk_size p sz) = min (nat (p_maxiosize p)) (nat sz)"
proof -
  have u: "unat (u32_of_int k) = nat k" if "0 < k" "k < 2 ^ 31" for k
    using that by (simp add: unsigned_of_int take_bit_int_eq_self)
  show ?thesis using u [OF assms(1,2)] u [OF assms(3,4)] assms(1,3)
    by (auto simp: chunk_size_def word_less_nat_alt Let_def min_def)
qed

lemma sint_minus:
  assumes "0 < sz" "sz < 2 ^ 31" "int (unat n) \<le> sz + 49"
  shows "int_of_u32 (u32_of_int sz - n) = sz - int (unat n)"
proof -
  have "n = u32_of_int (int (unat n))" by simp
  then have "u32_of_int sz - n = u32_of_int (sz - int (unat n))" by (metis of_int_diff)
  moreover obtain k where k: "unat n = k" by blast
  then have "- (2 ^ 31) \<le> sz - int (unat n)" "sz - int (unat n) < 2 ^ 31"
    using assms unfolding k by simp_all
  ultimately show ?thesis by (simp only: signed_of_int) (simp add: signed_take_bit_int_eq_self)
qed

lemma fill_chunk_ok:
  assumes "thread_ok_ld tp" "ip \<in> set (t_itlist tp)" "state_ok_ld s"
    and "unat nb \<le> min (nat (p_maxiosize (t_params tp))) (unat (it_size ip))"
  shows "\<exists>buf s'. fill_chunk ip nb (set_chunk ip nb base ionum tp) s
      = Inr ((set_chunk ip nb base ionum tp)\<lparr>t_iorp := (t_iorp (set_chunk ip nb base ionum tp))\<lparr>q_writebp := buf\<rparr>\<rparr>, s')
    \<and> length buf = length (q_writebp (t_iorp tp)) \<and> state_fixed_ld s' = state_fixed_ld s \<and> l_dt s' = l_dt s
    \<and> ticks (l_env s') = ticks (l_env s) \<and> calls (l_env s') = calls (l_env s)"
proof (cases "it_optype ip = WRITE")
  case False
  then show ?thesis
    by (intro exI [of _ "q_writebp (t_iorp tp)"] exI [of _ s]) (simp add: fill_chunk_def set_chunk_def)
next
  case True
  have f: "type_fits tp ip" and b: "512 dvd length (q_writebp (t_iorp tp))"
    using assms(1,2) by (auto simp: thread_ok_ld_def)
  have "unat nb \<le> length (q_writebp (t_iorp tp))"
    using f assms(4) unfolding type_fits_def by (metis le_trans min.commute)
  moreover have "unat nb \<le> 2 ^ 31" using f assms(4) unfolding type_fits_def by linarith
  moreover have "it_dedupblks ip \<noteq> 0" using f by (auto simp: type_fits_def itype_ok_def)
  moreover have "pools_ok (l_pools s)" using assms(3) by (simp add: state_ok_ld_def)
  ultimately obtain buf x where "iob_iodata (l_pools s) (q_writebp (t_iorp tp)) nb (it_dtype ip) (it_dedupblks ip)
      (rng (l_env s)) = Inr (buf, x)" "length buf = length (q_writebp (t_iorp tp))"
    using iodata_total [OF _ b] by blast
  then show ?thesis using True
    by (intro exI [of _ buf] exI [of _ "set_rng_ld x s"])
      (simp add: fill_chunk_def set_chunk_def set_rng_ld_def state_fixed_ld_def env_fixed_def)
qed

text \<open>A list of transfers that tiles \<open>n\<close> bytes from \<open>base\<close> in pieces of at most \<open>mx\<close> bytes, all reads or all writes.\<close>

fun call_offset :: "iocall \<Rightarrow> u64" where
  "call_offset (Pread f n off) = off"
| "call_offset (Pwrite f bs off) = off"

fun call_writes :: "iocall \<Rightarrow> bool" where
  "call_writes (Pread f n off) = False"
| "call_writes (Pwrite f bs off) = True"

fun tiled :: "bool \<Rightarrow> nat \<Rightarrow> u64 \<Rightarrow> nat \<Rightarrow> iocall list \<Rightarrow> bool" where
  "tiled w mx base n [] = (n = 0)"
| "tiled w mx base n (c # cs) = (0 < n \<and> call_writes c = w \<and> call_offset c = base \<and> call_length c = min mx n
     \<and> tiled w mx (base + of_nat (min mx n)) (n - min mx n) cs)"

lemma optype_word:
  "uint (word_of_int READ :: u16) = READ" "uint (word_of_int WRITE :: u16) = WRITE"
  "uint (word_of_int SLEEP :: u16) = SLEEP"
  by (simp_all add: uint_word_of_int_eq)

lemma type_fits_optype:
  "type_fits tp ip \<Longrightarrow> uint (word_of_int (it_optype ip) :: u16) = it_optype ip \<and> it_optype ip \<in> {READ, WRITE, SLEEP}"
  using optype_word by (auto simp: type_fits_def itype_ok_def split: if_splits)

lemma chunk_step:
  assumes "thread_ok_ld tp" "ip \<in> set (t_itlist tp)" "state_ok_ld s" "0 < sz" "sz \<le> int (unat (it_size ip))"
  shows "\<exists>tp1 s1 tp2 s2. fill_chunk ip (chunk_size (t_params tp) sz) (set_chunk ip (chunk_size (t_params tp) sz) base ionum tp) s
      = Inr (tp1, s1) \<and> io_start_ld tp1 s1 = Inr (tp2, s2)
    \<and> thread_fixed_ld tp2 = thread_fixed_ld tp \<and> state_fixed_ld s2 = state_fixed_ld s \<and> state_ok_ld s2
    \<and> ticks (l_env s2) = ticks (l_env s) + 2 \<and> d_start (q_detail (t_iorp tp2)) = clock_at s (ticks (l_env s))
    \<and> 0 < unat (d_size (q_detail (t_iorp tp2))) \<and> int (unat (d_size (q_detail (t_iorp tp2)))) \<le> sz + 49
    \<and> (if it_optype ip = SLEEP then calls (l_env s2) = calls (l_env s)
       else \<exists>c. calls (l_env s2) = calls (l_env s) @ [c] \<and> call_writes c = (it_optype ip = WRITE)
         \<and> call_offset c = base \<and> call_length c = min (nat (p_maxiosize (t_params tp))) (nat sz)
         \<and> unat (d_size (q_detail (t_iorp tp2))) = min (nat (p_maxiosize (t_params tp))) (nat sz))"
proof -
  let ?nb = "chunk_size (t_params tp) sz" and ?mx = "nat (p_maxiosize (t_params tp))"
  have f: "type_fits tp ip" and mx: "0 < p_maxiosize (t_params tp)" "p_maxiosize (t_params tp) < 2 ^ 31"
    using assms(1,2) by (auto simp: thread_ok_ld_def)
  have "unat (it_size ip) < 2147483648" using f by (simp add: type_fits_def)
  then have "sz < 2147483648" using assms(5) by linarith
  then have sz: "sz < 2 ^ 31" by simp
  have nb: "unat ?nb = min ?mx (nat sz)" by (rule chunk_size_min [OF assms(4) sz mx])
  have nb0: "0 < unat ?nb" "unat ?nb < 2 ^ 31" "unat ?nb \<le> nat sz" using nb mx assms(4) sz by auto
  have nble: "unat ?nb \<le> min ?mx (unat (it_size ip))"
    using nb assms(5) unfolding min.bounded_iff by linarith
  let ?tp0 = "set_chunk ip ?nb base ionum tp"
  from fill_chunk_ok [OF assms(1-3) nble, of base ionum] obtain buf s1 where
    fc: "fill_chunk ip ?nb ?tp0 s = Inr (?tp0\<lparr>t_iorp := (t_iorp ?tp0)\<lparr>q_writebp := buf\<rparr>\<rparr>, s1)"
    and buf: "length buf = length (q_writebp (t_iorp tp))" and s1: "state_fixed_ld s1 = state_fixed_ld s" "l_dt s1 = l_dt s"
      "ticks (l_env s1) = ticks (l_env s)" "calls (l_env s1) = calls (l_env s)" by blast
  let ?tp1 = "?tp0\<lparr>t_iorp := (t_iorp ?tp0)\<lparr>q_writebp := buf\<rparr>\<rparr>"
  have d: "d_size (q_detail (t_iorp ?tp1)) = ?nb" "d_offset (q_detail (t_iorp ?tp1)) = base"
    "uint (d_type (q_detail (t_iorp ?tp1))) = it_optype ip" "q_itype (t_iorp ?tp1) = Some ip"
    "q_writebp (t_iorp ?tp1) = buf"
    using type_fits_optype [OF f] by (simp_all add: set_chunk_def)
  have fx: "thread_fixed_ld ?tp1 = thread_fixed_ld tp" using buf by (simp add: thread_fixed_ld_def set_chunk_def)
  have "table_ok (l_dt s1)" using assms(3) s1(2) by (simp add: state_ok_ld_def)
  then have ok1: "state_ok_ld s1" using state_ok_fixed [OF s1(1)] assms(3) by blast
  have len: "unat ?nb \<le> length buf"
    using f nble unfolding type_fits_def buf by (metis le_trans min.commute)
  from io_start_ld_ok [of ?tp1 ip s1, unfolded d, OF refl ok1 _ nb0(1,2) len] type_fits_optype [OF f] obtain tp2 s2 where
    r: "io_start_ld ?tp1 s1 = Inr (tp2, s2)" "thread_fixed_ld tp2 = thread_fixed_ld ?tp1"
      "state_fixed_ld s2 = state_fixed_ld s1" "state_ok_ld s2" "ticks (l_env s2) = ticks (l_env s1) + 2"
      "d_start (q_detail (t_iorp tp2)) = clock_at s1 (ticks (l_env s1))"
    and c: "if it_optype ip = SLEEP
       then calls (l_env s2) = calls (l_env s1) \<and> 50 \<le> unat (d_size (q_detail (t_iorp tp2)))
         \<and> unat (d_size (q_detail (t_iorp tp2))) \<le> unat ?nb + 49
       else calls (l_env s2) = calls (l_env s1) @ [call_of (t_iorp ?tp1)]
         \<and> d_size (q_detail (t_iorp tp2)) = ?nb" by blast
  have clk: "clock_at s1 = clock_at s"
    using s1(1) by (intro ext) (simp add: clock_at_def state_fixed_ld_def env_fixed_def)
  have call: "call_offset (call_of (t_iorp ?tp1)) = base" "call_writes (call_of (t_iorp ?tp1)) = (it_optype ip = WRITE)"
    "call_length (call_of (t_iorp ?tp1)) = unat ?nb" if "it_optype ip \<noteq> SLEEP"
    using that type_fits_optype [OF f] d len by (auto simp: call_of_def Let_def min_def)
  have u: "0 < unat (d_size (q_detail (t_iorp tp2)))" "unat (d_size (q_detail (t_iorp tp2))) \<le> unat ?nb + 49"
    using c nb0(1) by (auto split: if_splits)
  then have "0 < unat (d_size (q_detail (t_iorp tp2)))" "int (unat (d_size (q_detail (t_iorp tp2)))) \<le> sz + 49"
    using nb0(3) assms(4) by linarith+
  moreover have "if it_optype ip = SLEEP then calls (l_env s2) = calls (l_env s)
       else \<exists>c. calls (l_env s2) = calls (l_env s) @ [c] \<and> call_writes c = (it_optype ip = WRITE)
         \<and> call_offset c = base \<and> call_length c = min ?mx (nat sz)
         \<and> unat (d_size (q_detail (t_iorp tp2))) = min ?mx (nat sz)"
    using c call nb s1(4) by (auto split: if_splits)
  ultimately show ?thesis using fc r fx s1 clk by (intro exI [of _ ?tp1] exI [of _ s1] exI [of _ tp2] exI [of _ s2]) simp
qed

text \<open>What one round of a loop of \<open>do_io\<close> leaves: the same thread and state, later, with a request that started on the way.\<close>

definition later :: "iothread_ld \<times> lstate \<Rightarrow> iothread_ld \<times> lstate \<Rightarrow> bool" where
  "later = (\<lambda>(tp, s) (tp', s'). thread_fixed_ld tp' = thread_fixed_ld tp \<and> state_fixed_ld s' = state_fixed_ld s
     \<and> state_ok_ld s' \<and> ticks (l_env s) < ticks (l_env s')
     \<and> (\<exists>n \<ge> ticks (l_env s). d_start (q_detail (t_iorp tp')) = clock_at s n))"

lemma clock_fixed: "state_fixed_ld s' = state_fixed_ld s \<Longrightarrow> clock_at s' = clock_at s"
  by (intro ext) (simp add: clock_at_def state_fixed_ld_def env_fixed_def)

lemma later_trans:
  assumes "later (tp, s) (tp1, s1)" "later (tp1, s1) (tp2, s2)"
  shows "later (tp, s) (tp2, s2)"
proof -
  from assms(2) obtain n where n: "ticks (l_env s1) \<le> n" "d_start (q_detail (t_iorp tp2)) = clock_at s1 n"
    by (auto simp: later_def)
  have a: "ticks (l_env s) < ticks (l_env s1)" "clock_at s1 = clock_at s"
    using assms(1) clock_fixed [of s1 s] by (simp_all add: later_def)
  then have "ticks (l_env s) \<le> n" using n(1) by simp
  with assms a n(2) show ?thesis by (auto simp: later_def)
qed

lemma chunks_ok:
  assumes "thread_ok_ld tp" "ip \<in> set (t_itlist tp)" "state_ok_ld s" "sz \<le> int (unat (it_size ip))" "nat sz \<le> fuel"
  shows "\<exists>ionum' tp' s'. chunks_ld fuel ip sz base (ionum, tp, s) = Inr (ionum', tp', s')
    \<and> (if 0 < sz then later (tp, s) (tp', s') else tp' = tp \<and> s' = s)
    \<and> (if it_optype ip = SLEEP then calls (l_env s') = calls (l_env s)
       else \<exists>cs. calls (l_env s') = calls (l_env s) @ cs
         \<and> tiled (it_optype ip = WRITE) (nat (p_maxiosize (t_params tp))) base (nat sz) cs)"
  using assms
proof (induction fuel arbitrary: sz base ionum tp s)
  case 0
  then have "\<not> 0 < sz" by simp
  then show ?case by simp
next
  case (Suc fuel)
  show ?case
  proof (cases "0 < sz")
    case False
    then show ?thesis by simp
  next
    case True
    let ?nb = "chunk_size (t_params tp) sz" and ?mx = "nat (p_maxiosize (t_params tp))"
    from chunk_step [OF Suc.prems(1-3) True Suc.prems(4), of base ionum] obtain tp1 s1 tp2 s2 where
      fc: "fill_chunk ip ?nb (set_chunk ip ?nb base ionum tp) s = Inr (tp1, s1)"
      and st: "io_start_ld tp1 s1 = Inr (tp2, s2)" and fx: "thread_fixed_ld tp2 = thread_fixed_ld tp"
        "state_fixed_ld s2 = state_fixed_ld s" "state_ok_ld s2" "ticks (l_env s2) = ticks (l_env s) + 2"
        "d_start (q_detail (t_iorp tp2)) = clock_at s (ticks (l_env s))"
      and n: "0 < unat (d_size (q_detail (t_iorp tp2)))" "int (unat (d_size (q_detail (t_iorp tp2)))) \<le> sz + 49"
      and c: "if it_optype ip = SLEEP then calls (l_env s2) = calls (l_env s)
       else \<exists>c. calls (l_env s2) = calls (l_env s) @ [c] \<and> call_writes c = (it_optype ip = WRITE)
         \<and> call_offset c = base \<and> call_length c = min ?mx (nat sz)
         \<and> unat (d_size (q_detail (t_iorp tp2))) = min ?mx (nat sz)" by blast
    let ?n = "d_size (q_detail (t_iorp tp2))"
    have f: "type_fits tp ip" using Suc.prems(1,2) by (auto simp: thread_ok_ld_def)
    then have "unat (it_size ip) < 2147483648" by (simp add: type_fits_def)
    then have "sz < 2147483648" using Suc.prems(4) by linarith
    then have sz: "int_of_u32 (u32_of_int sz - ?n) = sz - int (unat ?n)" using sint_minus [OF True _ n(2)] by simp
    have it2: "thread_ok_ld tp2" "ip \<in> set (t_itlist tp2)" "t_params tp2 = t_params tp"
      using thread_ok_fixed [OF fx(1)] Suc.prems(1,2) fx(1) by (simp_all add: thread_fixed_ld_def)
    have le: "sz - int (unat ?n) \<le> int (unat (it_size ip))" "nat (sz - int (unat ?n)) \<le> fuel"
      using Suc.prems(4,5) n(1) True by linarith+
    from Suc.IH [OF it2(1,2) fx(3) le, of "base + ucast ?n" "ionum + 1"] obtain ionum' tp' s' where
      r: "chunks_ld fuel ip (sz - int (unat ?n)) (base + ucast ?n) (ionum + 1, tp2, s2) = Inr (ionum', tp', s')"
      and l: "if 0 < sz - int (unat ?n) then later (tp2, s2) (tp', s') else tp' = tp2 \<and> s' = s2"
      and cs: "if it_optype ip = SLEEP then calls (l_env s') = calls (l_env s2)
       else \<exists>cs. calls (l_env s') = calls (l_env s2) @ cs
         \<and> tiled (it_optype ip = WRITE) ?mx (base + ucast ?n) (nat (sz - int (unat ?n))) cs"
      unfolding it2(3) by blast
    have run: "chunks_ld (Suc fuel) ip sz base (ionum, tp, s) = Inr (ionum', tp', s')"
      using True fc st sz r by (simp add: Let_def)
    have "later (tp, s) (tp2, s2)" using fx by (auto simp: later_def)
    then have lt: "later (tp, s) (tp', s')" using l later_trans by (cases "0 < sz - int (unat ?n)") auto
    have "if it_optype ip = SLEEP then calls (l_env s') = calls (l_env s)
       else \<exists>cs. calls (l_env s') = calls (l_env s) @ cs \<and> tiled (it_optype ip = WRITE) ?mx base (nat sz) cs"
    proof (cases "it_optype ip = SLEEP")
      case True
      then show ?thesis using c cs by simp
    next
      case False
      then obtain c1 cs1 where c1: "calls (l_env s2) = calls (l_env s) @ [c1]" "call_writes c1 = (it_optype ip = WRITE)"
        "call_offset c1 = base" "call_length c1 = min ?mx (nat sz)" "unat ?n = min ?mx (nat sz)"
        and cs1: "calls (l_env s') = calls (l_env s2) @ cs1"
          "tiled (it_optype ip = WRITE) ?mx (base + ucast ?n) (nat (sz - int (unat ?n))) cs1"
        using c cs unfolding if_not_P [OF False] by blast
      have "ucast ?n = (of_nat (unat ?n) :: u64)" by simp
      then have "ucast ?n = (of_nat (min ?mx (nat sz)) :: u64)" unfolding c1(5) .
      moreover have "nat (sz - int (unat ?n)) = nat sz - min ?mx (nat sz)" unfolding c1(5) by simp
      ultimately have "tiled (it_optype ip = WRITE) ?mx base (nat sz) (c1 # cs1)"
        using c1(2-4) cs1(2) \<open>0 < sz\<close> by simp
      then show ?thesis using c1(1) cs1(1) False by simp
    qed
    then show ?thesis using run lt \<open>0 < sz\<close> by (intro exI [of _ ionum'] exI [of _ tp'] exI [of _ s']) simp
  qed
qed

section \<open>The loops end\<close>

lemma select_itype_total: "its \<noteq> [] \<Longrightarrow> \<exists>ip. select_itype its d = Inr ip \<and> ip \<in> set its"
  by (induction its d rule: select_itype.induct) auto

lemma pick_offset_total:
  assumes "thread_ok_ld tp" "ip \<in> set (t_itlist tp)"
  shows "\<exists>off. pick_offset tp ip r = Inr off"
proof -
  have f: "type_fits tp ip" "t_rangeoff tp \<noteq> 0" using assms by (auto simp: thread_ok_ld_def)
  have "it_size ip \<noteq> 0" using f(1) by (auto simp: type_fits_def itype_ok_def split: if_splits)
  then have "unat (ucast (it_size ip) :: u64) \<noteq> 0" by (simp add: unat_ucast_u32 unat_eq_zero)
  then have "(ucast (it_size ip) :: u64) \<noteq> 0" by (metis unat_0)
  with f(2) show ?thesis by (simp add: pick_offset_def umod_def Let_def)
qed

lemma type_size_sint:
  assumes "type_fits tp ip"
  shows "int_of_u32 (it_size ip) = int (unat (it_size ip))" "0 < int_of_u32 (it_size ip)"
proof -
  have "unat (it_size ip) < 2 ^ 31" using assms by (simp add: type_fits_def)
  then show e: "int_of_u32 (it_size ip) = int (unat (it_size ip))" by (rule sint_of_small)
  have "it_size ip \<noteq> 0" using assms by (auto simp: type_fits_def itype_ok_def split: if_splits)
  then have "0 < unat (it_size ip)" by (simp add: unat_gt_0)
  then show "0 < int_of_u32 (it_size ip)" unfolding e by linarith
qed

lemma draw_dbl_ld_simps:
  assumes "draw_dbl_ld s = (d, s')"
  shows "0 \<le> d" "state_fixed_ld s' = state_fixed_ld s" "l_dt s' = l_dt s" "ticks (l_env s') = ticks (l_env s)"
    "calls (l_env s') = calls (l_env s)"
  using assms drand48_bounds(1) [of "rng (l_env s)"]
  by (auto simp: draw_dbl_ld_def set_rng_ld_def state_fixed_ld_def env_fixed_def split: prod.splits)

lemma draw64_ld_simps:
  assumes "draw64_ld s = (r, s')"
  shows "state_fixed_ld s' = state_fixed_ld s" "l_dt s' = l_dt s" "ticks (l_env s') = ticks (l_env s)"
    "calls (l_env s') = calls (l_env s)"
  using assms by (auto simp: draw64_ld_def set_rng_ld_def state_fixed_ld_def env_fixed_def split: prod.splits)

lemma pace_simps:
  assumes "pace iotime nextio tp s = (n, s')"
  shows "state_fixed_ld s' = state_fixed_ld s" "l_dt s' = l_dt s" "ticks (l_env s') = ticks (l_env s)"
    "calls (l_env s') = calls (l_env s)"
  using assms by (auto simp: pace_def draw32_ld_def nanosleep_def set_rng_ld_def state_fixed_ld_def env_fixed_def Let_def
      split: prod.splits if_splits)

lemma state_ok_same:
  "state_fixed_ld s' = state_fixed_ld s \<Longrightarrow> l_dt s' = l_dt s \<Longrightarrow> state_ok_ld s \<Longrightarrow> state_ok_ld s'"
  using state_ok_fixed [of s' s] by (simp add: state_ok_ld_def)

lemma later_after:
  assumes "later (tp, s) (tp', s')" "state_fixed_ld s2 = state_fixed_ld s'" "l_dt s2 = l_dt s'"
    "ticks (l_env s2) = ticks (l_env s')"
  shows "later (tp, s) (tp', s2)"
  using assms state_ok_same [of s2 s'] by (simp add: later_def)

lemma later_before:
  assumes "later (tp, s1) (tp', s')" "state_fixed_ld s1 = state_fixed_ld s" "ticks (l_env s1) = ticks (l_env s)"
  shows "later (tp, s) (tp', s')"
  using assms clock_fixed [of s1 s] by (simp add: later_def)

lemma repeats_ok:
  assumes "thread_ok_ld tp" "ip \<in> set (t_itlist tp)" "state_ok_ld s" "it_repwrite ip \<le> 0" "unat (it_size ip) \<le> fuel"
  shows "\<exists>ionum' tp' s'. repeats_ld (Suc fuel) ip off (ionum, tp, s) = Inr (ionum', tp', s') \<and> later (tp, s) (tp', s')"
proof -
  have f: "type_fits tp ip" using assms(1,2) by (auto simp: thread_ok_ld_def)
  note z = type_size_sint [OF f]
  have "nat (int_of_u32 (it_size ip)) \<le> Suc fuel" unfolding z(1) using assms(5) by simp
  from chunks_ok [OF assms(1-3) _ this, of off ionum] z(1) z(2) obtain io1 tp1 s1 where
    c: "chunks_ld (Suc fuel) ip (int_of_u32 (it_size ip)) off (ionum, tp, s) = Inr (io1, tp1, s1)"
    and l: "later (tp, s) (tp1, s1)" by (auto split: if_splits)
  show ?thesis
  proof (cases "it_optype ip = WRITE")
    case False
    then show ?thesis using c l by simp
  next
    case True
    obtain d s2 where d: "draw_dbl_ld s1 = (d, s2)" by (cases "draw_dbl_ld s1")
    note ds = draw_dbl_ld_simps [OF d]
    have "\<not> d < it_repwrite ip" using ds(1) assms(4) by simp
    then have "repeats_ld (Suc fuel) ip off (ionum, tp, s) = Inr (io1, tp1, s2)" using True c d by simp
    then show ?thesis using later_after [OF l ds(2-4)] by blast
  qed
qed

lemma io_turn_ld_ok:
  assumes "thread_ok_ld tp" "state_ok_ld s" "\<forall>ip \<in> set (t_itlist tp). it_repwrite ip \<le> 0 \<and> unat (it_size ip) \<le> fuel"
  shows "\<exists>nextio' ionum' tp' s'. io_turn_ld (Suc fuel) iotime (nextio, ionum, tp, s) = Inr (nextio', ionum', tp', s')
    \<and> later (tp, s) (tp', s')"
proof -
  obtain d s1 where d: "draw_dbl_ld s = (d, s1)" by (cases "draw_dbl_ld s")
  note ds = draw_dbl_ld_simps [OF d]
  have "t_itlist tp \<noteq> []" using assms(1) by (simp add: thread_ok_ld_def)
  from select_itype_total [OF this, of d] obtain ip where
    ip: "select_itype (t_itlist tp) d = Inr ip" "ip \<in> set (t_itlist tp)" by blast
  obtain r s2 where r: "draw64_ld s1 = (r, s2)" by (cases "draw64_ld s1")
  note rs = draw64_ld_simps [OF r]
  obtain off where off: "pick_offset tp ip r = Inr off" using pick_offset_total [OF assms(1) ip(2)] by blast
  have fx: "state_fixed_ld s2 = state_fixed_ld s" "l_dt s2 = l_dt s" "ticks (l_env s2) = ticks (l_env s)"
    using ds rs by simp_all
  from repeats_ok [OF assms(1) ip(2) state_ok_same [OF fx(1,2) assms(2)], of fuel off ionum] assms(3) ip(2)
  obtain io3 tp3 s3 where
    rp: "repeats_ld (Suc fuel) ip off (ionum, tp, s2) = Inr (io3, tp3, s3)" "later (tp, s2) (tp3, s3)" by blast
  obtain n s4 where p: "pace iotime nextio tp3 s3 = (n, s4)" by (cases "pace iotime nextio tp3 s3")
  note ps = pace_simps [OF p]
  have "later (tp, s) (tp3, s4)" using later_after [OF later_before [OF rp(2) fx(1,3)] ps(1-3)] .
  then show ?thesis unfolding io_turn_ld_def prod.case d Let_def ip(1) bind_res_simps r off rp(1) p by blast
qed

lemma io_loop_returns:
  assumes "thread_ok_ld tp" "state_ok_ld s" "\<forall>ip \<in> set (t_itlist tp). it_repwrite ip \<le> 0 \<and> unat (it_size ip) \<le> M"
    and "\<forall>n \<ge> N. c_finish (l_cur s) \<le> clock_at s n"
    and "0 < fuel" "d_start (q_detail (t_iorp tp)) < c_finish (l_cur s) \<longrightarrow> M + (N - ticks (l_env s)) + 3 \<le> fuel"
  shows "\<exists>tp' s'. io_loop_ld fuel iotime (nextio, ionum, tp, s) = Inr (tp', s') \<and> thread_fixed_ld tp' = thread_fixed_ld tp
    \<and> state_fixed_ld s' = state_fixed_ld s \<and> state_ok_ld s' \<and> c_finish (l_cur s) \<le> d_start (q_detail (t_iorp tp'))"
  using assms
proof (induction fuel arbitrary: nextio ionum tp s)
  case (Suc fuel)
  show ?case
  proof (cases "d_start (q_detail (t_iorp tp)) < c_finish (l_cur s)")
    case False
    then have "c_finish (l_cur s) \<le> d_start (q_detail (t_iorp tp))" by simp
    then show ?thesis using False Suc.prems(2) by simp
  next
    case True
    then have fuel: "M + (N - ticks (l_env s)) + 3 \<le> Suc fuel" using Suc.prems(6) by blast
    then obtain fu where fu: "fuel = Suc fu" "M \<le> fu" by (cases fuel) auto
    have "\<forall>ip \<in> set (t_itlist tp). it_repwrite ip \<le> 0 \<and> unat (it_size ip) \<le> fu" using Suc.prems(3) fu(2) by auto
    from io_turn_ld_ok [OF Suc.prems(1,2) this, of iotime nextio ionum] obtain nx io1 tp1 s1 where
      t: "io_turn_ld fuel iotime (nextio, ionum, tp, s) = Inr (nx, io1, tp1, s1)" and l: "later (tp, s) (tp1, s1)"
      unfolding fu(1) by blast
    have fx: "thread_fixed_ld tp1 = thread_fixed_ld tp" "state_fixed_ld s1 = state_fixed_ld s" "state_ok_ld s1"
      "ticks (l_env s) < ticks (l_env s1)" using l by (simp_all add: later_def)
    have c: "l_cur s1 = l_cur s" "clock_at s1 = clock_at s" "t_itlist tp1 = t_itlist tp"
      using fx(1,2) clock_fixed [OF fx(2)] by (simp_all add: state_fixed_ld_def thread_fixed_ld_def)
    have go: "d_start (q_detail (t_iorp tp1)) < c_finish (l_cur s1) \<longrightarrow> M + (N - ticks (l_env s1)) + 3 \<le> fuel"
    proof
      assume early: "d_start (q_detail (t_iorp tp1)) < c_finish (l_cur s1)"
      obtain n where n: "ticks (l_env s) \<le> n" "d_start (q_detail (t_iorp tp1)) = clock_at s n"
        using l by (auto simp: later_def)
      have "n < N" using early n(2) Suc.prems(4) c(1) by (metis not_le)
      then show "M + (N - ticks (l_env s1)) + 3 \<le> fuel" using fuel fx(4) n(1) by linarith
    qed
    have "thread_ok_ld tp1" using thread_ok_fixed [OF fx(1)] Suc.prems(1) by simp
    from Suc.IH [OF this fx(3) _ _ _ go, of nx io1] Suc.prems(3,4) c fu(1) obtain tp' s' where
      "io_loop_ld fuel iotime (nx, io1, tp1, s1) = Inr (tp', s')" "thread_fixed_ld tp' = thread_fixed_ld tp1"
      "state_fixed_ld s' = state_fixed_ld s1" "state_ok_ld s'" "c_finish (l_cur s1) \<le> d_start (q_detail (t_iorp tp'))"
      by auto
    then show ?thesis using True t fx c by simp
  qed
qed simp

section \<open>Properties\<close>

lemma do_io_total:
  assumes "thread_ok_ld tp" "state_ok_ld s" "\<forall>ip \<in> set (t_itlist tp). it_repwrite ip \<le> 0 \<and> unat (it_size ip) \<le> M"
    and "\<forall>n \<ge> N. c_finish (l_cur s) \<le> clock_at s n" and "M + N + 3 \<le> fuel"
  shows "\<exists>tp' s'. do_io fuel ionum tp s = Inr (tp', s') \<and> thread_fixed_ld tp' = thread_fixed_ld tp
    \<and> state_fixed_ld s' = state_fixed_ld s \<and> state_ok_ld s' \<and> c_finish (l_cur s) \<le> d_start (q_detail (t_iorp tp'))"
proof (cases "p_maxrate (t_params tp) = 0")
  case True
  have "\<exists>tp' s'. io_loop_ld fuel 0 (0, ionum, tp, s) = Inr (tp', s') \<and> thread_fixed_ld tp' = thread_fixed_ld tp
    \<and> state_fixed_ld s' = state_fixed_ld s \<and> state_ok_ld s' \<and> c_finish (l_cur s) \<le> d_start (q_detail (t_iorp tp'))"
    using assms(5) by (intro io_loop_returns [OF assms(1-4)]) auto
  then show ?thesis using True by (simp add: do_io_def)
next
  case False
  let ?s = "s\<lparr>l_env := (l_env s)\<lparr>ticks := Suc (ticks (l_env s))\<rparr>\<rparr>"
  have fx: "state_fixed_ld ?s = state_fixed_ld s" "l_dt ?s = l_dt s" "l_cur ?s = l_cur s"
    by (simp_all add: state_fixed_ld_def env_fixed_def)
  have t: "\<forall>n \<ge> N. c_finish (l_cur ?s) \<le> clock_at ?s n" using assms(4) clock_fixed [OF fx(1)] by simp
  have "\<exists>tp' s'. io_loop_ld fuel (IOB_NSEC_TO_SEC div ucast (p_maxrate (t_params tp)))
      (clock_at s (ticks (l_env s)) + IOB_NSEC_TO_SEC div ucast (p_maxrate (t_params tp)), ionum, tp, ?s) = Inr (tp', s')
    \<and> thread_fixed_ld tp' = thread_fixed_ld tp \<and> state_fixed_ld s' = state_fixed_ld ?s \<and> state_ok_ld s'
    \<and> c_finish (l_cur ?s) \<le> d_start (q_detail (t_iorp tp'))"
    using assms(5) by (intro io_loop_returns [OF assms(1) state_ok_same [OF fx(1,2) assms(2)] assms(3) t]) auto
  then show ?thesis using False fx by (simp add: do_io_def tick_ld_eq Let_def)
qed

text \<open>
  Property C27. A thread's part of a test ends: once the clock stays past the end of the test, \<open>do_io\<close> returns, after a request
  that started at or after that end, whatever the random draws and however the I/Os are split. Fuel for the largest
  I/O and for the clock readings until the end is enough. The thread must be sound (\<open>thread_ok_ld\<close>: I/O types as the parser accepts
  them, sizes and a largest request that are positive and fit an \<open>int\<close>, buffers of that size), the transfers must
  succeed (\<open>state_ok_ld\<close>), and no type may repeat its writes, a random number of times.
\<close>

theorem do_io_returns:
  assumes "thread_ok_ld tp" and "state_ok_ld s"
    and "list_all (\<lambda>ip. it_repwrite ip \<le> 0 \<and> unat (it_size ip) \<le> M) (t_itlist tp)"
    and "\<And>n. N \<le> n \<Longrightarrow> c_finish (l_cur s) \<le> clock_at s n" and "M + N + 3 \<le> fuel"
  shows "\<exists>tp' s'. do_io fuel ionum tp s = Inr (tp', s') \<and> thread_fixed_ld tp' = thread_fixed_ld tp
    \<and> state_fixed_ld s' = state_fixed_ld s \<and> c_finish (l_cur s) \<le> d_start (q_detail (t_iorp tp'))"
  using do_io_total [OF assms(1,2) _ _ assms(5), of ionum] assms(3,4) by (auto simp: list_all_iff)

definition demo_itype :: "int \<Rightarrow> itype" where
  "demo_itype ty = defitype\<lparr>it_optype := ty\<rparr>"

definition demo_thread_ld :: "int \<Rightarrow> iothread_ld" where
  "demo_thread_ld ty = zero_iothread_ld\<lparr>t_itlist := [demo_itype ty], t_rangeoff := 2 ^ 30,
     t_params := defparams_ld\<lparr>p_maxiosize := 1536\<rparr>, t_iorp := zero_ioreq_ld\<lparr>q_writebp := replicate 4096 0\<rparr>\<rparr>"

definition demo_lstate :: lstate where
  "demo_lstate = \<lparr>l_lib = demo_lib, l_pools = zero_pools,
     l_env = \<lparr>clk = (\<lambda>n. (int (min n 9), 0)), ticks = 0, dev = (\<lambda>n c. (int (call_length c), 0)), calls = [], rng = 0\<rparr>,
     l_dt = empty_dtable, l_cur = \<lparr>c_threads = 1, c_endwarmup = 0, c_endinterval = 4000000000, c_finish = 5000000000\<rparr>,
     l_starttime = 0, l_ign_errors = False, l_nanosleep = (\<lambda>_ _. (0, 0)), l_sleeps = []\<rparr>"

lemma demo_thread_ld_ok: "ty = READ \<or> ty = WRITE \<Longrightarrow> thread_ok_ld (demo_thread_ld ty)"
  by (auto simp: thread_ok_ld_def type_fits_def itype_ok_def demo_thread_ld_def demo_itype_def defitype_def
      defparams_ld_def zero_iothread_ld_def zero_ioreq_ld_def)

lemma demo_lstate_ok: "state_ok_ld demo_lstate"
  by (simp add: state_ok_ld_def demo_lstate_def zero_pools_ok table_ok_def empty_dtable_def full_transfers_def)

theorem do_io_returns_witness:
  "\<exists>tp' s'. do_io 5000 1 (demo_thread_ld WRITE) demo_lstate = Inr (tp', s')
    \<and> c_finish (l_cur demo_lstate) \<le> d_start (q_detail (t_iorp tp'))"
proof -
  have "c_finish (l_cur demo_lstate) \<le> clock_at demo_lstate n" if "5 \<le> n" for n
  proof -
    have "5 \<le> min n 9" "min n 9 \<le> 9" using that by simp_all
    then have "min n 9 = 5 \<or> min n 9 = 6 \<or> min n 9 = 7 \<or> min n 9 = 8 \<or> min n 9 = 9" by linarith
    then show ?thesis by (auto simp: demo_lstate_def clock_at_def timespec_ns_def)
  qed
  moreover have "list_all (\<lambda>ip. it_repwrite ip \<le> 0 \<and> unat (it_size ip) \<le> 4096) (t_itlist (demo_thread_ld WRITE))"
    by (simp add: demo_thread_ld_def demo_itype_def defitype_def)
  ultimately show ?thesis
    using do_io_returns [OF demo_thread_ld_ok demo_lstate_ok, of WRITE 4096 5 5000 1] by auto
qed

text \<open>What a tiling of an I/O means: every byte of it once, in order, in as few pieces as the limit allows.\<close>

lemma tiled_bytes:
  assumes "tiled w mx base n cs" "unat base + n < 2 ^ 64"
  shows "(\<Union>c \<in> set cs. {unat (call_offset c) ..< unat (call_offset c) + call_length c}) = {unat base ..< unat base + n}"
    and "(\<Sum>c \<leftarrow> cs. call_length c) = n"
proof -
  have "(\<Union>c \<in> set cs. {unat (call_offset c) ..< unat (call_offset c) + call_length c}) = {unat base ..< unat base + n}
    \<and> (\<Sum>c \<leftarrow> cs. call_length c) = n"
    using assms
  proof (induction cs arbitrary: base n)
    case (Cons c cs)
    let ?m = "min mx n"
    have c: "call_offset c = base" "call_length c = ?m" "tiled w mx (base + of_nat ?m) (n - ?m) cs"
      using Cons.prems(1) by auto
    have "unat (of_nat ?m :: u64) = ?m"
      using Cons.prems(2) by (simp add: unat_of_nat take_bit_nat_eq_self min_less_iff_disj)
    moreover have "unat base + ?m < 2 ^ 64" using Cons.prems(2) by linarith
    ultimately have b: "unat (base + of_nat ?m) = unat base + ?m"
      using unat_add_lem [of base "of_nat ?m"] by simp
    have "unat (base + of_nat ?m) + (n - ?m) < 2 ^ 64" using b Cons.prems(2) by simp
    from Cons.IH [OF c(3) this] show ?case using c b by auto
  qed simp
  then show "(\<Union>c \<in> set cs. {unat (call_offset c) ..< unat (call_offset c) + call_length c}) = {unat base ..< unat base + n}"
    "(\<Sum>c \<leftarrow> cs. call_length c) = n" by blast+
qed



text \<open>
  Property C40. With \<open>maxiosize\<close> zero, which the option parser accepts, a read never comes to an end: each request is for no bytes
  and nothing is left less to do, so no amount of fuel is enough.
\<close>

theorem maxiosize_zero_hangs:
  assumes "p_maxiosize (t_params tp) = 0" and "it_optype ip = READ" and "0 < sz" and "sz < 2 ^ 31" and "state_ok_ld s"
  shows "chunks_ld fuel ip sz base (ionum, tp, s) = Inl OutOfFuel"
  using assms
proof (induction fuel arbitrary: base ionum tp s)
  case (Suc fuel)
  let ?tp = "set_chunk ip 0 base ionum tp"
  have "chunk_size (t_params tp) sz = 0"
  proof -
    have "unat (u32_of_int sz) = nat sz" using Suc.prems(3,4) by (simp add: unsigned_of_int take_bit_int_eq_self)
    then show ?thesis using Suc.prems(1,3) by (simp add: chunk_size_def word_less_nat_alt Let_def)
  qed
  moreover have fc: "fill_chunk ip 0 ?tp s = Inr (?tp, s)" using Suc.prems(2) by (simp add: fill_chunk_def)
  moreover have t: "q_itype (t_iorp ?tp) = Some ip" "uint (d_type (q_detail (t_iorp ?tp))) = READ"
    "d_size (q_detail (t_iorp ?tp)) = 0" using Suc.prems(2) by (simp_all add: set_chunk_def)
  from io_start_ld_ok [OF t(1) Suc.prems(5), unfolded t(2,3)] obtain tp2 s2 where
    st: "io_start_ld ?tp s = Inr (tp2, s2)" "thread_fixed_ld tp2 = thread_fixed_ld ?tp" "state_ok_ld s2"
      "d_size (q_detail (t_iorp tp2)) = 0" by auto
  have "p_maxiosize (t_params tp2) = 0" using st(2) Suc.prems(1) by (simp add: thread_fixed_ld_def set_chunk_def)
  from Suc.IH [OF this Suc.prems(2-4) st(3)]
  have "chunks_ld fuel ip sz base (ionum + 1, tp2, s2) = Inl OutOfFuel" .
  moreover have "int_of_u32 (u32_of_int sz - 0) = sz"
    using sint_minus [OF Suc.prems(3,4), of 0] Suc.prems(3) by simp
  ultimately show ?case using Suc.prems(3) fc st(1,4) by simp
qed simp

theorem maxiosize_zero_hangs_witness:
  "chunks_ld 7 (demo_itype READ) 4096 8192 (1, (demo_thread_ld READ)\<lparr>t_params := defparams_ld\<lparr>p_maxiosize := 0\<rparr>\<rparr>, demo_lstate)
    = Inl OutOfFuel"
  by (rule maxiosize_zero_hangs) (simp_all add: demo_lstate_ok, simp_all add: demo_itype_def)

end
