(* ===== verification/LoadRange.thy ===== *)
theory LoadRange
  imports LoadLoop
begin

text \<open>
  The test range of \<open>ioload\<close>: where the I/Os of the threads that \<open>init_threads\<close> makes can go. For a range that holds the largest
  I/O they stay inside it; the check that should refuse smaller ranges wraps around and lets them pass. Then what else
  one request comes to: the time of a sleep, and what is counted of a read or write.
\<close>

section \<open>The largest size\<close>

lemma max_itsize_fold:
  assumes "\<forall>ip \<in> set its. unat (it_size ip) < 2 ^ 31" "0 \<le> m" "m < 2 ^ 31"
  shows "let n = fold (\<lambda>ip maxsize. if u32_of_int maxsize < it_size ip then int_of_u32 (it_size ip) else maxsize) its m
    in m \<le> n \<and> n < 2 ^ 31 \<and> (\<forall>ip \<in> set its. int (unat (it_size ip)) \<le> n)"
  using assms
proof (induction its arbitrary: m)
  case (Cons ip its)
  obtain k where k: "unat (it_size ip) = k" by blast
  have sz: "int_of_u32 (it_size ip) = int k" "k < 2 ^ 31"
    using sint_of_small [of "it_size ip"] Cons.prems(1) k by simp_all
  have m: "unat (u32_of_int m) = nat m" using Cons.prems(2,3) by (simp add: unsigned_of_int take_bit_int_eq_self)
  let ?m = "if u32_of_int m < it_size ip then int_of_u32 (it_size ip) else m"
  have "?m = (if nat m < k then int k else m)" by (simp only: word_less_nat_alt m k sz)
  then have le: "m \<le> ?m" "int k \<le> ?m" "?m < 2 ^ 31" using sz Cons.prems(2,3) by (auto split: if_splits)
  from Cons.IH [of ?m] Cons.prems le have "let n = fold (\<lambda>ip maxsize. if u32_of_int maxsize < it_size ip
      then int_of_u32 (it_size ip) else maxsize) its ?m
    in ?m \<le> n \<and> n < 2 ^ 31 \<and> (\<forall>ip \<in> set its. int (unat (it_size ip)) \<le> n)" by simp
  then show ?case using le k unfolding Let_def fold_Cons o_apply by (auto simp del: of_nat_unat)
qed simp

lemma max_itsize_ok:
  assumes "list_all (\<lambda>ip. unat (it_size ip) < 2 ^ 31) its"
  shows "0 \<le> max_itsize its" "max_itsize its < 2 ^ 31"
    and "ip \<in> set its \<Longrightarrow> unat (it_size ip) \<le> nat (max_itsize its)"
proof -
  note f = max_itsize_fold [of its 0, unfolded Let_def, folded max_itsize_def]
  have h: "\<forall>ip \<in> set its. unat (it_size ip) < 2 ^ 31" using assms by (simp add: list_all_iff)
  from f [OF h] have g: "0 \<le> max_itsize its" "max_itsize its < 2 ^ 31" 
    "\<forall>ip \<in> set its. int (unat (it_size ip)) \<le> max_itsize its" by simp_all
  then show "0 \<le> max_itsize its" "max_itsize its < 2 ^ 31" by blast+
  show "unat (it_size ip) \<le> nat (max_itsize its)" if "ip \<in> set its"
    using bspec [OF g(3) that] by (simp only: le_nat_iff g(1))
qed

text \<open>The reduction of the header: a remainder taken only when it changes nothing.\<close>

lemma reduce_headersz_id: "reduce_headersz m cp = Inr cp"
proof (cases "p_headersz cp < u64_of_int m")
  case True
  then have "p_headersz cp mod u64_of_int m = p_headersz cp" by (simp add: word_less_nat_alt word_unat_eq_iff unat_mod)
  with True show ?thesis by (auto simp: reduce_headersz_def umod_def)
qed (simp add: reduce_headersz_def)

section \<open>The size of the range\<close>

lemma sectors_bytes: "sectors w * of_nat IOB_SECTOR = w - w mod 512"
  unfolding sectors_def IOB_SECTOR_def by (simp add: minus_mod_eq_div_mult)

lemma sectors_whole: "512 dvd unat w \<Longrightarrow> sectors w * of_nat IOB_SECTOR = w"
proof -
  assume "512 dvd unat w"
  then have "w mod 512 = 0" by (simp add: word_unat_eq_iff unat_mod)
  then show ?thesis by (simp only: sectors_bytes diff_zero)
qed

lemma range_ld_eq:
  assumes "512 dvd unat (p_minoff cp)"
  shows "range_ld m cp = (let e = (if p_headersz cp \<noteq> 0 then p_maxoff cp - u64_of_int m else p_maxoff cp)
    in e - e mod 512 - p_minoff cp)"
proof -
  define e where "e = (if p_headersz cp \<noteq> 0 then p_maxoff cp - u64_of_int m else p_maxoff cp)"
  have "last_sector m cp = sectors e" by (simp add: last_sector_def e_def)
  then have "range_ld m cp = sectors e * of_nat IOB_SECTOR - p_minoff cp"
    by (simp only: range_ld_def left_diff_distrib sectors_whole [OF assms])
  then show ?thesis unfolding sectors_bytes Let_def e_def [symmetric] .
qed

text \<open>A range that holds the largest I/O.\<close>

definition range_holds :: "int \<Rightarrow> params_ld \<Rightarrow> bool" where
  "range_holds m cp \<longleftrightarrow> 0 \<le> m \<and> m < 2 ^ 31 \<and> 512 dvd unat (p_minoff cp) \<and> 512 dvd unat (p_maxoff cp)
     \<and> unat (p_minoff cp) + nat m \<le> unat (p_maxoff cp)"

lemma range_ld_unat:
  assumes "range_holds m cp"
  shows "512 dvd unat (range_ld m cp)"
    and "unat (p_minoff cp) + unat (range_ld m cp) \<le> unat (p_maxoff cp)"
    and "p_headersz cp \<noteq> 0 \<Longrightarrow> unat (p_minoff cp) + unat (range_ld m cp) + nat m \<le> unat (p_maxoff cp)"
    and "p_headersz cp = 0 \<Longrightarrow> unat (p_minoff cp) + unat (range_ld m cp) = unat (p_maxoff cp)"
proof -
  let ?e = "if p_headersz cp \<noteq> 0 then p_maxoff cp - u64_of_int m else p_maxoff cp"
  obtain mn mx where n: "unat (p_minoff cp) = mn" "unat (p_maxoff cp) = mx" by blast
  have h: "0 \<le> m" "m < 2 ^ 31" "512 dvd mn" "512 dvd mx" "mn + nat m \<le> mx"
    using assms n by (simp_all add: range_holds_def)
  have M: "unat (u64_of_int m) = nat m" using h by (simp add: unsigned_of_int take_bit_int_eq_self)
  have "u64_of_int m \<le> p_maxoff cp" using h(5) n(2) M by (simp add: word_le_nat_alt)
  then have d: "unat (p_maxoff cp - u64_of_int m) = mx - nat m" using M n(2) by (simp add: unat_sub)
  define e where "e = (if p_headersz cp \<noteq> 0 then mx - nat m else mx)"
  have e: "unat ?e = e" using d n(2) by (simp add: e_def)
  have "unat (?e - ?e mod 512) = e - e mod 512"
    by (subst unat_sub) (simp_all add: word_le_nat_alt unat_mod e)
  moreover have "mn \<le> e - e mod 512"
  proof -
    have "mn div 512 \<le> e div 512" using h(5) by (intro div_le_mono) (auto simp: e_def)
    then have "mn div 512 * 512 \<le> e div 512 * 512" by simp
    then show ?thesis using h(3) by (simp add: minus_mod_eq_div_mult)
  qed
  ultimately have r: "unat (range_ld m cp) = e - e mod 512 - mn"
    using range_ld_eq [of cp m] h(3) n(1) by (simp add: Let_def unat_sub word_le_nat_alt del: split_paired_All)
  have whole: "e - e mod 512 \<le> e" and e_le: "e \<le> mx" by (simp_all add: e_def)
  have e_hdr: "e + nat m = mx" if "p_headersz cp \<noteq> 0" using that h(5) by (simp add: e_def)
  show "512 dvd unat (range_ld m cp)" unfolding r using h(3) by (simp add: minus_mod_eq_div_mult dvd_diff_nat)
  show "unat (p_minoff cp) + unat (range_ld m cp) \<le> unat (p_maxoff cp)"
    unfolding r n using whole \<open>mn \<le> e - e mod 512\<close> e_le by linarith
  show "unat (p_minoff cp) + unat (range_ld m cp) + nat m \<le> unat (p_maxoff cp)" if "p_headersz cp \<noteq> 0"
    unfolding r n using e_hdr [OF that] whole \<open>mn \<le> e - e mod 512\<close> by linarith
  show "unat (p_minoff cp) + unat (range_ld m cp) = unat (p_maxoff cp)" if "p_headersz cp = 0"
    unfolding r n using that \<open>mn \<le> e - e mod 512\<close> h(4,5) by (simp add: e_def)
qed

section \<open>What the initialisation makes\<close>

lemma check_range_cases:
  "check_range m cp = Inr () \<longleftrightarrow> u64_of_int m + p_headersz cp \<le> range_ld m cp"
  by (auto simp: check_range_def not_less)

text \<open>A thread as \<open>ithreadinit\<close> leaves it.\<close>

definition created_ld :: "int \<Rightarrow> params_ld \<Rightarrow> itype list \<Rightarrow> iothread_ld \<Rightarrow> bool" where
  "created_ld m cp its tp \<longleftrightarrow> t_params tp = cp \<and> t_itlist tp = its \<and> t_rangeoff tp = range_ld m cp
     \<and> 4096 dvd length (q_writebp (t_iorp tp))
     \<and> min m (p_maxiosize cp) \<le> int (length (q_writebp (t_iorp tp)))"

lemma ithreadinit_ld_result:
  assumes "ithreadinit_ld lib opn m fname n tid cp its sz = Inr tp"
  shows "iob_align_shmem lib sz = Inr (q_writebp (t_iorp tp)) \<and> t_params tp = cp \<and> t_itlist tp = its
    \<and> t_rangeoff tp = range_ld m cp \<and> t_threadid tp = tid"
  using assms by (auto simp: ithreadinit_ld_def Let_def bind_res_Inr_iff split: if_splits)

lemma ithreadinit_ld_created:
  assumes "ithreadinit_ld lib opn m fname n tid cp its (if p_maxiosize cp < m then p_maxiosize cp else m) = Inr tp"
  shows "created_ld m cp its tp \<and> t_threadid tp = tid"
proof -
  note r = ithreadinit_ld_result [OF assms]
  from align_shmem_returns [OF conjunct1 [OF r]] r show ?thesis by (simp add: created_ld_def min_def split: if_splits)
qed

lemma make_threads_created:
  assumes "make_threads_ld lib opn m fname n cp its (if p_maxiosize cp < m then p_maxiosize cp else m) k acc = Inr ths"
  shows "\<exists>new. ths = new @ acc \<and> length new = k \<and> (\<forall>j < k. created_ld m cp its (new ! j) \<and> t_threadid (new ! j) = int j)"
  using assms
proof (induction k arbitrary: acc)
  case (Suc j)
  from Suc.prems obtain tp where tp: "ithreadinit_ld lib opn m fname n (int j) cp its (if p_maxiosize cp < m then p_maxiosize cp else m) = Inr tp"
    "make_threads_ld lib opn m fname n cp its (if p_maxiosize cp < m then p_maxiosize cp else m) j (tp # acc) = Inr ths"
    unfolding make_threads_ld.simps by (elim bind_res_InrE)
  from Suc.IH [OF tp(2)] obtain new where n: "ths = new @ tp # acc" "length new = j"
    "\<forall>i < j. created_ld m cp its (new ! i) \<and> t_threadid (new ! i) = int i" by blast
  then show ?case using ithreadinit_ld_created [OF tp(1)]
    by (intro exI [of _ "new @ [tp]"]) (auto simp: nth_append less_Suc_eq)
qed simp

text \<open>A file of a run: its threads, numbered in order.\<close>

definition ready_file :: "int \<Rightarrow> params_ld \<Rightarrow> itype list \<Rightarrow> file_ld \<Rightarrow> bool" where
  "ready_file m cp its f \<longleftrightarrow> f_params_ld f = cp \<and> f_itlist f = its \<and> length (f_ithreads f) = nat (p_maxthreads cp)
     \<and> (\<forall>j < length (f_ithreads f). created_ld m cp its (f_ithreads f ! j) \<and> t_threadid (f_ithreads f ! j) = int j)"

lemma make_files_ready:
  assumes "make_files_ld lib opn m names cp its (if p_maxiosize cp < m then p_maxiosize cp else m) k acc = Inr fl"
    and "\<forall>f \<in> set acc. ready_file m cp its f"
  shows "length fl = k + length acc \<and> (\<forall>f \<in> set fl. ready_file m cp its f)"
  using assms
proof (induction k arbitrary: acc)
  case (Suc i)
  let ?f = "\<lambda>ths. zero_file_ld\<lparr>f_filename := names ! i, f_fileno := int i + 1, f_params_ld := cp,
            f_itlist := its, f_ithreads := ths\<rparr>"
  from Suc.prems(1) obtain ths where
    t: "make_threads_ld lib opn m (names ! i) (int i + 1) cp its (if p_maxiosize cp < m then p_maxiosize cp else m)
          (nat (p_maxthreads cp)) [] = Inr ths"
    and r: "make_files_ld lib opn m names cp its (if p_maxiosize cp < m then p_maxiosize cp else m) i (?f ths # acc) = Inr fl"
    unfolding make_files_ld.simps by (elim bind_res_InrE)
  from make_threads_created [OF t] have "ready_file m cp its (?f ths)" by (auto simp: ready_file_def)
  with Suc.IH [OF r] Suc.prems(2) show ?case by simp
qed simp

lemma create_files_ready:
  assumes "create_files_ld lib opn names cp its = Inr fl"
  shows "length fl = length names \<and> (\<forall>f \<in> set fl. ready_file (max_itsize its) cp its f)
    \<and> check_range (max_itsize its) cp = Inr ()"
  using assms make_files_ready [of lib opn "max_itsize its" names cp its "length names" "[]" fl]
  by (auto simp: create_files_ld_def Let_def reduce_headersz_id bind_res_Inr_iff)

section \<open>Where the I/Os go\<close>

lemma aligned_draw:
  assumes "d dvd unat n" "d dvd unat h" "d dvd 2 ^ 64"
  shows "d dvd unat (r - r mod n + (h :: u64))"
proof -
  have "unat (r - r mod n) = unat r - unat r mod unat n"
    by (subst unat_sub) (simp_all add: word_le_nat_alt unat_mod)
  then have "d dvd unat (r - r mod n)" using assms(1) by (simp add: minus_mod_eq_mult_div)
  then show ?thesis using assms(2,3) by (simp add: unat_word_ariths dvd_mod)
qed

lemma pick_offset_in:
  assumes "range_holds m cp" "t_params tp = cp" "t_rangeoff tp = range_ld m cp" "range_ld m cp \<noteq> 0"
    and "p_multiplier cp = 1" "512 dvd unat (p_headersz cp)"
    and "it_size ip \<noteq> 0" "512 dvd unat (it_size ip)" "unat (it_size ip) \<le> nat m"
    and "p_headersz cp \<noteq> 0 \<or> unat (it_size ip) dvd unat (p_maxoff cp) - unat (p_minoff cp)"
  shows "\<exists>off. pick_offset tp ip r = Inr off \<and> unat (p_minoff cp) \<le> unat off
    \<and> unat off + unat (it_size ip) \<le> unat (p_maxoff cp) \<and> 512 dvd unat off"
proof -
  let ?S = "ucast (it_size ip) :: u64" and ?R = "range_ld m cp"
  let ?v = "r - r mod ?S + p_headersz cp"
  have S: "unat ?S = unat (it_size ip)" by (rule unat_ucast_u32)
  then have S0: "?S \<noteq> 0" using assms(7) by (metis unat_0 unat_eq_zero)
  let ?o = "?v mod ?R"
  have o: "unat ?o = unat ?v mod unat ?R" by (rule unat_mod)
  have "0 < unat ?R" using assms(4) by (simp add: unat_gt_0)
  then have lt: "unat ?o < unat ?R" unfolding o by simp
  note R = range_ld_unat [OF assms(1)]
  have "unat (p_maxoff cp) < 2 ^ 64" using unsigned_less [of "p_maxoff cp"] by simp
  then have off: "unat (?o + p_minoff cp) = unat ?o + unat (p_minoff cp)"
    using lt R(2) by (intro unat_add_small) linarith
  have "512 dvd unat ?v" using assms(6,8) S by (intro aligned_draw) auto
  then have al: "512 dvd unat ?o" unfolding o using R(1) by (rule dvd_mod)
  have "unat ?o + unat (it_size ip) + unat (p_minoff cp) \<le> unat (p_maxoff cp)"
  proof (cases "p_headersz cp = 0")
    case False
    then show ?thesis using R(3) lt assms(9) by linarith
  next
    case True
    let ?s = "unat (it_size ip)"
    have "unat ?R = unat (p_maxoff cp) - unat (p_minoff cp)" using R(4) True by simp
    then have d: "?s dvd unat ?R" using assms(10) True by simp
    have "?s dvd unat ?v"
    proof -
      have "unat ?v = unat r - unat r mod ?s"
        unfolding True by (simp add: unat_sub word_le_nat_alt unat_mod S)
      then show ?thesis by (simp add: minus_mod_eq_mult_div)
    qed
    then have "?s dvd unat ?o" unfolding o using d by (rule dvd_mod)
    from dvd_add_le [OF this d lt] R(4) True show ?thesis by linarith
  qed
  moreover have "pick_offset tp ip r = Inr (?o + p_minoff cp)"
    using S0 assms(2-5) by (simp add: pick_offset_def umod_def Let_def)
  moreover have "512 dvd unat (p_minoff cp)" using assms(1) by (simp add: range_holds_def)
  ultimately show ?thesis using off al by (intro exI [of _ "?o + p_minoff cp"]) simp
qed

lemma checked_range_nonzero:
  assumes "check_range m cp = Inr ()" "0 < m" "m < 2 ^ 31" "unat (p_headersz cp) < 2 ^ 63"
  shows "range_ld m cp \<noteq> 0"
proof -
  have M: "unat (u64_of_int m) = nat m" using assms by (simp add: unsigned_of_int take_bit_int_eq_self)
  have "unat (u64_of_int m + p_headersz cp) = nat m + unat (p_headersz cp)"
    using assms M by (subst unat_add_small) auto
  moreover have "unat (u64_of_int m + p_headersz cp) \<le> unat (range_ld m cp)"
    using assms(1) by (simp only: check_range_cases word_le_nat_alt)
  ultimately have "0 < unat (range_ld m cp)" using assms(2) by linarith
  then show ?thesis by (simp add: unat_gt_0)
qed

text \<open>Options under which the initialisation succeeds and the I/Os stay where they should.\<close>

definition sound_options :: "params_ld \<Rightarrow> itype list \<Rightarrow> bool" where
  "sound_options cp its \<longleftrightarrow> load_params_ok cp \<and> its \<noteq> []
     \<and> list_all (\<lambda>ip. itype_ok ip \<and> unat (it_size ip) < 2 ^ 31) its
     \<and> p_multiplier cp = 1 \<and> 0 < p_maxiosize cp \<and> p_maxiosize cp < 2 ^ 31
     \<and> 1024 dvd unat (p_headersz cp) \<and> unat (p_headersz cp) < 2 ^ 63
     \<and> unat (p_minoff cp) + nat (max_itsize its) \<le> unat (p_maxoff cp)"

lemma itype_ok_positive: "itype_ok ip \<Longrightarrow> it_size ip \<noteq> 0"
  by (auto simp: itype_ok_def split: if_splits)

lemma sound_options_range:
  assumes "sound_options cp its"
  shows "range_holds (max_itsize its) cp" "0 < max_itsize its"
proof -
  have l: "list_all (\<lambda>ip. unat (it_size ip) < 2 ^ 31) its" using assms by (auto simp: sound_options_def list_all_iff)
  note m = max_itsize_ok [OF l]
  obtain ip where ip: "ip \<in> set its" "it_size ip \<noteq> 0"
    using assms itype_ok_positive by (cases its) (auto simp: sound_options_def)
  then have "0 < unat (it_size ip)" by (simp add: unat_gt_0)
  then show "0 < max_itsize its" using m(3) [OF ip(1)] by linarith
  have "512 dvd n" if "2 ^ 20 dvd n" for n :: nat using that by (rule dvd_trans [rotated]) simp
  then show "range_holds (max_itsize its) cp"
    using assms m(1,2) by (simp add: range_holds_def sound_options_def load_params_ok_def)
qed

lemma created_thread_ok:
  assumes "sound_options cp its" "created_ld (max_itsize its) cp its tp" "check_range (max_itsize its) cp = Inr ()"
  shows "thread_ok_ld tp"
proof -
  note m = sound_options_range [OF assms(1)]
  have l: "list_all (\<lambda>ip. unat (it_size ip) < 2 ^ 31) its" using assms(1) by (auto simp: sound_options_def list_all_iff)
  have "type_fits tp ip" if "ip \<in> set its" for ip
  proof -
    have "min (unat (it_size ip)) (nat (p_maxiosize cp)) \<le> min (nat (max_itsize its)) (nat (p_maxiosize cp))"
      using max_itsize_ok(3) [OF l that] by (intro min.mono) auto
    also have "\<dots> \<le> length (q_writebp (t_iorp tp))"
      using assms(2) m(2) unfolding created_ld_def by (auto simp: min_def split: if_splits)
    finally show ?thesis using assms(1,2) that
      by (auto simp: type_fits_def sound_options_def created_ld_def list_all_iff)
  qed
  moreover have "range_ld (max_itsize its) cp \<noteq> 0"
    using assms(1) m by (intro checked_range_nonzero [OF assms(3)]) (auto simp: sound_options_def range_holds_def)
  moreover have "512 dvd length (q_writebp (t_iorp tp))"
    using assms(2) by (auto simp: created_ld_def intro: dvd_trans [rotated])
  ultimately show ?thesis using assms(1,2) by (simp add: thread_ok_ld_def sound_options_def created_ld_def)
qed

lemma ready_thread:
  assumes "ready_file m cp its f" "tp \<in> set (f_ithreads f)"
  shows "created_ld m cp its tp"
  using assms by (auto simp: ready_file_def in_set_conv_nth)

text \<open>
  The threads \<open>init_threads\<close> makes from sound options are ready to run, and every read or write stays inside the test range,
  on a sector boundary, whatever is drawn: with a header because the range ends one largest I/O early,
  without one if the size divides the range.
\<close>

theorem offsets_within_range:
  assumes "sound_options cp its" and "create_files_ld lib opn names cp its = Inr files"
    and "f \<in> set files" and "tp \<in> set (f_ithreads f)" and "ip \<in> set its" and "it_optype ip \<noteq> SLEEP"
    and "p_headersz cp \<noteq> 0 \<or> unat (it_size ip) dvd unat (p_maxoff cp) - unat (p_minoff cp)"
  shows "thread_ok_ld tp \<and> (\<exists>off. pick_offset tp ip r = Inr off \<and> unat (p_minoff cp) \<le> unat off
    \<and> unat off + unat (it_size ip) \<le> unat (p_maxoff cp) \<and> 512 dvd unat off)"
proof -
  note c = create_files_ready [OF assms(2)]
  then have tp: "created_ld (max_itsize its) cp its tp" using ready_thread assms(3,4) by blast
  note m = sound_options_range [OF assms(1)]
  have l: "list_all (\<lambda>ip. unat (it_size ip) < 2 ^ 31) its" using assms(1) by (auto simp: sound_options_def list_all_iff)
  have ip: "itype_ok ip" using assms(1,5) by (auto simp: sound_options_def list_all_iff)
  have tok: "thread_ok_ld tp" using created_thread_ok [OF assms(1) tp] c by blast
  moreover have "512 dvd unat (p_headersz cp)"
    using assms(1) by (auto simp: sound_options_def intro: dvd_trans [rotated])
  moreover have "512 dvd unat (it_size ip)" using ip assms(6) by (simp add: itype_ok_def)
  ultimately show ?thesis
    using pick_offset_in [OF m(1), of tp ip r] tp assms(1,7) itype_ok_positive [OF ip] max_itsize_ok(3) [OF l assms(5)]
    by (simp add: created_ld_def sound_options_def thread_ok_ld_def)
qed

section \<open>The initialisation succeeds\<close>

definition roomy_ld :: "libstate \<Rightarrow> opener_ld \<Rightarrow> bool" where
  "roomy_ld lib opn \<longleftrightarrow> 2 ^ 32 \<le> heap_limit lib \<and> (\<forall>f fl t. 0 \<le> opn f fl t)"

lemma ithreadinit_ld_total:
  assumes "roomy_ld lib opn" "0 < sz" "sz < 2 ^ 31"
  shows "\<exists>tp. ithreadinit_ld lib opn m fname n tid cp its sz = Inr tp"
proof -
  have h: "2 ^ 32 \<le> heap_limit lib" using assms(1) by (simp add: roomy_ld_def)
  obtain b where "iob_align_shmem lib sz = Inr b" using align_small [OF assms(2,3) h] by blast
  moreover have "\<not> opn fname (O_DIRECT_ld OR O_RDWR_ld OR O_CREAT_ld) tid < 0"
    using assms(1) by (simp add: roomy_ld_def not_less)
  ultimately show ?thesis using malloc_small [OF _ _ h] by (simp add: ithreadinit_ld_def Let_def)
qed

lemma make_threads_ld_total:
  assumes "roomy_ld lib opn" "0 < sz" "sz < 2 ^ 31"
  shows "\<exists>ths. make_threads_ld lib opn m fname n cp its sz k acc = Inr ths"
proof (induction k arbitrary: acc)
  case (Suc j)
  from ithreadinit_ld_total [OF assms, of m fname n "int j" cp its] obtain tp where
    "ithreadinit_ld lib opn m fname n (int j) cp its sz = Inr tp" by blast
  with Suc.IH show ?case by simp
qed simp

lemma make_files_ld_total:
  assumes "roomy_ld lib opn" "0 < sz" "sz < 2 ^ 31"
  shows "\<exists>fl. make_files_ld lib opn m names cp its sz k acc = Inr fl"
proof (induction k arbitrary: acc)
  case (Suc i)
  from make_threads_ld_total [OF assms, of m "names ! i" "int i + 1" cp its "nat (p_maxthreads cp)" "[]"] obtain ths where
    "make_threads_ld lib opn m (names ! i) (int i + 1) cp its sz (nat (p_maxthreads cp)) [] = Inr ths" by auto
  moreover have "malloc_struct lib sizeof_file_ld = Inr ()"
    using assms(1) by (intro malloc_small) (simp_all add: roomy_ld_def)
  ultimately show ?case using Suc.IH by simp
qed simp

lemma create_files_ld_total:
  assumes "roomy_ld lib opn" "check_range (max_itsize its) cp = Inr ()" "0 < max_itsize its" "max_itsize its < 2 ^ 31"
    and "0 < p_maxiosize cp"
  shows "\<exists>fl. create_files_ld lib opn names cp its = Inr fl"
  using assms make_files_ld_total [OF assms(1), of "if p_maxiosize cp < max_itsize its then p_maxiosize cp else max_itsize its"
      "max_itsize its" names cp its "length names" "[]"]
  by (auto simp: create_files_ld_def Let_def reduce_headersz_id)

definition big_lib :: libstate where "big_lib = demo_lib\<lparr>heap_limit := 2 ^ 40\<rparr>"

lemma default_sound: "sound_options defparams_ld [defitype]" "max_itsize [defitype] = 4096"
proof -
  show m: "max_itsize [defitype] = 4096" by (simp add: max_itsize_def defitype_def)
  have "itype_ok defitype" by (rule defaults_ok)
  then show "sound_options defparams_ld [defitype]" unfolding sound_options_def m
    using defaults_ok(1) by (simp add: defparams_ld_def) (simp add: defitype_def)
qed

lemma default_check: "check_range 4096 defparams_ld = Inr ()"
  by (simp add: check_range_def range_ld_def last_sector_def sectors_def defparams_ld_def)

theorem offsets_within_range_witness:
  "\<exists>files. create_files_ld big_lib (\<lambda>_ _ _. 3) [''/dev/sdb''] defparams_ld [defitype] = Inr files
    \<and> (\<exists>off. pick_offset (hd (f_ithreads (hd files))) defitype 123456789 = Inr off
      \<and> unat off + 4096 \<le> unat (p_maxoff defparams_ld))"
proof -
  have "roomy_ld big_lib (\<lambda>_ _ _. 3)" by (simp add: roomy_ld_def big_lib_def)
  then obtain fl where fl: "create_files_ld big_lib (\<lambda>_ _ _. 3) [''/dev/sdb''] defparams_ld [defitype] = Inr fl"
    using create_files_ld_total [of big_lib "\<lambda>_ _ _. 3" "[defitype]" defparams_ld] default_check
    unfolding default_sound(2) by (auto simp: defparams_ld_def)
  from create_files_ready [OF fl] have "length fl = 1" "\<forall>f \<in> set fl. ready_file 4096 defparams_ld [defitype] f"
    by (simp_all add: default_sound(2))
  then obtain f where f: "fl = [f]" "length (f_ithreads f) = 40" by (cases fl) (auto simp: ready_file_def defparams_ld_def)
  then have "hd (f_ithreads f) \<in> set (f_ithreads f)" by (intro hd_in_set) auto
  from offsets_within_range [OF default_sound(1) fl _ this, of defitype 123456789] f fl show ?thesis
    by (auto simp: defitype_def defparams_ld_def)
qed

section \<open>The check that wraps around\<close>

lemma range_ld_wrapped:
  assumes "load_params_ok cp" "p_headersz cp \<noteq> 0" "0 < m" "m < 2 ^ 31"
    and "unat (p_maxoff cp) < unat (p_minoff cp) + nat m"
  shows "2 ^ 64 - 2 ^ 32 \<le> unat (range_ld m cp)"
proof -
  let ?w = "p_maxoff cp - u64_of_int m"
  obtain mn mx where n: "unat (p_minoff cp) = mn" "unat (p_maxoff cp) = mx" by blast
  have w: "p_minoff cp = u64_of_int (int mn)" "p_maxoff cp = u64_of_int (int mx)" unfolding n [symmetric] by simp_all
  have lt: "mn < mx" using assms(1) n by (simp add: load_params_ok_def word_less_nat_alt)
  have "512 dvd mn"
    using assms(1) n unfolding load_params_ok_def by (auto intro: dvd_trans [rotated, of "2 ^ 20"])
  then have r: "range_ld m cp = ?w - ?w mod 512 - p_minoff cp" using range_ld_eq [of cp m] assms(2) n by (simp add: Let_def)
  have "unat (?w mod 512) < 512" by (simp add: unat_mod)
  then obtain k where k: "unat (?w mod 512) = k" "k < 512" by blast
  have "?w mod 512 = u64_of_int (int k)" unfolding k(1) [symmetric] by simp
  moreover define X where "X = int mx - m - int k - int mn"
  ultimately have RX: "range_ld m cp = u64_of_int X" unfolding r w by (simp only: X_def of_int_diff)
  have X: "X < 0" "- (2 ^ 31) - 512 < X" using assms(3-5) lt k(2) n unfolding X_def by linarith+
  have "unat (range_ld m cp) = nat (X mod 2 ^ 64)" unfolding RX by (simp add: unsigned_of_int take_bit_eq_mod)
  moreover have "X mod 2 ^ 64 = X + 2 ^ 64"
    using mod_pos_pos_trivial [of "X + 2 ^ 64" "2 ^ 64"] X by (simp only: mod_add_self2) simp
  ultimately show ?thesis using X(2) by simp
qed

text \<open>
  Property C34. An I/O larger than the test range is meant to be refused; with a header, the end of the range minus that size
  wraps around below zero, the range becomes almost \<open>2 ^ 64\<close> bytes, the check lets it pass, and I/Os are issued
  beyond \<open>maxoff\<close>. The reduction of the header before it never changes anything.
\<close>

theorem range_check_wraps:
  assumes "load_params_ok cp" and "p_headersz cp \<noteq> 0" and "unat (p_headersz cp) < 2 ^ 62" and "p_multiplier cp = 1"
    and "0 < m" and "m < 2 ^ 31" and "unat (p_maxoff cp) < unat (p_minoff cp) + nat m" and "unat (p_maxoff cp) \<le> 2 ^ 60"
    and "t_params tp = cp" and "t_rangeoff tp = range_ld m cp" and "it_size ip \<noteq> 0"
  shows "reduce_headersz m cp = Inr cp \<and> check_range m cp = Inr ()
    \<and> (\<exists>r off. pick_offset tp ip r = Inr off \<and> unat (p_maxoff cp) < unat off)"
proof -
  let ?R = "range_ld m cp"
  obtain h R mn mx where n: "unat (p_headersz cp) = h" "unat ?R = R" "unat (p_minoff cp) = mn" "unat (p_maxoff cp) = mx" by blast
  have R: "2 ^ 64 - 2 ^ 32 \<le> R" using range_ld_wrapped [OF assms(1,2,5-7)] n(2) by simp
  have M: "unat (u64_of_int m) = nat m" using assms(5,6) by (simp add: unsigned_of_int take_bit_int_eq_self)
  have "unat (u64_of_int m + p_headersz cp) = nat m + h"
    using assms(3,6) M n(1) by (subst unat_add_small) auto
  moreover have "nat m + h \<le> R" using assms(3,6) R n(1) by simp
  ultimately have ck: "check_range m cp = Inr ()" unfolding check_range_cases word_le_nat_alt n(2) by simp
  let ?S = "ucast (it_size ip) :: u64" and ?r = "2 ^ 61 :: u64"
  have S: "unat ?S = unat (it_size ip)" by (rule unat_ucast_u32)
  then have S0: "?S \<noteq> 0" using assms(11) by (metis unat_0 unat_eq_zero)
  obtain k where k: "unat (?r mod ?S) = k" "k < 2 ^ 32"
  proof -
    have "unat (?r mod ?S) < unat ?S" using S0 by (simp add: unat_mod unat_gt_0)
    moreover have "unat ?S < 2 ^ 32" unfolding S using unsigned_less [of "it_size ip"] by simp
    ultimately show ?thesis using that by auto
  qed
  have d: "unat (?r - ?r mod ?S) = 2 ^ 61 - k"
    using k by (subst unat_sub) (simp_all add: word_le_nat_alt)
  let ?v = "?r - ?r mod ?S + p_headersz cp"
  have v: "unat ?v = 2 ^ 61 - k + h" using d k(2) assms(3) n(1) by (subst unat_add_small) auto
  have lt: "unat ?v < R" unfolding v using R assms(3) n(1) by simp
  then have o: "?v mod ?R = ?v" using n(2) by (simp add: word_unat_eq_iff unat_mod)
  have mn: "mn \<le> 2 ^ 60" using assms(1,8) n(3,4) by (simp add: load_params_ok_def word_less_nat_alt)
  have "unat (?v + p_minoff cp) = 2 ^ 61 - k + h + mn"
    using v mn assms(3) n(1,3) by (subst unat_add_small) auto
  moreover have "mx < 2 ^ 61 - k + h + mn" using assms(8) n(4) k(2) by simp
  moreover have "?R \<noteq> 0" using R n(2) by auto
  then have "pick_offset tp ip ?r = Inr (?v + p_minoff cp)"
    using S0 o assms(4,9,10) by (simp add: pick_offset_def umod_def Let_def)
  ultimately show ?thesis using ck reduce_headersz_id n(4) by metis
qed

text \<open>A range of one megabyte and I/Os of two.\<close>

definition small_range :: params_ld where
  "small_range = defparams_ld\<lparr>p_maxoff := 2 ^ 20\<rparr>"

theorem range_check_wraps_witness:
  "check_range 2097152 small_range = Inr ()
    \<and> (\<exists>r off. pick_offset (zero_iothread_ld\<lparr>t_params := small_range, t_rangeoff := range_ld 2097152 small_range\<rparr>)
        (defitype\<lparr>it_size := 2097152\<rparr>) r = Inr off \<and> 2 ^ 20 < unat off)"
  using range_check_wraps [of small_range 2097152
      "zero_iothread_ld\<lparr>t_params := small_range, t_rangeoff := range_ld 2097152 small_range\<rparr>" "defitype\<lparr>it_size := 2097152\<rparr>"]
  by (simp add: small_range_def load_params_ok_def defparams_ld_def)

section \<open>Sleeps\<close>

text \<open>
  Property C36. A sleep request of \<open>n\<close> microseconds always gives \<open>nanosleep\<close> a valid time, and the right one exactly up to 4,294,967
  microseconds: from there on the product with 1000 wraps around in 32 bits and the sleep is too short.
\<close>

theorem sleep_time_exact:
  "unat (snd (sleep_spec n)) < 1000000000
   \<and> (unat (fst (sleep_spec n)) * 1000000000 + unat (snd (sleep_spec n)) = unat n * 1000 \<longleftrightarrow> unat n \<le> 4294967)"
proof -
  obtain k where k: "unat n = k" "k < 2 ^ 32" using unsigned_less [of n] by simp
  have s: "unat (fst (sleep_spec n)) = k div 1000000"
    by (simp add: sleep_spec_def unat_ucast_u32 unat_div k)
  have t: "unat (snd (sleep_spec n)) = k * 1000 mod 4294967296 mod 1000000000"
    by (simp add: sleep_spec_def unat_ucast_u32 unat_mod unat_word_ariths k)
  have "k * 1000 div (1000000 * 1000) = k div 1000000" by (rule div_mult_mult2) simp
  then have x: "k * 1000 = k div 1000000 * 1000000000 + k * 1000 mod 1000000000"
    using div_mult_mod_eq [of "k * 1000" "1000000 * 1000"] by simp
  define q y where "q = k * 1000 div 4294967296" and "y = k * 1000 mod 4294967296"
  have qy: "k * 1000 = q * 4294967296 + y" "q < 1000" "y < 4294967296"
    unfolding q_def y_def using k(2) by (simp_all only: div_mult_mod_eq) (simp_all add: div_less_iff_less_mult)
  have "y mod 1000000000 = k * 1000 mod 1000000000 \<longleftrightarrow> q = 0"
  proof
    assume "y mod 1000000000 = k * 1000 mod 1000000000"
    then have "1000000000 dvd k * 1000 - y" by (metis mod_eq_dvd_iff_nat le_add2 qy(1))
    then have "1000000000 dvd q * 4294967296" using qy(1) by simp
    moreover have "(1953125 :: nat) dvd 1000000000" by simp
    ultimately have "1953125 dvd q * 4294967296" by (rule dvd_trans [rotated])
    moreover have "coprime (5 ^ 9 :: nat) (2 ^ 32)" 
      by (rule coprime_power_left_iff [THEN iffD2, OF disjI1], rule coprime_power_right_iff [THEN iffD2, OF disjI1])
        (simp add: coprime_right_2_iff_odd)
    then have "coprime (1953125 :: nat) 4294967296" by simp
    ultimately have "1953125 dvd q" by (metis coprime_dvd_mult_left_iff)
    then show "q = 0" using qy(2) by (auto dest: dvd_imp_le)
  qed (use qy in simp)
  moreover have "q = 0 \<longleftrightarrow> k \<le> 4294967" using qy by linarith
  ultimately show ?thesis unfolding s t k(1) y_def [symmetric] using x by auto
qed

section \<open>What is counted\<close>

text \<open>The counters of a thread after one more I/O of type \<open>ty\<close>, of \<open>n\<close> bytes, that took \<open>lat\<close> nanoseconds.\<close>

definition counted_ld :: "nat \<Rightarrow> u32 \<Rightarrow> u64 \<Rightarrow> iostats \<Rightarrow> iostats" where
  "counted_ld ty n lat c = c\<lparr>
     s_latbuckets := (\<lambda>b j. s_latbuckets c b j + (if b = min 99999 (unat lat div 10000 mod 2 ^ 32) \<and> j = ty then 1 else 0)),
     s_totlat := (\<lambda>j. s_totlat c j + (if j = ty then lat else 0)),
     s_totbytes := (\<lambda>j. s_totbytes c j + (if j = ty then ucast n else 0))\<rparr>"

lemma lat_bucket_value: "lat_bucket_ld lat = min 99999 (unat lat div 10000 mod 2 ^ 32)"
proof -
  define q where "q = unat lat div 10000 mod 2 ^ 32"
  have u: "unat (ucast (lat div LATDIV_ld) :: u32) = q"
    by (simp add: q_def unsigned_ucast_eq unat_div take_bit_eq_mod)
  have "of_nat NLATBKTS_ld \<le> (ucast (lat div LATDIV_ld) :: u32) \<longleftrightarrow> 100000 \<le> q"
    unfolding word_le_nat_alt u by simp
  then have "lat_bucket_ld lat = (if 100000 \<le> q then 99999 else q)" unfolding lat_bucket_ld_def Let_def u by simp
  then show ?thesis unfolding q_def [symmetric] by auto
qed

lemma count_io_counted:
  assumes "uint (d_type d) \<in> {READ, WRITE}"
  shows "count_io_ld d lat tp = Inr (tp\<lparr>t_cur := counted_ld (unat (d_type d)) (d_size d) lat (t_cur tp)\<rparr>)"
proof -
  let ?c = "t_cur tp" and ?ty = "unat (d_type d)" and ?b = "lat_bucket_ld lat"
  obtain z where z: "uint (d_type d) = z" by blast
  have "z = 0 \<or> z = 1" using assms unfolding z by auto
  moreover have "?ty = nat z" unfolding z [symmetric] by (rule unat_eq_nat_uint)
  ultimately have ty: "uint (d_type d) \<noteq> SLEEP" "\<not> N_OPTYPES \<le> ?ty" unfolding z by auto
  have "(s_latbuckets ?c)(?b := (s_latbuckets ?c ?b)(?ty := s_latbuckets ?c ?b ?ty + 1))
      = (\<lambda>b j. s_latbuckets ?c b j + (if b = ?b \<and> j = ?ty then 1 else 0))"
    "(s_totlat ?c)(?ty := s_totlat ?c ?ty + lat) = (\<lambda>j. s_totlat ?c j + (if j = ?ty then lat else 0))"
    "(s_totbytes ?c)(?ty := s_totbytes ?c ?ty + ucast (d_size d)) = (\<lambda>j. s_totbytes ?c j + (if j = ?ty then ucast (d_size d) else 0))"
    by (auto simp: fun_eq_iff)
  then show ?thesis unfolding count_io_ld_def Let_def counted_ld_def lat_bucket_value [symmetric]
    by (simp only: if_not_P [OF ty(1)] if_not_P [OF ty(2)])
qed

lemma io_finish_counted:
  assumes "q_error (t_iorp tp) = 0" "q_itype (t_iorp tp) = Some ip" "table_ok (l_dt s)"
    and "uint (d_type (q_detail (t_iorp tp))) \<in> {READ, WRITE}"
  shows "\<exists>tp' s'. io_finish_ld tp s = Inr (tp', s')
    \<and> t_cur tp' = (let d = q_detail (t_iorp tp) in
        if in_window (l_cur s) (d_start d) then counted_ld (unat (d_type d)) (d_size d) (d_end d - d_start d) (t_cur tp)
        else t_cur tp)"
proof (cases "in_window (l_cur s) (d_start (q_detail (t_iorp tp)))")
  case False
  with assms(1) show ?thesis by (simp add: io_finish_ld_def set_detail_ld_def Let_def)
next
  case True
  let ?d = "q_detail (t_iorp tp)"
  let ?d1 = "?d\<lparr>d_seconds := ucast ((d_end ?d - l_starttime s) div IOB_NSEC_TO_SEC)\<rparr>"
  let ?lat = "d_end ?d - d_start ?d"
  have "\<exists>d2 s2. report_io_ld ?d1 ?lat (Some ip) s = Inr (d2, s2)"
    using details_add_total [OF assms(3), of ?d1] by (auto simp: report_io_ld_def)
  then obtain d2 s2 where r: "report_io_ld ?d1 ?lat (Some ip) s = Inr (d2, s2)" by blast
  have "count_io_ld ?d1 ?lat (set_detail_ld ?d tp)
      = Inr ((set_detail_ld ?d tp)\<lparr>t_cur := counted_ld (unat (d_type ?d)) (d_size ?d) ?lat (t_cur tp)\<rparr>)"
    using count_io_counted [of ?d1] assms(4) by (simp add: set_detail_ld_def)
  with r True assms(1,2) show ?thesis by (simp add: io_finish_ld_def set_detail_ld_def Let_def)
qed

text \<open>
  Property C35. Exactly the reads and writes that start inside the measured window, after the warm-up and before the interval's end,
  are counted, whenever they end: one in a latency bucket, with their time and their bytes. All others leave the counters
  alone. The bucket is the number of whole ten microseconds of the duration, or the last one, 99,999, when there are more; but that number is
  taken modulo \<open>2 ^ 32\<close> first, so that a duration of 42,949,672,960,000 ns or more falls into a bucket it does not belong
  to. The transfer must succeed.
\<close>

theorem request_counted:
  assumes "q_itype (t_iorp tp) = Some ip" and "state_ok_ld s"
    and "uint (d_type (q_detail (t_iorp tp))) \<in> {READ, WRITE}"
    and "unat (d_size (q_detail (t_iorp tp))) < 2 ^ 31"
    and "unat (d_size (q_detail (t_iorp tp))) \<le> length (q_writebp (t_iorp tp))"
  shows "\<exists>tp' s'. io_start_ld tp s = Inr (tp', s') \<and> t_cur tp' =
    (let d = q_detail (t_iorp tp); start = clock_at s (ticks (l_env s)); stop = clock_at s (ticks (l_env s) + 1) in
     if c_endwarmup (l_cur s) \<le> start \<and> start < c_endinterval (l_cur s)
     then counted_ld (unat (d_type d)) (d_size d) (stop - start) (t_cur tp) else t_cur tp)"
proof -
  let ?d = "q_detail (t_iorp tp)"
  have ns: "uint (d_type ?d) \<noteq> SLEEP" using assms(3) by auto
  from io_start_ld_finish [OF assms(1,2) _ _ assms(4)] assms(3,5) ns obtain d1 s3 where
    st: "io_start_ld tp s = io_finish_ld (tp\<lparr>t_iorp := (t_iorp tp)\<lparr>q_error := 0, q_detail := d1\<rparr>\<rparr>) s3"
    and s3: "state_fixed_ld s3 = state_fixed_ld s" "l_dt s3 = l_dt s"
    and d1: "d_type d1 = d_type ?d" "d_start d1 = clock_at s (ticks (l_env s))" "d_end d1 = clock_at s (ticks (l_env s) + 1)"
      "d_size d1 = d_size ?d" by auto
  have "table_ok (l_dt s3)" "l_cur s3 = l_cur s" using assms(2) s3 by (simp_all add: state_ok_ld_def state_fixed_ld_def)
  with io_finish_counted [of "tp\<lparr>t_iorp := (t_iorp tp)\<lparr>q_error := 0, q_detail := d1\<rparr>\<rparr>" ip s3] assms(1,3) d1 obtain tp' s' where
    "io_start_ld tp s = Inr (tp', s')"
    "t_cur tp' = (if c_endwarmup (l_cur s) \<le> d_start d1 \<and> d_start d1 < c_endinterval (l_cur s)
      then counted_ld (unat (d_type d1)) (d_size d1) (d_end d1 - d_start d1) (t_cur tp) else t_cur tp)"
    unfolding st in_window_def Let_def by auto
  then show ?thesis unfolding d1 Let_def by blast
qed

text \<open>The demonstration thread, about to write its first 1,536 bytes in the second of nine seconds.\<close>

definition demo_request :: iothread_ld where
  "demo_request = set_chunk (demo_itype WRITE) 1536 8192 1 (demo_thread_ld WRITE)"

theorem request_counted_witness:
  "\<exists>tp' s'. io_start_ld demo_request (demo_lstate\<lparr>l_env := (l_env demo_lstate)\<lparr>ticks := 1\<rparr>\<rparr>) = Inr (tp', s')
    \<and> s_latbuckets (t_cur tp') 99999 1 = 1"
proof -
  let ?s = "demo_lstate\<lparr>l_env := (l_env demo_lstate)\<lparr>ticks := 1\<rparr>\<rparr>"
  have ok: "state_ok_ld ?s" using demo_lstate_ok by (simp add: state_ok_ld_def full_transfers_def)
  have q: "q_itype (t_iorp demo_request) = Some (demo_itype WRITE)" "d_size (q_detail (t_iorp demo_request)) = 1536"
    "uint (d_type (q_detail (t_iorp demo_request))) = WRITE" "length (q_writebp (t_iorp demo_request)) = 4096"
    "t_cur demo_request = zero_iostats"
    by (simp_all add: demo_request_def set_chunk_def demo_itype_def demo_thread_ld_def zero_iothread_ld_def)
  have c: "clock_at ?s 1 = 1000000000" "clock_at ?s (1 + 1) = 2000000000"
    by (simp_all add: clock_at_def demo_lstate_def timespec_ns_def)
  have cur: "c_endwarmup (l_cur ?s) = 0" "c_endinterval (l_cur ?s) = 4000000000" by (simp_all add: demo_lstate_def)
  have b: "min 99999 (unat (1000000000 :: u64) div 10000 mod 2 ^ 32) = 99999" by simp
  have t: "unat (d_type (q_detail (t_iorp demo_request))) = 1" using q(3) by (simp add: unat_eq_nat_uint)
  have "\<exists>tp' s'. io_start_ld demo_request ?s = Inr (tp', s') \<and> t_cur tp' =
    (let d = q_detail (t_iorp demo_request); start = clock_at ?s (ticks (l_env ?s)); stop = clock_at ?s (ticks (l_env ?s) + 1) in
     if c_endwarmup (l_cur ?s) \<le> start \<and> start < c_endinterval (l_cur ?s)
     then counted_ld (unat (d_type d)) (d_size d) (stop - start) (t_cur demo_request) else t_cur demo_request)"
    by (rule request_counted [OF q(1) ok]) (simp_all only: q(2-4), simp_all)
  then obtain tp' s' where
    r: "io_start_ld demo_request ?s = Inr (tp', s')" "t_cur tp' =
    (let d = q_detail (t_iorp demo_request); start = clock_at ?s (ticks (l_env ?s)); stop = clock_at ?s (ticks (l_env ?s) + 1) in
     if c_endwarmup (l_cur ?s) \<le> start \<and> start < c_endinterval (l_cur ?s)
     then counted_ld (unat (d_type d)) (d_size d) (stop - start) (t_cur demo_request) else t_cur demo_request)" by blast
  have tk: "ticks (l_env ?s) = 1" by simp
  have "s_latbuckets (t_cur tp') 99999 1 = 1"
    unfolding r(2) Let_def t tk c cur q(5) using b by (simp add: counted_ld_def zero_iostats_def)
  with r(1) show ?thesis by blast
qed

end
