(* ===== verification/LoadOutput.thy ===== *)
theory LoadOutput
  imports LoadMain
begin

text \<open>
  \<open>ioload/iol_output.c\<close>: the totals of a test, its status and summary reports, and the decision to halt. The static variables
  of the file are a record. All reports go to one file; what has been written to it is a list of lines and of listings of
  long I/Os. The strings of \<open>ctime\<close> and the values of \<open>getrusage\<close> are parameters.
\<close>

section \<open>State\<close>

record summary =
  sm_readiops :: int
  sm_writeiops :: int
  sm_readlat :: int
  sm_writelat :: int

definition zero_summary :: summary where
  "zero_summary = \<lparr>sm_readiops = 0, sm_writeiops = 0, sm_readlat = 0, sm_writelat = 0\<rparr>"

datatype out_item = Line outline | Rows "detail_row list"

record load_report =
  lr_name :: string
  lr_items :: "out_item list"

record outstate =
  o_systot :: file_ld
  o_fpout :: "load_report option"
  o_latency_flag :: int
  o_last :: rusage
  o_summary :: summary
  o_pctval :: pctvals
  o_info :: "out_item list"

definition zero_outstate :: outstate where
  "zero_outstate = \<lparr>o_systot = zero_file_ld, o_fpout = None, o_latency_flag = 0, o_last = zero_rusage,
     o_summary = zero_summary, o_pctval = zero_pctvals, o_info = []\<rparr>"

text \<open>What a call finds outside: the options, which files open, the time of day, the resources used so far.\<close>

record out_env =
  oe_lib :: libstate
  oe_opts :: load_opts
  oe_can_open :: "string \<Rightarrow> bool"
  oe_time :: string
  oe_ru :: rusage

definition put_items :: "out_item list \<Rightarrow> outstate \<Rightarrow> outstate" where
  "put_items is os = os\<lparr>o_fpout := map_option (\<lambda>r. r\<lparr>lr_items := lr_items r @ is\<rparr>) (o_fpout os)\<rparr>"

definition put_lines :: "outline list \<Rightarrow> outstate \<Rightarrow> outstate" where
  "put_lines ls = put_items (map Line ls)"

section \<open>Totals\<close>

text \<open>The counters of a thread are added up from its buckets.\<close>

definition count_stats :: "iostats \<Rightarrow> iostats" where
  "count_stats c = fold (\<lambda>i c. c\<lparr>s_totreads := s_totreads c + s_latbuckets c i (nat READ),
     s_totwrites := s_totwrites c + s_latbuckets c i (nat WRITE)\<rparr>) [0 ..< NLATBKTS_ld]
     (c\<lparr>s_totreads := 0, s_totwrites := 0\<rparr>)"

definition add_stats :: "iostats \<Rightarrow> iostats \<Rightarrow> iostats" where
  "add_stats t c = c\<lparr>
     s_totlat := (\<lambda>j. if j < N_OPTYPES then s_totlat c j + s_totlat t j else s_totlat c j),
     s_totbytes := (\<lambda>j. if j < N_OPTYPES then s_totbytes c j + s_totbytes t j else s_totbytes c j),
     s_latbuckets := (\<lambda>i j. if i < NLATBKTS_ld \<and> j < N_OPTYPES
       then s_latbuckets c i j + s_latbuckets t i j else s_latbuckets c i j),
     s_totreads := s_totreads c + s_totreads t, s_totwrites := s_totwrites c + s_totwrites t\<rparr>"

definition count_file_ld :: "file_ld \<Rightarrow> file_ld" where
  "count_file_ld f =
     (let ths = map (\<lambda>t. t\<lparr>t_cur := count_stats (t_cur t)\<rparr>) (f_ithreads f)
      in f\<lparr>f_ithreads := ths, f_cur := fold add_stats (map t_cur ths) zero_iostats\<rparr>)"

definition sum_system :: "file_ld list \<Rightarrow> iostats" where
  "sum_system flist = fold (\<lambda>f c. fold add_stats (map t_cur (f_ithreads f)) c) flist zero_iostats"

text \<open>What has been counted since the last status report; only the fields named are assigned.\<close>

definition stats_diff :: "iostats \<Rightarrow> iostats \<Rightarrow> iostats \<Rightarrow> iostats" where
  "stats_diff cp lp up = up\<lparr>
     s_totlat := (\<lambda>j. if j < N_OPTYPES then s_totlat cp j - s_totlat lp j else s_totlat up j),
     s_totbytes := (\<lambda>j. if j < N_OPTYPES then s_totbytes cp j - s_totbytes lp j else s_totbytes up j),
     s_totreads := s_totreads cp - s_totreads lp, s_totwrites := s_totwrites cp - s_totwrites lp,
     s_latbuckets := (\<lambda>i j. if i < NLATBKTS_ld \<and> j < N_OPTYPES
       then s_latbuckets cp i j - s_latbuckets lp i j else s_latbuckets up i j)\<rparr>"

definition select_use :: "bool \<Rightarrow> file_ld \<Rightarrow> file_ld" where
  "select_use status f =
     f\<lparr>f_use := (if status then stats_diff (f_cur f) (f_last f) (f_use f) else f_cur f)\<rparr>"

section \<open>The header\<close>

definition yes_no :: "bool \<Rightarrow> string" where "yes_no b = (if b then ''yes'' else ''no'')"

definition params_lines :: "load_opts \<Rightarrow> params_ld \<Rightarrow> outline list" where
  "params_lines opts p =
     [Printf nl [], Printf (''Test Parameters,'' @ nl @ nl) [],
      Printf ('','' @ tabs 1 @ ''ignore errors,'' @ tabs 2 @ ''%s,'' @ nl) [S (yes_no (lo_ign_errors opts))],
      Printf ('','' @ tabs 1 @ ''init threads,'' @ tabs 2 @ ''%d,'' @ nl) [I (p_initthreads p)],
      Printf ('','' @ tabs 1 @ ''max threads,'' @ tabs 2 @ ''%d,'' @ nl) [I (p_maxthreads p)],
      Printf ('','' @ tabs 1 @ ''incr threads,'' @ tabs 2 @ ''%d,'' @ nl) [I (p_incrthreads p)],
      Printf ('','' @ tabs 1 @ ''header size,'' @ tabs 2 @ ''%llu KB,'' @ nl) [U (drop_bit 10 (p_headersz p))],
      Printf ('','' @ tabs 1 @ ''min seek offset,'' @ tabs 1 @ ''%llu MB,'' @ nl) [U (drop_bit 20 (p_minoff p))],
      Printf ('','' @ tabs 1 @ ''max seek offset,'' @ tabs 1 @ ''%llu MB,'' @ nl) [U (drop_bit 20 (p_maxoff p))],
      Printf ('','' @ tabs 1 @ ''multiplier,'' @ tabs 2 @ ''%d,'' @ nl) [I (p_multiplier p)],
      Printf ('','' @ tabs 1 @ ''test interval,'' @ tabs 2 @ ''%lld seconds,'' @ nl) [U (p_interval p div IOB_NSEC_TO_SEC)],
      Printf ('','' @ tabs 1 @ ''warmup time,'' @ tabs 2 @ ''%lld seconds,'' @ nl) [U (p_warmup p div IOB_NSEC_TO_SEC)],
      Printf ('','' @ tabs 1 @ ''status interval,'' @ tabs 1 @ ''%u seconds,'' @ nl) [U (ucast (p_status p))],
      Printf ('','' @ tabs 1 @ ''maximum latency,'' @ tabs 1 @ ''%u us,'' @ nl) [U (ucast (p_maxlatency p div 1000))],
      Printf ('','' @ tabs 1 @ ''maximum iosize,'' @ tabs 2 @ ''%d,'' @ nl) [I (p_maxiosize p)]]"

definition itype_lines :: "nat \<Rightarrow> itype \<Rightarrow> outline list" where
  "itype_lines i ip =
     [Printf (nl @ tabs 1 @ ''iotype %d,'' @ nl) [I (int i)],
      Printf ('','' @ tabs 2 @ ''pct of I/O,'' @ tabs 2 @ ''%.6f,'' @ nl) [D (dbl_mult (it_pct ip) 100)]]
     @ (if it_optype ip = READ
        then [Printf ('','' @ tabs 2 @ ''type of I/O,'' @ tabs 2 @ ''Read,'' @ nl) [], Printf ('','' @ tabs 2 @ ''size of I/O,'' @ tabs 2 @ ''%d,'' @ nl) [I (int_of_u32 (it_size ip))]]
        else if it_optype ip = WRITE
        then [Printf ('','' @ tabs 2 @ ''type of I/O,'' @ tabs 2 @ ''Write,'' @ nl) [], Printf ('','' @ tabs 2 @ ''size of I/O,'' @ tabs 2 @ ''%d,'' @ nl) [I (int_of_u32 (it_size ip))]]
        else [Printf ('','' @ tabs 2 @ ''type of I/O,'' @ tabs 2 @ ''Sleep,'' @ nl) [], Printf ('','' @ tabs 2 @ ''max sleep time,'' @ tabs 2 @ ''%d,'' @ nl) [I (int_of_u32 (it_size ip))]])
     @ (if it_optype ip = WRITE
        then [Printf ('','' @ tabs 2 @ ''type of data,'' @ tabs 2 @ ''%s,'' @ nl) [S (iob_dttostr (it_dtype ip))]]
          @ (if IOB_IS_DEDUPABLE (it_dtype ip)
             then [Printf ('','' @ tabs 2 @ ''unique pages,'' @ tabs 2 @ ''%llu,'' @ nl)
               [U (it_dedupblks ip * of_nat IOB_NDATAPAGES * of_nat (IOB_PAGE div IOB_SECTOR))]] else [])
          @ [Printf ('','' @ tabs 2 @ ''pct of repeats,'' @ tabs 1 @ ''%.6f,'' @ nl) [D (dbl_mult (it_repwrite ip) 100)]]
        else [])
     @ (if it_longlat ip = NOT 0
        then [Printf ('','' @ tabs 2 @ ''report long latency,'' @ tabs 1 @ ''off,'' @ nl) []]
        else [Printf ('','' @ tabs 2 @ ''report long latency,'' @ tabs 1 @ ''%llu,'' @ nl) [U (it_longlat ip div 1000)]])"

definition output_header :: "out_env \<Rightarrow> file_ld list \<Rightarrow> outstate \<Rightarrow> outstate res" where
  "output_header oe flist os =
     (case o_fpout os of
        Some r \<Rightarrow> Inr os
      | None \<Rightarrow>
          bind_res (fopen_report (oe_lib oe) (oe_can_open oe) ''Can't create output file ''
              (lo_outputfile (oe_opts oe) @ ''.csv'')) (\<lambda>name.
          case flist of
            [] \<Rightarrow> Inl OutOfBounds
          | f # _ \<Rightarrow> Inr (put_lines (params_lines (oe_opts oe) (f_params_ld f)
                  @ concat (map (\<lambda>(i, ip). itype_lines i ip) (zip [1 ..< Suc (length (f_itlist f))] (f_itlist f))))
                (os\<lparr>o_summary := zero_summary, o_systot := zero_file_ld\<lparr>f_filename := ''Total All Files''\<rparr>,
                    o_fpout := Some \<lparr>lr_name = name, lr_items = []\<rparr>\<rparr>))))"

section \<open>Names\<close>

text \<open>Tabs up to column 32.\<close>

function pad_tabs :: "nat \<Rightarrow> nat" where
  "pad_tabs len = (if len < 32 then Suc (pad_tabs ((len + 8) - (len + 8) mod 8)) else 0)"
  by pat_completeness auto
termination
proof (relation "measure (\<lambda>len. 32 - len)")
  fix len :: nat assume l: "len < 32"
  have "(len + 8) mod 8 < 8" by simp
  then have "len < (len + 8) - (len + 8) mod 8" by linarith
  with l show "((len + 8) - (len + 8) mod 8, len) \<in> measure (\<lambda>len. 32 - len)" by simp
qed simp

declare pad_tabs.simps [simp del]

definition printname_ld :: "file_ld \<Rightarrow> outline list" where
  "printname_ld f = (let name = snprintf256 (f_filename f @ '','') in
     Printf ''%s'' [S name] # replicate (pad_tabs (length name)) (Printf (tabs 1) []))"

section \<open>Latencies\<close>

definition nonzero_use :: "file_ld \<Rightarrow> file_ld" where
  "nonzero_use f = f\<lparr>f_use := (f_use f)\<lparr>s_totreads := one_if_zero (s_totreads (f_use f)),
     s_totwrites := one_if_zero (s_totwrites (f_use f))\<rparr>\<rparr>"

definition use_column :: "file_ld \<Rightarrow> int \<Rightarrow> nat \<Rightarrow> u64" where
  "use_column f ty = (\<lambda>i. s_latbuckets (f_use f) i (nat ty))"

definition use_percentiles :: "file_ld \<Rightarrow> pctvals \<Rightarrow> pctvals" where
  "use_percentiles f pv =
     (pct_scan (pct_thresholds (s_totreads (f_use f))) (use_column f READ) (uint LATDIV_ld) NLATBKTS_ld (fst pv),
      pct_scan (pct_thresholds (s_totwrites (f_use f))) (use_column f WRITE) (uint LATDIV_ld) NLATBKTS_ld (snd pv))"

definition name_line :: "string \<Rightarrow> file_ld \<Rightarrow> outline list" where
  "name_line prefix f = Printf ''%s'' [S prefix] # printname_ld f"

definition latency_lines :: "string \<Rightarrow> file_ld \<Rightarrow> pctvals \<Rightarrow> outline list" where
  "latency_lines prefix f pv =
     name_line prefix f
     @ [Printf (''Average,'' @ tabs 1 @ ''Reads,  %7lld, (us),'' @ tabs 1 @ ''Writes, %7lld, (us)'' @ nl)
         [U (s_totlat (f_use f) (nat READ) div s_totreads (f_use f) div 1000),
          U (s_totlat (f_use f) (nat WRITE) div s_totwrites (f_use f) div 1000)]]
     @ concat (map (\<lambda>i. name_line prefix f
         @ [Printf (''%.2f%%,'' @ tabs 2 @ ''Reads,  %7d, (us),'' @ tabs 1 @ ''Writes, %7d, (us)'' @ nl)
             [D (dbl_mult (dbl_minus 1 (percentile ! i)) 100), I (fst pv ! i sdiv 1000), I (snd pv ! i sdiv 1000)]])
         [0 ..< NPERCENT])"

definition histogram_line_ld :: "string \<Rightarrow> hist_row \<Rightarrow> outline list" where
  "histogram_line_ld prefix r =
     (case row_cols r of
        [(rc, rpct), (wc, wpct)] \<Rightarrow>
          [Printf ''%s%7d,    %8lld,   %11.9f,'' [S prefix, I (row_latency r), U rc, D rpct],
           Printf (''   %8lld,    %11.9f,'' @ nl) [U wc, D wpct]]
      | _ \<Rightarrow> [])"

definition histogram_ld :: "string \<Rightarrow> file_ld \<Rightarrow> outline list res" where
  "histogram_ld prefix f =
     bind_res (hist_rows [use_column f READ, use_column f WRITE] [s_totreads (f_use f), s_totwrites (f_use f)]
         (uint LATDIV_ld) NLATBKTS_ld 0 0 0 [0, 0]) (\<lambda>rows.
       Inr ([Printf nl [],
             Printf (''%s       ,        Read,       Read,         Write,        Write,'' @ nl) [S prefix],
             Printf (''%sLatency,       Count,        Pct,         Count,         Pct,'' @ nl) [S prefix]]
            @ concat (map (histogram_line_ld prefix) rows)))"

definition printbuckets_ld ::
    "bool \<Rightarrow> string \<Rightarrow> file_ld \<Rightarrow> pctvals \<Rightarrow> (outline list \<times> file_ld \<times> pctvals) res" where
  "printbuckets_ld lat_details prefix f0 pv =
     (let f = nonzero_use f0; pv' = use_percentiles f pv
      in bind_res (if lat_details then histogram_ld prefix f else Inr []) (\<lambda>h.
           Inr (latency_lines prefix f pv' @ h, f, pv')))"

text \<open>What \<open>printbuckets\<close> does besides for the totals: the summary, and the comparison with \<open>maxlat\<close>.\<close>

definition note_limits :: "u32 \<Rightarrow> pctvals \<Rightarrow> outstate \<Rightarrow> outstate" where
  "note_limits maxlatency pv os =
     os\<lparr>o_summary := (o_summary os)\<lparr>sm_readlat := fst pv ! 1 sdiv 1000, sm_writelat := snd pv ! 1 sdiv 1000\<rparr>,
        o_latency_flag := (if maxlatency < u32_of_int (fst pv ! 1) then 1
                           else if maxlatency < u32_of_int (snd pv ! 1) then 2 else o_latency_flag os)\<rparr>"

section \<open>One report\<close>

definition prefix_of :: "bool \<Rightarrow> string" where
  "prefix_of status = (if status then ''Status,  '' else ''Summary, '')"

definition title_line :: "bool \<Rightarrow> int \<Rightarrow> string \<Rightarrow> outline" where
  "title_line status n timestr =
     (if status then Printf (nl @ nl @ ''Status,  Test with %d threads per file, status at %s'' @ nl @ nl) [I n, S (take 24 timestr)]
      else Printf (nl @ nl @ ''Summary, Test with %d threads per file, completed at %s'' @ nl @ nl) [I n, S (take 24 timestr)])"

definition usage_lines :: "string \<Rightarrow> rat \<Rightarrow> rusage \<Rightarrow> rusage \<Rightarrow> outline list" where
  "usage_lines prefix totsec br er =
     [Printf (''%sCPU Time,'' @ nl @ nl) [S prefix],
      Printf (''%stotal time,         %9.3f, seconds'' @ nl) [S prefix, D totsec],
      Printf (''%stotal system time,  %9.3f, seconds'' @ nl) [S prefix,
        D (dbl_div (dbl_of_u64 (usec_between (stime_sec br) (stime_usec br) (stime_sec er) (stime_usec er))) 1000000)],
      Printf (''%stotal user time,    %9.3f, seconds'' @ nl @ nl) [S prefix,
        D (dbl_div (dbl_of_u64 (usec_between (utime_sec br) (utime_usec br) (utime_sec er) (utime_usec er))) 1000000)]]"

definition throughput_lines :: "string \<Rightarrow> rat \<Rightarrow> file_ld \<Rightarrow> outline list" where
  "throughput_lines prefix totsec f =
     name_line prefix f
     @ [Printf (''Reads, %9.2f, R/s,  %10.2f, KB/s,'' @ tabs 1 @ ''Writes, %9.2f, W/s,  %10.2f, KB/s'' @ nl)
         (rate_vals (s_totreads (f_use f)) (s_totwrites (f_use f)) (s_totbytes (f_use f)) totsec)]"

text \<open>\<open>(int)x\<close> for a non-negative double.\<close>

definition int_of_dbl :: "rat \<Rightarrow> int" where "int_of_dbl x = \<lfloor>x\<rfloor>"

definition note_rates :: "rat \<Rightarrow> outstate \<Rightarrow> outstate" where
  "note_rates totsec os = os\<lparr>o_summary := (o_summary os)\<lparr>
     sm_readiops := int_of_dbl (per_second (s_totreads (f_use (o_systot os))) totsec),
     sm_writeiops := int_of_dbl (per_second (s_totwrites (f_use (o_systot os))) totsec)\<rparr>\<rparr>"

definition latency_file_ld ::
    "bool \<Rightarrow> string \<Rightarrow> file_ld \<Rightarrow> outline list \<times> file_ld list \<times> pctvals \<Rightarrow> (outline list \<times> file_ld list \<times> pctvals) res" where
  "latency_file_ld lat_details prefix f = (\<lambda>(out, fs, pv).
     bind_res (printbuckets_ld lat_details prefix f pv) (\<lambda>(ls, f', pv').
       Inr (out @ ls @ [Printf nl []], fs @ [f'], pv')))"

definition summary_vals :: "int \<Rightarrow> summary \<Rightarrow> val list" where
  "summary_vals n sm = [I n, I (sm_readiops sm), I (sm_writeiops sm), I (sm_readlat sm), I (sm_writelat sm)]"

definition summary_line :: "bool \<Rightarrow> string" where
  "summary_line status = (if status
     then (''Status,   %4d, threads,  %7d, R/s,  %7d, W/s,  %5d, 90%% read lat (us),  %5d, 90%% write lat (us)'' @ nl)
     else (''Summary,  %4d, threads,  %7d, R/s,  %7d, W/s,  %5d, 90%% read lat (us),  %5d, 90%% write lat (us)'' @ nl))"

definition halting_message :: "int \<Rightarrow> string" where
  "halting_message flag =
     (if flag = 1 then ''Ninetieth percentile read latency has exceeded test limits, HALTING''
      else ''Ninetieth percentile write latency has exceeded test limits, HALTING'')"

text \<open>The last lines of a report: a summary that has exceeded the latency limit ends the process with status 3.\<close>

definition close_report :: "bool \<Rightarrow> int \<Rightarrow> outstate \<Rightarrow> outstate res" where
  "close_report status n os =
     (let os1 = put_lines [Printf (nl @ summary_line status @ (if status then [] else nl)) (summary_vals n (o_summary os))]
                  (os\<lparr>o_info := o_info os @ [Line (Printf (summary_line status) (summary_vals n (o_summary os)))]\<rparr>)
      in if \<not> status \<and> o_latency_flag os \<in> {1, 2}
         then Inl (Exited 3 [halting_message (o_latency_flag os)]) else Inr os1)"

definition output_details_ld :: "bool \<Rightarrow> dtable \<Rightarrow> outstate \<Rightarrow> (dtable \<times> outstate) res" where
  "output_details_ld status dt os =
     bind_res (iob_details_output dt True 0 0 0) (\<lambda>(rows, longs).
     bind_res (iob_details_reset False dt) (\<lambda>dt'.
       Inr (dt', put_items ((if status then [Line (Printf nl [])] else [])
         @ [Line (Printf (''details for long I/Os,'' @ nl @ nl) []), Rows rows])
         (os\<lparr>o_info := o_info os @ [Rows longs]\<rparr>))))"

definition output_times_ld ::
    "out_env \<Rightarrow> int \<Rightarrow> u64 \<Rightarrow> u64 \<Rightarrow> rusage \<Rightarrow> bool \<Rightarrow> file_ld list \<Rightarrow> dtable \<Rightarrow> outstate
       \<Rightarrow> (file_ld list \<times> dtable \<times> outstate) res" where
  "output_times_ld oe n start stop br status flist dt os =
     (let opts = oe_opts oe; prefix = prefix_of status; totsec = dbl_seconds start stop;
          sys = o_systot os;
          os1 = note_rates totsec (if status then os else os\<lparr>o_latency_flag := 0\<rparr>)
      in bind_res (printbuckets_ld (lo_lat_details opts) prefix sys (o_pctval os)) (\<lambda>(ls, sys', pv1).
         bind_res (if lo_verbose opts
                   then loop_res (latency_file_ld (lo_lat_details opts) prefix) flist ([], [], pv1)
                   else Inr ([], flist, pv1)) (\<lambda>(vls, flist', pv2).
         case flist of
           [] \<Rightarrow> Inl OutOfBounds
         | f0 # _ \<Rightarrow>
           let os2 = note_limits (p_maxlatency (f_params_ld f0)) pv1 os1;
               os3 = put_lines ([title_line status n (oe_time oe)] @ usage_lines prefix totsec br (oe_ru oe)
                   @ [Printf (nl @ ''%sThroughput,'' @ nl @ nl) [S prefix]] @ throughput_lines prefix totsec sys
                   @ (if lo_verbose opts then concat (map (throughput_lines prefix totsec) flist) else [])
                   @ [Printf (nl @ ''%sLatency,'' @ nl @ nl) [S prefix]] @ ls @ [Printf nl []] @ vls)
                 (os2\<lparr>o_systot := sys', o_pctval := pv2\<rparr>)
           in bind_res (close_report status n os3) (\<lambda>os4.
              bind_res (if lo_longlats opts then output_details_ld status dt os4 else Inr (dt, os4)) (\<lambda>(dt', os5).
                Inr (flist', dt', os5))))))"

section \<open>The whole output\<close>

definition keep_last :: "file_ld \<Rightarrow> file_ld" where
  "keep_last f = f\<lparr>f_last := f_cur f\<rparr>"

definition clear_file :: "file_ld \<Rightarrow> file_ld" where
  "clear_file f = f\<lparr>f_last := zero_iostats, f_ithreads := map (\<lambda>t. t\<lparr>t_cur := zero_iostats\<rparr>) (f_ithreads f)\<rparr>"

text \<open>A status report keeps the counters for the next difference; a summary starts them again.\<close>

definition after_report ::
    "bool \<Rightarrow> rusage \<Rightarrow> file_ld list \<times> dtable \<times> outstate \<Rightarrow> (file_ld list \<times> dtable \<times> outstate) res" where
  "after_report status ru = (\<lambda>(flist, dt, os).
     if status then Inr (map keep_last flist, dt, os\<lparr>o_systot := keep_last (o_systot os), o_last := ru\<rparr>)
     else bind_res (iob_details_reset True dt) (\<lambda>dt'.
       Inr (map clear_file flist, dt',
            os\<lparr>o_summary := zero_summary, o_systot := (o_systot os)\<lparr>f_last := zero_iostats\<rparr>\<rparr>)))"

definition load_output ::
    "out_env \<Rightarrow> int \<Rightarrow> u64 \<Rightarrow> u64 \<Rightarrow> rusage \<Rightarrow> bool \<Rightarrow> file_ld list \<times> dtable \<times> outstate
       \<Rightarrow> (file_ld list \<times> dtable \<times> outstate) res" where
  "load_output oe n start stop brp status = (\<lambda>(flist, dt, os0).
     let br = (if o_fpout os0 \<noteq> None \<and> status then o_last os0 else brp) in
     bind_res (output_header oe flist os0) (\<lambda>os1.
     let counted = map count_file_ld flist;
         sys = select_use status ((o_systot os1)\<lparr>f_cur := sum_system counted\<rparr>);
         used = map (select_use status) counted
     in bind_res (output_times_ld oe n start stop br status used dt (os1\<lparr>o_systot := sys\<rparr>))
          (after_report status (oe_ru oe))))"

section \<open>The totals agree with the buckets\<close>

lemma count_stats_simps [simp]:
  "s_totreads (count_stats c) = cum_count (\<lambda>i. s_latbuckets c i (nat READ)) NLATBKTS_ld"
  "s_totwrites (count_stats c) = cum_count (\<lambda>i. s_latbuckets c i (nat WRITE)) NLATBKTS_ld"
  "s_latbuckets (count_stats c) = s_latbuckets c"
proof -
  let ?step = "\<lambda>i c. c\<lparr>s_totreads := s_totreads c + s_latbuckets c i (nat READ),
     s_totwrites := s_totwrites c + s_latbuckets c i (nat WRITE)\<rparr>"
  have "s_totreads (fold ?step [0 ..< n] c) = s_totreads c + cum_count (\<lambda>i. s_latbuckets c i (nat READ)) n
    \<and> s_totwrites (fold ?step [0 ..< n] c) = s_totwrites c + cum_count (\<lambda>i. s_latbuckets c i (nat WRITE)) n
    \<and> s_latbuckets (fold ?step [0 ..< n] c) = s_latbuckets c" for n c
    by (induction n) simp_all
  from this [of NLATBKTS_ld "c\<lparr>s_totreads := 0, s_totwrites := 0\<rparr>"]
  show "s_totreads (count_stats c) = cum_count (\<lambda>i. s_latbuckets c i (nat READ)) NLATBKTS_ld"
    "s_totwrites (count_stats c) = cum_count (\<lambda>i. s_latbuckets c i (nat WRITE)) NLATBKTS_ld"
    "s_latbuckets (count_stats c) = s_latbuckets c"
    by (simp_all only: count_stats_def) simp_all
qed

lemma add_stats_fold:
  "s_totreads (fold add_stats cs c) = s_totreads c + (\<Sum>x \<leftarrow> cs. s_totreads x)"
  "s_totwrites (fold add_stats cs c) = s_totwrites c + (\<Sum>x \<leftarrow> cs. s_totwrites x)"
  "i < NLATBKTS_ld \<Longrightarrow> j < N_OPTYPES \<Longrightarrow>
     s_latbuckets (fold add_stats cs c) i j = s_latbuckets c i j + (\<Sum>x \<leftarrow> cs. s_latbuckets x i j)"
  by (induction cs arbitrary: c) (simp_all add: add_stats_def algebra_simps)

text \<open>The counters of all threads of a run.\<close>

definition all_curs :: "file_ld list \<Rightarrow> iostats list" where
  "all_curs flist = concat (map (\<lambda>f. map t_cur (f_ithreads f)) flist)"

lemma sum_system_fold: "sum_system flist = fold add_stats (all_curs flist) zero_iostats"
proof -
  have "fold (\<lambda>f c. fold add_stats (map t_cur (f_ithreads f)) c) flist c = fold add_stats (all_curs flist) c" for c
    by (induction flist arbitrary: c) (simp_all add: all_curs_def)
  then show ?thesis by (simp add: sum_system_def)
qed

lemma all_curs_count: "all_curs (map count_file_ld flist) = map count_stats (all_curs flist)"
  by (induction flist) (simp_all add: all_curs_def count_file_ld_def Let_def comp_def)

text \<open>What a list of counters adds up to, before any report has been made of it.\<close>

definition total_stats :: "iostats list \<Rightarrow> iostats" where
  "total_stats cs = fold add_stats (map count_stats cs) zero_iostats"

lemma total_stats_bucket:
  "i < NLATBKTS_ld \<Longrightarrow> j < N_OPTYPES \<Longrightarrow> s_latbuckets (total_stats cs) i j = (\<Sum>c \<leftarrow> cs. s_latbuckets c i j)"
  by (simp only: total_stats_def add_stats_fold) (simp add: zero_iostats_def comp_def)

lemma total_stats_column:
  assumes "ty = READ \<or> ty = WRITE"
  shows "cum_count (\<lambda>i. s_latbuckets (total_stats cs) i (nat ty)) NLATBKTS_ld
    = (\<Sum>c \<leftarrow> cs. cum_count (\<lambda>i. s_latbuckets c i (nat ty)) NLATBKTS_ld)"
proof -
  have "nat ty < N_OPTYPES" using assms by auto
  then show ?thesis unfolding cum_count_sum by (intro cum_count_cong total_stats_bucket)
qed

lemma total_stats_totals:
  "s_totreads (total_stats cs) = cum_count (\<lambda>i. s_latbuckets (total_stats cs) i (nat READ)) NLATBKTS_ld"
  "s_totwrites (total_stats cs) = cum_count (\<lambda>i. s_latbuckets (total_stats cs) i (nat WRITE)) NLATBKTS_ld"
  unfolding total_stats_column [OF disjI1 [OF refl]] total_stats_column [OF disjI2 [OF refl]]
  by (simp_all only: total_stats_def add_stats_fold map_map comp_def count_stats_simps)
    (simp_all only: zero_iostats_def iostats.simps add_0)

text \<open>The I/Os of one type of a whole run fit 64 bits.\<close>

definition ios_fit_ld :: "int \<Rightarrow> iostats list \<Rightarrow> bool" where
  "ios_fit_ld ty cs \<longleftrightarrow> counts_fit (\<lambda>i. s_latbuckets (total_stats cs) i (nat ty)) NLATBKTS_ld"

interpretation ld_reads: bucket_totals "\<lambda>cs i. s_latbuckets (total_stats cs) i (nat READ)" "\<lambda>cs. s_totreads (total_stats cs)"
    "ios_fit_ld READ"
  by unfold_locales (simp_all only: ios_fit_ld_def total_stats_totals(1) NLATBKTS_ld_def)

interpretation ld_writes: bucket_totals "\<lambda>cs i. s_latbuckets (total_stats cs) i (nat WRITE)" "\<lambda>cs. s_totwrites (total_stats cs)"
    "ios_fit_ld WRITE"
  by unfold_locales (simp_all only: ios_fit_ld_def total_stats_totals(2) NLATBKTS_ld_def)

section \<open>What a report does\<close>

lemma nonzero_use_simps [simp]:
  "f_cur (nonzero_use f) = f_cur f" "f_last (nonzero_use f) = f_last f" "f_ithreads (nonzero_use f) = f_ithreads f"
  "f_params_ld (nonzero_use f) = f_params_ld f" "f_itlist (nonzero_use f) = f_itlist f"
  "s_latbuckets (f_use (nonzero_use f)) = s_latbuckets (f_use f)"
  by (simp_all add: nonzero_use_def)

lemma printbuckets_ld_eq:
  "\<exists>h. printbuckets_ld b prefix f pv = Inr (latency_lines prefix (nonzero_use f) (use_percentiles (nonzero_use f) pv) @ h,
     nonzero_use f, use_percentiles (nonzero_use f) pv)"
proof -
  have "\<exists>h. histogram_ld prefix g = Inr h" for g
  proof -
    let ?cols = "[use_column g READ, use_column g WRITE]"
    let ?tots = "[s_totreads (f_use g), s_totwrites (f_use g)]"
    have z: "replicate (length ?cols) 0 = [0, 0 :: u64]" by (simp add: numeral_eq_Suc)
    have l: "uint LATDIV_ld = 10000" by simp
    have "hist_rows ?cols ?tots (uint LATDIV_ld) NLATBKTS_ld 0 0 0 [0, 0] = Inr (hist_lines ?cols ?tots)"
      using hist_rows_eq [of ?cols ?tots] unfolding z l NLATBKTS_ld_def .
    then show ?thesis unfolding histogram_ld_def by (simp only: bind_res_simps) blast
  qed
  then obtain h where "(if b then histogram_ld prefix (nonzero_use f) else Inr []) = Inr h" by (cases b) auto
  then show ?thesis by (simp only: printbuckets_ld_def Let_def bind_res_simps) blast
qed

lemma latency_files_eq:
  "\<exists>out' pv'. loop_res (latency_file_ld b prefix) fl (out, fs, pv) = Inr (out', fs @ map nonzero_use fl, pv')"
proof (induction fl arbitrary: out fs pv)
  case (Cons f fl)
  from printbuckets_ld_eq [of b prefix f pv] obtain ls where
    "printbuckets_ld b prefix f pv = Inr (ls, nonzero_use f, use_percentiles (nonzero_use f) pv)" by blast
  then have "latency_file_ld b prefix f (out, fs, pv)
      = Inr (out @ ls @ [Printf nl []], fs @ [nonzero_use f], use_percentiles (nonzero_use f) pv)"
    by (simp add: latency_file_ld_def)
  with Cons.IH [of "out @ ls @ [Printf nl []]" "fs @ [nonzero_use f]" "use_percentiles (nonzero_use f) pv"]
  show ?case by simp
qed simp

text \<open>What the limit makes of the ninetieth percentiles: 1 halts for the reads, 2 for the writes.\<close>

definition limit_flag :: "u32 \<Rightarrow> pctvals \<Rightarrow> int" where
  "limit_flag maxlatency pv =
     (if maxlatency < u32_of_int (fst pv ! 1) then 1 else if maxlatency < u32_of_int (snd pv ! 1) then 2 else 0)"

text \<open>Records the listing of long I/Os can print.\<close>

definition listable :: "dtable \<Rightarrow> bool" where
  "listable dt \<longleftrightarrow> used_slots dt \<le> length (details dt) \<and> list_all (\<lambda>d. unat (d_type d) < MAX_OPTYPES) (details dt)"

lemma put_items_simps [simp]:
  "o_systot (put_items is os) = o_systot os" "o_pctval (put_items is os) = o_pctval os"
  "o_latency_flag (put_items is os) = o_latency_flag os" "o_last (put_items is os) = o_last os"
  "o_fpout (put_items is os) = None \<longleftrightarrow> o_fpout os = None"
  by (simp_all add: put_items_def)

lemma output_details_total:
  assumes "listable dt"
  shows "\<exists>os'. output_details_ld status dt os = Inr (dt\<lparr>cur_iodet := 0\<rparr>, os') \<and> o_systot os' = o_systot os
    \<and> (o_fpout os' = None \<longleftrightarrow> o_fpout os = None)"
proof -
  have "\<forall>d \<in> set (take (used_slots dt) (details dt)). unat (d_type d) < MAX_OPTYPES"
    using assms by (auto simp: listable_def list_all_iff dest: in_set_takeD)
  with output_rows_total [of "take (used_slots dt) (details dt)" 0 0 0 0 0] obtain r where
    "output_rows 0 0 0 (take (used_slots dt) (details dt)) 0 0 0 = Inr r" by auto
  then show ?thesis using assms
    by (cases r) (simp add: output_details_ld_def iob_details_output_def iob_details_reset_def listable_def)
qed

lemma close_report_cases:
  "close_report status n os =
     (if \<not> status \<and> o_latency_flag os \<in> {1, 2} then Inl (Exited 3 [halting_message (o_latency_flag os)])
      else Inr (put_lines [Printf (nl @ summary_line status @ (if status then [] else nl)) (summary_vals n (o_summary os))]
                  (os\<lparr>o_info := o_info os @ [Line (Printf (summary_line status) (summary_vals n (o_summary os)))]\<rparr>)))"
  by (simp add: close_report_def Let_def)

lemma note_limits_simps:
  "o_systot (note_limits m pv os) = o_systot os" "o_fpout (note_limits m pv os) = o_fpout os"
  "o_last (note_limits m pv os) = o_last os"
  "o_latency_flag (note_limits m pv os) = (if limit_flag m pv = 0 then o_latency_flag os else limit_flag m pv)"
  by (simp_all add: note_limits_def limit_flag_def)

text \<open>
  A report either halts the program, and then it is a summary with a percentile above the limit, or it is written; then the
  counters are as before, except that totals of zero have become one.
\<close>

lemma output_times_cases:
  assumes "flist \<noteq> []" "lo_longlats (oe_opts oe) \<longrightarrow> listable dt"
  shows "let flag = limit_flag (p_maxlatency (f_params_ld (hd flist)))
      (use_percentiles (nonzero_use (o_systot os)) (o_pctval os)) in
    if \<not> status \<and> flag \<noteq> 0 then output_times_ld oe n start stop br status flist dt os = Inl (Exited 3 [halting_message flag])
    else \<exists>os'. output_times_ld oe n start stop br status flist dt os
        = Inr (if lo_verbose (oe_opts oe) then map nonzero_use flist else flist,
               if lo_longlats (oe_opts oe) then dt\<lparr>cur_iodet := 0\<rparr> else dt, os')
      \<and> o_systot os' = nonzero_use (o_systot os) \<and> (o_fpout os' = None \<longleftrightarrow> o_fpout os = None)"
proof -
  obtain f0 fs where fl: "flist = f0 # fs" using assms(1) by (cases flist) auto
  let ?opts = "oe_opts oe" and ?prefix = "prefix_of status" and ?totsec = "dbl_seconds start stop"
  let ?sys = "o_systot os" and ?m = "p_maxlatency (f_params_ld f0)"
  let ?os1 = "note_rates ?totsec (if status then os else os\<lparr>o_latency_flag := 0\<rparr>)"
  let ?pv1 = "use_percentiles (nonzero_use ?sys) (o_pctval os)"
  obtain ls where ls: "printbuckets_ld (lo_lat_details ?opts) ?prefix ?sys (o_pctval os) = Inr (ls, nonzero_use ?sys, ?pv1)"
    using printbuckets_ld_eq by blast
  have "\<exists>vls pv2. (if lo_verbose ?opts then loop_res (latency_file_ld (lo_lat_details ?opts) ?prefix) flist ([], [], ?pv1)
      else Inr ([], flist, ?pv1)) = Inr (vls, if lo_verbose ?opts then map nonzero_use flist else flist, pv2)"
    using latency_files_eq [of "lo_lat_details ?opts" ?prefix flist "[]" "[]" ?pv1] by (cases "lo_verbose ?opts") simp_all
  then obtain vls pv2 where v: "(if lo_verbose ?opts then loop_res (latency_file_ld (lo_lat_details ?opts) ?prefix) flist ([], [], ?pv1)
      else Inr ([], flist, ?pv1)) = Inr (vls, if lo_verbose ?opts then map nonzero_use flist else flist, pv2)" by blast
  define lines where "lines = [title_line status n (oe_time oe)] @ usage_lines ?prefix ?totsec br (oe_ru oe)
                   @ [Printf (nl @ ''%sThroughput,'' @ nl @ nl) [S ?prefix]] @ throughput_lines ?prefix ?totsec ?sys
                   @ (if lo_verbose ?opts then concat (map (throughput_lines ?prefix ?totsec) flist) else [])
                   @ [Printf (nl @ ''%sLatency,'' @ nl @ nl) [S ?prefix]] @ ls @ [Printf nl []] @ vls"
  define os3 where "os3 = put_lines lines ((note_limits ?m ?pv1 ?os1)\<lparr>o_systot := nonzero_use ?sys, o_pctval := pv2\<rparr>)"
  have out: "output_times_ld oe n start stop br status flist dt os =
      bind_res (close_report status n os3) (\<lambda>os4.
        bind_res (if lo_longlats ?opts then output_details_ld status dt os4 else Inr (dt, os4)) (\<lambda>(dt', os5).
          Inr (if lo_verbose ?opts then map nonzero_use flist else flist, dt', os5)))"
    unfolding output_times_ld_def Let_def ls bind_res_simps prod.case v os3_def lines_def unfolding fl list.case ..
  have o3: "o_systot os3 = nonzero_use ?sys" "o_fpout os3 = None \<longleftrightarrow> o_fpout os = None"
    by (simp_all add: os3_def put_lines_def note_limits_simps note_rates_def)
  have flag: "o_latency_flag os3 = limit_flag ?m ?pv1" if "\<not> status"
    using that by (simp add: os3_def put_lines_def note_limits_simps note_rates_def)
  show ?thesis
  proof (cases "\<not> status \<and> limit_flag ?m ?pv1 \<noteq> 0")
    case True
    then have "o_latency_flag os3 \<in> {1, 2}" "o_latency_flag os3 = limit_flag ?m ?pv1"
      using flag by (auto simp: limit_flag_def split: if_splits)
    then have "close_report status n os3 = Inl (Exited 3 [halting_message (limit_flag ?m ?pv1)])"
      using True unfolding close_report_cases by simp
    then have "output_times_ld oe n start stop br status flist dt os = Inl (Exited 3 [halting_message (limit_flag ?m ?pv1)])"
      unfolding out by simp
    then show ?thesis using True unfolding Let_def fl list.sel by simp
  next
    case False
    then have "\<not> (\<not> status \<and> o_latency_flag os3 \<in> {1, 2})" using flag by (cases status) auto
    then obtain os4 where c: "close_report status n os3 = Inr os4" "o_systot os4 = o_systot os3"
      "o_fpout os4 = None \<longleftrightarrow> o_fpout os3 = None" unfolding close_report_cases by (simp add: put_lines_def)
    let ?dt = "if lo_longlats ?opts then dt\<lparr>cur_iodet := 0\<rparr> else dt"
    have "\<exists>os5. (if lo_longlats ?opts then output_details_ld status dt os4 else Inr (dt, os4)) = Inr (?dt, os5)
        \<and> o_systot os5 = o_systot os4 \<and> (o_fpout os5 = None \<longleftrightarrow> o_fpout os4 = None)"
      using output_details_total [of dt status os4] assms(2) by (cases "lo_longlats ?opts") auto
    then obtain os5 where d: "(if lo_longlats ?opts then output_details_ld status dt os4 else Inr (dt, os4)) = Inr (?dt, os5)"
      "o_systot os5 = o_systot os4" "o_fpout os5 = None \<longleftrightarrow> o_fpout os4 = None"
      by (elim exE conjE) (rule that)
    have "output_times_ld oe n start stop br status flist dt os
        = Inr (if lo_verbose ?opts then map nonzero_use flist else flist, ?dt, os5)"
      unfolding out c(1) bind_res_simps d(1) prod.case ..
    then show ?thesis using False c(2,3) d(2,3) o3 unfolding Let_def fl list.sel by auto
  qed
qed

section \<open>The limit on the latency\<close>

lemma output_header_cases:
  assumes "flist \<noteq> []"
    and "o_fpout os = None \<longrightarrow> oe_can_open oe (snprintf256 (lo_outputfile (oe_opts oe) @ ''.csv''))"
  shows "\<exists>os1. output_header oe flist os = Inr os1 \<and> o_fpout os1 \<noteq> None \<and> o_pctval os1 = o_pctval os
    \<and> o_systot os1 = (if o_fpout os = None then zero_file_ld\<lparr>f_filename := ''Total All Files''\<rparr> else o_systot os)"
  using assms by (cases "o_fpout os"; cases flist)
    (simp_all add: output_header_def fopen_report_def put_lines_def put_items_def del: upt_Suc)

text \<open>What the report of a summary uses: all counters since the last one.\<close>

definition run_percentiles :: "iostats list \<Rightarrow> pctvals \<Rightarrow> pctvals" where
  "run_percentiles cs pv = (let use = total_stats cs in
     (pct_scan (pct_thresholds (one_if_zero (s_totreads use))) (\<lambda>i. s_latbuckets use i (nat READ)) (uint LATDIV_ld) NLATBKTS_ld (fst pv),
      pct_scan (pct_thresholds (one_if_zero (s_totwrites use))) (\<lambda>i. s_latbuckets use i (nat WRITE)) (uint LATDIV_ld) NLATBKTS_ld (snd pv)))"

lemma summary_percentiles:
  "use_percentiles (nonzero_use (select_use False (f\<lparr>f_cur := sum_system (map count_file_ld flist)\<rparr>))) pv
    = run_percentiles (all_curs flist) pv"
  by (simp only: use_percentiles_def run_percentiles_def use_column_def nonzero_use_simps Let_def)
    (simp add: nonzero_use_def select_use_def sum_system_fold all_curs_count total_stats_def)

lemma summary_cases:
  assumes "flist \<noteq> []" "lo_longlats (oe_opts oe) \<longrightarrow> listable dt" "table_ok dt"
    and "o_fpout os = None \<longrightarrow> oe_can_open oe (snprintf256 (lo_outputfile (oe_opts oe) @ ''.csv''))"
  shows "let flag = limit_flag (p_maxlatency (f_params_ld (hd flist))) (run_percentiles (all_curs flist) (o_pctval os)) in
    if flag \<noteq> 0 then load_output oe n start stop br False (flist, dt, os) = Inl (Exited 3 [halting_message flag])
    else \<exists>r. load_output oe n start stop br False (flist, dt, os) = Inr r"
proof -
  from output_header_cases [OF assms(1,4)] obtain os1 where
    h: "output_header oe flist os = Inr os1" "o_fpout os1 \<noteq> None" "o_pctval os1 = o_pctval os" by blast
  let ?counted = "map count_file_ld flist"
  let ?sys = "select_use False ((o_systot os1)\<lparr>f_cur := sum_system ?counted\<rparr>)"
  let ?used = "map (select_use False) ?counted" and ?os = "os1\<lparr>o_systot := ?sys\<rparr>"
  let ?flag = "limit_flag (p_maxlatency (f_params_ld (hd flist))) (run_percentiles (all_curs flist) (o_pctval os))"
  have o: "load_output oe n start stop br False (flist, dt, os)
      = bind_res (output_times_ld oe n start stop br False ?used dt ?os) (after_report False (oe_ru oe))"
    unfolding load_output_def Let_def prod.case h(1) bind_res_simps by simp
  have used: "?used \<noteq> []" "f_params_ld (hd ?used) = f_params_ld (hd flist)"
    using assms(1) by (auto simp: hd_map select_use_def count_file_ld_def Let_def)
  have pv: "use_percentiles (nonzero_use (o_systot ?os)) (o_pctval ?os) = run_percentiles (all_curs flist) (o_pctval os)"
    using summary_percentiles h(3) by simp
  let ?fl = "if lo_verbose (oe_opts oe) then map nonzero_use ?used else ?used"
  let ?dt = "if lo_longlats (oe_opts oe) then dt\<lparr>cur_iodet := 0\<rparr> else dt"
  note c = output_times_cases [OF used(1) assms(2), of ?os False n start stop br, unfolded used(2) pv Let_def]
  show ?thesis
  proof (cases "?flag = 0")
    case False
    with c have "output_times_ld oe n start stop br False ?used dt ?os = Inl (Exited 3 [halting_message ?flag])" by simp
    with False show ?thesis unfolding o Let_def by simp
  next
    case True
    with c obtain os' where r: "output_times_ld oe n start stop br False ?used dt ?os = Inr (?fl, ?dt, os')" by auto
    have "\<exists>r. iob_details_reset True ?dt = Inr r" using assms(3) by (simp add: iob_details_reset_def table_ok_def)
    then have "\<exists>r. after_report False (oe_ru oe) (?fl, ?dt, os') = Inr r" by (auto simp: after_report_def)
    with True r show ?thesis unfolding o Let_def by simp
  qed
qed

text \<open>The ninetieth percentiles a summary is judged by.\<close>

lemma run_percentiles_value:
  assumes "ios_fit_ld READ cs" "ios_fit_ld WRITE cs" "length (fst pv) = NPERCENT" "length (snd pv) = NPERCENT"
  shows "pctval_of (s_totreads (total_stats cs)) (\<lambda>i. s_latbuckets (total_stats cs) i (nat READ)) 1 (fst pv ! 1)
      (fst (run_percentiles cs pv) ! 1)"
    and "pctval_of (s_totwrites (total_stats cs)) (\<lambda>i. s_latbuckets (total_stats cs) i (nat WRITE)) 1 (snd pv ! 1)
      (snd (run_percentiles cs pv) ! 1)"
proof -
  have n1: "1 < NPERCENT" and l: "uint LATDIV_ld = 10000" by simp_all
  show "pctval_of (s_totreads (total_stats cs)) (\<lambda>i. s_latbuckets (total_stats cs) i (nat READ)) 1 (fst pv ! 1)
      (fst (run_percentiles cs pv) ! 1)"
    using ld_reads.percentile_value [OF assms(1) n1 assms(3) refl]
    by (simp only: run_percentiles_def Let_def fst_conv one_if_zero_def l NLATBKTS_ld_def)
  show "pctval_of (s_totwrites (total_stats cs)) (\<lambda>i. s_latbuckets (total_stats cs) i (nat WRITE)) 1 (snd pv ! 1)
      (snd (run_percentiles cs pv) ! 1)"
    using ld_writes.percentile_value [OF assms(2) n1 assms(4) refl]
    by (simp only: run_percentiles_def Let_def snd_conv one_if_zero_def l NLATBKTS_ld_def)
qed

lemma pctval_range:
  assumes "pctval_of tot cnt j old v" "0 \<le> old" "old < 2 ^ 31"
  shows "0 \<le> v" "v < 2 ^ 31"
proof -
  have "0 \<le> v \<and> v < 2 ^ 31"
  proof (cases "tot = 0")
    case False
    then obtain i where "i < 100000" "v = (int i + 1) * 10000" using assms(1) by (auto simp: pctval_of_def)
    then show ?thesis by simp
  qed (use assms in \<open>simp add: pctval_of_def\<close>)
  then show "0 \<le> v" "v < 2 ^ 31" by simp_all
qed

text \<open>
  Property C37. A test level ends the program exactly when a ninetieth percentile exceeds \<open>maxlat\<close>: the status is 3, and the message names
  reads before writes. The percentile of a kind is the upper edge of the first bucket at which the I/Os of that kind of all threads
  since the last summary suffice for it; when there were none, as for the writes of a read-only load, it is the number an
  earlier report has left.
\<close>

theorem summary_halts:
  assumes "flist \<noteq> []" and "lo_longlats (oe_opts oe) \<longrightarrow> listable dt" and "table_ok dt"
    and "o_fpout os = None \<longrightarrow> oe_can_open oe (snprintf256 (lo_outputfile (oe_opts oe) @ ''.csv''))"
    and "ios_fit_ld READ (all_curs flist)" and "ios_fit_ld WRITE (all_curs flist)"
    and "length (fst (o_pctval os)) = NPERCENT" and "length (snd (o_pctval os)) = NPERCENT"
    and "0 \<le> fst (o_pctval os) ! 1" and "fst (o_pctval os) ! 1 < 2 ^ 31"
    and "0 \<le> snd (o_pctval os) ! 1" and "snd (o_pctval os) ! 1 < 2 ^ 31"
    and "maxlat = int (unat (p_maxlatency (f_params_ld (hd flist))))"
  shows "\<exists>r w. pctval_of (s_totreads (total_stats (all_curs flist)))
        (\<lambda>i. s_latbuckets (total_stats (all_curs flist)) i (nat READ)) 1 (fst (o_pctval os) ! 1) r
    \<and> pctval_of (s_totwrites (total_stats (all_curs flist)))
        (\<lambda>i. s_latbuckets (total_stats (all_curs flist)) i (nat WRITE)) 1 (snd (o_pctval os) ! 1) w
    \<and> (if maxlat < r then load_output oe n start stop br False (flist, dt, os) = Inl (Exited 3 [halting_message 1])
       else if maxlat < w then load_output oe n start stop br False (flist, dt, os) = Inl (Exited 3 [halting_message 2])
       else \<exists>x. load_output oe n start stop br False (flist, dt, os) = Inr x)"
proof -
  let ?cs = "all_curs flist"
  define r where "r = fst (run_percentiles ?cs (o_pctval os)) ! 1"
  define w where "w = snd (run_percentiles ?cs (o_pctval os)) ! 1"
  note v = run_percentiles_value [OF assms(5-8), folded r_def w_def]
  have cmp: "p_maxlatency (f_params_ld (hd flist)) < u32_of_int x \<longleftrightarrow> maxlat < x" if "0 \<le> x" "x < 2 ^ 31" for x
  proof -
    have "unat (u32_of_int x) = nat x" using that by (simp add: unsigned_of_int take_bit_int_eq_self)
    then show ?thesis using assms(13) that by (simp only: word_less_nat_alt) linarith
  qed
  note s = summary_cases [OF assms(1-4), of n start stop br, unfolded limit_flag_def Let_def, folded r_def w_def,
      unfolded cmp [OF pctval_range [OF v(1) assms(9,10)]] cmp [OF pctval_range [OF v(2) assms(11,12)]]]
  have "if maxlat < r then load_output oe n start stop br False (flist, dt, os) = Inl (Exited 3 [halting_message 1])
       else if maxlat < w then load_output oe n start stop br False (flist, dt, os) = Inl (Exited 3 [halting_message 2])
       else \<exists>x. load_output oe n start stop br False (flist, dt, os) = Inr x"
    using s by (cases "maxlat < r"; cases "maxlat < w") simp_all
  with v show ?thesis by blast
qed

text \<open>
  Property C38. A test level in which nothing was read or written is judged by old numbers: \<open>pctval\<close> keeps the ninetieth percentiles of the
  report before, and the program halts with status 3 exactly when one of those exceeds \<open>maxlat\<close>.
\<close>

theorem idle_summary_judged_by_old:
  assumes "flist \<noteq> []" and "lo_longlats (oe_opts oe) \<longrightarrow> listable dt" and "table_ok dt"
    and "o_fpout os = None \<longrightarrow> oe_can_open oe (snprintf256 (lo_outputfile (oe_opts oe) @ ''.csv''))"
    and "ios_fit_ld READ (all_curs flist)" and "s_totreads (total_stats (all_curs flist)) = 0"
    and "ios_fit_ld WRITE (all_curs flist)" and "s_totwrites (total_stats (all_curs flist)) = 0"
    and "length (fst (o_pctval os)) = NPERCENT" and "length (snd (o_pctval os)) = NPERCENT"
  shows "let flag = limit_flag (p_maxlatency (f_params_ld (hd flist))) (o_pctval os) in
    if flag \<noteq> 0 then load_output oe n start stop br False (flist, dt, os) = Inl (Exited 3 [halting_message flag])
    else \<exists>r. load_output oe n start stop br False (flist, dt, os) = Inr r"
proof -
  have n1: "1 < NPERCENT" and o: "one_if_zero 0 = 1" by (simp_all add: one_if_zero_def)
  have "fst (run_percentiles (all_curs flist) (o_pctval os)) ! 1 = fst (o_pctval os) ! 1"
    unfolding run_percentiles_def Let_def fst_conv assms(6) o NLATBKTS_ld_def
    by (rule ld_reads.no_ios_stale [OF assms(5,6) n1 assms(9)])
  moreover have "snd (run_percentiles (all_curs flist) (o_pctval os)) ! 1 = snd (o_pctval os) ! 1"
    unfolding run_percentiles_def Let_def snd_conv assms(8) o NLATBKTS_ld_def
    by (rule ld_writes.no_ios_stale [OF assms(7,8) n1 assms(10)])
  ultimately have "limit_flag m (run_percentiles (all_curs flist) (o_pctval os)) = limit_flag m (o_pctval os)" for m
    by (simp add: limit_flag_def)
  with summary_cases [OF assms(1-4), of n start stop br] show ?thesis by simp
qed

text \<open>One file with one thread that has counted \<open>w\<close> reads and writes, all in bucket 700.\<close>

definition demo_cur :: "u64 \<Rightarrow> iostats" where
  "demo_cur w = zero_iostats\<lparr>s_latbuckets := (\<lambda>i j. if i = 700 then w else 0)\<rparr>"

definition demo_run :: "u64 \<Rightarrow> file_ld list" where
  "demo_run w = [zero_file_ld\<lparr>f_filename := ''/dev/sdb'', f_params_ld := defparams_ld,
     f_ithreads := [zero_iothread_ld\<lparr>t_cur := demo_cur w\<rparr>]\<rparr>]"

definition demo_oe :: out_env where
  "demo_oe = \<lparr>oe_lib = demo_lib, oe_opts = init_opts, oe_can_open = (\<lambda>_. True), oe_time = ''Wed Nov 19 02:39:00 2025'',
     oe_ru = zero_rusage\<rparr>"

lemma demo_run_curs: "all_curs (demo_run w) = [demo_cur w]"
  by (simp add: all_curs_def demo_run_def)

lemma demo_run_ok:
  assumes "w = 0 \<or> w = 12" "ty = READ \<or> ty = WRITE"
  shows "ios_fit_ld ty [demo_cur w]"
proof -
  have n: "nat ty < N_OPTYPES" using assms(2) by auto
  have "(\<Sum>k < NLATBKTS_ld. unat (s_latbuckets (total_stats [demo_cur w]) k (nat ty)))
      = (\<Sum>k < NLATBKTS_ld. if k = 700 then unat w else 0)"
    by (intro sum.cong refl) (simp add: total_stats_bucket [OF _ n] demo_cur_def del: NLATBKTS_ld_def)
  also have "\<dots> \<le> unat w" by (simp only: sum.delta finite_lessThan lessThan_iff) simp
  also have "unat w < 2 ^ 64" using unsigned_less [of w] by simp
  finally show ?thesis by (simp only: ios_fit_ld_def counts_fit_def)
qed

lemma demo_run_totals:
  "s_totreads (total_stats [demo_cur w]) = w" "s_totwrites (total_stats [demo_cur w]) = w"
proof -
  have c: "cum_count (\<lambda>i. if i = 700 then w else 0) m = (if 700 < m then w else 0)" for m
    by (induction m) auto
  have "s_latbuckets (demo_cur w) = (\<lambda>i j. if i = 700 then w else 0)" by (simp add: demo_cur_def)
  then show "s_totreads (total_stats [demo_cur w]) = w" "s_totwrites (total_stats [demo_cur w]) = w"
    unfolding total_stats_totals total_stats_column [OF disjI1 [OF refl]] total_stats_column [OF disjI2 [OF refl]]
    by (simp_all add: c)
qed

lemma demo_table: "table_ok empty_dtable" by (simp add: table_ok_def empty_dtable_def)

lemma demo_out:
  "demo_run w \<noteq> []" "lo_longlats (oe_opts demo_oe) \<longrightarrow> listable empty_dtable"
  "x \<longrightarrow> oe_can_open demo_oe (snprintf256 (lo_outputfile (oe_opts demo_oe) @ ''.csv''))"
  "p_maxlatency (f_params_ld (hd (demo_run w))) = 2000000"
  by (simp_all add: demo_run_def demo_oe_def init_opts_def defparams_ld_def)

theorem summary_halts_witness:
  "\<exists>r (w :: int). pctval_of 12 (\<lambda>i. s_latbuckets (total_stats [demo_cur 12]) i (nat READ)) 1 0 r
    \<and> (if 2000000 < r then load_output demo_oe 5 0 1 zero_rusage False (demo_run 12, empty_dtable, zero_outstate) = Inl (Exited 3 [halting_message 1])
       else if 2000000 < w then load_output demo_oe 5 0 1 zero_rusage False (demo_run 12, empty_dtable, zero_outstate) = Inl (Exited 3 [halting_message 2])
       else \<exists>x. load_output demo_oe 5 0 1 zero_rusage False (demo_run 12, empty_dtable, zero_outstate) = Inr x)"
proof -
  have m: "2000000 = int (unat (p_maxlatency (f_params_ld (hd (demo_run 12)))))" by (simp add: demo_out(4))
  have fit: "ios_fit_ld READ (all_curs (demo_run 12))" "ios_fit_ld WRITE (all_curs (demo_run 12))"
    unfolding demo_run_curs by (rule demo_run_ok; simp)+
  have pv: "length (fst (o_pctval zero_outstate)) = NPERCENT" "length (snd (o_pctval zero_outstate)) = NPERCENT"
    "0 \<le> fst (o_pctval zero_outstate) ! 1" "fst (o_pctval zero_outstate) ! 1 < 2 ^ 31"
    "0 \<le> snd (o_pctval zero_outstate) ! 1" "snd (o_pctval zero_outstate) ! 1 < 2 ^ 31"
    by (simp_all add: zero_outstate_def zero_pctvals_def)
  have z: "fst (o_pctval zero_outstate) ! 1 = 0" by (simp add: zero_outstate_def zero_pctvals_def)
  show ?thesis
    using summary_halts [OF demo_out(1,2) demo_table demo_out(3) fit pv m, of 5 0 1 zero_rusage]
    unfolding demo_run_curs demo_run_totals z by blast
qed

theorem idle_summary_judged_by_old_witness:
  "load_output demo_oe 5 0 1 zero_rusage False
     (demo_run 0, empty_dtable, zero_outstate\<lparr>o_pctval := (replicate 5 7010000, replicate 5 0)\<rparr>)
   = Inl (Exited 3 [halting_message 1])"
proof -
  let ?os = "zero_outstate\<lparr>o_pctval := (replicate 5 7010000, replicate 5 0)\<rparr>"
  have fit: "ios_fit_ld READ (all_curs (demo_run 0))" "ios_fit_ld WRITE (all_curs (demo_run 0))"
    unfolding demo_run_curs by (rule demo_run_ok; simp)+
  have tot: "s_totreads (total_stats (all_curs (demo_run 0))) = 0" "s_totwrites (total_stats (all_curs (demo_run 0))) = 0"
    unfolding demo_run_curs demo_run_totals by simp_all
  have len: "length (fst (o_pctval ?os)) = NPERCENT" "length (snd (o_pctval ?os)) = NPERCENT" by simp_all
  have f: "limit_flag 2000000 (o_pctval ?os) = 1" by (simp add: limit_flag_def)
  show ?thesis
    using idle_summary_judged_by_old [OF demo_out(1,2) demo_table demo_out(3) fit(1) tot(1) fit(2) tot(2) len, of 5 0 1 zero_rusage]
    unfolding demo_out(4) f Let_def by simp
qed

section \<open>Status reports\<close>

lemma total_of_counted: "sum_system (map count_file_ld flist) = total_stats (all_curs flist)"
  by (simp only: sum_system_fold all_curs_count total_stats_def)

lemma status_result:
  assumes "load_output oe n start stop br True (flist, dt, os) = Inr (flist', dt', os')" "flist \<noteq> []"
    and "lo_longlats (oe_opts oe) \<longrightarrow> listable dt"
  shows "all_curs flist' = map count_stats (all_curs flist)" and "map f_params_ld flist' = map f_params_ld flist"
    and "f_last (o_systot os') = total_stats (all_curs flist)" and "o_fpout os' \<noteq> None"
    and "i < NLATBKTS_ld \<Longrightarrow> j < N_OPTYPES \<Longrightarrow> s_latbuckets (f_use (o_systot os')) i j
      = s_latbuckets (total_stats (all_curs flist)) i j
        - s_latbuckets (if o_fpout os = None then zero_iostats else f_last (o_systot os)) i j"
proof -
  from assms(1) obtain os1 where h: "output_header oe flist os = Inr os1"
    unfolding load_output_def Let_def prod.case by (elim bind_res_InrE)
  have h1: "o_fpout os1 \<noteq> None \<and> o_systot os1 = (if o_fpout os = None then zero_file_ld\<lparr>f_filename := ''Total All Files''\<rparr> else o_systot os)"
  proof (cases "o_fpout os")
    case None
    with h obtain name where "fopen_report (oe_lib oe) (oe_can_open oe) ''Can't create output file ''
              (lo_outputfile (oe_opts oe) @ ''.csv'') = Inr name"
      unfolding output_header_def by (auto elim!: bind_res_InrE)
    then have "oe_can_open oe (snprintf256 (lo_outputfile (oe_opts oe) @ ''.csv''))"
      by (simp add: fopen_report_def split: if_splits)
    then obtain os2 where "output_header oe flist os = Inr os2" "o_fpout os2 \<noteq> None"
      "o_systot os2 = (if o_fpout os = None then zero_file_ld\<lparr>f_filename := ''Total All Files''\<rparr> else o_systot os)"
      using output_header_cases [OF assms(2), of os oe] by blast
    with h show ?thesis by simp
  next
    case (Some r)
    with h show ?thesis by (simp add: output_header_def)
  qed
  let ?counted = "map count_file_ld flist"
  let ?sys = "select_use True ((o_systot os1)\<lparr>f_cur := total_stats (all_curs flist)\<rparr>)"
  let ?used = "map (select_use True) ?counted" and ?os = "os1\<lparr>o_systot := ?sys\<rparr>"
  let ?br = "if o_fpout os \<noteq> None \<and> True then o_last os else br"
  let ?fl = "if lo_verbose (oe_opts oe) then map nonzero_use ?used else ?used"
  have o: "bind_res (output_times_ld oe n start stop ?br True ?used dt ?os) (after_report True (oe_ru oe)) = Inr (flist', dt', os')"
    using assms(1) unfolding load_output_def Let_def prod.case h bind_res_simps total_of_counted .
  have "?used \<noteq> []" using assms(2) by simp
  from output_times_cases [OF this assms(3), of ?os True n start stop ?br] obtain dt2 os2 where
    t: "output_times_ld oe n start stop ?br True ?used dt ?os = Inr (?fl, dt2, os2)"
      "o_systot os2 = nonzero_use ?sys" "o_fpout os2 = None \<longleftrightarrow> o_fpout os1 = None"
    by (auto simp: Let_def)
  from o have r: "flist' = map keep_last ?fl" "os' = os2\<lparr>o_systot := keep_last (o_systot os2), o_last := oe_ru oe\<rparr>"
    unfolding t(1) by (simp_all add: after_report_def)
  have same: "f_ithreads (keep_last (nonzero_use f)) = f_ithreads f" "f_ithreads (keep_last f) = f_ithreads f"
    "f_ithreads (select_use b f) = f_ithreads f" "f_params_ld (keep_last (nonzero_use f)) = f_params_ld f"
    "f_params_ld (keep_last f) = f_params_ld f" "f_params_ld (select_use b f) = f_params_ld f"
    "f_params_ld (count_file_ld f) = f_params_ld f" for b f
    by (simp_all add: keep_last_def select_use_def count_file_ld_def Let_def)
  have "all_curs flist' = all_curs ?counted" unfolding r(1) by (auto simp: all_curs_def comp_def same)
  then show "all_curs flist' = map count_stats (all_curs flist)" unfolding all_curs_count .
  show "map f_params_ld flist' = map f_params_ld flist" unfolding r(1) by (auto simp: comp_def same)
  show "f_last (o_systot os') = total_stats (all_curs flist)" unfolding r(2) by (simp add: t(2) keep_last_def select_use_def)
  show "o_fpout os' \<noteq> None" unfolding r(2) using t(3) h1 by simp
  show "s_latbuckets (f_use (o_systot os')) i j = s_latbuckets (total_stats (all_curs flist)) i j
        - s_latbuckets (if o_fpout os = None then zero_iostats else f_last (o_systot os)) i j"
    if "i < NLATBKTS_ld" "j < N_OPTYPES"
    unfolding r(2) using that h1 by (simp add: t(2) keep_last_def select_use_def stats_diff_def zero_file_ld_def)
qed

text \<open>
  Status reports one after the other, while the threads go on counting in between: the list holds what the reports used for the total
  of all files.
\<close>

inductive status_chain ::
    "load_opts \<Rightarrow> file_ld list \<times> dtable \<times> outstate \<Rightarrow> iostats list \<Rightarrow> file_ld list \<times> dtable \<times> outstate \<Rightarrow> bool"
    for opts st0 where
  before_first: "status_chain opts st0 [] st0"
| next_report: "status_chain opts st0 us (flist, dt, os) \<Longrightarrow> map f_params_ld flist' = map f_params_ld flist
    \<Longrightarrow> oe_opts oe = opts \<Longrightarrow> lo_longlats opts \<longrightarrow> listable dt'
    \<Longrightarrow> load_output oe n start stop br True (flist', dt', os) = Inr st
    \<Longrightarrow> status_chain opts st0 (us @ [f_use (o_systot (snd (snd st)))]) st"

lemma status_chain_inv:
  assumes "status_chain opts st0 us st" "fst st0 \<noteq> []"
    and "o_fpout (snd (snd st0)) = None \<or> f_last (o_systot (snd (snd st0))) = zero_iostats"
  shows "fst st \<noteq> [] \<and> (us = [] \<and> st = st0 \<or> us \<noteq> [] \<and> o_fpout (snd (snd st)) \<noteq> None
    \<and> (\<forall>i < NLATBKTS_ld. \<forall>j < N_OPTYPES.
        (\<Sum>u \<leftarrow> us. s_latbuckets u i j) = s_latbuckets (f_last (o_systot (snd (snd st)))) i j
        \<and> s_latbuckets (f_last (o_systot (snd (snd st)))) i j = (\<Sum>c \<leftarrow> all_curs (fst st). s_latbuckets c i j)))"
  using assms(1)
proof (induction rule: status_chain.induct)
  case before_first
  then show ?case using assms(2) by simp
next
  case (next_report us flist dt os flist' oe dt' n start stop br st)
  obtain fl2 dt2 os2 where st: "st = (fl2, dt2, os2)" by (cases st rule: prod_cases3)
  have ne: "flist' \<noteq> []" using next_report.IH next_report.hyps(2) by auto
  have ll: "lo_longlats (oe_opts oe) \<longrightarrow> listable dt'" using next_report.hyps(3,4) by simp
  note r = status_result [OF next_report.hyps(5) [unfolded st] ne ll]
  have "fl2 \<noteq> []" using r(2) ne by auto
  moreover have "(\<Sum>u \<leftarrow> us @ [f_use (o_systot os2)]. s_latbuckets u i j) = s_latbuckets (f_last (o_systot os2)) i j
      \<and> s_latbuckets (f_last (o_systot os2)) i j = (\<Sum>c \<leftarrow> all_curs fl2. s_latbuckets c i j)"
    if ij: "i < NLATBKTS_ld" "j < N_OPTYPES" for i j
  proof -
    have "(\<Sum>u \<leftarrow> us. s_latbuckets u i j)
        = s_latbuckets (if o_fpout os = None then zero_iostats else f_last (o_systot os)) i j"
      using next_report.IH ij assms(3) by (auto simp: zero_iostats_def)
    then have "(\<Sum>u \<leftarrow> us @ [f_use (o_systot os2)]. s_latbuckets u i j) = s_latbuckets (total_stats (all_curs flist')) i j"
      using r(5) [OF ij] by simp
    moreover have "s_latbuckets (total_stats (all_curs flist')) i j = (\<Sum>c \<leftarrow> all_curs fl2. s_latbuckets c i j)"
      unfolding r(1) total_stats_bucket [OF ij] by (simp add: comp_def)
    ultimately show ?thesis unfolding r(3) by simp
  qed
  ultimately show ?case using r(4) by (simp add: st)
qed

text \<open>
  Property C39. The status reports of a test together show what one report of the whole would: bucket by bucket, what they used adds up
  to what all threads have counted by the last of them. Nothing is counted twice and nothing is lost in between.
\<close>

theorem status_reports_add_up:
  assumes "status_chain opts (flist0, dt0, os0) us (flist, dt, os)" and "us \<noteq> []" and "flist0 \<noteq> []"
    and "o_fpout os0 = None \<or> f_last (o_systot os0) = zero_iostats"
    and "i < NLATBKTS_ld" and "j < N_OPTYPES"
  shows "(\<Sum>u \<leftarrow> us. s_latbuckets u i j) = (\<Sum>c \<leftarrow> all_curs flist. s_latbuckets c i j)"
  using status_chain_inv [OF assms(1)] assms(2-6) by auto

theorem status_reports_add_up_witness:
  "\<exists>us st. length us = 2 \<and> status_chain init_opts (demo_run 0, empty_dtable, zero_outstate) us st
    \<and> (\<Sum>u \<leftarrow> us. s_latbuckets u 700 0) = (\<Sum>c \<leftarrow> all_curs (fst st). s_latbuckets c 700 0)"
proof -
  have o: "oe_opts demo_oe = init_opts" "\<not> lo_longlats init_opts" by (simp_all add: demo_oe_def init_opts_def)
  have tot: "\<exists>r. load_output demo_oe 5 0 1 zero_rusage True (flist, empty_dtable, os) = Inr r" if "flist \<noteq> []" for flist os
  proof -
    from output_header_cases [OF that, of os demo_oe] obtain os1 where h: "output_header demo_oe flist os = Inr os1"
      by (auto simp: demo_oe_def)
    let ?sys = "select_use True ((o_systot os1)\<lparr>f_cur := sum_system (map count_file_ld flist)\<rparr>)"
    let ?br = "if o_fpout os \<noteq> None \<and> True then o_last os else zero_rusage"
    have "map (select_use True) (map count_file_ld flist) \<noteq> []" using that by simp
    from output_times_cases [OF this, of demo_oe empty_dtable "os1\<lparr>o_systot := ?sys\<rparr>" True 5 0 1 ?br] o show ?thesis
      by (auto simp: load_output_def h after_report_def Let_def)
  qed
  obtain fl1 dt1 os1 where 1: "load_output demo_oe 5 0 1 zero_rusage True (demo_run 0, empty_dtable, zero_outstate) = Inr (fl1, dt1, os1)"
    using tot [of "demo_run 0" zero_outstate] by (auto simp: demo_run_def)
  then have p: "map f_params_ld (demo_run 12) = map f_params_ld fl1"
    using status_result(2) [OF 1] o by (simp add: demo_run_def)
  obtain fl2 dt2 os2 where 2: "load_output demo_oe 5 0 1 zero_rusage True (demo_run 12, empty_dtable, os1) = Inr (fl2, dt2, os2)"
    using tot [of "demo_run 12" os1] by (auto simp: demo_run_def)
  have "status_chain init_opts (demo_run 0, empty_dtable, zero_outstate) ([] @ [f_use (o_systot os1)]) (fl1, dt1, os1)"
    using status_chain.next_report [OF before_first refl o(1) _ 1] o(2) by simp
  from status_chain.next_report [OF this p o(1) _ 2] o(2)
  have c: "status_chain init_opts (demo_run 0, empty_dtable, zero_outstate) [f_use (o_systot os1), f_use (o_systot os2)] (fl2, dt2, os2)"
    by simp
  have "(\<Sum>u \<leftarrow> [f_use (o_systot os1), f_use (o_systot os2)]. s_latbuckets u 700 0) = (\<Sum>c \<leftarrow> all_curs fl2. s_latbuckets c 700 0)"
    by (rule status_reports_add_up [OF c]) (simp_all add: demo_run_def zero_outstate_def)
  with c show ?thesis by (intro exI [of _ "[f_use (o_systot os1), f_use (o_systot os2)]"] exI [of _ "(fl2, dt2, os2)"]) simp
qed

end
