(* ===== verification/LoadRun.thy ===== *)
theory LoadRun
  imports LoadRange LoadOutput
begin

text \<open>
  \<open>runtest\<close> and its threads together: the main thread and the \<open>io_thread\<close>s of all files as a step relation. Two semaphores per
  thread, \<open>start\<close> and \<open>stop\<close>, make each level of the test a barrier. A step is the next piece of code between two accesses to
  what the threads share; an I/O, with its repeats, is one step.
\<close>

section \<open>The system\<close>

text \<open>Where a thread stands in \<open>io_thread\<close>.\<close>

datatype tpc =
    New                \<comment> \<open>not created yet\<close>
  | Announce           \<comment> \<open>before \<open>srand48\<close> and the first post of \<open>stop\<close>\<close>
  | Test               \<comment> \<open>before the test of \<open>current->threads\<close>\<close>
  | Wait               \<comment> \<open>waiting for \<open>start\<close>\<close>
  | Decide             \<comment> \<open>before the comparison of its number with the level\<close>
  | Busy u64 u64 u64   \<comment> \<open>in the loop of \<open>do_io\<close>: \<open>iotime\<close>, \<open>nextio\<close>, \<open>ionum\<close>\<close>
  | Tell               \<comment> \<open>before the post of \<open>stop\<close>\<close>
  | Gone

text \<open>Where the main thread stands in \<open>runtest\<close>; the numbers count the threads a loop has passed.\<close>

datatype mpc =
    Create nat
  | Gather nat
  | Level int
  | Release int nat u64 rusage
  | Watch int u64 rusage
  | Collect int nat rusage
  | Summarise int rusage
  | Shutdown nat
  | Finished

record lsys =
  y_ls :: lstate
  y_files :: "file_ld list"
  y_ths :: "iothread_ld list"
  y_pcs :: "tpc list"
  y_start :: "nat list"
  y_stop :: "nat list"
  y_main :: mpc
  y_out :: outstate

text \<open>The options and the system calls; the latter by the number of clock readings so far.\<close>

record load_env =
  le_create :: "nat \<Rightarrow> int"     \<comment> \<open>what \<open>pthread_create\<close> returns for a thread\<close>
  le_opts :: load_opts
  le_can_open :: "string \<Rightarrow> bool"
  le_time :: "nat \<Rightarrow> string"
  le_ru :: "nat \<Rightarrow> rusage"

text \<open>The loops of \<open>runtest\<close> visit the threads of all files in order; the reports see them in their files.\<close>

fun regroup :: "file_ld list \<Rightarrow> iothread_ld list \<Rightarrow> file_ld list" where
  "regroup [] ths = []"
| "regroup (f # fs) ths =
     f\<lparr>f_ithreads := take (length (f_ithreads f)) ths\<rparr> # regroup fs (drop (length (f_ithreads f)) ths)"

definition all_threads :: "file_ld list \<Rightarrow> iothread_ld list" where
  "all_threads flist = concat (map f_ithreads flist)"

definition run_params :: "lsys \<Rightarrow> params_ld" where
  "run_params s = f_params_ld (hd (y_files s))"

section \<open>Steps of a thread\<close>

definition goto_ld :: "nat \<Rightarrow> tpc \<Rightarrow> lsys \<Rightarrow> lsys" where
  "goto_ld j p s = s\<lparr>y_pcs := (y_pcs s)[j := p]\<rparr>"

definition post_stop :: "nat \<Rightarrow> lsys \<Rightarrow> lsys" where
  "post_stop j s = s\<lparr>y_stop := (y_stop s)[j := y_stop s ! j + 1]\<rparr>"

definition seed_ld :: "lstate \<Rightarrow> lstate" where
  "seed_ld s = (let (t, s1) = tick_ld s in set_rng_ld (srand48 (ucast t)) s1)"

definition enter_do_io :: "nat \<Rightarrow> lsys \<Rightarrow> lsys" where
  "enter_do_io j s =
     (let rate = p_maxrate (t_params (y_ths s ! j)) in
      if rate \<noteq> 0 then
        let iotime = IOB_NSEC_TO_SEC div ucast rate; (now, ls) = tick_ld (y_ls s)
        in goto_ld j (Busy iotime (now + iotime) 1) (s\<lparr>y_ls := ls\<rparr>)
      else goto_ld j (Busy 0 0 1) s)"

definition step_busy :: "nat \<Rightarrow> u64 \<Rightarrow> u64 \<Rightarrow> u64 \<Rightarrow> nat \<Rightarrow> lsys \<Rightarrow> lsys res" where
  "step_busy fuel iotime nextio ionum j s =
     (let tp = y_ths s ! j in
      if d_start (q_detail (t_iorp tp)) < c_finish (l_cur (y_ls s))
      then bind_res (io_turn_ld fuel iotime (nextio, ionum, tp, y_ls s)) (\<lambda>(nextio', ionum', tp', ls).
             Inr (goto_ld j (Busy iotime nextio' ionum') (s\<lparr>y_ls := ls, y_ths := (y_ths s)[j := tp']\<rparr>)))
      else Inr (goto_ld j Tell s))"

definition thread_step_ld :: "nat \<Rightarrow> nat \<Rightarrow> lsys \<Rightarrow> lsys res" where
  "thread_step_ld fuel j s =
     (case y_pcs s ! j of
        New \<Rightarrow> Inl Blocked
      | Announce \<Rightarrow> Inr (goto_ld j Test (post_stop j (s\<lparr>y_ls := seed_ld (y_ls s)\<rparr>)))
      | Test \<Rightarrow> Inr (goto_ld j (if c_threads (l_cur (y_ls s)) \<noteq> 0 then Wait else Gone) s)
      | Wait \<Rightarrow> if y_start s ! j = 0 then Inl Blocked
                else Inr (goto_ld j Decide (s\<lparr>y_start := (y_start s)[j := y_start s ! j - 1]\<rparr>))
      | Decide \<Rightarrow> Inr (if t_threadid (y_ths s ! j) < c_threads (l_cur (y_ls s)) then enter_do_io j s else goto_ld j Tell s)
      | Busy iotime nextio ionum \<Rightarrow> step_busy fuel iotime nextio ionum j s
      | Tell \<Rightarrow> Inr (goto_ld j Test (post_stop j s))
      | Gone \<Rightarrow> Inl Blocked)"

section \<open>Steps of the main thread\<close>

definition nthreads_ld :: "lsys \<Rightarrow> nat" where "nthreads_ld s = length (y_pcs s)"

definition report_now :: "load_env \<Rightarrow> u64 \<Rightarrow> u64 \<Rightarrow> rusage \<Rightarrow> bool \<Rightarrow> lsys \<Rightarrow> lsys res" where
  "report_now env start stop br status s =
     (let t = ticks (l_env (y_ls s));
          oe = \<lparr>oe_lib = l_lib (y_ls s), oe_opts = le_opts env, oe_can_open = le_can_open env,
                oe_time = le_time env t, oe_ru = le_ru env t\<rparr>
      in bind_res (load_output oe (c_threads (l_cur (y_ls s))) start stop br status
                     (regroup (y_files s) (y_ths s), l_dt (y_ls s), y_out s)) (\<lambda>(flist, dt, os).
           Inr (s\<lparr>y_files := flist, y_ths := all_threads flist, y_ls := (y_ls s)\<lparr>l_dt := dt\<rparr>, y_out := os\<rparr>)))"

definition begin_level :: "load_env \<Rightarrow> int \<Rightarrow> lsys \<Rightarrow> lsys" where
  "begin_level env i s =
     (let p = run_params s; before = le_ru env (ticks (l_env (y_ls s))); (curtime, ls) = tick_ld (y_ls s);
          endwarmup = curtime + p_warmup p; endinterval = endwarmup + p_interval p;
          cur = \<lparr>c_threads = i, c_endwarmup = endwarmup, c_endinterval = endinterval, c_finish = endinterval + IOB_NSEC_TO_SEC\<rparr>
      in s\<lparr>y_ls := ls\<lparr>l_cur := cur, l_starttime := curtime\<rparr>, y_main := Release i 0 curtime before,
           y_out := (y_out s)\<lparr>o_info := o_info (y_out s) @ [Line (Printf (''Starting test with %d threads'' @ nl @ nl) [I i])]\<rparr>\<rparr>)"

text \<open>The loop of the status reports: as long as more than \<open>status + 2\<close> seconds of the interval are left.\<close>

definition status_due :: "lsys \<Rightarrow> u64 \<Rightarrow> bool" where
  "status_due s curtime \<longleftrightarrow> p_status (run_params s) \<noteq> 0
     \<and> curtime + (ucast (p_status (run_params s)) + 2) * IOB_NSEC_TO_SEC < c_endinterval (l_cur (y_ls s))"

definition step_watch :: "load_env \<Rightarrow> int \<Rightarrow> u64 \<Rightarrow> rusage \<Rightarrow> lsys \<Rightarrow> lsys res" where
  "step_watch env i curtime before s =
     (if status_due s curtime then
        let (now, ls) = tick_ld (y_ls s) in
        bind_res (report_now env curtime now before True (s\<lparr>y_ls := ls\<rparr>)) (\<lambda>s'. Inr (s'\<lparr>y_main := Watch i now before\<rparr>))
      else Inr (s\<lparr>y_main := Collect i 0 before\<rparr>))"

definition set_threads_ld :: "int \<Rightarrow> lsys \<Rightarrow> lsys" where
  "set_threads_ld n s = s\<lparr>y_ls := (y_ls s)\<lparr>l_cur := (l_cur (y_ls s))\<lparr>c_threads := n\<rparr>\<rparr>\<rparr>"

definition post_start :: "nat \<Rightarrow> lsys \<Rightarrow> lsys" where
  "post_start k s = s\<lparr>y_start := (y_start s)[k := y_start s ! k + 1]\<rparr>"

definition wait_stop :: "nat \<Rightarrow> mpc \<Rightarrow> lsys \<Rightarrow> lsys res" where
  "wait_stop k next s =
     (if y_stop s ! k = 0 then Inl Blocked
      else Inr (s\<lparr>y_stop := (y_stop s)[k := y_stop s ! k - 1], y_main := next\<rparr>))"

text \<open>\<open>i += incrthreads\<close>, on an \<open>int\<close>: from \<open>2 ^ 31\<close> on the level wraps around to a negative one.\<close>

definition next_level :: "params_ld \<Rightarrow> int \<Rightarrow> int" where
  "next_level p i = int_of_u32 (u32_of_int (i + p_incrthreads p))"

definition main_step :: "load_env \<Rightarrow> lsys \<Rightarrow> lsys res" where
  "main_step env s =
     (let n = nthreads_ld s; p = run_params s in
      case y_main s of
        Create k \<Rightarrow> if k < n
          then bind_res (iob_thr_create (l_lib (y_ls s)) (le_create env k)) (\<lambda>_.
            Inr (goto_ld k Announce (s\<lparr>y_main := Create (k + 1)\<rparr>)))
          else Inr (s\<lparr>y_main := Gather 0\<rparr>)
      | Gather k \<Rightarrow> if k < n then wait_stop k (Gather (k + 1)) s else Inr (s\<lparr>y_main := Level (p_initthreads p)\<rparr>)
      | Level i \<Rightarrow> Inr (if i \<le> p_maxthreads p then begin_level env i s
                       else (set_threads_ld 0 s)\<lparr>y_main := Shutdown 0\<rparr>)
      | Release i k curtime before \<Rightarrow>
          Inr (if k < n then (post_start k s)\<lparr>y_main := Release i (k + 1) curtime before\<rparr>
               else s\<lparr>y_main := Watch i curtime before\<rparr>)
      | Watch i curtime before \<Rightarrow> step_watch env i curtime before s
      | Collect i k before \<Rightarrow> if k < n then wait_stop k (Collect i (k + 1) before) s
                             else Inr (s\<lparr>y_main := Summarise i before\<rparr>)
      | Summarise i before \<Rightarrow>
          bind_res (report_now env (c_endwarmup (l_cur (y_ls s))) (c_endinterval (l_cur (y_ls s))) before False s) (\<lambda>s'.
            Inr (s'\<lparr>y_main := Level (next_level p i)\<rparr>))
      | Shutdown k \<Rightarrow> Inr (if k < n then (post_start k s)\<lparr>y_main := Shutdown (k + 1)\<rparr> else s\<lparr>y_main := Finished\<rparr>)
      | Finished \<Rightarrow> Inl (Exited 0 []))"

text \<open>\<open>runtest\<close> begins with \<open>current->threads = 1\<close>, for the threads' first test of it.\<close>

definition start_load :: "lstate \<Rightarrow> file_ld list \<Rightarrow> lsys" where
  "start_load ls flist = (let ths = all_threads flist in set_threads_ld 1
     \<lparr>y_ls = ls, y_files = flist, y_ths = ths, y_pcs = map (\<lambda>_. New) ths, y_start = map (\<lambda>_. 0) ths,
      y_stop = map (\<lambda>_. 0) ths, y_main = Create 0, y_out = zero_outstate\<rparr>)"


section \<open>What the steps leave alone\<close>

text \<open>An I/O changes neither the identity of its thread nor what \<open>runtest\<close> has announced.\<close>

definition same_place :: "iothread_ld \<times> lstate \<Rightarrow> iothread_ld \<times> lstate \<Rightarrow> bool" where
  "same_place = (\<lambda>(tp, s) (tp', s'). t_threadid tp' = t_threadid tp \<and> t_params tp' = t_params tp \<and> l_cur s' = l_cur s)"

lemma same_place_trans: "same_place a b \<Longrightarrow> same_place b c \<Longrightarrow> same_place a c"
  by (auto simp: same_place_def split: prod.splits)

lemma finish_place: "io_finish_ld tp s = Inr (tp', s') \<Longrightarrow> same_place (tp, s) (tp', s')"
  by (auto simp: io_finish_ld_def Let_def bind_res_Inr_iff count_io_ld_def report_io_ld_def set_detail_ld_def same_place_def
      split: if_splits option.splits)

lemma draws_place [simp]:
  "draw32_ld s = (a, s') \<Longrightarrow> l_cur s' = l_cur s" "draw64_ld s = (b, s') \<Longrightarrow> l_cur s' = l_cur s"
  "draw_dbl_ld s = (c, s') \<Longrightarrow> l_cur s' = l_cur s" "tick_ld s = (d, s') \<Longrightarrow> l_cur s' = l_cur s"
  "nanosleep x y s = (e, s') \<Longrightarrow> l_cur s' = l_cur s"
  by (auto simp: draw32_ld_def draw64_ld_def draw_dbl_ld_def tick_ld_def nanosleep_def set_rng_ld_def split: prod.splits)

lemma draws_place_snd [simp]:
  "l_cur (snd (draw32_ld s)) = l_cur s" "l_cur (snd (nanosleep x y s)) = l_cur s"
  using draws_place by (metis prod.collapse)+

lemma request_place: "do_request rp d s = Inr (d', r, s') \<Longrightarrow> l_cur s' = l_cur s"
  by (auto simp: do_request_def do_sleep_def Let_def bind_res_Inr_iff split_beta split: if_splits)

lemma start_place:
  assumes "io_start_ld tp s = Inr (tp', s')"
  shows "same_place (tp, s) (tp', s')"
proof -
  obtain t0 s1 where t: "tick_ld s = (t0, s1)" by fastforce
  from assms obtain d1 ret en s2 where r: "do_request (t_iorp tp) ((q_detail (t_iorp tp))\<lparr>d_flag := 0, d_start := t0\<rparr>) s1
      = Inr (d1, (ret, en), s2)"
    and f: "(let rp = t_iorp tp; rp1 = (if ret \<noteq> uint (d_size d1)
                   then rp\<lparr>q_error := 1, q_syserr := en, q_rsize := ret\<rparr> else rp\<lparr>q_error := 0\<rparr>);
            (t1, s3) = tick_ld s2
        in io_finish_ld (tp\<lparr>t_iorp := rp1\<lparr>q_detail := d1\<lparr>d_end := t1\<rparr>\<rparr>\<rparr>) s3) = Inr (tp', s')"
    unfolding io_start_ld_def t Let_def prod.case by (auto simp: bind_res_Inr_iff)
  obtain t1 s3 where t3: "tick_ld s2 = (t1, s3)" by fastforce
  note fin = f [unfolded t3 Let_def prod.case, THEN finish_place]
  show ?thesis using fin request_place [OF r] draws_place(4) [OF t] draws_place(4) [OF t3]
    by (simp add: same_place_def)
qed

lemma fill_chunk_place: "fill_chunk ip nb tp s = Inr (tp', s') \<Longrightarrow> same_place (tp, s) (tp', s')"
  by (auto simp: fill_chunk_def bind_res_Inr_iff same_place_def set_rng_ld_def split: if_splits)

lemma chunks_place:
  "chunks_ld fuel ip sz base (io, tp, s) = Inr (io', tp', s') \<Longrightarrow> same_place (tp, s) (tp', s')"
proof (induction fuel arbitrary: sz base io tp s)
  case 0
  then show ?case by (simp add: same_place_def split: if_splits)
next
  case (Suc fuel)
  show ?case
  proof (cases "0 < sz")
    case True
    let ?nb = "chunk_size (t_params tp) sz"
    from Suc.prems True obtain tp1 s1 tp2 s2 where c: "fill_chunk ip ?nb (set_chunk ip ?nb base io tp) s = Inr (tp1, s1)"
      "io_start_ld tp1 s1 = Inr (tp2, s2)"
      and r: "chunks_ld fuel ip (int_of_u32 (u32_of_int sz - d_size (q_detail (t_iorp tp2))))
        (base + ucast (d_size (q_detail (t_iorp tp2)))) (io + 1, tp2, s2) = Inr (io', tp', s')"
      by (auto simp: bind_res_Inr_iff Let_def)
    have "same_place (tp, s) (set_chunk ip ?nb base io tp, s)" by (simp add: same_place_def set_chunk_def)
    with fill_chunk_place [OF c(1)] start_place [OF c(2)] Suc.IH [OF r] show ?thesis
      by (blast intro: same_place_trans)
  next
    case False
    with Suc.prems show ?thesis by (simp add: same_place_def)
  qed
qed

lemma repeats_place:
  "repeats_ld fuel ip off (io, tp, s) = Inr (io', tp', s') \<Longrightarrow> same_place (tp, s) (tp', s')"
proof (induction fuel arbitrary: io tp s)
  case (Suc fuel)
  from Suc.prems obtain io1 tp1 s1 where c: "chunks_ld (Suc fuel) ip (int_of_u32 (it_size ip)) off (io, tp, s) = Inr (io1, tp1, s1)"
    and r: "(if it_optype ip = WRITE then
         let (d, s2) = draw_dbl_ld s1 in
         if d < it_repwrite ip then repeats_ld fuel ip off (io1, tp1, s2) else Inr (io1, tp1, s2)
       else Inr (io1, tp1, s1)) = Inr (io', tp', s')"
    unfolding repeats_ld.simps by (auto simp: bind_res_Inr_iff simp del: chunks_ld.simps)
  obtain d s2 where d: "draw_dbl_ld s1 = (d, s2)" by fastforce
  have p: "same_place (tp1, s1) (tp1, s2)" using draws_place(3) [OF d] by (simp add: same_place_def)
  from r have "same_place (tp1, s1) (tp', s')"
    using p Suc.IH [of io1 tp1 s2] by (auto simp: d split: if_splits intro: same_place_trans) (simp add: same_place_def)
  with chunks_place [OF c] show ?case by (rule same_place_trans)
qed simp

lemma turn_place:
  assumes "io_turn_ld fuel iotime (nextio, io, tp, s) = Inr (nextio', io', tp', s')"
  shows "same_place (tp, s) (tp', s')"
proof -
  obtain d s1 where d: "draw_dbl_ld s = (d, s1)" by fastforce
  obtain r s2 where r: "draw64_ld s1 = (r, s2)" by fastforce
  from assms obtain ip off tp1 s3 where e: "repeats_ld fuel ip off (io, tp, s2) = Inr (io', tp1, s3)"
    and p: "pace iotime nextio tp1 s3 = (nextio', s')" "tp' = tp1"
    unfolding io_turn_ld_def prod.case d Let_def r by (auto simp: bind_res_Inr_iff split_beta)
  have "l_cur s' = l_cur s3" using pace_simps(1) [OF p(1)] by (simp add: state_fixed_ld_def)
  then have "same_place (tp1, s3) (tp', s')" using p(2) by (simp add: same_place_def)
  moreover have "same_place (tp, s) (tp, s2)" using draws_place(3) [OF d] draws_place(2) [OF r] by (simp add: same_place_def)
  ultimately show ?thesis using repeats_place [OF e] by (blast intro: same_place_trans)
qed

text \<open>A report changes counters, never what the threads keep from request to request or the parameters of a file.\<close>

definition file_key :: "file_ld \<Rightarrow> params_ld \<times> (params_ld \<times> itype list \<times> u64 \<times> int \<times> int \<times> nat) list" where
  "file_key f = (f_params_ld f, map thread_fixed_ld (f_ithreads f))"

lemma key_simps [simp]:
  "file_key (nonzero_use f) = file_key f" "file_key (select_use b f) = file_key f" "file_key (keep_last f) = file_key f"
  "file_key (clear_file f) = file_key f" "file_key (count_file_ld f) = file_key f"
  by (simp_all add: file_key_def nonzero_use_def select_use_def keep_last_def clear_file_def count_file_ld_def Let_def comp_def
      thread_fixed_ld_def)

lemma key_map_simps [simp]:
  "file_key \<circ> nonzero_use = file_key" "file_key \<circ> select_use b = file_key" "file_key \<circ> keep_last = file_key"
  "file_key \<circ> clear_file = file_key" "file_key \<circ> count_file_ld = file_key"
  by (simp_all add: fun_eq_iff)

lemma output_times_flist:
  assumes "output_times_ld oe n start stop br status flist dt os = Inr (flist', dt', os')"
  shows "map file_key flist' = map file_key flist"
proof -
  let ?opts = "oe_opts oe" and ?prefix = "prefix_of status"
  obtain ls sys pv where l: "printbuckets_ld (lo_lat_details ?opts) ?prefix (o_systot os) (o_pctval os) = Inr (ls, sys, pv)"
    using printbuckets_ld_eq by blast
  have "\<exists>vls pv2. (if lo_verbose ?opts then loop_res (latency_file_ld (lo_lat_details ?opts) ?prefix) flist ([], [], pv)
      else Inr ([], flist, pv)) = Inr (vls, if lo_verbose ?opts then map nonzero_use flist else flist, pv2)"
    using latency_files_eq [of "lo_lat_details ?opts" ?prefix flist "[]" "[]" pv] by (cases "lo_verbose ?opts") simp_all
  then obtain vls pv2 where v: "(if lo_verbose ?opts then loop_res (latency_file_ld (lo_lat_details ?opts) ?prefix) flist ([], [], pv)
      else Inr ([], flist, pv)) = Inr (vls, if lo_verbose ?opts then map nonzero_use flist else flist, pv2)" by blast
  have "flist' = (if lo_verbose ?opts then map nonzero_use flist else flist)"
    using assms unfolding output_times_ld_def Let_def l bind_res_simps prod.case v
    by (cases flist) (auto elim!: bind_res_InrE split: prod.splits)
  then show ?thesis by simp
qed

lemma output_keeps:
  assumes "load_output oe n start stop br status (flist, dt, os) = Inr (flist', dt', os')"
  shows "map file_key flist' = map file_key flist"
proof -
  from assms obtain os1 fl dt2 os2 br2 where
    t: "output_times_ld oe n start stop br2 status (map (select_use status) (map count_file_ld flist)) dt os1 = Inr (fl, dt2, os2)"
    and a: "after_report status (oe_ru oe) (fl, dt2, os2) = Inr (flist', dt', os')"
    unfolding load_output_def Let_def prod.case by (elim bind_res_InrE) (metis surj_pair)
  from a have "map file_key flist' = map file_key fl"
    by (cases status) (auto simp: after_report_def bind_res_Inr_iff)
  then show ?thesis using output_times_flist [OF t] by simp
qed

lemma regroup_threads: "length ths = length (all_threads fs) \<Longrightarrow> all_threads (regroup fs ths) = ths"
  by (induction fs arbitrary: ths) (simp_all add: all_threads_def)

lemma regroup_params: "map f_params_ld (regroup fs ths) = map f_params_ld fs"
  by (induction fs arbitrary: ths) simp_all

lemma keys_threads: "map file_key fs = map file_key gs \<Longrightarrow> map thread_fixed_ld (all_threads fs) = map thread_fixed_ld (all_threads gs)"
proof -
  assume "map file_key fs = map file_key gs"
  then have "concat (map snd (map file_key fs)) = concat (map snd (map file_key gs))" by (simp only:)
  then show ?thesis by (simp add: all_threads_def map_concat file_key_def comp_def)
qed

lemma fixed_threadids: "map thread_fixed_ld ts = map thread_fixed_ld us \<Longrightarrow> map t_threadid ts = map t_threadid us"
proof -
  assume "map thread_fixed_ld ts = map thread_fixed_ld us"
  then have "map (\<lambda>(a, b, c, d, e). d) (map thread_fixed_ld ts) = map (\<lambda>(a, b, c, d, e). d) (map thread_fixed_ld us)" by (simp only:)
  then show ?thesis by (simp add: thread_fixed_ld_def comp_def)
qed

lemma keys_params: "map file_key fs = map file_key gs \<Longrightarrow> map f_params_ld fs = map f_params_ld gs"
proof -
  assume "map file_key fs = map file_key gs"
  then have "map fst (map file_key fs) = map fst (map file_key gs)" by (simp only:)
  then show ?thesis by (simp add: file_key_def comp_def)
qed

text \<open>What never changes in a run: the parameters and the numbers of the threads, and how many there are.\<close>

definition frame_of :: "lsys \<Rightarrow> params_ld list \<times> int list" where
  "frame_of s = (map f_params_ld (y_files s), map t_threadid (y_ths s))"

definition shape_ld :: "lsys \<Rightarrow> bool" where
  "shape_ld s \<longleftrightarrow> length (y_ths s) = length (all_threads (y_files s)) \<and> length (y_pcs s) = length (y_ths s)
     \<and> length (y_start s) = length (y_ths s) \<and> length (y_stop s) = length (y_ths s)"

lemma report_frame:
  assumes "report_now env start stop br status s = Inr s'" "shape_ld s"
  shows "frame_of s' = frame_of s" "shape_ld s'" "y_pcs s' = y_pcs s" "y_start s' = y_start s" "y_stop s' = y_stop s"
    "y_main s' = y_main s" "l_cur (y_ls s') = l_cur (y_ls s)" "map thread_fixed_ld (y_ths s') = map thread_fixed_ld (y_ths s)"
proof -
  from assms(1) obtain oe n fl dt os where
    o: "load_output oe n start stop br status (regroup (y_files s) (y_ths s), l_dt (y_ls s), y_out s) = Inr (fl, dt, os)"
    and s': "s' = s\<lparr>y_files := fl, y_ths := all_threads fl, y_ls := (y_ls s)\<lparr>l_dt := dt\<rparr>, y_out := os\<rparr>"
    by (auto simp: report_now_def Let_def bind_res_Inr_iff)
  note k = output_keeps [OF o]
  have len: "length (y_ths s) = length (all_threads (y_files s))" using assms(2) by (simp add: shape_ld_def)
  have x: "map thread_fixed_ld (all_threads fl) = map thread_fixed_ld (y_ths s)"
    using keys_threads [OF k] regroup_threads [OF len] by simp
  note t = fixed_threadids [OF x]
  then have l: "length (all_threads fl) = length (y_ths s)" by (metis length_map)
  have p: "map f_params_ld fl = map f_params_ld (y_files s)" using keys_params [OF k] regroup_params by metis
  show "frame_of s' = frame_of s" using t p by (simp add: frame_of_def s')
  show "shape_ld s'" using l assms(2) by (simp add: shape_ld_def s')
  show "y_pcs s' = y_pcs s" "y_start s' = y_start s" "y_stop s' = y_stop s" "y_main s' = y_main s" "l_cur (y_ls s') = l_cur (y_ls s)"
    "map thread_fixed_ld (y_ths s') = map thread_fixed_ld (y_ths s)"
    by (simp_all add: s' x)
qed

section \<open>Runs\<close>

text \<open>What happens in a run, as far as the levels of the test are concerned.\<close>

datatype event =
    Start int     \<comment> \<open>a level begins\<close>
  | Began nat     \<comment> \<open>a thread calls \<open>do_io\<close>\<close>
  | Ended nat     \<comment> \<open>it returns\<close>
  | Summed int    \<comment> \<open>the summary of a level\<close>
  | Stop

datatype actor = Main | Thr nat

definition sys_step :: "load_env \<Rightarrow> nat \<Rightarrow> actor \<Rightarrow> lsys \<Rightarrow> lsys res" where
  "sys_step env fuel a s =
     (case a of Main \<Rightarrow> main_step env s
      | Thr j \<Rightarrow> if j < nthreads_ld s then thread_step_ld fuel j s else Inl Blocked)"

definition emits :: "actor \<Rightarrow> lsys \<Rightarrow> event list" where
  "emits a s =
     (case a of
        Main \<Rightarrow> (case y_main s of
            Level i \<Rightarrow> [if i \<le> p_maxthreads (run_params s) then Start i else Stop]
          | Summarise i before \<Rightarrow> [Summed i]
          | _ \<Rightarrow> [])
      | Thr j \<Rightarrow> (case y_pcs s ! j of
            Decide \<Rightarrow> if t_threadid (y_ths s ! j) < c_threads (l_cur (y_ls s)) then [Began j] else []
          | Busy iotime nextio ionum \<Rightarrow>
              if d_start (q_detail (t_iorp (y_ths s ! j))) < c_finish (l_cur (y_ls s)) then [] else [Ended j]
          | _ \<Rightarrow> []))"

inductive load_run :: "load_env \<Rightarrow> nat \<Rightarrow> lsys \<Rightarrow> event list \<Rightarrow> lsys \<Rightarrow> bool" for env fuel s0 where
  run_begin: "load_run env fuel s0 [] s0"
| run_move: "load_run env fuel s0 evs s \<Longrightarrow> sys_step env fuel a s = Inr s' \<Longrightarrow> load_run env fuel s0 (evs @ emits a s) s'"

section \<open>What a test is meant to be\<close>

text \<open>
  The abstract test: levels one after the other; in each, every thread whose number is below the level goes through \<open>do_io\<close> once,
  and the summary is made when all of them have returned.
\<close>

datatype phase = Idle int | Running int "nat set" "nat set" | Stopped

definition active :: "int list \<Rightarrow> int \<Rightarrow> nat set" where
  "active ids i = {j. j < length ids \<and> ids ! j < i}"

fun accept :: "params_ld \<Rightarrow> int list \<Rightarrow> phase \<Rightarrow> event \<Rightarrow> phase option" where
  "accept p ids (Idle i) (Start k) = (if k = i \<and> i \<le> p_maxthreads p then Some (Running i {} {}) else None)"
| "accept p ids (Idle i) Stop = (if i \<le> p_maxthreads p then None else Some Stopped)"
| "accept p ids (Running i B E) (Began j) = (if j \<in> active ids i - B then Some (Running i (insert j B) E) else None)"
| "accept p ids (Running i B E) (Ended j) = (if j \<in> B - E then Some (Running i B (insert j E)) else None)"
| "accept p ids (Running i B E) (Summed k) = (if k = i \<and> E = active ids i then Some (Idle (i + p_incrthreads p)) else None)"
| "accept p ids ph ev = None"

fun accepts :: "params_ld \<Rightarrow> int list \<Rightarrow> phase \<Rightarrow> event list \<Rightarrow> phase option" where
  "accepts p ids ph [] = Some ph"
| "accepts p ids ph (ev # evs) = (case accept p ids ph ev of None \<Rightarrow> None | Some ph' \<Rightarrow> accepts p ids ph' evs)"

lemma accepts_append: "accepts p ids ph evs = Some ph1 \<Longrightarrow> accepts p ids ph (evs @ evs') = accepts p ids ph1 evs'"
  by (induction evs arbitrary: ph) (auto split: option.splits)

text \<open>The phase a state of the system stands for.\<close>

fun busy :: "tpc \<Rightarrow> bool" where
  "busy (Busy x y z) = True"
| "busy p = False"

fun over :: "mpc \<Rightarrow> nat \<Rightarrow> tpc \<Rightarrow> nat \<Rightarrow> bool" where
  "over (Release i k t r) j p b = (j < k \<and> (p = Tell \<or> b = 1))"
| "over (Watch i t r) j p b = (p = Tell \<or> b = 1)"
| "over (Collect i k r) j p b = (j < k \<or> p = Tell \<or> b = 1)"
| "over (Summarise i r) j p b = True"
| "over m j p b = False"

fun level_of :: "mpc \<Rightarrow> int option" where
  "level_of (Release i k t r) = Some i"
| "level_of (Watch i t r) = Some i"
| "level_of (Collect i k r) = Some i"
| "level_of (Summarise i r) = Some i"
| "level_of m = None"

definition ended_of :: "mpc \<Rightarrow> int \<Rightarrow> int list \<Rightarrow> tpc list \<Rightarrow> nat list \<Rightarrow> nat set" where
  "ended_of m i ids pcs stops = {j \<in> active ids i. over m j (pcs ! j) (stops ! j)}"

definition begun_of :: "mpc \<Rightarrow> int \<Rightarrow> int list \<Rightarrow> tpc list \<Rightarrow> nat list \<Rightarrow> nat set" where
  "begun_of m i ids pcs stops = {j \<in> active ids i. over m j (pcs ! j) (stops ! j) \<or> busy (pcs ! j)}"

definition phase_of :: "params_ld \<Rightarrow> int list \<Rightarrow> mpc \<Rightarrow> tpc list \<Rightarrow> nat list \<Rightarrow> phase" where
  "phase_of p ids m pcs stops =
     (case level_of m of
        Some i \<Rightarrow> Running i (begun_of m i ids pcs stops) (ended_of m i ids pcs stops)
      | None \<Rightarrow> (case m of Level i \<Rightarrow> Idle i | Shutdown k \<Rightarrow> Stopped | Finished \<Rightarrow> Stopped | _ \<Rightarrow> Idle (p_initthreads p)))"

section \<open>The barrier\<close>

text \<open>Where a thread and its two semaphores can be, seen from the main thread.\<close>

definition idle_t :: "tpc \<Rightarrow> nat \<Rightarrow> nat \<Rightarrow> bool" where
  "idle_t p a b \<longleftrightarrow> (p = Test \<or> p = Wait) \<and> a = 0 \<and> b = 0"

definition fresh_t :: "tpc \<Rightarrow> nat \<Rightarrow> nat \<Rightarrow> bool" where
  "fresh_t p a b \<longleftrightarrow> p = Announce \<and> a = 0 \<and> b = 0 \<or> (p = Test \<or> p = Wait) \<and> a = 0 \<and> b = 1"

definition inside_t :: "bool \<Rightarrow> tpc \<Rightarrow> nat \<Rightarrow> nat \<Rightarrow> bool" where
  "inside_t act p a b \<longleftrightarrow> (p = Test \<or> p = Wait) \<and> (a = 1 \<and> b = 0 \<or> a = 0 \<and> b = 1)
     \<or> (p = Decide \<or> p = Tell \<or> busy p \<and> act) \<and> a = 0 \<and> b = 0"

fun place_ok :: "mpc \<Rightarrow> nat \<Rightarrow> bool \<Rightarrow> tpc \<Rightarrow> nat \<Rightarrow> nat \<Rightarrow> bool" where
  "place_ok (Create k) j act p a b = (if j < k then fresh_t p a b else p = New \<and> a = 0 \<and> b = 0)"
| "place_ok (Gather k) j act p a b = (if j < k then idle_t p a b else fresh_t p a b)"
| "place_ok (Level i) j act p a b = idle_t p a b"
| "place_ok (Release i k t r) j act p a b = (if j < k then inside_t act p a b else idle_t p a b)"
| "place_ok (Watch i t r) j act p a b = inside_t act p a b"
| "place_ok (Collect i k r) j act p a b = (if j < k then idle_t p a b else inside_t act p a b)"
| "place_ok (Summarise i r) j act p a b = idle_t p a b"
| "place_ok (Shutdown k) j act p a b = (\<not> busy p \<and> p \<noteq> New)"
| "place_ok Finished j act p a b = (\<not> busy p \<and> p \<noteq> New)"

fun main_ok :: "params_ld \<Rightarrow> int \<Rightarrow> nat \<Rightarrow> mpc \<Rightarrow> bool" where
  "main_ok p c n (Create k) = (c = 1 \<and> k \<le> n)"
| "main_ok p c n (Gather k) = (c = 1 \<and> k \<le> n)"
| "main_ok p c n (Level i) = (1 \<le> c \<and> 1 \<le> i)"
| "main_ok p c n (Release i k t r) = (c = i \<and> 1 \<le> i \<and> i \<le> p_maxthreads p \<and> k \<le> n)"
| "main_ok p c n (Watch i t r) = (c = i \<and> 1 \<le> i \<and> i \<le> p_maxthreads p)"
| "main_ok p c n (Collect i k r) = (c = i \<and> 1 \<le> i \<and> i \<le> p_maxthreads p \<and> k \<le> n)"
| "main_ok p c n (Summarise i r) = (c = i \<and> 1 \<le> i \<and> i \<le> p_maxthreads p)"
| "main_ok p c n (Shutdown k) = (c = 0)"
| "main_ok p c n Finished = (c = 0)"

definition barrier :: "params_ld \<Rightarrow> int list \<Rightarrow> int \<Rightarrow> mpc \<Rightarrow> tpc list \<Rightarrow> nat list \<Rightarrow> nat list \<Rightarrow> bool" where
  "barrier p ids c m pcs starts stops \<longleftrightarrow> main_ok p c (length ids) m
     \<and> length pcs = length ids \<and> length starts = length ids \<and> length stops = length ids
     \<and> (\<forall>j < length ids. place_ok m j (ids ! j < c) (pcs ! j) (starts ! j) (stops ! j))"

text \<open>The moves of one thread, as they look from outside.\<close>

inductive tmove :: "int \<Rightarrow> int \<Rightarrow> nat \<Rightarrow> tpc \<times> nat \<times> nat \<Rightarrow> event list \<Rightarrow> tpc \<times> nat \<times> nat \<Rightarrow> bool"
    for c tid j where
  "tmove c tid j (Announce, a, b) [] (Test, a, Suc b)"
| "c \<noteq> 0 \<Longrightarrow> tmove c tid j (Test, a, b) [] (Wait, a, b)"
| "c = 0 \<Longrightarrow> tmove c tid j (Test, a, b) [] (Gone, a, b)"
| "a \<noteq> 0 \<Longrightarrow> tmove c tid j (Wait, a, b) [] (Decide, a - Suc 0, b)"
| "tid < c \<Longrightarrow> tmove c tid j (Decide, a, b) [Began j] (Busy x y z, a, b)"
| "\<not> tid < c \<Longrightarrow> tmove c tid j (Decide, a, b) [] (Tell, a, b)"
| "tmove c tid j (Busy x y z, a, b) [] (Busy x' y' z', a, b)"
| "tmove c tid j (Busy x y z, a, b) [Ended j] (Tell, a, b)"
| "tmove c tid j (Tell, a, b) [] (Test, a, Suc b)"

inductive_cases tmoveE: "tmove c tid j (p, a, b) evs (p', a', b')"

lemma tmove_place:
  assumes "tmove c tid j (p, a, b) evs (p', a', b')" "place_ok m j (tid < c) p a b" "main_ok prm c n m" "0 \<le> tid"
  shows "place_ok m j (tid < c) p' a' b'"
proof -
  note d = idle_t_def fresh_t_def inside_t_def
  show ?thesis
  proof (cases m)
    case (Create k) with assms show ?thesis by (elim tmoveE) (simp_all add: d split: if_splits)
  next
    case (Gather k) with assms show ?thesis by (elim tmoveE) (simp_all add: d split: if_splits)
  next
    case (Level i) with assms show ?thesis by (elim tmoveE) (simp_all add: d)
  next
    case (Release i k t r) with assms show ?thesis by (elim tmoveE) (auto simp: d split: if_splits)
  next
    case (Watch i t r) with assms show ?thesis by (elim tmoveE) (auto simp: d)
  next
    case (Collect i k r) with assms show ?thesis by (elim tmoveE) (auto simp: d split: if_splits)
  next
    case (Summarise i r) with assms show ?thesis by (elim tmoveE) (auto simp: d)
  next
    case (Shutdown k) with assms show ?thesis by (elim tmoveE) simp_all
  next
    case Finished with assms show ?thesis by (elim tmoveE) simp_all
  qed
qed

lemma tmove_over:
  assumes "tmove c tid j (p, a, b) evs (p', a', b')" "place_ok m j (tid < c) p a b" "main_ok prm c n m" "level_of m = Some i"
  shows "evs = [] \<and> over m j p' b' = over m j p b \<and> busy p' = busy p
    \<or> evs = [Began j] \<and> tid < i \<and> \<not> over m j p b \<and> \<not> over m j p' b' \<and> \<not> busy p \<and> busy p'
    \<or> evs = [Ended j] \<and> tid < i \<and> \<not> over m j p b \<and> over m j p' b' \<and> busy p
    \<or> evs = [] \<and> \<not> tid < i \<and> \<not> busy p \<and> \<not> busy p'"
proof -
  note d = idle_t_def fresh_t_def inside_t_def
  show ?thesis
  proof (cases m)
    case (Release i k t r) with assms show ?thesis by (elim tmoveE) (auto simp: d split: if_splits)
  next
    case (Watch i t r) with assms show ?thesis by (elim tmoveE) (auto simp: d)
  next
    case (Collect i k r) with assms show ?thesis by (elim tmoveE) (auto simp: d split: if_splits)
  next
    case (Summarise i r) with assms show ?thesis by (elim tmoveE) (auto simp: d)
  qed (use assms(4) in simp_all)
qed

lemma tmove_quiet:
  assumes "tmove c tid j (p, a, b) evs (p', a', b')" "place_ok m j (tid < c) p a b" "main_ok prm c n m" "level_of m = None" "0 \<le> tid"
  shows "evs = []"
  using assms by (cases m) (auto elim!: tmoveE simp: idle_t_def fresh_t_def split: if_splits)

lemma tmove_phase:
  assumes "tmove c (ids ! j) j (pcs ! j, a, stops ! j) evs (p', a', b')" "place_ok m j (ids ! j < c) (pcs ! j) a (stops ! j)"
    and "main_ok prm c n m" "j < length ids" "length pcs = length ids" "length stops = length ids" "0 \<le> ids ! j"
  shows "accepts prm ids (phase_of prm ids m pcs stops) evs = Some (phase_of prm ids m (pcs[j := p']) (stops[j := b']))"
proof (cases "level_of m")
  case None
  with tmove_quiet [OF assms(1-3) None assms(7)] show ?thesis by (simp add: phase_of_def)
next
  case (Some i)
  let ?p = "pcs ! j" and ?b = "stops ! j"
  have len: "j < length pcs" "j < length stops" using assms(4-6) by simp_all
  have other: "x \<noteq> j \<Longrightarrow> pcs[j := p'] ! x = pcs ! x \<and> stops[j := b'] ! x = stops ! x" for x by simp
  have e: "x \<in> ended_of m i ids (pcs[j := p']) (stops[j := b'])
      \<longleftrightarrow> x \<in> active ids i \<and> (if x = j then over m j p' b' else over m x (pcs ! x) (stops ! x))" for x
    using len by (auto simp: ended_of_def)
  have g: "x \<in> begun_of m i ids (pcs[j := p']) (stops[j := b'])
      \<longleftrightarrow> x \<in> active ids i \<and> (if x = j then over m j p' b' \<or> busy p' else over m x (pcs ! x) (stops ! x) \<or> busy (pcs ! x))" for x
    using len by (auto simp: begun_of_def)
  have act: "j \<in> active ids i \<longleftrightarrow> ids ! j < i" using assms(4) by (simp add: active_def)
  let ?E = "ended_of m i ids pcs stops" and ?B = "begun_of m i ids pcs stops"
  have e0: "x \<in> ?E \<longleftrightarrow> x \<in> active ids i \<and> over m x (pcs ! x) (stops ! x)"
    and g0: "x \<in> ?B \<longleftrightarrow> x \<in> active ids i \<and> (over m x (pcs ! x) (stops ! x) \<or> busy (pcs ! x))" for x
    by (simp_all add: ended_of_def begun_of_def)
  have ph: "phase_of prm ids m ps ss = Running i (begun_of m i ids ps ss) (ended_of m i ids ps ss)" for ps ss
    using Some by (simp add: phase_of_def)
  from tmove_over [OF assms(1-3) Some] consider
      (same) "evs = []" "over m j p' b' = over m j ?p ?b" "busy p' = busy ?p"
    | (began) "evs = [Began j]" "ids ! j < i" "\<not> over m j ?p ?b" "\<not> over m j p' b'" "\<not> busy ?p" "busy p'"
    | (ended) "evs = [Ended j]" "ids ! j < i" "\<not> over m j ?p ?b" "over m j p' b'" "busy ?p"
    | (inactive) "evs = []" "\<not> ids ! j < i" by blast
  then show ?thesis
  proof cases
    case same
    then have "ended_of m i ids (pcs[j := p']) (stops[j := b']) = ?E" "begun_of m i ids (pcs[j := p']) (stops[j := b']) = ?B"
      by (auto simp: set_eq_iff e g e0 g0)
    with same(1) show ?thesis by (simp add: ph)
  next
    case began
    then have "ended_of m i ids (pcs[j := p']) (stops[j := b']) = ?E" "begun_of m i ids (pcs[j := p']) (stops[j := b']) = insert j ?B"
      by (auto simp: set_eq_iff e g e0 g0 act)
    moreover have "j \<in> active ids i - ?B" using began by (simp add: g0 act)
    ultimately show ?thesis using began(1) by (simp add: ph)
  next
    case ended
    then have "ended_of m i ids (pcs[j := p']) (stops[j := b']) = insert j ?E" "begun_of m i ids (pcs[j := p']) (stops[j := b']) = ?B"
      by (auto simp: set_eq_iff e g e0 g0 act)
    moreover have "j \<in> ?B - ?E" using ended by (simp add: e0 g0 act)
    ultimately show ?thesis using ended(1) by (simp add: ph)
  next
    case inactive
    then have "ended_of m i ids (pcs[j := p']) (stops[j := b']) = ?E" "begun_of m i ids (pcs[j := p']) (stops[j := b']) = ?B"
      using act by (auto simp: set_eq_iff e g e0 g0)
    with inactive(1) show ?thesis by (simp add: ph)
  qed
qed

lemma exI3: "P x y z \<Longrightarrow> \<exists>x y z. P x y z"
  by blast

text \<open>A step of a thread is one of these moves, and touches nothing else the main thread looks at.\<close>

lemma thread_step_moves:
  assumes "thread_step_ld fuel j s = Inr s'" "j < length (y_pcs s)" "shape_ld s"
  shows "\<exists>p a b. tmove (c_threads (l_cur (y_ls s))) (t_threadid (y_ths s ! j)) j (y_pcs s ! j, y_start s ! j, y_stop s ! j)
      (emits (Thr j) s) (p, a, b)
    \<and> y_pcs s' = (y_pcs s)[j := p] \<and> y_start s' = (y_start s)[j := a] \<and> y_stop s' = (y_stop s)[j := b]
    \<and> y_main s' = y_main s \<and> y_files s' = y_files s \<and> l_cur (y_ls s') = l_cur (y_ls s)
    \<and> map t_threadid (y_ths s') = map t_threadid (y_ths s)"
proof -
  let ?c = "c_threads (l_cur (y_ls s))" and ?tid = "t_threadid (y_ths s ! j)"
  have len: "j < length (y_ths s)" "j < length (y_start s)" "j < length (y_stop s)" using assms(2,3) by (simp_all add: shape_ld_def)
  note d = goto_ld_def post_stop_def seed_ld_def set_rng_ld_def
  show ?thesis
  proof (cases "y_pcs s ! j")
    case Announce
    with assms(1) show ?thesis
      by (intro exI3 [of _ Test "y_start s ! j" "y_stop s ! j + 1"])
        (auto simp: thread_step_ld_def emits_def d split: prod.splits intro: tmove.intros)
  next
    case Test
    with assms(1) show ?thesis
      by (intro exI3 [of _ "if ?c \<noteq> 0 then Wait else Gone" "y_start s ! j" "y_stop s ! j"])
        (auto simp: thread_step_ld_def emits_def d intro: tmove.intros)
  next
    case Wait
    with assms(1) show ?thesis
      by (intro exI3 [of _ Decide "y_start s ! j - 1" "y_stop s ! j"])
        (auto simp: thread_step_ld_def emits_def d split: if_splits intro: tmove.intros)
  next
    case Decide
    show ?thesis
    proof (cases "?tid < ?c")
      case True
      obtain x y z where e: "y_pcs s' = (y_pcs s)[j := Busy x y z]" "y_start s' = y_start s" "y_stop s' = y_stop s"
        "y_main s' = y_main s" "y_files s' = y_files s" "l_cur (y_ls s') = l_cur (y_ls s)" "y_ths s' = y_ths s"
        using assms(1) Decide True
        by (auto simp: thread_step_ld_def enter_do_io_def Let_def d split: if_splits prod.split_asm)
      then show ?thesis using Decide True
        by (intro exI3 [of _ "Busy x y z" "y_start s ! j" "y_stop s ! j"])
          (auto simp: emits_def intro: tmove.intros)
    next
      case False
      with Decide assms(1) show ?thesis
        by (intro exI3 [of _ Tell "y_start s ! j" "y_stop s ! j"])
          (auto simp: thread_step_ld_def emits_def d intro: tmove.intros)
    qed
  next
    case (Busy x y z)
    show ?thesis
    proof (cases "d_start (q_detail (t_iorp (y_ths s ! j))) < c_finish (l_cur (y_ls s))")
      case True
      with assms(1) Busy obtain y' z' tp ls where
        t: "io_turn_ld fuel x (y, z, y_ths s ! j, y_ls s) = Inr (y', z', tp, ls)"
        and s': "s' = goto_ld j (Busy x y' z') (s\<lparr>y_ls := ls, y_ths := (y_ths s)[j := tp]\<rparr>)"
        by (auto simp: thread_step_ld_def step_busy_def Let_def bind_res_Inr_iff)
      have "l_cur ls = l_cur (y_ls s)" "t_threadid tp = ?tid" using turn_place [OF t] by (simp_all add: same_place_def)
      moreover have "map t_threadid ((y_ths s)[j := tp]) = map t_threadid (y_ths s)"
        using calculation(2) len(1) by (simp add: map_update list_update_same_conv)
      ultimately show ?thesis using Busy True
        by (intro exI3 [of _ "Busy x y' z'" "y_start s ! j" "y_stop s ! j"])
          (auto simp: s' emits_def d intro: tmove.intros)
    next
      case False
      with Busy assms(1) show ?thesis
        by (intro exI3 [of _ Tell "y_start s ! j" "y_stop s ! j"])
          (auto simp: thread_step_ld_def step_busy_def emits_def d intro: tmove.intros)
    qed
  next
    case Tell
    with assms(1) show ?thesis
      by (intro exI3 [of _ Test "y_start s ! j" "y_stop s ! j + 1"])
        (auto simp: thread_step_ld_def emits_def d intro: tmove.intros)
  qed (use assms(1) in \<open>simp_all add: thread_step_ld_def\<close>)
qed

section \<open>The main thread keeps the barrier\<close>

definition sys_inv :: "params_ld \<Rightarrow> int list \<Rightarrow> lsys \<Rightarrow> bool" where
  "sys_inv p ids s \<longleftrightarrow> shape_ld s \<and> run_params s = p \<and> map t_threadid (y_ths s) = ids
     \<and> barrier p ids (c_threads (l_cur (y_ls s))) (y_main s) (y_pcs s) (y_start s) (y_stop s)"

definition sys_phase :: "params_ld \<Rightarrow> int list \<Rightarrow> lsys \<Rightarrow> phase" where
  "sys_phase p ids s = phase_of p ids (y_main s) (y_pcs s) (y_stop s)"

text \<open>Levels from one up, in steps that do not go down, with a last one that an \<open>int\<close> still holds.\<close>

definition levels_ok :: "params_ld \<Rightarrow> bool" where
  "levels_ok p \<longleftrightarrow> 1 \<le> p_initthreads p \<and> 0 \<le> p_incrthreads p \<and> p_maxthreads p + p_incrthreads p < 2 ^ 31"

lemma next_level_ok: "levels_ok p \<Longrightarrow> 1 \<le> i \<Longrightarrow> i \<le> p_maxthreads p \<Longrightarrow> next_level p i = i + p_incrthreads p"
  unfolding next_level_def levels_ok_def by (simp only: signed_of_int) (simp add: signed_take_bit_int_eq_self)

lemma frame_params: "frame_of s' = frame_of s \<Longrightarrow> run_params s' = run_params s"
  by (cases "y_files s"; cases "y_files s'") (simp_all add: frame_of_def run_params_def)

lemma phase_cong:
  assumes "level_of m = Some i" "level_of m' = Some i"
    and "\<And>j. j < length ids \<Longrightarrow> over m' j (pcs' ! j) (stops' ! j) = over m j (pcs ! j) (stops ! j)"
    and "\<And>j. j < length ids \<Longrightarrow> busy (pcs' ! j) = busy (pcs ! j)"
  shows "phase_of p ids m' pcs' stops' = phase_of p ids m pcs stops"
  using assms by (auto simp: phase_of_def begun_of_def ended_of_def active_def)

lemma barrier_nth:
  "barrier p ids c m pcs starts stops \<Longrightarrow> j < length ids \<Longrightarrow> place_ok m j (ids ! j < c) (pcs ! j) (starts ! j) (stops ! j)"
  by (simp add: barrier_def)

text \<open>One waiting thread after the other: taking a post of \<open>stop\<close> leaves a thread that has come through.\<close>

lemma gather_barrier:
  assumes "barrier p ids c (Gather k) pcs starts stops" "k < length ids" "stops ! k \<noteq> 0"
  shows "barrier p ids c (Gather (k + 1)) pcs starts (stops[k := stops ! k - 1])"
proof -
  have l: "length stops = length ids" using assms(1) by (simp add: barrier_def)
  have "place_ok (Gather (k + 1)) j (ids ! j < c) (pcs ! j) (starts ! j) (stops[k := stops ! k - 1] ! j)" if "j < length ids" for j
    using barrier_nth [OF assms(1) that] assms(2,3) l
    by (cases "j = k") (auto simp: fresh_t_def idle_t_def less_Suc_eq split: if_splits)
  then show ?thesis using assms(1,2) by (simp add: barrier_def del: place_ok.simps)
qed

lemma collect_barrier:
  assumes "barrier p ids c (Collect i k r) pcs starts stops" "k < length ids" "stops ! k \<noteq> 0"
  shows "barrier p ids c (Collect i (k + 1) r) pcs starts (stops[k := stops ! k - 1])"
    and "phase_of p ids (Collect i (k + 1) r) pcs (stops[k := stops ! k - 1]) = phase_of p ids (Collect i k r) pcs stops"
proof -
  have l: "length stops = length ids" using assms(1) by (simp add: barrier_def)
  have k: "inside_t (ids ! k < c) (pcs ! k) (starts ! k) (stops ! k)" using barrier_nth [OF assms(1,2)] by simp
  then have b: "stops ! k = 1" using assms(3) by (auto simp: inside_t_def)
  have "place_ok (Collect i (k + 1) r) j (ids ! j < c) (pcs ! j) (starts ! j) (stops[k := stops ! k - 1] ! j)" if "j < length ids" for j
    using barrier_nth [OF assms(1) that] assms(2,3) l k
    by (cases "j = k") (auto simp: inside_t_def idle_t_def less_Suc_eq split: if_splits)
  then show "barrier p ids c (Collect i (k + 1) r) pcs starts (stops[k := stops ! k - 1])"
    using assms(1,2) by (simp add: barrier_def del: place_ok.simps)
  show "phase_of p ids (Collect i (k + 1) r) pcs (stops[k := stops ! k - 1]) = phase_of p ids (Collect i k r) pcs stops"
  proof (rule phase_cong)
    show "over (Collect i (k + 1) r) j (pcs ! j) (stops[k := stops ! k - 1] ! j) = over (Collect i k r) j (pcs ! j) (stops ! j)"
      if "j < length ids" for j
      using l b that by (cases "j = k") (auto simp: less_Suc_eq)
  qed simp_all
qed

lemma release_barrier:
  assumes "barrier p ids c (Release i k t r) pcs starts stops" "k < length ids"
  shows "barrier p ids c (Release i (k + 1) t r) pcs (starts[k := starts ! k + 1]) stops"
    and "phase_of p ids (Release i (k + 1) t r) pcs stops = phase_of p ids (Release i k t r) pcs stops"
proof -
  have l: "length starts = length ids" using assms(1) by (simp add: barrier_def)
  have k: "idle_t (pcs ! k) (starts ! k) (stops ! k)" using barrier_nth [OF assms(1,2)] by simp
  have "place_ok (Release i (k + 1) t r) j (ids ! j < c) (pcs ! j) (starts[k := starts ! k + 1] ! j) (stops ! j)" if "j < length ids" for j
    using barrier_nth [OF assms(1) that] l k that
    by (cases "j = k") (auto simp: inside_t_def idle_t_def less_Suc_eq split: if_splits)
  then show "barrier p ids c (Release i (k + 1) t r) pcs (starts[k := starts ! k + 1]) stops"
    using assms(1,2) by (simp add: barrier_def del: place_ok.simps)
  show "phase_of p ids (Release i (k + 1) t r) pcs stops = phase_of p ids (Release i k t r) pcs stops"
  proof (rule phase_cong)
    show "over (Release i (k + 1) t r) j (pcs ! j) (stops ! j) = over (Release i k t r) j (pcs ! j) (stops ! j)"
      if "j < length ids" for j
      using k by (cases "j = k") (auto simp: idle_t_def less_Suc_eq)
  qed simp_all
qed

text \<open>From one loop of \<open>runtest\<close> to the next, when the places of the threads are those the next one expects.\<close>

lemma barrier_next:
  assumes "barrier p ids c m pcs starts stops" "main_ok p c' (length ids) m'"
    and "\<And>j a b q. j < length ids \<Longrightarrow> place_ok m j (ids ! j < c) q a b \<Longrightarrow> place_ok m' j (ids ! j < c') q a b"
  shows "barrier p ids c' m' pcs starts stops"
  using assms by (simp add: barrier_def)

lemma create_barrier:
  assumes "barrier p ids c (Create k) pcs starts stops" "k < length ids"
  shows "barrier p ids c (Create (k + 1)) (pcs[k := Announce]) starts stops"
proof -
  have "place_ok (Create (k + 1)) j (ids ! j < c) (pcs[k := Announce] ! j) (starts ! j) (stops ! j)" if "j < length ids" for j
    using barrier_nth [OF assms(1) that] assms that
    by (cases "j = k") (auto simp: barrier_def fresh_t_def less_Suc_eq split: if_splits)
  then show ?thesis using assms by (simp add: barrier_def del: place_ok.simps)
qed

text \<open>What a step of the main thread owes: the barrier again, and a phase reached by the events it emits.\<close>

definition keeps_inv :: "params_ld \<Rightarrow> int list \<Rightarrow> event list \<Rightarrow> lsys \<Rightarrow> lsys \<Rightarrow> bool" where
  "keeps_inv p ids evs s s' \<longleftrightarrow> sys_inv p ids s' \<and> accepts p ids (sys_phase p ids s) evs = Some (sys_phase p ids s')"

lemma sys_inv_parts:
  assumes "sys_inv p ids s"
  shows "length (y_pcs s) = length ids" "length (y_start s) = length ids" "length (y_stop s) = length ids"
    "main_ok p (c_threads (l_cur (y_ls s))) (length ids) (y_main s)" "run_params s = p" "nthreads_ld s = length ids"
  using assms by (auto simp: sys_inv_def barrier_def nthreads_ld_def)

text \<open>A step that changes only what the barrier sees.\<close>

lemma keeps_by_barrier:
  assumes "sys_inv p ids s" "frame_of s' = frame_of s" "shape_ld s'"
    and "barrier p ids (c_threads (l_cur (y_ls s'))) (y_main s') (y_pcs s') (y_start s') (y_stop s')"
    and "accepts p ids (sys_phase p ids s) evs = Some (sys_phase p ids s')"
  shows "keeps_inv p ids evs s s'"
  using assms frame_params [OF assms(2)] by (simp add: keeps_inv_def sys_inv_def frame_of_def)

lemma setup_keeps:
  assumes "sys_inv p ids s" "main_step env s = Inr s'" "levels_ok p"
    and "y_main s = Create k \<or> y_main s = Gather k"
  shows "keeps_inv p ids (emits Main s) s s'"
proof -
  note q = sys_inv_parts [OF assms(1)]
  have b: "barrier p ids (c_threads (l_cur (y_ls s))) (y_main s) (y_pcs s) (y_start s) (y_stop s)" and sh: "shape_ld s"
    using assms(1) by (simp_all add: sys_inv_def)
  from assms(4) show ?thesis
  proof
    assume m: "y_main s = Create k"
    have s': "s' = (if k < length ids then goto_ld k Announce (s\<lparr>y_main := Create (k + 1)\<rparr>) else s\<lparr>y_main := Gather 0\<rparr>)"
      using assms(2) m q(6) by (simp add: main_step_def Let_def split: if_splits)
    have n: "barrier p ids (c_threads (l_cur (y_ls s))) (Gather 0) (y_pcs s) (y_start s) (y_stop s)" if "\<not> k < length ids"
      using b unfolding m by (rule barrier_next) (use q(4) m that in simp_all)
    show ?thesis
      using create_barrier [OF b [unfolded m]] n sh m
      by (intro keeps_by_barrier [OF assms(1)])
        (auto simp: s' goto_ld_def frame_of_def shape_ld_def sys_phase_def phase_of_def emits_def)
  next
    assume m: "y_main s = Gather k"
    show ?thesis
    proof (cases "k < length ids")
      case True
      with assms(2) m q(6) have s': "s' = s\<lparr>y_stop := (y_stop s)[k := y_stop s ! k - 1], y_main := Gather (k + 1)\<rparr>" "y_stop s ! k \<noteq> 0"
        by (auto simp: main_step_def wait_stop_def Let_def split: if_splits)
      show ?thesis
        using gather_barrier [OF b [unfolded m] True s'(2)] sh m
        by (intro keeps_by_barrier [OF assms(1)])
          (auto simp: s'(1) frame_of_def shape_ld_def sys_phase_def phase_of_def emits_def)
    next
      case False
      with assms(2) m q(5,6) have s': "s' = s\<lparr>y_main := Level (p_initthreads p)\<rparr>" by (simp add: main_step_def Let_def)
      have n: "barrier p ids (c_threads (l_cur (y_ls s))) (Level (p_initthreads p)) (y_pcs s) (y_start s) (y_stop s)"
        using b unfolding m by (rule barrier_next) (use q(4) m False assms(3) in \<open>simp_all add: levels_ok_def\<close>)
      show ?thesis using n sh m
        by (intro keeps_by_barrier [OF assms(1)])
          (auto simp: s' frame_of_def shape_ld_def sys_phase_def phase_of_def emits_def)
    qed
  qed
qed

lemma level_keeps:
  assumes "sys_inv p ids s" "main_step env s = Inr s'" "y_main s = Level i"
  shows "keeps_inv p ids (emits Main s) s s'"
proof -
  note q = sys_inv_parts [OF assms(1)]
  have b: "barrier p ids (c_threads (l_cur (y_ls s))) (Level i) (y_pcs s) (y_start s) (y_stop s)" and sh: "shape_ld s"
    using assms(1,3) by (simp_all add: sys_inv_def)
  have i1: "1 \<le> i" using q(4) assms(3) by simp
  show ?thesis
  proof (cases "i \<le> p_maxthreads p")
    case True
    have s': "s' = begin_level env i s" using assms(2,3) q(5) True by (simp add: main_step_def Let_def)
    obtain t ls where t: "tick_ld (y_ls s) = (t, ls)" by fastforce
    have e: "y_main s' = Release i 0 t (le_ru env (ticks (l_env (y_ls s))))" "c_threads (l_cur (y_ls s')) = i" "y_pcs s' = y_pcs s"
      "y_start s' = y_start s" "y_stop s' = y_stop s" "y_files s' = y_files s" "y_ths s' = y_ths s"
      by (simp_all add: s' begin_level_def t Let_def)
    have n: "barrier p ids i (Release i 0 t (le_ru env (ticks (l_env (y_ls s))))) (y_pcs s) (y_start s) (y_stop s)"
      using b by (rule barrier_next) (use True i1 in simp_all)
    have "\<not> busy (y_pcs s ! j)" if "j < length ids" for j using barrier_nth [OF b that] by (auto simp: idle_t_def)
    then have "begun_of (Release i 0 t r) i ids (y_pcs s) (y_stop s) = {}" "ended_of (Release i 0 t r) i ids (y_pcs s) (y_stop s) = {}" for r
      by (auto simp: begun_of_def ended_of_def active_def)
    then have "sys_phase p ids s' = Running i {} {}" by (simp add: sys_phase_def phase_of_def e)
    then show ?thesis using n sh assms(3) True q(5)
      by (intro keeps_by_barrier [OF assms(1)])
        (auto simp: e frame_of_def shape_ld_def sys_phase_def phase_of_def emits_def)
  next
    case False
    have s': "s' = (set_threads_ld 0 s)\<lparr>y_main := Shutdown 0\<rparr>" using assms(2,3) q(5) False by (simp add: main_step_def Let_def)
    have n: "barrier p ids 0 (Shutdown 0) (y_pcs s) (y_start s) (y_stop s)"
      using b by (rule barrier_next) (auto simp: idle_t_def)
    then show ?thesis using sh assms(3) False q(5)
      by (intro keeps_by_barrier [OF assms(1)])
        (auto simp: s' set_threads_ld_def frame_of_def shape_ld_def sys_phase_def phase_of_def emits_def)
  qed
qed

lemma release_keeps:
  assumes "sys_inv p ids s" "main_step env s = Inr s'" "y_main s = Release i k t r"
  shows "keeps_inv p ids (emits Main s) s s'"
proof -
  note q = sys_inv_parts [OF assms(1)]
  have b: "barrier p ids (c_threads (l_cur (y_ls s))) (Release i k t r) (y_pcs s) (y_start s) (y_stop s)" and sh: "shape_ld s"
    using assms(1,3) by (simp_all add: sys_inv_def)
  show ?thesis
  proof (cases "k < length ids")
    case True
    have s': "s' = (post_start k s)\<lparr>y_main := Release i (k + 1) t r\<rparr>" using assms(2,3) q(6) True by (simp add: main_step_def Let_def)
    show ?thesis using release_barrier [OF b True] sh assms(3)
      by (intro keeps_by_barrier [OF assms(1)])
        (auto simp: s' post_start_def frame_of_def shape_ld_def sys_phase_def emits_def)
  next
    case False
    have s': "s' = s\<lparr>y_main := Watch i t r\<rparr>" using assms(2,3) q(6) False by (simp add: main_step_def Let_def)
    have n: "barrier p ids (c_threads (l_cur (y_ls s))) (Watch i t r) (y_pcs s) (y_start s) (y_stop s)"
      using b by (rule barrier_next) (use q(4) assms(3) False in simp_all)
    have "phase_of p ids (Watch i t r) (y_pcs s) (y_stop s) = phase_of p ids (Release i k t r) (y_pcs s) (y_stop s)"
      by (rule phase_cong) (use False in simp_all)
    with n sh assms(3) show ?thesis
      by (intro keeps_by_barrier [OF assms(1)]) (auto simp: s' frame_of_def shape_ld_def sys_phase_def emits_def)
  qed
qed

lemma watch_keeps:
  assumes "sys_inv p ids s" "main_step env s = Inr s'" "y_main s = Watch i t r"
  shows "keeps_inv p ids (emits Main s) s s'"
proof -
  note q = sys_inv_parts [OF assms(1)]
  have b: "barrier p ids (c_threads (l_cur (y_ls s))) (Watch i t r) (y_pcs s) (y_start s) (y_stop s)" and sh: "shape_ld s"
    using assms(1,3) by (simp_all add: sys_inv_def)
  have st: "step_watch env i t r s = Inr s'" using assms(2,3) by (simp add: main_step_def Let_def)
  show ?thesis
  proof (cases "status_due s t")
    case True
    obtain now ls where n: "tick_ld (y_ls s) = (now, ls)" by fastforce
    let ?s1 = "s\<lparr>y_ls := ls\<rparr>"
    from st True obtain s2 where rp: "report_now env t now r True ?s1 = Inr s2" and s': "s' = s2\<lparr>y_main := Watch i now r\<rparr>"
      by (auto simp: step_watch_def n bind_res_Inr_iff)
    have sh1: "shape_ld ?s1" using sh by (simp add: shape_ld_def)
    note f = report_frame [OF rp sh1]
    have c: "l_cur ls = l_cur (y_ls s)" using draws_place(4) [OF n] .
    have n2: "barrier p ids (c_threads (l_cur (y_ls s))) (Watch i now r) (y_pcs s) (y_start s) (y_stop s)"
      using b by (rule barrier_next) (use q(4) assms(3) in simp_all)
    have "phase_of p ids (Watch i now r) (y_pcs s) (y_stop s) = phase_of p ids (Watch i t r) (y_pcs s) (y_stop s)"
      by (rule phase_cong) simp_all
    with f n2 c assms(3) show ?thesis
      by (intro keeps_by_barrier [OF assms(1)]) (auto simp: s' frame_of_def shape_ld_def sys_phase_def emits_def)
  next
    case False
    have s': "s' = s\<lparr>y_main := Collect i 0 r\<rparr>" using st False by (simp add: step_watch_def)
    have n: "barrier p ids (c_threads (l_cur (y_ls s))) (Collect i 0 r) (y_pcs s) (y_start s) (y_stop s)"
      using b by (rule barrier_next) (use q(4) assms(3) in simp_all)
    have "phase_of p ids (Collect i 0 r) (y_pcs s) (y_stop s) = phase_of p ids (Watch i t r) (y_pcs s) (y_stop s)"
      by (rule phase_cong) simp_all
    with n sh assms(3) show ?thesis
      by (intro keeps_by_barrier [OF assms(1)]) (auto simp: s' frame_of_def shape_ld_def sys_phase_def emits_def)
  qed
qed

lemma collect_keeps:
  assumes "sys_inv p ids s" "main_step env s = Inr s'" "y_main s = Collect i k r"
  shows "keeps_inv p ids (emits Main s) s s'"
proof -
  note q = sys_inv_parts [OF assms(1)]
  have b: "barrier p ids (c_threads (l_cur (y_ls s))) (Collect i k r) (y_pcs s) (y_start s) (y_stop s)" and sh: "shape_ld s"
    using assms(1,3) by (simp_all add: sys_inv_def)
  show ?thesis
  proof (cases "k < length ids")
    case True
    with assms(2,3) q(6) have s': "s' = s\<lparr>y_stop := (y_stop s)[k := y_stop s ! k - 1], y_main := Collect i (k + 1) r\<rparr>" "y_stop s ! k \<noteq> 0"
      by (auto simp: main_step_def wait_stop_def Let_def split: if_splits)
    show ?thesis using collect_barrier [OF b True s'(2)] sh assms(3)
      by (intro keeps_by_barrier [OF assms(1)])
        (auto simp: s'(1) frame_of_def shape_ld_def sys_phase_def emits_def)
  next
    case False
    have s': "s' = s\<lparr>y_main := Summarise i r\<rparr>" using assms(2,3) q(6) False by (simp add: main_step_def Let_def)
    have n: "barrier p ids (c_threads (l_cur (y_ls s))) (Summarise i r) (y_pcs s) (y_start s) (y_stop s)"
      using b by (rule barrier_next) (use q(4) assms(3) False in simp_all)
    have "phase_of p ids (Summarise i r) (y_pcs s) (y_stop s) = phase_of p ids (Collect i k r) (y_pcs s) (y_stop s)"
      by (rule phase_cong) (use False in simp_all)
    with n sh assms(3) show ?thesis
      by (intro keeps_by_barrier [OF assms(1)]) (auto simp: s' frame_of_def shape_ld_def sys_phase_def emits_def)
  qed
qed

lemma summarise_keeps:
  assumes "sys_inv p ids s" "main_step env s = Inr s'" "y_main s = Summarise i r" "levels_ok p"
  shows "keeps_inv p ids (emits Main s) s s'"
proof -
  note q = sys_inv_parts [OF assms(1)]
  have b: "barrier p ids (c_threads (l_cur (y_ls s))) (Summarise i r) (y_pcs s) (y_start s) (y_stop s)" and sh: "shape_ld s"
    using assms(1,3) by (simp_all add: sys_inv_def)
  from assms(2,3) q(5) obtain s2 where
    rp: "report_now env (c_endwarmup (l_cur (y_ls s))) (c_endinterval (l_cur (y_ls s))) r False s = Inr s2"
    and s': "s' = s2\<lparr>y_main := Level (i + p_incrthreads p)\<rparr>"
    using next_level_ok [OF assms(4)] q(4) assms(3) by (auto simp: main_step_def Let_def bind_res_Inr_iff)
  note f = report_frame [OF rp sh]
  have n: "barrier p ids (c_threads (l_cur (y_ls s))) (Level (i + p_incrthreads p)) (y_pcs s) (y_start s) (y_stop s)"
    using b by (rule barrier_next) (use q(4) assms(3,4) in \<open>simp_all add: levels_ok_def\<close>)
  have "ended_of (Summarise i r) i ids (y_pcs s) (y_stop s) = active ids i" by (simp add: ended_of_def)
  with f n assms(3) show ?thesis
    by (intro keeps_by_barrier [OF assms(1)])
      (auto simp: s' frame_of_def shape_ld_def sys_phase_def phase_of_def emits_def)
qed

lemma shutdown_keeps:
  assumes "sys_inv p ids s" "main_step env s = Inr s'" "y_main s = Shutdown k"
  shows "keeps_inv p ids (emits Main s) s s'"
proof -
  note q = sys_inv_parts [OF assms(1)]
  have b: "barrier p ids (c_threads (l_cur (y_ls s))) (Shutdown k) (y_pcs s) (y_start s) (y_stop s)" and sh: "shape_ld s"
    using assms(1,3) by (simp_all add: sys_inv_def)
  have "s' = (if k < length ids then (post_start k s)\<lparr>y_main := Shutdown (k + 1)\<rparr> else s\<lparr>y_main := Finished\<rparr>)"
    using assms(2,3) q(6) by (simp add: main_step_def Let_def)
  then show ?thesis using b sh assms(3)
    by (intro keeps_by_barrier [OF assms(1)])
      (auto simp: post_start_def frame_of_def shape_ld_def sys_phase_def phase_of_def emits_def barrier_def)
qed

lemma main_keeps:
  assumes "sys_inv p ids s" "main_step env s = Inr s'" "levels_ok p"
  shows "keeps_inv p ids (emits Main s) s s'"
proof (cases "y_main s")
  case (Create k) then show ?thesis using setup_keeps [OF assms] by blast
next
  case (Gather k) then show ?thesis using setup_keeps [OF assms] by blast
next
  case (Level i) then show ?thesis by (rule level_keeps [OF assms(1,2)])
next
  case (Release i k t r) then show ?thesis by (rule release_keeps [OF assms(1,2)])
next
  case (Watch i t r) then show ?thesis by (rule watch_keeps [OF assms(1,2)])
next
  case (Collect i k r) then show ?thesis by (rule collect_keeps [OF assms(1,2)])
next
  case (Summarise i r) then show ?thesis by (rule summarise_keeps [OF assms(1,2) _ assms(3)])
next
  case (Shutdown k) then show ?thesis by (rule shutdown_keeps [OF assms(1,2)])
next
  case Finished with assms(2) show ?thesis by (simp add: main_step_def Let_def)
qed

section \<open>Every run is such a test\<close>

lemma thread_keeps:
  assumes "sys_inv p ids s" "thread_step_ld fuel j s = Inr s'" "j < nthreads_ld s" "\<forall>tid \<in> set ids. 0 \<le> tid"
  shows "keeps_inv p ids (emits (Thr j) s) s s'"
proof -
  note q = sys_inv_parts [OF assms(1)]
  have sh: "shape_ld s" and th: "map t_threadid (y_ths s) = ids"
    and b: "barrier p ids (c_threads (l_cur (y_ls s))) (y_main s) (y_pcs s) (y_start s) (y_stop s)"
    using assms(1) by (simp_all add: sys_inv_def)
  have j: "j < length ids" "j < length (y_pcs s)" using assms(3) q(6) by (simp_all add: nthreads_ld_def)
  then have tid: "t_threadid (y_ths s ! j) = ids ! j" using th by (metis length_map nth_map)
  have tid0: "0 \<le> ids ! j" using assms(4) j(1) by simp
  from thread_step_moves [OF assms(2) j(2) sh] tid obtain pc a z where
    mv: "tmove (c_threads (l_cur (y_ls s))) (ids ! j) j (y_pcs s ! j, y_start s ! j, y_stop s ! j) (emits (Thr j) s) (pc, a, z)"
    and s': "y_pcs s' = (y_pcs s)[j := pc]" "y_start s' = (y_start s)[j := a]" "y_stop s' = (y_stop s)[j := z]"
      "y_main s' = y_main s" "y_files s' = y_files s" "l_cur (y_ls s') = l_cur (y_ls s)"
      "map t_threadid (y_ths s') = map t_threadid (y_ths s)" by auto
  have ok: "place_ok (y_main s) j (ids ! j < c_threads (l_cur (y_ls s))) pc a z"
    using tmove_place [OF mv barrier_nth [OF b j(1)] q(4) tid0] .
  have "place_ok (y_main s) x (ids ! x < c_threads (l_cur (y_ls s))) ((y_pcs s)[j := pc] ! x) ((y_start s)[j := a] ! x) ((y_stop s)[j := z] ! x)"
    if "x < length ids" for x
    using ok barrier_nth [OF b that] j q(1-3) by (cases "x = j") (simp_all del: place_ok.simps)
  then have "barrier p ids (c_threads (l_cur (y_ls s))) (y_main s) (y_pcs s') (y_start s') (y_stop s')"
    using b q(1-3) by (simp add: barrier_def s' del: place_ok.simps)
  moreover have "accepts p ids (sys_phase p ids s) (emits (Thr j) s) = Some (sys_phase p ids s')"
    unfolding sys_phase_def s' by (rule tmove_phase [OF mv barrier_nth [OF b j(1)] q(4) j(1) q(1,3) tid0])
  moreover have "length (y_ths s') = length (y_ths s)" using s'(7) by (metis length_map)
  then have "shape_ld s'" using sh s' by (simp add: shape_ld_def)
  ultimately show ?thesis using s' by (intro keeps_by_barrier [OF assms(1)]) (simp_all add: frame_of_def)
qed

lemma run_keeps:
  assumes "load_run env fuel s0 evs s" "sys_inv p ids s0" "levels_ok p" "\<forall>tid \<in> set ids. 0 \<le> tid"
  shows "sys_inv p ids s \<and> accepts p ids (sys_phase p ids s0) evs = Some (sys_phase p ids s)"
  using assms(1)
proof (induction rule: load_run.induct)
  case run_begin
  then show ?case using assms(2) by simp
next
  case (run_move evs s a s')
  have i: "sys_inv p ids s" and acc: "accepts p ids (sys_phase p ids s0) evs = Some (sys_phase p ids s)"
    using run_move.IH by blast+
  have "keeps_inv p ids (emits a s) s s'"
  proof (cases a)
    case Main
    then show ?thesis using main_keeps [OF i _ assms(3)] run_move.hyps(2) by (simp add: sys_step_def)
  next
    case (Thr j)
    then show ?thesis using thread_keeps [OF i _ _ assms(4)] run_move.hyps(2) by (auto simp: sys_step_def split: if_splits)
  qed
  then show ?case using accepts_append [OF acc] by (simp add: keeps_inv_def)
qed

text \<open>The system as \<open>runtest\<close> finds it.\<close>

lemma start_load_inv:
  assumes "flist \<noteq> []" "p = f_params_ld (hd flist)"
  shows "sys_inv p (map t_threadid (all_threads flist)) (start_load ls flist)"
    and "sys_phase p (map t_threadid (all_threads flist)) (start_load ls flist) = Idle (p_initthreads p)"
  using assms
  by (auto simp: sys_inv_def start_load_def set_threads_ld_def Let_def shape_ld_def run_params_def barrier_def
      sys_phase_def phase_of_def)

lemma reachable:
  assumes "load_run env fuel (start_load ls flist) evs s" "flist \<noteq> []" "levels_ok (f_params_ld (hd flist))"
    and "\<forall>t \<in> set (all_threads flist). 0 \<le> t_threadid t"
  shows "sys_inv (f_params_ld (hd flist)) (map t_threadid (all_threads flist)) s"
    and "accepts (f_params_ld (hd flist)) (map t_threadid (all_threads flist))
        (Idle (p_initthreads (f_params_ld (hd flist)))) evs
      = Some (sys_phase (f_params_ld (hd flist)) (map t_threadid (all_threads flist)) s)"
  using run_keeps [OF assms(1) start_load_inv(1) [OF assms(2) refl] assms(3)] start_load_inv(2) [OF assms(2) refl] assms(4) by auto

text \<open>Who waits for a semaphore, or is not there.\<close>

definition waits :: "actor \<Rightarrow> lsys \<Rightarrow> bool" where
  "waits a s =
     (case a of
        Main \<Rightarrow> (case y_main s of
            Gather k \<Rightarrow> k < nthreads_ld s \<and> y_stop s ! k = 0
          | Collect i k r \<Rightarrow> k < nthreads_ld s \<and> y_stop s ! k = 0
          | Finished \<Rightarrow> True
          | _ \<Rightarrow> False)
      | Thr j \<Rightarrow> j < nthreads_ld s \<longrightarrow>
          (case y_pcs s ! j of New \<Rightarrow> True | Wait \<Rightarrow> y_start s ! j = 0 | Gone \<Rightarrow> True | _ \<Rightarrow> False))"

lemma waits_blocked:
  "waits a s \<Longrightarrow> y_main s \<noteq> Finished \<Longrightarrow> sys_step env fuel a s = Inl Blocked"
  by (cases a; cases "y_main s")
    (auto simp: waits_def sys_step_def main_step_def wait_stop_def thread_step_ld_def Let_def split: tpc.splits)

lemma place_not_stuck:
  assumes "place_ok m j act p a b" "b = 0"
    and "(\<exists>k. m = Gather k \<and> \<not> j < k) \<or> (\<exists>i k r. m = Collect i k r \<and> \<not> j < k)"
  shows "\<not> (case p of New \<Rightarrow> True | Wait \<Rightarrow> a = 0 | Gone \<Rightarrow> True | _ \<Rightarrow> False)"
  using assms by (elim disjE exE conjE) (cases p; simp add: fresh_t_def inside_t_def)+

lemma inv_not_stuck:
  assumes "sys_inv p ids s" "y_main s \<noteq> Finished"
  shows "\<exists>a. \<not> waits a s"
proof (cases "waits Main s")
  case True
  note q = sys_inv_parts [OF assms(1)]
  have b: "barrier p ids (c_threads (l_cur (y_ls s))) (y_main s) (y_pcs s) (y_start s) (y_stop s)"
    using assms(1) by (simp add: sys_inv_def)
  from True assms(2) obtain k where k: "k < length ids" "y_stop s ! k = 0"
    "(\<exists>k'. y_main s = Gather k' \<and> \<not> k < k') \<or> (\<exists>i k' r. y_main s = Collect i k' r \<and> \<not> k < k')"
    unfolding waits_def q(6) by (auto split: mpc.splits)
  have "\<not> waits (Thr k) s"
    using place_not_stuck [OF barrier_nth [OF b k(1)] k(2,3)] k(1) q(6) by (simp add: waits_def)
  then show ?thesis ..
qed blast

text \<open>Following a schedule.\<close>

fun follow :: "load_env \<Rightarrow> nat \<Rightarrow> actor list \<Rightarrow> lsys \<Rightarrow> (event list \<times> lsys) res" where
  "follow env fuel [] s = Inr ([], s)"
| "follow env fuel (a # as) s =
     bind_res (sys_step env fuel a s) (\<lambda>s1. bind_res (follow env fuel as s1) (\<lambda>(evs, s2). Inr (emits a s @ evs, s2)))"

lemma follow_run:
  "follow env fuel as s = Inr (evs, s') \<Longrightarrow> load_run env fuel s0 evs0 s \<Longrightarrow> load_run env fuel s0 (evs0 @ evs) s'"
proof (induction as arbitrary: s evs evs0)
  case Nil
  then show ?case by simp
next
  case (Cons a as)
  from Cons.prems(1) obtain s1 evs1 where 1: "sys_step env fuel a s = Inr s1" "follow env fuel as s1 = Inr (evs1, s')"
    "evs = emits a s @ evs1" by (auto simp: bind_res_Inr_iff)
  from Cons.IH [OF 1(2) run_move [OF Cons.prems(2) 1(1)]] 1(3) show ?case by simp
qed

lemmas follow_begin = follow_run [OF _ run_begin, simplified]

text \<open>Started levels, in the order of a test.\<close>

definition started :: "event list \<Rightarrow> int list" where
  "started evs = concat (map (\<lambda>ev. case ev of Start i \<Rightarrow> [i] | _ \<Rightarrow> []) evs)"

definition progression :: "params_ld \<Rightarrow> nat \<Rightarrow> int list" where
  "progression p n = map (\<lambda>k. p_initthreads p + int k * p_incrthreads p) [0..<n]"

fun phase_level :: "params_ld \<Rightarrow> nat \<Rightarrow> phase \<Rightarrow> bool" where
  "phase_level p n (Idle i) = (i = p_initthreads p + int n * p_incrthreads p)"
| "phase_level p n (Running i B E) = (0 < n \<and> i = p_initthreads p + (int n - 1) * p_incrthreads p)"
| "phase_level p n Stopped = (p_maxthreads p < p_initthreads p + int n * p_incrthreads p)"

lemma progression_Suc: "progression p (Suc n) = progression p n @ [p_initthreads p + int n * p_incrthreads p]"
  by (simp add: progression_def)

lemma started_simps [simp]:
  "started [] = []" "started (Start i # evs) = i # started evs" "started (Began j # evs) = started evs"
  "started (Ended j # evs) = started evs" "started (Summed i # evs) = started evs" "started (Stop # evs) = started evs"
  by (simp_all add: started_def)

lemma accepts_levels:
  assumes "accepts p ids ph evs = Some ph'" "phase_level p n ph"
  shows "\<exists>m. progression p n @ started evs = progression p m \<and> phase_level p m ph' \<and> (\<forall>i \<in> set (started evs). i \<le> p_maxthreads p)"
  using assms
proof (induction evs arbitrary: ph n)
  case Nil
  then show ?case by auto
next
  case (Cons ev evs)
  from Cons.prems(1) obtain ph1 where a: "accept p ids ph ev = Some ph1" and r: "accepts p ids ph1 evs = Some ph'"
    by (auto split: option.splits)
  show ?case
  proof (cases "\<exists>k. ev = Start k")
    case True
    then obtain k where k: "ev = Start k" ..
    with a Cons.prems(2) have "ph1 = Running k {} {}" "k = p_initthreads p + int n * p_incrthreads p" "k \<le> p_maxthreads p"
      by (cases ph; auto split: if_splits)+
    with Cons.IH [OF r, of "Suc n"] k show ?thesis by (auto simp: progression_Suc algebra_simps)
  next
    case False
    with a Cons.prems(2) have "phase_level p n ph1"
      by (cases ph; cases ev) (auto split: if_splits simp: algebra_simps)
    with Cons.IH [OF r] False show ?thesis by (cases ev) auto
  qed
qed

section \<open>Properties\<close>

text \<open>A file with one thread, for the examples.\<close>

definition demo_run_params :: "int \<Rightarrow> int \<Rightarrow> params_ld" where
  "demo_run_params n incr = defparams_ld\<lparr>p_initthreads := n, p_maxthreads := 1, p_incrthreads := incr, p_status := 0\<rparr>"

definition demo_run_files :: "int \<Rightarrow> int \<Rightarrow> file_ld list" where
  "demo_run_files n incr = [zero_file_ld\<lparr>f_params_ld := demo_run_params n incr, f_ithreads := [zero_iothread_ld]\<rparr>]"

definition demo_run_env :: load_env where
  "demo_run_env = \<lparr>le_create = (\<lambda>_. 0), le_opts = init_opts, le_can_open = (\<lambda>_. True), le_time = (\<lambda>_. ''''), le_ru = (\<lambda>_. zero_rusage)\<rparr>"

definition demo_start :: "int \<Rightarrow> int \<Rightarrow> lsys" where
  "demo_start n incr = start_load demo_lstate (demo_run_files n incr)"

lemmas demo_run_defs = demo_start_def demo_run_files_def demo_run_params_def demo_run_env_def start_load_def set_threads_ld_def
  all_threads_def zero_file_ld_def zero_iothread_ld_def defparams_ld_def

lemmas step_defs = sys_step_def main_step_def thread_step_ld_def nthreads_ld_def goto_ld_def post_stop_def post_start_def
  wait_stop_def emits_def run_params_def enter_do_io_def

text \<open>The thread is created, announces itself, is released into the first level and enters \<open>do_io\<close>.\<close>

lemma demo_run:
  "\<exists>s x y z. load_run demo_run_env 0 (demo_start 1 incr) [Start 1, Began 0] s \<and> y_pcs s = [Busy x y z] \<and> y_ths s = [zero_iothread_ld]
    \<and> y_main s \<noteq> Finished"
proof -
  have "\<exists>s x y z. follow demo_run_env 0 [Main, Thr 0, Main, Main, Main, Main, Main, Thr 0, Thr 0, Thr 0] (demo_start 1 incr)
      = Inr ([Start 1, Began 0], s) \<and> y_pcs s = [Busy x y z] \<and> y_ths s = [zero_iothread_ld] \<and> y_main s \<noteq> Finished"
    by (auto simp: demo_run_defs step_defs begin_level_def seed_ld_def set_rng_ld_def Let_def split: prod.splits)
  then show ?thesis using follow_begin by blast
qed

lemma demo_test_ok:
  "demo_run_files 1 1 \<noteq> []" "levels_ok (f_params_ld (hd (demo_run_files 1 1)))"
  "\<forall>t \<in> set (all_threads (demo_run_files n i)). 0 \<le> t_threadid t"
  by (simp_all add: demo_run_defs levels_ok_def)

text \<open>
  Property C28. With sound levels (\<open>levels_ok\<close>) \<open>runtest\<close> and its threads implement the test as it is meant: in every interleaving the levels come one after the other,
  each thread below the level, and no other, goes through \<open>do_io\<close> once in it, and the summary of a level is made only when all of
  them have returned. The phase of the state is the one the events so far lead to.
\<close>

theorem load_run_refines:
  assumes "load_run env fuel (start_load ls flist) evs s" and "flist \<noteq> []"
    and "p = f_params_ld (hd flist)" and "levels_ok p"
    and "ids = map t_threadid (all_threads flist)" and "\<forall>tid \<in> set ids. 0 \<le> tid"
  shows "accepts p ids (Idle (p_initthreads p)) evs = Some (sys_phase p ids s)"
  using reachable(2) [OF assms(1,2)] assms(3-6) by simp

theorem load_run_refines_witness:
  "\<exists>s. load_run demo_run_env 0 (demo_start 1 1) [Start 1, Began 0] s
    \<and> accepts (demo_run_params 1 1) [0] (Idle 1) [Start 1, Began 0] = Some (sys_phase (demo_run_params 1 1) [0] s)"
proof -
  from demo_run obtain s where r: "load_run demo_run_env 0 (demo_start 1 1) [Start 1, Began 0] s" by blast
  have p: "f_params_ld (hd (demo_run_files 1 1)) = demo_run_params 1 1" "map t_threadid (all_threads (demo_run_files 1 1)) = [0]"
    "p_initthreads (demo_run_params 1 1) = 1"
    by (simp_all add: demo_run_defs)
  have "levels_ok (demo_run_params 1 1)" using demo_test_ok(2) p(1) by simp
  then show ?thesis using load_run_refines [OF r [unfolded demo_start_def] demo_test_ok(1) p(1) [symmetric] _ p(2) [symmetric]] r p(3) by auto
qed



text \<open>
  Property C30. No deadlock when the levels are sound (\<open>levels_ok\<close>: the first has at least one thread, they do not go down, and
  \<open>maxthreads + incrthreads\<close> fits an \<open>int\<close>, so that the counter of the levels does not wrap around): until the main thread has
  finished, in every reachable state it or one of the threads is not waiting for a semaphore. Levels the option parser
  accepts need not be sound, and with \<open>initthreads=0\<close> there is a deadlock.
\<close>

theorem load_run_never_stuck:
  assumes "load_run env fuel (start_load ls flist) evs s" and "flist \<noteq> []" and "levels_ok (f_params_ld (hd flist))"
    and "\<forall>t \<in> set (all_threads flist). 0 \<le> t_threadid t"
  shows "y_main s = Finished \<or> (\<exists>a. \<not> waits a s)"
  using inv_not_stuck [OF reachable(1) [OF assms]] by blast

theorem load_run_never_stuck_witness:
  "\<exists>s a. load_run demo_run_env 0 (demo_start 1 1) [Start 1, Began 0] s \<and> y_main s \<noteq> Finished \<and> \<not> waits a s"
proof -
  from demo_run obtain s where r: "load_run demo_run_env 0 (demo_start 1 1) [Start 1, Began 0] s" "y_main s \<noteq> Finished" by blast
  from load_run_never_stuck [OF r(1) [unfolded demo_start_def] demo_test_ok] r show ?thesis by blast
qed

text \<open>
  Property C31. \<open>initthreads=0\<close>, which the option parser accepts, can hang the program: with one file and one thread, once created, there is a
  run in which the thread sees \<open>current->threads\<close> equal to zero when it comes to test it, and ends; the main thread, which then
  waits for its \<open>stop\<close>, and every other actor wait for ever.
\<close>

theorem zero_threads_deadlock:
  assumes "f_ithreads f = [t]" and "p_initthreads (f_params_ld f) = 0" and "0 \<le> p_maxthreads (f_params_ld f)"
    and "p_status (f_params_ld f) = 0" and "le_create env 0 = 0"
  shows "\<exists>s. load_run env fuel (start_load ls [f]) [Start 0] s \<and> y_main s \<noteq> Finished
    \<and> (\<forall>a. waits a s \<and> sys_step env fuel a s = Inl Blocked)"
proof -
  have "\<exists>s. follow env fuel [Main, Thr 0, Main, Main, Main, Main, Thr 0, Main, Main, Main] (start_load ls [f]) = Inr ([Start 0], s)
      \<and> (\<exists>i r. y_main s = Collect i 0 r) \<and> y_pcs s = [Gone] \<and> y_stop s = [0]"
    using assms
    by (auto simp: start_load_def set_threads_ld_def all_threads_def step_defs begin_level_def seed_ld_def set_rng_ld_def
        step_watch_def status_due_def Let_def split: prod.splits)
  then obtain s i r where f: "follow env fuel [Main, Thr 0, Main, Main, Main, Main, Thr 0, Main, Main, Main] (start_load ls [f])
      = Inr ([Start 0], s)" and s: "y_main s = Collect i 0 r" "y_pcs s = [Gone]" "y_stop s = [0]" by blast
  have "waits a s" for a using s by (cases a) (auto simp: waits_def nthreads_ld_def)
  then show ?thesis using follow_begin [OF f] waits_blocked s(1) by auto
qed

theorem zero_threads_deadlock_witness:
  "\<exists>s. load_run demo_run_env 0 (demo_start 0 5) [Start 0] s \<and> y_main s \<noteq> Finished \<and> (\<forall>a. waits a s)"
  using zero_threads_deadlock [of "hd (demo_run_files 0 5)" zero_iothread_ld demo_run_env 0 demo_lstate]
  unfolding demo_start_def by (auto simp: demo_run_defs)

text \<open>
  The levels of a test are \<open>initthreads\<close>, then each \<open>incrthreads\<close> more than the one before, none above
  \<open>maxthreads\<close>; when all threads are told to stop, the next one would be above.
\<close>

theorem levels_in_order:
  assumes "load_run env fuel (start_load ls flist) evs s" and "flist \<noteq> []" and "p = f_params_ld (hd flist)" and "levels_ok p"
    and "\<forall>t \<in> set (all_threads flist). 0 \<le> t_threadid t"
  shows "\<exists>n. started evs = progression p n \<and> (\<forall>i \<in> set (started evs). i \<le> p_maxthreads p)
    \<and> (y_main s = Finished \<longrightarrow> p_maxthreads p < p_initthreads p + int n * p_incrthreads p)"
proof -
  from accepts_levels [OF reachable(2) [OF assms(1,2) _ assms(5)], of 0] assms(3,4) obtain n where
    "started evs = progression p n" "\<forall>i \<in> set (started evs). i \<le> p_maxthreads p"
    "phase_level p n (sys_phase p (map t_threadid (all_threads flist)) s)"
    by (auto simp: progression_def)
  then show ?thesis by (auto simp: sys_phase_def phase_of_def)
qed

theorem levels_in_order_witness: "started [Start 1, Began 0] = progression (demo_run_params 1 1) 1"
proof -
  from demo_run obtain s where r: "load_run demo_run_env 0 (demo_start 1 1) [Start 1, Began 0] s" by blast
  have p: "f_params_ld (hd (demo_run_files 1 1)) = demo_run_params 1 1" by (simp add: demo_run_defs)
  have "levels_ok (demo_run_params 1 1)" using demo_test_ok(2) p by simp
  from levels_in_order [OF r [unfolded demo_start_def] demo_test_ok(1) p [symmetric] this demo_test_ok(3)]
  obtain n where n: "started [Start 1, Began 0] = progression (demo_run_params 1 1) n" by blast
  then have "length (progression (demo_run_params 1 1) n) = 1" by (metis started_simps(1,2,3) length_Cons list.size(3) One_nat_def)
  then have "n = 1" by (simp add: progression_def)
  with n show ?thesis by simp
qed

text \<open>
  Property C32. \<open>incrthreads=0\<close>, which the option parser accepts, makes the test endless: if the first level is not above
  \<open>maxthreads\<close>, no run reaches the end of \<open>runtest\<close>.
\<close>

theorem zero_increment_endless:
  assumes "load_run env fuel (start_load ls flist) evs s" and "flist \<noteq> []" and "p = f_params_ld (hd flist)" and "p_incrthreads p = 0"
    and "1 \<le> p_initthreads p" and "p_initthreads p \<le> p_maxthreads p" and "p_maxthreads p < 2 ^ 31"
    and "\<forall>t \<in> set (all_threads flist). 0 \<le> t_threadid t"
  shows "y_main s \<noteq> Finished \<and> Stop \<notin> set evs"
proof -
  have lv: "levels_ok p" using assms(4,5,7) by (simp add: levels_ok_def)
  note a = reachable(2) [OF assms(1,2) lv [unfolded assms(3)] assms(8)]
  have "Stop \<notin> set evs \<and> phase_level p 1 ph'"
    if "accepts p ids ph evs = Some ph'" "phase_level p 1 ph" for ids ph ph'
    using that
  proof (induction evs arbitrary: ph)
    case (Cons ev evs)
    from Cons.prems(1) obtain ph1 where 1: "accept p ids ph ev = Some ph1" "accepts p ids ph1 evs = Some ph'"
      by (auto split: option.splits)
    with Cons.prems(2) assms(4,6) have "ev \<noteq> Stop \<and> phase_level p 1 ph1"
      by (cases ph; cases ev) (auto split: if_splits)
    with Cons.IH [OF 1(2)] show ?case by auto
  qed simp
  from this [OF a [folded assms(3)]] have "Stop \<notin> set evs" "phase_level p 1 (sys_phase p (map t_threadid (all_threads flist)) s)"
    using assms(4) by simp_all
  then show ?thesis using assms(4,6) by (auto simp: sys_phase_def phase_of_def)
qed

theorem zero_increment_endless_witness:
  "\<exists>s. load_run demo_run_env 0 (demo_start 1 0) [Start 1, Began 0] s \<and> y_main s \<noteq> Finished"
proof -
  from demo_run obtain s where r: "load_run demo_run_env 0 (demo_start 1 0) [Start 1, Began 0] s" by blast
  have "f_params_ld (hd (demo_run_files 1 0)) = demo_run_params 1 0" "demo_run_files 1 0 \<noteq> []" by (simp_all add: demo_run_defs)
  with zero_increment_endless [OF r [unfolded demo_start_def] this(2) this(1) [symmetric]] demo_test_ok(3) r show ?thesis
    by (auto simp: demo_run_params_def)
qed

end
