(* ===== verification/LoadWhole.thy ===== *)
theory LoadWhole
  imports LoadRun
begin

text \<open>
  A run of \<open>ioload\<close> from its initialisation on. Whatever the interleaving of the threads, every request stays inside the test
  range, no thread faults, and no report does: a step that fails is a wait, the end of the fuel, or an exit with a message.
\<close>

section \<open>The requests of a thread\<close>

definition inside :: "nat \<Rightarrow> nat \<Rightarrow> iocall \<Rightarrow> bool" where
  "inside lo hi c \<longleftrightarrow> lo \<le> unat (call_offset c) \<and> unat (call_offset c) + call_length c \<le> hi"

text \<open>The table of details holds records of known types only.\<close>

definition types_ok :: "dtable \<Rightarrow> bool" where
  "types_ok dt \<longleftrightarrow> list_all (\<lambda>d. unat (d_type d) < MAX_OPTYPES) (details dt)"

lemma table_listable: "table_ok dt \<Longrightarrow> types_ok dt \<Longrightarrow> listable dt"
  by (auto simp: listable_def types_ok_def table_ok_def used_slots_def word_less_nat_alt)

lemma details_add_types:
  "iob_details_add d dt = Inr (d', dt') \<Longrightarrow> unat (d_type d) < MAX_OPTYPES \<Longrightarrow> types_ok dt \<Longrightarrow> types_ok dt'"
  by (auto simp: iob_details_add_def take_slot_def fetch_and_add_def types_ok_def list_all_length nth_list_update Let_def split: if_splits)

lemma details_reset_ok:
  assumes "iob_details_reset b dt = Inr dt'"
  shows "types_ok dt \<Longrightarrow> types_ok dt'" "table_ok dt \<Longrightarrow> table_ok dt'"
proof -
  have z: "unat (d_type zero_iodet) < MAX_OPTYPES" by (simp add: zero_iodet_def)
  show "types_ok dt \<Longrightarrow> types_ok dt'" using assms z
    unfolding iob_details_reset_def types_ok_def list_all_iff
    by (auto split: if_splits simp del: MAX_OPTYPES_def) (meson in_set_dropD)
  show "table_ok dt \<Longrightarrow> table_ok dt'" using assms by (auto simp: iob_details_reset_def table_ok_def split: if_splits)
qed

lemma io_finish_types:
  assumes "io_finish_ld tp s = Inr (tp', s')" "unat (d_type (q_detail (t_iorp tp))) < MAX_OPTYPES" "types_ok (l_dt s)"
  shows "types_ok (l_dt s')"
proof -
  let ?d = "q_detail (t_iorp tp)"
  have rep: "types_ok (l_dt s1)" if "report_io_ld d lat ip s = Inr (d1, s1)" "d_type d = d_type ?d" for d lat ip d1 s1
    using that assms(2,3) by (auto simp: report_io_ld_def bind_res_Inr_iff split: option.splits if_splits dest: details_add_types)
  define idp where "idp = (if q_error (t_iorp tp) \<noteq> 0 then ?d\<lparr>d_flag := d_flag ?d OR IOD_ERROR\<rparr> else ?d)"
  have ty: "d_type idp = d_type ?d" by (simp add: idp_def)
  from assms(1) show ?thesis
    unfolding io_finish_ld_def Let_def idp_def [symmetric]
    using rep ty assms(3) by (auto simp: bind_res_Inr_iff split: if_splits)
qed

lemma request_keeps: "do_request rp d s = Inr (d', r, s') \<Longrightarrow> d_type d' = d_type d \<and> l_dt s' = l_dt s"
  by (auto simp: do_request_def do_sleep_def draw32_ld_def nanosleep_def set_rng_ld_def Let_def bind_res_Inr_iff
      split: prod.splits if_splits)

lemma io_start_types:
  assumes "io_start_ld tp s = Inr (tp', s')" "unat (d_type (q_detail (t_iorp tp))) < MAX_OPTYPES" "types_ok (l_dt s)"
  shows "types_ok (l_dt s')"
proof -
  from assms(1) obtain d1 r s2 tq s3 where r: "do_request (t_iorp tp) ((q_detail (t_iorp tp))\<lparr>d_flag := 0, d_start := fst (tick_ld s)\<rparr>)
      (snd (tick_ld s)) = Inr (d1, r, s2)"
    and f: "io_finish_ld tq s3 = Inr (tp', s')" "q_detail (t_iorp tq) = d1\<lparr>d_end := fst (tick_ld s2)\<rparr>" "s3 = snd (tick_ld s2)"
    unfolding io_start_ld_def by (auto simp: bind_res_Inr_iff Let_def split_beta)
  from request_keeps [OF r] assms(2,3) f(2,3) show ?thesis
    by (intro io_finish_types [OF f(1)]) (simp_all add: tick_ld_eq)
qed

text \<open>What I/O leaves of a thread and of the shared state, whatever the amount of it.\<close>

definition moved :: "nat \<Rightarrow> nat \<Rightarrow> iothread_ld \<times> lstate \<Rightarrow> iothread_ld \<times> lstate \<Rightarrow> bool" where
  "moved lo hi = (\<lambda>(tp, s) (tp', s'). thread_fixed_ld tp' = thread_fixed_ld tp \<and> state_fixed_ld s' = state_fixed_ld s
     \<and> state_ok_ld s' \<and> types_ok (l_dt s')
     \<and> (\<exists>cs. calls (l_env s') = calls (l_env s) @ cs \<and> (\<forall>c \<in> set cs. inside lo hi c)))"

lemma moved_trans: "moved lo hi x y \<Longrightarrow> moved lo hi y z \<Longrightarrow> moved lo hi x z"
  by (cases x; cases y; cases z) (auto simp: moved_def)

lemma moved_quiet:
  assumes "state_fixed_ld s' = state_fixed_ld s" "l_dt s' = l_dt s" "calls (l_env s') = calls (l_env s)"
    and "state_ok_ld s" "types_ok (l_dt s)"
  shows "moved lo hi (tp, s) (tp, s')"
  using assms state_ok_same [OF assms(1,2,4)] by (simp add: moved_def)

text \<open>A result that is a good state or the end of the fuel.\<close>

definition good_or_dry :: "('a \<Rightarrow> bool) \<Rightarrow> 'a res \<Rightarrow> bool" where
  "good_or_dry P r \<longleftrightarrow> (case r of Inl e \<Rightarrow> e = OutOfFuel | Inr x \<Rightarrow> P x)"

lemma good_or_dry_simps [simp]:
  "good_or_dry P (Inr x) = P x" "good_or_dry P (Inl e) = (e = OutOfFuel)"
  by (simp_all add: good_or_dry_def)

lemma good_or_dry_mono: "good_or_dry P r \<Longrightarrow> (\<And>x. P x \<Longrightarrow> Q x) \<Longrightarrow> good_or_dry Q r"
  by (auto simp: good_or_dry_def split: sum.splits)

lemma good_or_dry_bind: "good_or_dry P r \<Longrightarrow> (\<And>x. P x \<Longrightarrow> good_or_dry Q (f x)) \<Longrightarrow> good_or_dry Q (bind_res r f)"
  by (cases r) auto

lemma chunk_inside:
  assumes "call_offset c = base" "call_length c \<le> n" "lo \<le> unat base" "unat base + n \<le> hi"
  shows "inside lo hi c"
  using assms by (simp add: inside_def)

lemma chunks_moved:
  assumes "thread_ok_ld tp" "ip \<in> set (t_itlist tp)" "state_ok_ld s" "types_ok (l_dt s)" "sz \<le> int (unat (it_size ip))"
    and "it_optype ip \<noteq> SLEEP \<Longrightarrow> lo \<le> unat base \<and> unat base + nat sz \<le> hi" "hi < 2 ^ 64"
  shows "good_or_dry (\<lambda>(io', tp', s'). moved lo hi (tp, s) (tp', s')) (chunks_ld fuel ip sz base (ionum, tp, s))"
  using assms(1-6)
proof (induction fuel arbitrary: sz base ionum tp s)
  case 0
  then show ?case by (auto intro: moved_quiet)
next
  case (Suc fuel)
  show ?case
  proof (cases "0 < sz")
    case False
    then show ?thesis using Suc.prems(3,4) by (auto intro: moved_quiet)
  next
    case True
    let ?nb = "chunk_size (t_params tp) sz" and ?mx = "nat (p_maxiosize (t_params tp))"
    from chunk_step [OF Suc.prems(1-3) True Suc.prems(5), of base ionum] obtain tp1 s1 tp2 s2 where
      fc: "fill_chunk ip ?nb (set_chunk ip ?nb base ionum tp) s = Inr (tp1, s1)"
      and st: "io_start_ld tp1 s1 = Inr (tp2, s2)" and fx: "thread_fixed_ld tp2 = thread_fixed_ld tp"
        "state_fixed_ld s2 = state_fixed_ld s" "state_ok_ld s2"
      and n: "0 < unat (d_size (q_detail (t_iorp tp2)))" "int (unat (d_size (q_detail (t_iorp tp2)))) \<le> sz + 49"
      and c: "if it_optype ip = SLEEP then calls (l_env s2) = calls (l_env s)
       else \<exists>c. calls (l_env s2) = calls (l_env s) @ [c] \<and> call_writes c = (it_optype ip = WRITE)
         \<and> call_offset c = base \<and> call_length c = min ?mx (nat sz)
         \<and> unat (d_size (q_detail (t_iorp tp2))) = min ?mx (nat sz)" by blast
    let ?n = "d_size (q_detail (t_iorp tp2))"
    have f: "type_fits tp ip" using Suc.prems(1,2) by (auto simp: thread_ok_ld_def)
    have t1: "uint (d_type (q_detail (t_iorp tp1))) = it_optype ip" "l_dt s1 = l_dt s"
      using fc type_fits_optype [OF f] by (auto simp: fill_chunk_def set_chunk_def set_rng_ld_def bind_res_Inr_iff split: if_splits)
    have "unat (d_type (q_detail (t_iorp tp1))) < MAX_OPTYPES"
      using t1(1) type_fits_optype [OF f] unfolding unat_eq_nat_uint by auto
    then have ty: "types_ok (l_dt s2)" using io_start_types [OF st] t1(2) Suc.prems(4) by simp
    have it2: "thread_ok_ld tp2" "ip \<in> set (t_itlist tp2)" "t_params tp2 = t_params tp"
      using thread_ok_fixed [OF fx(1)] Suc.prems(1,2) fx(1) by (simp_all add: thread_fixed_ld_def)
    have "\<exists>cs. calls (l_env s2) = calls (l_env s) @ cs \<and> (\<forall>c \<in> set cs. inside lo hi c)"
    proof (cases "it_optype ip = SLEEP")
      case True
      then show ?thesis using c by simp
    next
      case False
      with c obtain c1 where "calls (l_env s2) = calls (l_env s) @ [c1]" "call_offset c1 = base" "call_length c1 \<le> nat sz" by auto
      with Suc.prems(6) False show ?thesis by (intro exI [of _ "[c1]"]) (auto intro: chunk_inside)
    qed
    then have m: "moved lo hi (tp, s) (tp2, s2)" using fx ty by (simp add: moved_def)
    have "unat (it_size ip) < 2147483648" using f by (simp add: type_fits_def)
    then have "sz < 2147483648" using Suc.prems(5) by linarith
    then have sz: "int_of_u32 (u32_of_int sz - ?n) = sz - int (unat ?n)" using sint_minus [OF True _ n(2)] by simp
    have le: "sz - int (unat ?n) \<le> int (unat (it_size ip))" using Suc.prems(5) n(1) by linarith
    have rest: "lo \<le> unat (base + ucast ?n) \<and> unat (base + ucast ?n) + nat (sz - int (unat ?n)) \<le> hi" if ns: "it_optype ip \<noteq> SLEEP"
    proof -
      have nle: "unat ?n \<le> nat sz" using c ns by auto
      have b: "lo \<le> unat base" "unat base + nat sz \<le> hi" using Suc.prems(6) ns by blast+
      have u: "unat (ucast ?n :: u64) = unat ?n" by (rule unat_ucast_u32)
      have "unat (base + ucast ?n) = unat base + unat ?n"
        using b(2) nle assms(7) by (subst unat_add_small) (auto simp: u)
      with b nle True show ?thesis by linarith
    qed
    note ih = Suc.IH [OF it2(1,2) fx(3) ty le rest, of "ionum + 1"]
    have "good_or_dry (\<lambda>(io', tp', s'). moved lo hi (tp, s) (tp', s'))
        (chunks_ld fuel ip (sz - int (unat ?n)) (base + ucast ?n) (ionum + 1, tp2, s2))"
      by (rule good_or_dry_mono [OF ih]) (auto intro: moved_trans [OF m])
    then show ?thesis using True fc st sz by (simp add: Let_def)
  qed
qed

text \<open>Repeated writes are more of the same.\<close>

lemma repeats_moved:
  assumes "thread_ok_ld tp" "ip \<in> set (t_itlist tp)" "state_ok_ld s" "types_ok (l_dt s)"
    and "it_optype ip \<noteq> SLEEP \<Longrightarrow> lo \<le> unat off \<and> unat off + unat (it_size ip) \<le> hi" "hi < 2 ^ 64"
  shows "good_or_dry (\<lambda>(io', tp', s'). moved lo hi (tp, s) (tp', s')) (repeats_ld fuel ip off (ionum, tp, s))"
  using assms(1-4)
proof (induction fuel arbitrary: ionum tp s)
  case (Suc fuel)
  have f: "type_fits tp ip" using Suc.prems(1,2) by (auto simp: thread_ok_ld_def)
  note z = type_size_sint(1) [OF f]
  have "int_of_u32 (it_size ip) \<le> int (unat (it_size ip))" unfolding z ..
  moreover have "lo \<le> unat off \<and> unat off + nat (int_of_u32 (it_size ip)) \<le> hi" if "it_optype ip \<noteq> SLEEP"
    unfolding z using assms(5) [OF that] by simp
  ultimately have c: "good_or_dry (\<lambda>(io', tp', s'). moved lo hi (tp, s) (tp', s'))
      (chunks_ld (Suc fuel) ip (int_of_u32 (it_size ip)) off (ionum, tp, s))"
    using chunks_moved [OF Suc.prems _ _ assms(6)] by blast
  show ?case unfolding repeats_ld.simps
  proof (rule good_or_dry_bind [OF c])
    fix x :: "u64 \<times> iothread_ld \<times> lstate"
    assume x: "case x of (io', tp', s') \<Rightarrow> moved lo hi (tp, s) (tp', s')"
    obtain io1 tp1 s1 where x1: "x = (io1, tp1, s1)" by (cases x)
    obtain d s2 where d: "draw_dbl_ld s1 = (d, s2)" by fastforce
    note ds = draw_dbl_ld_simps [OF d]
    have m1: "moved lo hi (tp, s) (tp1, s1)" using x x1 by simp
    then have ok1: "state_ok_ld s1" "types_ok (l_dt s1)" and fx: "thread_fixed_ld tp1 = thread_fixed_ld tp" by (simp_all add: moved_def)
    have m2: "moved lo hi (tp, s) (tp1, s2)" by (rule moved_trans [OF m1 moved_quiet [OF ds(2,3,5) ok1]])
    have t: "thread_ok_ld tp1" "ip \<in> set (t_itlist tp1)"
      using thread_ok_fixed [OF fx] Suc.prems(1,2) fx by (simp_all add: thread_fixed_ld_def)
    have "state_ok_ld s2" "types_ok (l_dt s2)" using m2 by (simp_all add: moved_def)
    note ih = Suc.IH [OF t this, of io1]
    have "good_or_dry (\<lambda>(io', tp', s'). moved lo hi (tp, s) (tp', s')) (repeats_ld fuel ip off (io1, tp1, s2))"
      by (rule good_or_dry_mono [OF ih]) (auto intro: moved_trans [OF m2])
    then show "good_or_dry (\<lambda>(io', tp', s'). moved lo hi (tp, s) (tp', s')) (case x of (ionum, tp, s) \<Rightarrow>
        if it_optype ip = WRITE then let (d, s1) = draw_dbl_ld s in
          if d < it_repwrite ip then repeats_ld fuel ip off (ionum, tp, s1) else Inr (ionum, tp, s1)
        else Inr (ionum, tp, s))"
      using m1 m2 by (simp add: x1 d)
  qed
qed simp

section \<open>A turn of the loop\<close>

text \<open>The threads of a run, as the initialisation made them and I/O leaves them.\<close>

definition sound_thread :: "params_ld \<Rightarrow> itype list \<Rightarrow> iothread_ld \<Rightarrow> bool" where
  "sound_thread cp its tp \<longleftrightarrow> thread_ok_ld tp \<and> t_params tp = cp \<and> t_itlist tp = its
     \<and> t_rangeoff tp = range_ld (max_itsize its) cp"

lemma sound_thread_fixed: "thread_fixed_ld tp' = thread_fixed_ld tp \<Longrightarrow> sound_thread cp its tp' = sound_thread cp its tp"
  using thread_ok_fixed [of tp' tp] by (simp add: sound_thread_def thread_fixed_ld_def)

text \<open>Without a header a size must divide the range.\<close>

definition sizes_fit :: "params_ld \<Rightarrow> itype list \<Rightarrow> bool" where
  "sizes_fit cp its \<longleftrightarrow> sound_options cp its
     \<and> (\<forall>ip \<in> set its. it_optype ip = SLEEP \<or> p_headersz cp \<noteq> 0 \<or> unat (it_size ip) dvd unat (p_maxoff cp) - unat (p_minoff cp))"

abbreviation in_run :: "params_ld \<Rightarrow> iocall \<Rightarrow> bool" where
  "in_run cp \<equiv> inside (unat (p_minoff cp)) (unat (p_maxoff cp))"

lemma offset_in_range:
  assumes "sizes_fit cp its" "sound_thread cp its tp" "ip \<in> set its" "pick_offset tp ip r = Inr off" "it_optype ip \<noteq> SLEEP"
  shows "unat (p_minoff cp) \<le> unat off \<and> unat off + unat (it_size ip) \<le> unat (p_maxoff cp)"
proof -
  have so: "sound_options cp its" using assms(1) by (simp add: sizes_fit_def)
  have l: "list_all (\<lambda>ip. unat (it_size ip) < 2 ^ 31) its" using so by (auto simp: sound_options_def list_all_iff)
  have ip: "itype_ok ip" using so assms(3) by (auto simp: sound_options_def list_all_iff)
  have h: "512 dvd unat (p_headersz cp)" using so by (auto simp: sound_options_def intro: dvd_trans [rotated])
  have s: "512 dvd unat (it_size ip)" using ip assms(5) by (simp add: itype_ok_def)
  have m: "p_multiplier cp = 1" using so by (simp add: sound_options_def)
  have t: "t_params tp = cp" "t_rangeoff tp = range_ld (max_itsize its) cp" "range_ld (max_itsize its) cp \<noteq> 0"
    using assms(2) by (auto simp: sound_thread_def thread_ok_ld_def)
  have d: "p_headersz cp \<noteq> 0 \<or> unat (it_size ip) dvd unat (p_maxoff cp) - unat (p_minoff cp)"
    using assms(1,3,5) by (auto simp: sizes_fit_def)
  from pick_offset_in [OF sound_options_range(1) [OF so] t m h itype_ok_positive [OF ip] s max_itsize_ok(3) [OF l assms(3)] d, of r]
    assms(4) show ?thesis by auto
qed

lemma turn_moved:
  assumes "sizes_fit cp its" "sound_thread cp its tp" "state_ok_ld s" "types_ok (l_dt s)"
  shows "good_or_dry (\<lambda>(n', io', tp', s'). moved (unat (p_minoff cp)) (unat (p_maxoff cp)) (tp, s) (tp', s'))
    (io_turn_ld fuel iotime (nextio, ionum, tp, s))"
proof -
  let ?lo = "unat (p_minoff cp)" and ?hi = "unat (p_maxoff cp)"
  have tok: "thread_ok_ld tp" and its: "t_itlist tp = its" using assms(2) by (simp_all add: sound_thread_def)
  obtain d s1 where d: "draw_dbl_ld s = (d, s1)" by fastforce
  note ds = draw_dbl_ld_simps [OF d]
  have "t_itlist tp \<noteq> []" using tok by (simp add: thread_ok_ld_def)
  from select_itype_total [OF this, of d] obtain ip where
    ip: "select_itype (t_itlist tp) d = Inr ip" "ip \<in> set (t_itlist tp)" by blast
  obtain r s2 where r: "draw64_ld s1 = (r, s2)" by fastforce
  note rs = draw64_ld_simps [OF r]
  obtain off where off: "pick_offset tp ip r = Inr off" using pick_offset_total [OF tok ip(2)] by blast
  have m: "moved ?lo ?hi (tp, s) (tp, s2)" using ds rs assms(3,4) by (intro moved_quiet) simp_all
  then have ok2: "state_ok_ld s2" "types_ok (l_dt s2)" by (simp_all add: moved_def)
  have "?lo \<le> unat off \<and> unat off + unat (it_size ip) \<le> ?hi" if "it_optype ip \<noteq> SLEEP"
    using offset_in_range [OF assms(1,2) _ off that] ip(2) its by simp
  moreover have "?hi < 2 ^ 64" using unsigned_less [of "p_maxoff cp"] by simp
  ultimately have rp: "good_or_dry (\<lambda>(io', tp', s'). moved ?lo ?hi (tp, s2) (tp', s')) (repeats_ld fuel ip off (ionum, tp, s2))"
    using repeats_moved [OF tok ip(2) ok2] by blast
  have pace: "moved ?lo ?hi (tp, s) (tp3, snd (pace iotime nextio tp3 s3))" if "moved ?lo ?hi (tp, s2) (tp3, s3)" for tp3 s3
  proof -
    obtain n s4 where p: "pace iotime nextio tp3 s3 = (n, s4)" by fastforce
    have "state_ok_ld s3" "types_ok (l_dt s3)" using that by (simp_all add: moved_def)
    from moved_quiet [OF pace_simps(1,2,4) [OF p] this, of ?lo ?hi tp3] show ?thesis
      using moved_trans [OF m moved_trans [OF that]] p by simp
  qed
  show ?thesis
    unfolding io_turn_ld_def prod.case d Let_def ip(1) bind_res_simps r off
    by (rule good_or_dry_bind [OF rp]) (use pace in \<open>auto simp: split_beta\<close>)
qed

section \<open>The run\<close>

text \<open>What is true in every state of a run.\<close>

definition ls_ok :: "params_ld \<Rightarrow> lstate \<Rightarrow> bool" where
  "ls_ok cp ls \<longleftrightarrow> state_ok_ld ls \<and> types_ok (l_dt ls) \<and> (\<forall>c \<in> set (calls (l_env ls)). in_run cp c)"

definition run_ok :: "params_ld \<Rightarrow> itype list \<Rightarrow> lsys \<Rightarrow> bool" where
  "run_ok cp its s \<longleftrightarrow> shape_ld s \<and> y_files s \<noteq> [] \<and> ls_ok cp (y_ls s) \<and> (\<forall>tp \<in> set (y_ths s). sound_thread cp its tp)"

text \<open>How the steps may fail: a thread by waiting, or for want of fuel; the main thread by waiting, or with an exit status and a message.\<close>

definition io_faults :: "bool \<Rightarrow> fault set" where
  "io_faults dry = (if dry then {OutOfFuel} else {})"

abbreviation thread_faults :: "bool \<Rightarrow> fault set" where
  "thread_faults dry \<equiv> insert Blocked (io_faults dry)"

definition exits :: "fault set" where
  "exits = {Exited st msgs | st msgs. True}"

abbreviation main_faults :: "fault set" where
  "main_faults \<equiv> insert Blocked exits"

definition safe_step :: "fault set \<Rightarrow> params_ld \<Rightarrow> itype list \<Rightarrow> lsys res \<Rightarrow> bool" where
  "safe_step E cp its r \<longleftrightarrow> (case r of Inl e \<Rightarrow> e \<in> E | Inr s' \<Rightarrow> run_ok cp its s')"

lemma safe_step_simps [simp]:
  "safe_step E cp its (Inr s) = run_ok cp its s" "safe_step E cp its (Inl e) = (e \<in> E)"
  "OutOfFuel \<in> io_faults dry \<longleftrightarrow> dry" "Blocked \<notin> io_faults dry" "Blocked \<notin> exits" "Exited st msgs \<in> exits"
  by (simp_all add: safe_step_def io_faults_def exits_def)

text \<open>Enough fuel for a turn of the loop, when no type repeats its writes.\<close>

definition fuel_for :: "itype list \<Rightarrow> nat \<Rightarrow> bool" where
  "fuel_for its fuel \<longleftrightarrow> 0 < fuel \<and> (\<forall>ip \<in> set its. it_repwrite ip \<le> 0 \<and> unat (it_size ip) < fuel)"

lemma ls_ok_moved:
  "moved (unat (p_minoff cp)) (unat (p_maxoff cp)) (tp, ls) (tp', ls') \<Longrightarrow> ls_ok cp ls \<Longrightarrow> ls_ok cp ls'"
  by (auto simp: moved_def ls_ok_def)

text \<open>The rest of a step of a thread touches the clock, the generator and the times of the level only.\<close>

lemma ls_ok_quiet [simp]:
  "ls_ok cp (ls\<lparr>l_cur := c\<rparr>) = ls_ok cp ls" "ls_ok cp (ls\<lparr>l_starttime := t\<rparr>) = ls_ok cp ls"
  "ls_ok cp (set_rng_ld x ls) = ls_ok cp ls" "ls_ok cp (snd (tick_ld ls)) = ls_ok cp ls"
  by (simp_all add: ls_ok_def state_ok_ld_def set_rng_ld_def tick_ld_eq full_transfers_def)

lemma ls_ok_tick: "tick_ld ls = (t, ls') \<Longrightarrow> ls_ok cp ls' = ls_ok cp ls"
  using ls_ok_quiet(4) [of cp ls] by simp

lemma run_ok_simps [simp]:
  "run_ok cp its (goto_ld j p s) = run_ok cp its s" "run_ok cp its (post_stop j s) = run_ok cp its s"
  "run_ok cp its (post_start j s) = run_ok cp its s" "run_ok cp its (set_threads_ld n s) = run_ok cp its s"
  "run_ok cp its (s\<lparr>y_main := m\<rparr>) = run_ok cp its s" "run_ok cp its (s\<lparr>y_out := os\<rparr>) = run_ok cp its s"
  "run_ok cp its (s\<lparr>y_start := (y_start s)[j := a]\<rparr>) = run_ok cp its s"
  "run_ok cp its (s\<lparr>y_stop := (y_stop s)[j := a]\<rparr>) = run_ok cp its s"
  by (simp_all add: run_ok_def shape_ld_def goto_ld_def post_stop_def post_start_def set_threads_ld_def)

lemma run_ok_ls: "run_ok cp its s \<Longrightarrow> ls_ok cp ls \<Longrightarrow> run_ok cp its (s\<lparr>y_ls := ls\<rparr>)"
  by (simp add: run_ok_def shape_ld_def)

lemma run_ok_parts: "run_ok cp its s \<Longrightarrow> ls_ok cp (y_ls s)" "run_ok cp its s \<Longrightarrow> j < length (y_ths s) \<Longrightarrow> sound_thread cp its (y_ths s ! j)"
  by (simp_all add: run_ok_def)

lemma busy_safe:
  assumes "sizes_fit cp its" "run_ok cp its s" "j < length (y_ths s)"
  shows "safe_step (io_faults (\<not> fuel_for its fuel)) cp its (step_busy fuel iotime nextio ionum j s)"
proof (cases "d_start (q_detail (t_iorp (y_ths s ! j))) < c_finish (l_cur (y_ls s))")
  case False
  then show ?thesis using assms(2) by (simp add: step_busy_def Let_def)
next
  case True
  let ?tp = "y_ths s ! j" and ?r = "io_turn_ld fuel iotime (nextio, ionum, y_ths s ! j, y_ls s)"
  note ok = run_ok_parts(1) [OF assms(2)] run_ok_parts(2) [OF assms(2,3)]
  have st: "step_busy fuel iotime nextio ionum j s = bind_res ?r (\<lambda>(nextio', ionum', tp', ls).
      Inr (goto_ld j (Busy iotime nextio' ionum') (s\<lparr>y_ls := ls, y_ths := (y_ths s)[j := tp']\<rparr>)))"
    using True by (simp add: step_busy_def Let_def)
  have "state_ok_ld (y_ls s)" "types_ok (l_dt (y_ls s))" using ok(1) by (simp_all add: ls_ok_def)
  note t = turn_moved [OF assms(1) ok(2) this, of fuel iotime nextio ionum]
  show ?thesis
  proof (cases ?r)
    case (Inl e)
    have "\<not> fuel_for its fuel"
    proof
      assume fu: "fuel_for its fuel"
      then obtain m where m: "fuel = Suc m" by (cases fuel) (simp_all add: fuel_for_def)
      have "thread_ok_ld ?tp" "t_itlist ?tp = its" using ok(2) by (simp_all add: sound_thread_def)
      with io_turn_ld_ok [OF this(1) \<open>state_ok_ld (y_ls s)\<close>, of m iotime nextio ionum] this(2) fu Inl show False
        by (auto simp: fuel_for_def m less_Suc_eq_le)
    qed
    with t Inl show ?thesis by (simp add: st)
  next
    case (Inr x)
    then obtain n' io' tp' ls' where x: "?r = Inr (n', io', tp', ls')" by (cases x) auto
    with t have m: "moved (unat (p_minoff cp)) (unat (p_maxoff cp)) (?tp, y_ls s) (tp', ls')" by simp
    then have "sound_thread cp its tp'" using sound_thread_fixed [of tp' ?tp] ok(2) by (simp add: moved_def)
    with assms(2) ls_ok_moved [OF m ok(1)] have "run_ok cp its (s\<lparr>y_ls := ls', y_ths := (y_ths s)[j := tp']\<rparr>)"
      by (auto simp: run_ok_def shape_ld_def dest: set_update_subset_insert [THEN subsetD])
    then show ?thesis by (simp add: st x)
  qed
qed

lemma safe_step_mono: "safe_step E cp its r \<Longrightarrow> E \<subseteq> F \<Longrightarrow> safe_step F cp its r"
  by (auto simp: safe_step_def split: sum.splits)

lemma thread_step_safe:
  assumes "sizes_fit cp its" "run_ok cp its s" "j < nthreads_ld s"
  shows "safe_step (thread_faults (\<not> fuel_for its fuel)) cp its (thread_step_ld fuel j s)"
proof -
  have j: "j < length (y_ths s)" using assms(2,3) by (simp add: nthreads_ld_def run_ok_def shape_ld_def)
  note ls = run_ok_parts(1) [OF assms(2)]
  obtain t ls1 where t: "tick_ld (y_ls s) = (t, ls1)" by fastforce
  have ls1: "ls_ok cp ls1" using ls ls_ok_tick [OF t] by simp
  have "ls_ok cp (seed_ld (y_ls s))" using ls1 by (simp add: seed_ld_def t)
  then have a: "run_ok cp its (s\<lparr>y_ls := seed_ld (y_ls s)\<rparr>)" by (rule run_ok_ls [OF assms(2)])
  have e: "run_ok cp its (enter_do_io j s)"
    using assms(2) run_ok_ls [OF assms(2) ls1] by (simp add: enter_do_io_def Let_def t)
  show ?thesis
    using assms(2) a e safe_step_mono [OF busy_safe [OF assms(1,2) j] subset_insertI] by (cases "y_pcs s ! j") (simp_all add: thread_step_ld_def)
qed

text \<open>A report is written, or ends the program; it leaves the table of details in order.\<close>

lemma output_safe:
  assumes "flist \<noteq> []" "table_ok dt" "types_ok dt"
  shows "case load_output oe n start stop br status (flist, dt, os) of
      Inl e \<Rightarrow> e \<in> exits
    | Inr (flist', dt', os') \<Rightarrow> table_ok dt' \<and> types_ok dt'"
proof (cases "output_header oe flist os")
  case (Inl e)
  then have "e \<in> exits" using assms(1)
    by (cases "o_fpout os"; cases flist) (auto simp: output_header_def fopen_report_def iob_errlog_def split: if_splits)
  then show ?thesis using Inl by (simp add: load_output_def Let_def)
next
  case (Inr os1)
  let ?counted = "map count_file_ld flist"
  let ?sys = "select_use status ((o_systot os1)\<lparr>f_cur := sum_system ?counted\<rparr>)"
  let ?used = "map (select_use status) ?counted" and ?os = "os1\<lparr>o_systot := ?sys\<rparr>"
  obtain br2 where o: "load_output oe n start stop br status (flist, dt, os)
      = bind_res (output_times_ld oe n start stop br2 status ?used dt ?os) (after_report status (oe_ru oe))"
    unfolding load_output_def Let_def prod.case Inr bind_res_simps by blast
  have "?used \<noteq> []" using assms(1) by simp
  note c = output_times_cases [OF this, of oe dt ?os status n start stop br2]
  let ?dt = "if lo_longlats (oe_opts oe) then dt\<lparr>cur_iodet := 0\<rparr> else dt"
  have d: "table_ok ?dt" "types_ok ?dt" using assms(2,3) by (simp_all add: table_ok_def types_ok_def)
  have "(\<exists>m. output_times_ld oe n start stop br2 status ?used dt ?os = Inl (Exited 3 m))
    \<or> (\<exists>fl os'. output_times_ld oe n start stop br2 status ?used dt ?os = Inr (fl, ?dt, os'))"
    using c table_listable [OF assms(2,3)] unfolding Let_def by (auto split: if_splits)
  then show ?thesis
  proof
    assume "\<exists>m. output_times_ld oe n start stop br2 status ?used dt ?os = Inl (Exited 3 m)"
    then show ?thesis by (auto simp: o)
  next
    assume "\<exists>fl os'. output_times_ld oe n start stop br2 status ?used dt ?os = Inr (fl, ?dt, os')"
    then obtain fl os' where r: "output_times_ld oe n start stop br2 status ?used dt ?os = Inr (fl, ?dt, os')" by blast
    show ?thesis
    proof (cases status)
      case True
      then show ?thesis unfolding o r bind_res_simps using d by (simp add: after_report_def)
    next
      case False
      have "\<exists>dt2. iob_details_reset True ?dt = Inr dt2" using d(1) by (simp add: iob_details_reset_def table_ok_def)
      then obtain dt2 where dt2: "iob_details_reset True ?dt = Inr dt2" by blast
      from details_reset_ok [OF dt2] d have "types_ok dt2 \<and> table_ok dt2" by blast
      then show ?thesis unfolding o r bind_res_simps using False by (simp add: after_report_def dt2)
    qed
  qed
qed

lemma regroup_ne: "fs \<noteq> [] \<Longrightarrow> regroup fs ths \<noteq> []"
  by (cases fs) simp_all

lemma fixed_sound:
  assumes "map thread_fixed_ld ts = map thread_fixed_ld us" "\<forall>tp \<in> set us. sound_thread cp its tp"
  shows "\<forall>tp \<in> set ts. sound_thread cp its tp"
proof -
  have l: "length ts = length us" using assms(1) by (metis length_map)
  have "sound_thread cp its (ts ! i)" if "i < length ts" for i
  proof -
    have "thread_fixed_ld (ts ! i) = thread_fixed_ld (us ! i)" using assms(1) that l by (metis nth_map)
    then show ?thesis using sound_thread_fixed [of "ts ! i" "us ! i"] assms(2) that l by simp
  qed
  then show ?thesis by (auto simp: in_set_conv_nth)
qed

lemma report_safe:
  assumes "run_ok cp its s"
  shows "safe_step exits cp its (report_now env start stop br status s)"
proof -
  have s: "shape_ld s" "y_files s \<noteq> []" "ls_ok cp (y_ls s)" "\<forall>tp \<in> set (y_ths s). sound_thread cp its tp"
    using assms by (simp_all add: run_ok_def)
  have dt: "table_ok (l_dt (y_ls s))" "types_ok (l_dt (y_ls s))" using s(3) by (simp_all add: ls_ok_def state_ok_ld_def)
  obtain oe n where r: "report_now env start stop br status s
      = bind_res (load_output oe n start stop br status (regroup (y_files s) (y_ths s), l_dt (y_ls s), y_out s)) (\<lambda>(flist, dt, os).
           Inr (s\<lparr>y_files := flist, y_ths := all_threads flist, y_ls := (y_ls s)\<lparr>l_dt := dt\<rparr>, y_out := os\<rparr>))"
    unfolding report_now_def Let_def by blast
  note o = output_safe [OF regroup_ne [OF s(2)] dt, of oe n start stop br status "y_ths s" "y_out s"]
  show ?thesis
  proof (cases "load_output oe n start stop br status (regroup (y_files s) (y_ths s), l_dt (y_ls s), y_out s)")
    case (Inl e)
    with o show ?thesis by (simp add: r)
  next
    case (Inr x)
    obtain fl dt' os where x: "x = (fl, dt', os)" by (cases x)
    let ?s = "s\<lparr>y_files := fl, y_ths := all_threads fl, y_ls := (y_ls s)\<lparr>l_dt := dt'\<rparr>, y_out := os\<rparr>"
    have e: "report_now env start stop br status s = Inr ?s" by (simp add: r Inr x)
    note f = report_frame [OF e s(1)]
    have "map f_params_ld (y_files ?s) = map f_params_ld (y_files s)" using f(1) by (simp add: frame_of_def)
    then have ne: "y_files ?s \<noteq> []" using s(2) by (metis map_is_Nil_conv)
    have th: "\<forall>tp \<in> set (y_ths ?s). sound_thread cp its tp" by (rule fixed_sound [OF f(8) s(4)])
    have "ls_ok cp (y_ls ?s)" using o s(3) Inr x by (simp add: ls_ok_def state_ok_ld_def)
    then have "run_ok cp its ?s" using f(2) ne th unfolding run_ok_def by blast
    then show ?thesis by (simp add: e)
  qed
qed

lemma report_after_tick:
  assumes "run_ok cp its s" "tick_ld (y_ls s) = (t, ls)"
  shows "run_ok cp its (s\<lparr>y_ls := ls\<rparr>)"
  using run_ok_ls [OF assms(1)] run_ok_parts(1) [OF assms(1)] ls_ok_tick [OF assms(2)] by blast

lemma main_step_safe:
  assumes "run_ok cp its s"
  shows "safe_step main_faults cp its (main_step env s)"
proof -
  have bind: "safe_step main_faults cp its (bind_res r (\<lambda>s'. Inr (s'\<lparr>y_main := m\<rparr>)))" if "safe_step exits cp its r" for r m
    using that by (cases r) simp_all
  obtain t ls where t: "tick_ld (y_ls s) = (t, ls)" by fastforce
  note ls = report_after_tick [OF assms t]
  have wait: "safe_step main_faults cp its (wait_stop k m s)" for k m
    using assms by (simp add: wait_stop_def)
  have watch: "safe_step main_faults cp its (step_watch env i u r s)" for i u r
    using bind [OF report_safe [OF ls]] assms by (simp add: step_watch_def t)
  have level: "run_ok cp its (begin_level env i s)" for i
    using assms run_ok_parts(1) [OF assms] ls_ok_tick [OF t] by (simp add: begin_level_def t Let_def) (simp add: run_ok_def shape_ld_def)
  have create: "safe_step main_faults cp its (bind_res (iob_thr_create lib r) (\<lambda>_. Inr s'))" if "run_ok cp its s'" for lib r s'
    using that by (simp add: iob_thr_create_def iob_errlog_def exits_def)
  show ?thesis
    using assms wait watch level create bind [OF report_safe [OF assms]]
    by (cases "y_main s") (simp_all add: main_step_def Let_def)
qed

lemma sys_step_safe:
  assumes "sizes_fit cp its" "run_ok cp its s"
  shows "safe_step (if a = Main then main_faults else thread_faults (\<not> fuel_for its fuel)) cp its (sys_step env fuel a s)"
  using main_step_safe [OF assms(2)] thread_step_safe [OF assms] by (cases a) (simp_all add: sys_step_def)

lemma run_stays_ok:
  assumes "load_run env fuel s0 evs s" "sizes_fit cp its" "run_ok cp its s0"
  shows "run_ok cp its s"
  using assms(1)
proof (induction rule: load_run.induct)
  case run_begin
  show ?case by (rule assms(3))
next
  case (run_move evs s a s')
  with sys_step_safe [OF assms(2) run_move.IH, of a fuel env] show ?case by simp
qed

text \<open>A thread that does not wait goes on; so does the main thread, unless it ends the program.\<close>

lemma thread_goes_on:
  assumes "sizes_fit cp its" "run_ok cp its s"
  shows "waits (Thr j) s \<or> (\<exists>s'. sys_step env fuel (Thr j) s = Inr s')
    \<or> sys_step env fuel (Thr j) s = Inl OutOfFuel \<and> \<not> fuel_for its fuel"
proof (cases "waits (Thr j) s")
  case False
  then have j: "j < nthreads_ld s" by (auto simp: waits_def)
  then have "j < length (y_ths s)" using assms(2) by (simp add: nthreads_ld_def run_ok_def shape_ld_def)
  note b = busy_safe [OF assms this, of fuel]
  show ?thesis
  proof (cases "y_pcs s ! j")
    case (Busy x y z)
    with j have st: "sys_step env fuel (Thr j) s = step_busy fuel x y z j s" by (simp add: sys_step_def thread_step_ld_def)
    show ?thesis
    proof (cases "step_busy fuel x y z j s")
      case (Inl e)
      with b [of x y z] have "e \<in> io_faults (\<not> fuel_for its fuel)" by simp
      with Inl st show ?thesis by (auto simp: io_faults_def split: if_splits)
    qed (simp add: st)
  qed (use False j in \<open>auto simp: sys_step_def thread_step_ld_def waits_def\<close>)
qed simp

lemma main_goes_on:
  assumes "run_ok cp its s"
  shows "waits Main s \<or> (\<exists>s'. sys_step env fuel Main s = Inr s') \<or> (\<exists>st msgs. sys_step env fuel Main s = Inl (Exited st msgs))"
proof -
  have bind: "(\<exists>s'. bind_res r (\<lambda>s'. Inr (s'\<lparr>y_main := m\<rparr>)) = Inr s') \<or> (\<exists>st msgs. bind_res r (\<lambda>s'. Inr (s'\<lparr>y_main := m\<rparr>)) = Inl (Exited st msgs))"
    if "safe_step exits cp its r" for r :: "lsys res" and m
    using that by (cases r) (auto simp: exits_def)
  obtain t ls where t: "tick_ld (y_ls s) = (t, ls)" by fastforce
  note rep = bind [OF report_safe [OF assms]] bind [OF report_safe [OF report_after_tick [OF assms t]]]
  show ?thesis
  proof (cases "y_main s")
    case (Watch i u r)
    then have "sys_step env fuel Main s = step_watch env i u r s" by (simp add: sys_step_def main_step_def Let_def)
    then show ?thesis using rep(2) [of env u t r True "Watch i t r"]
      by (cases "status_due s u") (simp_all add: step_watch_def t)
  next
    case (Summarise i r)
    then show ?thesis
      using rep(1) [of env "c_endwarmup (l_cur (y_ls s))" "c_endinterval (l_cur (y_ls s))" r False "Level (next_level (run_params s) i)"]
      by (simp add: sys_step_def main_step_def Let_def)
  qed (auto simp: sys_step_def main_step_def wait_stop_def waits_def iob_thr_create_def iob_errlog_def Let_def)
qed

text \<open>The initialisation starts the run in order.\<close>

lemma start_ok_ld:
  assumes "sizes_fit cp its" "create_files_ld lib opn names cp its = Inr flist" "names \<noteq> []"
    and "state_ok_ld ls" "types_ok (l_dt ls)" "calls (l_env ls) = []"
  shows "run_ok cp its (start_load ls flist)"
proof -
  note c = create_files_ready [OF assms(2)]
  have so: "sound_options cp its" using assms(1) by (simp add: sizes_fit_def)
  have "sound_thread cp its tp" if tp: "f \<in> set flist" "tp \<in> set (f_ithreads f)" for f tp
  proof -
    have cr: "created_ld (max_itsize its) cp its tp" using ready_thread [OF _ tp(2)] c tp(1) by blast
    from created_thread_ok [OF so cr] c cr show ?thesis by (simp add: sound_thread_def created_ld_def)
  qed
  moreover have "flist \<noteq> []" using c assms(3) by auto
  moreover have "ls_ok cp ls" using assms(4-6) by (simp add: ls_ok_def)
  ultimately show ?thesis
    by (auto simp: start_load_def run_ok_def shape_ld_def set_threads_ld_def all_threads_def Let_def)
qed

section \<open>The whole program\<close>

text \<open>
  \<open>main\<close>: the command line, \<open>init_threads\<close>, and the start of \<open>runtest\<close>. The environment answers the calls of the kernel; the
  generator is left as \<open>iob_initdata\<close> leaves it.
\<close>

definition load_main ::
    "string \<Rightarrow> nat \<Rightarrow> opener_ld \<Rightarrow> bytes \<Rightarrow> bytes \<Rightarrow> (nat \<Rightarrow> u64 \<times> u64 \<Rightarrow> int \<times> int) \<Rightarrow> env \<Rightarrow> string list
       \<Rightarrow> (load_opts \<times> lsys) res" where
  "load_main argv0 limit opn vm pst sleeps e args =
     bind_res (load_cmdline argv0 limit args) (\<lambda>(opts, filenames).
     let lib = iob_libinit argv0 usage_text_ld limit in
     bind_res (init_threads_ld lib opn vm pst filenames (lo_params opts) (lo_itlist opts)) (\<lambda>(flist, pools, dt, x).
       Inr (opts, start_load
         \<lparr>l_lib = lib, l_pools = pools, l_env = e\<lparr>rng := x\<rparr>, l_dt = dt, l_cur = zero_curtest, l_starttime = 0,
          l_ign_errors = lo_ign_errors opts, l_nanosleep = sleeps, l_sleeps = []\<rparr> flist)))"

text \<open>
  What an accepted command line does not guarantee, and a run needs to stay in its range: no multiplier, sizes and a largest request that
  an \<open>int\<close> holds, a header of whole kilobytes, room for the largest I/O, and without a header sizes that divide the range.
\<close>

definition plain_load :: "params_ld \<Rightarrow> itype list \<Rightarrow> bool" where
  "plain_load cp its \<longleftrightarrow> p_multiplier cp = 1 \<and> 0 < p_maxiosize cp \<and> p_maxiosize cp < 2 ^ 31
     \<and> 1024 dvd unat (p_headersz cp) \<and> unat (p_headersz cp) < 2 ^ 63
     \<and> list_all (\<lambda>ip. unat (it_size ip) < 2 ^ 31) its
     \<and> unat (p_minoff cp) + nat (max_itsize its) \<le> unat (p_maxoff cp)
     \<and> (\<forall>ip \<in> set its. it_optype ip = SLEEP \<or> p_headersz cp \<noteq> 0 \<or> unat (it_size ip) dvd unat (p_maxoff cp) - unat (p_minoff cp))"

text \<open>The kernel completes every transfer and interrupts no sleep.\<close>

definition kind_kernel :: "(nat \<Rightarrow> u64 \<times> u64 \<Rightarrow> int \<times> int) \<Rightarrow> env \<Rightarrow> bool" where
  "kind_kernel sleeps e \<longleftrightarrow> full_transfers e \<and> calls e = [] \<and> (\<forall>n ts. fst (sleeps n ts) = 0)"

lemma trace_table:
  assumes "iob_details_init lib NIOTRACE empty_dtable = Inr dt"
  shows "table_ok dt" "types_ok dt"
proof -
  have b: "details_bytes NIOTRACE = 8800000" by (simp add: details_bytes_def)
  have dt: "dt = \<lparr>cur_iodet = 0, niodet = u64_of_int NIOTRACE, details = replicate (nat NIOTRACE) zero_iodet\<rparr>"
  proof (cases "8800000 \<le> int (heap_limit lib)")
    case True
    with details_init_ok [of NIOTRACE lib] assms show ?thesis by simp
  next
    case False
    with assms b show ?thesis by (auto simp: iob_details_init_def iob_malloc_def bind_res_Inr_iff Let_def split: if_splits)
  qed
  show "table_ok dt" by (simp add: dt table_ok_def)
  show "types_ok dt" by (simp add: dt types_ok_def list_all_length zero_iodet_def)
qed

lemma main_starts:
  assumes "load_main argv0 limit opn vm pst sleeps e args = Inr (opts, s0)" "length vm = table_size" "length pst = table_size"
    and "plain_load (lo_params opts) (lo_itlist opts)" "kind_kernel sleeps e"
  shows "sizes_fit (lo_params opts) (lo_itlist opts)" "run_ok (lo_params opts) (lo_itlist opts) s0"
proof -
  let ?lib = "iob_libinit argv0 usage_text_ld limit" and ?cp = "lo_params opts" and ?its = "lo_itlist opts"
  from assms(1) obtain files flist pools dt x where c: "load_cmdline argv0 limit args = Inr (opts, files)"
    and i: "init_threads_ld ?lib opn vm pst files ?cp ?its = Inr (flist, pools, dt, x)"
    and s0: "s0 = start_load \<lparr>l_lib = ?lib, l_pools = pools, l_env = e\<lparr>rng := x\<rparr>, l_dt = dt, l_cur = zero_curtest,
       l_starttime = 0, l_ign_errors = lo_ign_errors opts, l_nanosleep = sleeps, l_sleeps = []\<rparr> flist"
    by (auto simp: load_main_def bind_res_Inr_iff Let_def)
  note ok = load_cmdline_ok [OF c]
  have "?its \<noteq> []" using ok by auto
  with ok assms(4) show sf: "sizes_fit ?cp ?its"
    by (simp add: sizes_fit_def sound_options_def plain_load_def list_all_iff)
  from i have t: "iob_initdata ?lib vm pst = Inr (pools, x)" "iob_details_init ?lib NIOTRACE empty_dtable = Inr dt"
    "create_files_ld ?lib opn files ?cp ?its = Inr flist"
    by (auto simp: init_threads_ld_def bind_res_Inr_iff simp del: sizeof_curtest_def NIOTRACE_def)
  note tab = trace_table [OF t(2)]
  have "pools_ok pools" using initdata_returns [OF t(1) assms(2,3)] by blast
  then have "state_ok_ld \<lparr>l_lib = ?lib, l_pools = pools, l_env = e\<lparr>rng := x\<rparr>, l_dt = dt, l_cur = zero_curtest,
       l_starttime = 0, l_ign_errors = lo_ign_errors opts, l_nanosleep = sleeps, l_sleeps = []\<rparr>"
    using tab(1) assms(5) by (simp add: state_ok_ld_def kind_kernel_def full_transfers_def)
  from start_ok_ld [OF sf t(3) _ this] ok tab(2) assms(5) show "run_ok ?cp ?its s0"
    by (simp add: s0 kind_kernel_def)
qed

section \<open>Properties\<close>

text \<open>
  Property C25. For plain parameters (\<open>plain_load\<close>: multiplier 1, a header of whole blocks of 1024 bytes, sizes below
  \<open>2^31\<close>, a \<open>maxiosize\<close> above 0, a range from \<open>minoff\<close> to \<open>maxoff\<close> that has room for the largest I/O and, without a header,
  is a multiple of every size) on a kernel that completes every transfer and interrupts no sleep (\<open>kind_kernel\<close>): from an accepted
  command line on, every request of \<open>ioload\<close> stays inside the test range, in every interleaving of the threads of all files; and
  nothing faults: a thread that is not waiting goes on (as long as the fuel that the model gives repeated writes lasts), and so does
  the main thread, unless it ends the program with a status and a message. C34 shows what becomes of a range that is too small.
\<close>

theorem load_run_safe:
  assumes "load_main argv0 limit opn vm pst sleeps e args = Inr (opts, s0)" and "length vm = table_size" and "length pst = table_size"
    and "plain_load (lo_params opts) (lo_itlist opts)" and "kind_kernel sleeps e" and "load_run env fuel s0 evs s"
  shows "(\<forall>c \<in> set (calls (l_env (y_ls s))). unat (p_minoff (lo_params opts)) \<le> unat (call_offset c)
        \<and> unat (call_offset c) + call_length c \<le> unat (p_maxoff (lo_params opts)))
    \<and> (\<forall>j. waits (Thr j) s \<or> (\<exists>s'. sys_step env fuel (Thr j) s = Inr s')
        \<or> sys_step env fuel (Thr j) s = Inl OutOfFuel \<and> \<not> fuel_for (lo_itlist opts) fuel)
    \<and> (waits Main s \<or> (\<exists>s'. sys_step env fuel Main s = Inr s') \<or> (\<exists>st msgs. sys_step env fuel Main s = Inl (Exited st msgs)))"
proof -
  note m = main_starts [OF assms(1-5)]
  have ok: "run_ok (lo_params opts) (lo_itlist opts) s" by (rule run_stays_ok [OF assms(6) m])
  have "\<forall>c \<in> set (calls (l_env (y_ls s))). in_run (lo_params opts) c" using ok by (simp add: run_ok_def ls_ok_def)
  then show ?thesis using thread_goes_on [OF m(1) ok] main_goes_on [OF ok] by (auto simp: inside_def)
qed

text \<open>\<open>ioload -m initthreads=1,maxthreads=1 /dev/sdb\<close>: the thread comes into its loop, and its first I/O succeeds.\<close>

definition lone_params :: params_ld where
  "lone_params = defparams_ld\<lparr>p_initthreads := 1, p_maxthreads := 1\<rparr>"

definition lone_opts :: load_opts where
  "lone_opts = init_opts\<lparr>lo_params := lone_params, lo_itlist := [defitype]\<rparr>"

definition lone_args :: "string list" where
  "lone_args = [''-m'', ''initthreads=1,maxthreads=1'', ''/dev/sdb'']"

lemma lone_cmdline: "load_cmdline ''ioload'' (2 ^ 40) lone_args = Inr (lone_opts, [''/dev/sdb''])"
proof -
  have one: "strtoull ''1'' = 1" using strtoull_dec_nat [of 1] by (simp add: dec_nat.simps char_of_def bit_Suc_0_iff)
  have g: "getsubopt modopts_ld ''initthreads=1,maxthreads=1'' = (Some 4, Some ''1'', ''maxthreads=1'')"
    "getsubopt modopts_ld ''maxthreads=1'' = (Some 5, Some ''1'', [])"
    by (simp_all add: getsubopt_def modopts_ld_def)
  have h: "getmodopt_ld lib (Some 4) (Some ''1'') cp = Inr (cp\<lparr>p_initthreads := 1\<rparr>)"
    "getmodopt_ld lib (Some 5) (Some ''1'') cp = Inr (cp\<lparr>p_maxthreads := 1\<rparr>)" for lib cp
    by (simp_all add: getmodopt_ld_def iob_strtoul_def one)
  have "getmodopts_ld lib ''initthreads=1,maxthreads=1'' cp = Inr (cp\<lparr>p_initthreads := 1, p_maxthreads := 1\<rparr>)" for lib cp
    unfolding getmodopts_ld_def by (simp add: subopt_loop_step [OF _ g(1)] subopt_loop_step [OF _ g(2)] h)
  then show ?thesis
    by (simp add: load_cmdline_def lone_args_def load_option_def init_opts_def lone_opts_def lone_params_def Let_def)
qed

lemma lone_plain: "plain_load lone_params [defitype]"
  unfolding plain_load_def default_sound(2) by (simp add: lone_params_def defparams_ld_def) (simp add: defitype_def)

definition lone_kernel :: env where
  "lone_kernel = \<lparr>clk = (\<lambda>n. (int (min n 1000), 0)), ticks = 0, dev = (\<lambda>n c. (int (call_length c), 0)), calls = [], rng = 0\<rparr>"

lemma lone_kind: "kind_kernel (\<lambda>_ _. (0, 0)) lone_kernel"
  by (simp add: kind_kernel_def lone_kernel_def full_transfers_def)

abbreviation lone_main :: "(load_opts \<times> lsys) res" where
  "lone_main \<equiv> load_main ''ioload'' (2 ^ 40) (\<lambda>_ _ _. 3) (replicate table_size 1) (replicate table_size 1) (\<lambda>_ _. (0, 0))
     lone_kernel lone_args"

lemma lone_start:
  "\<exists>ls f t. lone_main = Inr (lone_opts, start_load ls [f]) \<and> f_ithreads f = [t] \<and> t_threadid t = 0
    \<and> f_params_ld f = lone_params \<and> t_params t = lone_params \<and> clk (l_env ls) = clk lone_kernel \<and> ticks (l_env ls) = 0"
proof -
  let ?lib = "iob_libinit ''ioload'' usage_text_ld (2 ^ 40)" and ?tab = "replicate table_size (1 :: u8)"
  have heap: "heap_limit ?lib = 2 ^ 40" by (simp add: iob_libinit_def)
  have "table_size \<le> heap_limit ?lib" "length ?tab = table_size" unfolding heap by simp_all
  from initdata_spec [OF this(1,2,2)] obtain pools x where 1: "iob_initdata ?lib ?tab ?tab = Inr (pools, x)" by blast
  from details_init_ok [of NIOTRACE ?lib] obtain dt where 2: "iob_details_init ?lib NIOTRACE empty_dtable = Inr dt"
    unfolding heap by auto
  have r: "roomy_ld ?lib (\<lambda>_ _ _. 3)" unfolding roomy_ld_def heap by simp
  have "check_range 4096 lone_params = Inr ()"
    by (simp add: check_range_def range_ld_def last_sector_def sectors_def lone_params_def defparams_ld_def)
  with r obtain fl where fl: "create_files_ld ?lib (\<lambda>_ _ _. 3) [''/dev/sdb''] lone_params [defitype] = Inr fl"
    using create_files_ld_total [of ?lib "\<lambda>_ _ _. 3" "[defitype]" lone_params]
    unfolding default_sound(2) by (auto simp: lone_params_def defparams_ld_def)
  from align_small [of sizeof_curtest ?lib] obtain b where 3: "iob_align_shmem ?lib sizeof_curtest = Inr b"
    unfolding heap by auto
  have "init_threads_ld ?lib (\<lambda>_ _ _. 3) ?tab ?tab [''/dev/sdb''] lone_params [defitype] = Inr (fl, pools, dt, x)"
    unfolding init_threads_ld_def 1 2 3 bind_res_simps prod.case fl ..
  then have "lone_main = Inr (lone_opts, start_load \<lparr>l_lib = ?lib, l_pools = pools, l_env = lone_kernel\<lparr>rng := x\<rparr>, l_dt = dt,
      l_cur = zero_curtest, l_starttime = 0, l_ign_errors = False, l_nanosleep = (\<lambda>_ _. (0, 0)), l_sleeps = []\<rparr> fl)"
    unfolding load_main_def lone_cmdline bind_res_simps prod.case Let_def by (simp add: lone_opts_def init_opts_def)
  then obtain ls where m: "lone_main = Inr (lone_opts, start_load ls fl)" "clk (l_env ls) = clk lone_kernel" "ticks (l_env ls) = 0"
    by (force simp: lone_kernel_def)
  from create_files_ready [OF fl] obtain f where f: "fl = [f]" "ready_file 4096 lone_params [defitype] f"
    by (cases fl) (auto simp: default_sound(2))
  then obtain t where "f_ithreads f = [t]"
    by (cases "f_ithreads f") (auto simp: ready_file_def lone_params_def)
  with f m show ?thesis by (auto simp: ready_file_def created_ld_def)
qed

lemma lone_run:
  assumes "f_ithreads f = [t]" "t_threadid t = 0" "f_params_ld f = lone_params" "t_params t = lone_params"
  shows "\<exists>s x y z. follow demo_run_env fuel [Main, Thr 0, Main, Main, Main, Main, Main, Thr 0, Thr 0, Thr 0] (start_load ls [f])
      = Inr ([Start 1, Began 0], s) \<and> y_pcs s = [Busy x y z]"
  using assms
  by (auto simp: lone_params_def demo_run_defs step_defs begin_level_def seed_ld_def set_rng_ld_def Let_def split: prod.splits)

theorem load_run_safe_witness:
  "\<exists>s0 s s'. lone_main = Inr (lone_opts, s0) \<and> load_run demo_run_env 5000 s0 [Start 1, Began 0] s
    \<and> sys_step demo_run_env 5000 (Thr 0) s = Inr s'
    \<and> (\<forall>c \<in> set (calls (l_env (y_ls s'))). unat (call_offset c) + call_length c \<le> unat (p_maxoff lone_params))"
proof -
  from lone_start obtain ls f t where m: "lone_main = Inr (lone_opts, start_load ls [f])"
    and f: "f_ithreads f = [t]" "t_threadid t = 0" "f_params_ld f = lone_params" "t_params t = lone_params" by blast
  from lone_run [OF f] obtain s x y z where "follow demo_run_env 5000 [Main, Thr 0, Main, Main, Main, Main, Main, Thr 0, Thr 0, Thr 0]
      (start_load ls [f]) = Inr ([Start 1, Began 0], s)" and pc: "y_pcs s = [Busy x y z]" by blast
  from follow_begin [OF this(1)] have r: "load_run demo_run_env 5000 (start_load ls [f]) [Start 1, Began 0] s" .
  have p: "plain_load (lo_params lone_opts) (lo_itlist lone_opts)" using lone_plain by (simp add: lone_opts_def)
  note safe = load_run_safe [OF m length_replicate length_replicate p lone_kind]
  have fu: "fuel_for (lo_itlist lone_opts) 5000" by (simp add: fuel_for_def lone_opts_def defitype_def)
  have "\<not> waits (Thr 0) s" using pc by (simp add: waits_def nthreads_ld_def)
  with safe [OF r] fu obtain s' where st: "sys_step demo_run_env 5000 (Thr 0) s = Inr s'" by auto
  from safe [OF run_move [OF r st]] r st m show ?thesis by (auto simp: lone_opts_def)
qed

end
