(* ===== verification/LoadLevel.thy ===== *)
theory LoadLevel
  imports LoadWhole
begin

text \<open>
  The end of a test level. Once the clock has reached the end of a level, no schedule of the threads keeps the level from being
  summarised: the steps of \<open>runtest\<close> and of the threads within a level are counted by a measure, which each of them decreases.
\<close>

section \<open>The measure of a level\<close>

fun working :: "mpc \<Rightarrow> bool" where
  "working (Release i k t r) = True"
| "working (Watch i t r) = True"
| "working (Collect i k r) = True"
| "working m = False"

text \<open>How far a thread is from its next wait, a post of \<open>start\<close> being worth one round, and how far the main thread is from its summary.\<close>

fun pc_rank :: "tpc \<Rightarrow> nat" where
  "pc_rank New = 0"
| "pc_rank Announce = 4"
| "pc_rank Test = 2"
| "pc_rank Wait = 0"
| "pc_rank Decide = 5"
| "pc_rank (Busy x y z) = 4"
| "pc_rank Tell = 3"
| "pc_rank Gone = 0"

definition thread_rank :: "lsys \<Rightarrow> nat \<Rightarrow> nat" where
  "thread_rank s j = 6 * (y_start s ! j) + pc_rank (y_pcs s ! j)"

fun main_rank :: "nat \<Rightarrow> mpc \<Rightarrow> nat" where
  "main_rank n (Release i k t r) = 7 * (n - k) + n + 4"
| "main_rank n (Watch i t r) = n + 2"
| "main_rank n (Collect i k r) = n + 1 - k"
| "main_rank n m = 0"

definition level_rank :: "lsys \<Rightarrow> nat" where
  "level_rank s = main_rank (nthreads_ld s) (y_main s) + (\<Sum>j < nthreads_ld s. thread_rank s j)"

text \<open>A status report that is due, and the threads that will make another I/O.\<close>

definition report_due :: "lsys \<Rightarrow> nat" where
  "report_due s = (case y_main s of Watch i t r \<Rightarrow> if status_due s t then 1 else 0 | _ \<Rightarrow> 0)"

definition hot :: "lsys \<Rightarrow> nat set" where
  "hot s = {j. j < nthreads_ld s \<and> busy (y_pcs s ! j) \<and> d_start (q_detail (t_iorp (y_ths s ! j))) < c_finish (l_cur (y_ls s))}"

text \<open>\<open>N\<close> is a number of clock readings after which the level is over.\<close>

definition over_after :: "nat \<Rightarrow> lsys \<Rightarrow> bool" where
  "over_after N s \<longleftrightarrow> (\<forall>n \<ge> N. c_finish (l_cur (y_ls s)) \<le> clock_at (y_ls s) n \<and> \<not> status_due s (clock_at (y_ls s) n))"

definition heavy :: "nat \<Rightarrow> lsys \<Rightarrow> nat" where
  "heavy N s = level_rank s + (N - ticks (l_env (y_ls s))) + report_due s"

definition level_measure :: "nat \<Rightarrow> lsys \<Rightarrow> nat" where
  "level_measure N s = (nthreads_ld s + 1) * heavy N s + card (hot s)"

lemma hot_few: "card (hot s) \<le> nthreads_ld s" "finite (hot s)"
proof -
  have "hot s \<subseteq> {..< nthreads_ld s}" by (auto simp: hot_def)
  then show "card (hot s) \<le> nthreads_ld s" "finite (hot s)"
    using card_mono [of "{..< nthreads_ld s}"] finite_subset by auto
qed

lemma less_heavy:
  assumes "heavy N s' < heavy N s" "nthreads_ld s' = nthreads_ld s"
  shows "level_measure N s' < level_measure N s"
proof -
  let ?n = "nthreads_ld s"
  have "(?n + 1) * heavy N s' + card (hot s') < (?n + 1) * heavy N s' + (?n + 1)"
    using hot_few(1) [of s'] assms(2) by simp
  also have "\<dots> = (?n + 1) * Suc (heavy N s')" by simp
  also have "\<dots> \<le> (?n + 1) * heavy N s" using assms(1) by (intro mult_le_mono) simp_all
  finally show ?thesis using assms(2) by (simp add: level_measure_def)
qed

lemma less_hot:
  assumes "heavy N s' \<le> heavy N s" "nthreads_ld s' = nthreads_ld s" "hot s' \<subset> hot s"
  shows "level_measure N s' < level_measure N s"
proof -
  have "(nthreads_ld s + 1) * heavy N s' \<le> (nthreads_ld s + 1) * heavy N s" using assms(1) by (intro mult_le_mono) simp_all
  moreover have "card (hot s') < card (hot s)" using assms(3) hot_few(2) by (intro psubset_card_mono)
  ultimately show ?thesis unfolding level_measure_def assms(2) by (rule add_le_less_mono)
qed

text \<open>Ranks after a change of one thread.\<close>

lemma sum_one:
  fixes f g :: "nat \<Rightarrow> nat"
  assumes "j < n" "\<And>i. i < n \<Longrightarrow> i \<noteq> j \<Longrightarrow> g i = f i"
  shows "(\<Sum>i < n. g i) + f j = (\<Sum>i < n. f i) + g j"
proof -
  have "(\<Sum>i \<in> {..< n} - {j}. g i) = (\<Sum>i \<in> {..< n} - {j}. f i)" using assms(2) by (intro sum.cong) auto
  then show ?thesis using assms(1) sum.remove [of "{..< n}" j g] sum.remove [of "{..< n}" j f] by simp
qed

section \<open>Every step within a level decreases it\<close>

text \<open>What a step of a thread leaves to the others.\<close>

definition steps_apart :: "nat \<Rightarrow> lsys \<Rightarrow> lsys \<Rightarrow> bool" where
  "steps_apart j s s' \<longleftrightarrow> y_main s' = y_main s \<and> y_files s' = y_files s \<and> nthreads_ld s' = nthreads_ld s
     \<and> l_cur (y_ls s') = l_cur (y_ls s) \<and> clock_at (y_ls s') = clock_at (y_ls s)
     \<and> ticks (l_env (y_ls s)) \<le> ticks (l_env (y_ls s'))
     \<and> (\<forall>i < nthreads_ld s. i \<noteq> j \<longrightarrow> y_pcs s' ! i = y_pcs s ! i \<and> y_start s' ! i = y_start s ! i \<and> y_ths s' ! i = y_ths s ! i)"

lemma apart_due: "steps_apart j s s' \<Longrightarrow> status_due s' t = status_due s t"
  by (simp add: steps_apart_def status_due_def run_params_def)

lemma apart_rank:
  assumes "steps_apart j s s'" "j < nthreads_ld s"
  shows "level_rank s' + thread_rank s j = level_rank s + thread_rank s' j" "report_due s' = report_due s"
proof -
  let ?n = "nthreads_ld s"
  have "(\<Sum>i < ?n. thread_rank s' i) + thread_rank s j = (\<Sum>i < ?n. thread_rank s i) + thread_rank s' j"
    using assms(1) by (intro sum_one [OF assms(2)]) (simp add: steps_apart_def thread_rank_def)
  moreover have "y_main s' = y_main s" "nthreads_ld s' = ?n" using assms(1) by (simp_all add: steps_apart_def)
  ultimately show "level_rank s' + thread_rank s j = level_rank s + thread_rank s' j" by (simp add: level_rank_def)
  show "report_due s' = report_due s"
    using assms(1) apart_due [OF assms(1)] by (simp add: report_due_def steps_apart_def split: mpc.splits)
qed

lemma seed_quiet:
  "l_cur (seed_ld ls) = l_cur ls" "clock_at (seed_ld ls) = clock_at ls" "ticks (l_env ls) \<le> ticks (l_env (seed_ld ls))"
  by (simp_all add: seed_ld_def tick_ld_eq set_rng_ld_def clock_at_def fun_eq_iff)

lemma tick_quiet:
  "tick_ld ls = (t, ls') \<Longrightarrow> l_cur ls' = l_cur ls \<and> clock_at ls' = clock_at ls \<and> ticks (l_env ls') = Suc (ticks (l_env ls))
     \<and> t = clock_at ls (ticks (l_env ls))"
  by (auto simp: tick_ld_eq clock_at_def fun_eq_iff)

text \<open>A step of a thread brings it nearer to its next wait, or is an I/O, which reads the clock and starts after its last reading.\<close>

definition io_made :: "nat \<Rightarrow> lsys \<Rightarrow> lsys \<Rightarrow> bool" where
  "io_made j s s' \<longleftrightarrow> j \<in> hot s \<and> busy (y_pcs s' ! j) \<and> thread_rank s' j = thread_rank s j
     \<and> ticks (l_env (y_ls s)) < ticks (l_env (y_ls s'))
     \<and> (\<exists>m \<ge> ticks (l_env (y_ls s)). d_start (q_detail (t_iorp (y_ths s' ! j))) = clock_at (y_ls s) m)"

lemma busy_progress:
  assumes "sizes_fit cp its" "fuel_for its fuel" "run_ok cp its s" "j < nthreads_ld s" "y_pcs s ! j = Busy x y z"
    and "step_busy fuel x y z j s = Inr s'"
  shows "steps_apart j s s' \<and> (thread_rank s' j < thread_rank s j \<or> io_made j s s')"
proof -
  have n: "j < length (y_ths s)" "j < length (y_pcs s)" using assms(3,4) by (auto simp: nthreads_ld_def run_ok_def shape_ld_def)
  let ?tp = "y_ths s ! j"
  show ?thesis
  proof (cases "d_start (q_detail (t_iorp ?tp)) < c_finish (l_cur (y_ls s))")
    case False
    with assms(6) have "s' = goto_ld j Tell s" by (simp add: step_busy_def Let_def)
    then show ?thesis using n assms(5) by (simp add: steps_apart_def goto_ld_def nthreads_ld_def thread_rank_def)
  next
    case True
    with assms(6) obtain n' io' tp' ls where t: "io_turn_ld fuel x (y, z, ?tp, y_ls s) = Inr (n', io', tp', ls)"
      and s': "s' = goto_ld j (Busy x n' io') (s\<lparr>y_ls := ls, y_ths := (y_ths s)[j := tp']\<rparr>)"
      by (auto simp: step_busy_def Let_def bind_res_Inr_iff)
    obtain m where m: "fuel = Suc m" using assms(2) by (cases fuel) (simp_all add: fuel_for_def)
    have ok: "sound_thread cp its ?tp" "state_ok_ld (y_ls s)"
      using run_ok_parts [OF assms(3)] n(1) by (simp_all add: ls_ok_def)
    then have "\<forall>ip \<in> set (t_itlist ?tp). it_repwrite ip \<le> 0 \<and> unat (it_size ip) \<le> m"
      using assms(2) by (auto simp: sound_thread_def fuel_for_def m less_Suc_eq_le)
    from io_turn_ld_ok [OF _ ok(2) this, of x y z] ok(1) t have "later (?tp, y_ls s) (tp', ls)" by (simp add: sound_thread_def m)
    then have l: "state_fixed_ld ls = state_fixed_ld (y_ls s)" "ticks (l_env (y_ls s)) < ticks (l_env ls)"
      "\<exists>k \<ge> ticks (l_env (y_ls s)). d_start (q_detail (t_iorp tp')) = clock_at (y_ls s) k" by (auto simp: later_def)
    have "l_cur ls = l_cur (y_ls s)" "clock_at ls = clock_at (y_ls s)"
      using l(1) clock_fixed [OF l(1)] by (simp_all add: state_fixed_ld_def)
    then show ?thesis using n l(2,3) assms(4,5) True
      by (simp add: s' steps_apart_def goto_ld_def nthreads_ld_def thread_rank_def io_made_def hot_def)
  qed
qed

lemma thread_progress:
  assumes "sizes_fit cp its" "fuel_for its fuel" "run_ok cp its s" "j < nthreads_ld s" "thread_step_ld fuel j s = Inr s'"
  shows "steps_apart j s s' \<and> (thread_rank s' j < thread_rank s j \<or> io_made j s s')"
proof -
  have n: "j < length (y_ths s)" "j < length (y_pcs s)" "j < length (y_start s)"
    using assms(3,4) by (auto simp: nthreads_ld_def run_ok_def shape_ld_def)
  obtain t ls where t: "tick_ld (y_ls s) = (t, ls)" by fastforce
  note tq = tick_quiet [OF t]
  show ?thesis
  proof (cases "y_pcs s ! j")
    case (Busy x y z)
    with busy_progress [OF assms(1-4) Busy] assms(5) show ?thesis by (simp add: thread_step_ld_def)
  qed (use assms(5) n tq in \<open>auto simp: thread_step_ld_def steps_apart_def goto_ld_def post_stop_def nthreads_ld_def
      thread_rank_def seed_quiet enter_do_io_def Let_def t split: if_splits\<close>)
qed

lemma thread_decreases:
  assumes "sizes_fit cp its" "fuel_for its fuel" "run_ok cp its s" "j < nthreads_ld s" "thread_step_ld fuel j s = Inr s'"
    and "over_after N s"
  shows "level_measure N s' < level_measure N s" "over_after N s'" "y_main s' = y_main s" "nthreads_ld s' = nthreads_ld s"
proof -
  note p = thread_progress [OF assms(1-5)]
  then have a: "steps_apart j s s'" ..
  then show m: "y_main s' = y_main s" and n: "nthreads_ld s' = nthreads_ld s" by (simp_all add: steps_apart_def)
  show "over_after N s'"
    using assms(6) a apart_due [OF a] by (simp add: over_after_def steps_apart_def)
  note r = apart_rank [OF a assms(4)]
  have tk: "ticks (l_env (y_ls s)) \<le> ticks (l_env (y_ls s'))" using a by (simp add: steps_apart_def)
  from p show "level_measure N s' < level_measure N s"
  proof (elim conjE disjE)
    assume "thread_rank s' j < thread_rank s j"
    with r tk have "heavy N s' < heavy N s" by (simp add: heavy_def)
    then show ?thesis using n by (rule less_heavy)
  next
    assume io: "io_made j s s'"
    with r have lr: "level_rank s' = level_rank s" by (simp add: io_made_def)
    have tk: "ticks (l_env (y_ls s)) < ticks (l_env (y_ls s'))" using io by (simp add: io_made_def)
    show ?thesis
    proof (cases "ticks (l_env (y_ls s)) < N")
      case True
      with lr r(2) tk have "heavy N s' < heavy N s" by (simp add: heavy_def)
      then show ?thesis using n by (rule less_heavy)
    next
      case False
      have le: "heavy N s' \<le> heavy N s" using lr r(2) tk by (simp add: heavy_def)
      from io obtain m where m: "ticks (l_env (y_ls s)) \<le> m" "d_start (q_detail (t_iorp (y_ths s' ! j))) = clock_at (y_ls s) m"
        and hj: "j \<in> hot s" by (auto simp: io_made_def)
      have "c_finish (l_cur (y_ls s)) \<le> clock_at (y_ls s) m" using assms(6) False m(1) by (simp add: over_after_def)
      then have "j \<notin> hot s'" using a m(2) by (simp add: hot_def steps_apart_def not_less)
      moreover have "hot s' \<subseteq> insert j (hot s)" using a by (auto simp: hot_def steps_apart_def)
      ultimately have "hot s' \<subset> hot s" using hj by blast
      then show ?thesis by (rule less_hot [OF le n])
    qed
  qed
qed

text \<open>A report leaves the clock, the level and the places of the threads.\<close>

lemma report_apart:
  assumes "report_now env start stop br status s = Inr s'" "shape_ld s"
  shows "nthreads_ld s' = nthreads_ld s" "thread_rank s' = thread_rank s" "run_params s' = run_params s"
    "l_cur (y_ls s') = l_cur (y_ls s)" "l_env (y_ls s') = l_env (y_ls s)" "clock_at (y_ls s') = clock_at (y_ls s)"
proof -
  note f = report_frame [OF assms]
  show "nthreads_ld s' = nthreads_ld s" "thread_rank s' = thread_rank s" "run_params s' = run_params s"
    "l_cur (y_ls s') = l_cur (y_ls s)"
    using f frame_params [OF f(1)] by (simp_all add: nthreads_ld_def thread_rank_def fun_eq_iff)
  show e: "l_env (y_ls s') = l_env (y_ls s)" using assms(1) by (auto simp: report_now_def Let_def bind_res_Inr_iff)
  then show "clock_at (y_ls s') = clock_at (y_ls s)" by (simp add: clock_at_def fun_eq_iff)
qed

lemma watch_decreases:
  assumes "run_ok cp its s" "y_main s = Watch i u r" "over_after N s" "step_watch env i u r s = Inr s'"
  shows "level_measure N s' < level_measure N s \<and> over_after N s' \<and> nthreads_ld s' = nthreads_ld s
    \<and> (\<exists>t. y_main s' = Watch i t r \<or> y_main s' = Collect i 0 r)"
proof (cases "status_due s u")
  case False
  then have s': "s' = s\<lparr>y_main := Collect i 0 r\<rparr>" using assms(4) by (simp add: step_watch_def)
  have n: "nthreads_ld s' = nthreads_ld s" by (simp add: s' nthreads_ld_def)
  have "heavy N s' < heavy N s" using assms(2) False
    by (simp add: s' heavy_def level_rank_def report_due_def thread_rank_def nthreads_ld_def)
  from less_heavy [OF this n] n assms(3) show ?thesis by (simp add: s' over_after_def status_due_def run_params_def)
next
  case True
  obtain now ls where t: "tick_ld (y_ls s) = (now, ls)" by fastforce
  note tq = tick_quiet [OF t]
  let ?s1 = "s\<lparr>y_ls := ls\<rparr>"
  from assms(4) True obtain s2 where rp: "report_now env u now r True ?s1 = Inr s2" and s': "s' = s2\<lparr>y_main := Watch i now r\<rparr>"
    by (auto simp: step_watch_def t bind_res_Inr_iff)
  have sh: "shape_ld ?s1" using assms(1) by (simp add: run_ok_def shape_ld_def)
  note a = report_apart [OF rp sh]
  have n: "nthreads_ld s' = nthreads_ld s" using a(1) by (simp add: s' nthreads_ld_def)
  have due: "status_due s' v = status_due s v" for v
    using a(3,4) tq by (simp add: s' status_due_def run_params_def)
  have ov: "over_after N s'"
    using assms(3) a(4,6) tq due by (simp add: over_after_def) (simp add: s' clock_at_def)
  have "(\<Sum>j < nthreads_ld s. thread_rank s' j) = (\<Sum>j < nthreads_ld s. thread_rank s j)"
    using a(2) by (simp add: s' thread_rank_def fun_eq_iff)
  then have lr: "level_rank s' = level_rank s" using n assms(2) by (simp add: level_rank_def) (simp add: s')
  have tk: "ticks (l_env (y_ls s')) = Suc (ticks (l_env (y_ls s)))" using a(5) tq by (simp add: s')
  have d: "report_due s = 1" using assms(2) True by (simp add: report_due_def)
  have d': "report_due s' = (if status_due s now then 1 else 0)" using due [of now] by (simp add: s' report_due_def)
  have "heavy N s' < heavy N s"
  proof (cases "ticks (l_env (y_ls s)) < N")
    case True
    have "report_due s' \<le> 1" using d' by simp
    then show ?thesis using True lr tk d unfolding heavy_def by linarith
  next
    case False
    then have "\<not> status_due s now" using assms(3) tq by (simp add: over_after_def)
    then show ?thesis using lr tk d d' by (simp add: heavy_def)
  qed
  from less_heavy [OF this n] n ov show ?thesis by (simp add: s')
qed

lemma main_decreases:
  assumes "sys_inv p ids s" "run_ok cp its s" "working (y_main s)" "over_after N s" "main_step env s = Inr s'"
  shows "level_measure N s' < level_measure N s \<and> over_after N s' \<and> nthreads_ld s' = nthreads_ld s
    \<and> (working (y_main s') \<or> (\<exists>i r. y_main s' = Summarise i r))"
proof -
  note q = sys_inv_parts [OF assms(1)]
  let ?n = "nthreads_ld s"
  have quick: ?thesis if "heavy N s' < heavy N s" "nthreads_ld s' = ?n" "y_ls s' = y_ls s" "y_files s' = y_files s"
    "working (y_main s') \<or> (\<exists>i r. y_main s' = Summarise i r)"
    using less_heavy [OF that(1,2)] that assms(4) by (simp add: over_after_def status_due_def run_params_def)
  show ?thesis
  proof (cases "y_main s")
    case (Release i k t r)
    show ?thesis
    proof (cases "k < ?n")
      case True
      have s': "s' = (post_start k s)\<lparr>y_main := Release i (k + 1) t r\<rparr>" using assms(5) Release True by (simp add: main_step_def Let_def)
      have l: "k < length (y_start s)" using True q by simp
      have n: "nthreads_ld s' = ?n" by (simp add: s' post_start_def nthreads_ld_def)
      have "(\<Sum>j < ?n. thread_rank s' j) + thread_rank s k = (\<Sum>j < ?n. thread_rank s j) + thread_rank s' k"
        using l by (intro sum_one [OF True]) (simp add: s' post_start_def thread_rank_def)
      moreover have "thread_rank s' k = thread_rank s k + 6" using l by (simp add: s' post_start_def thread_rank_def)
      ultimately have sum: "(\<Sum>j < ?n. thread_rank s' j) = (\<Sum>j < ?n. thread_rank s j) + 6" by simp
      have "7 * (?n - k) = 7 * (?n - Suc k) + 7" using True by simp
      then have "level_rank s' < level_rank s" using Release sum n by (simp add: level_rank_def) (simp add: s')
      then have "heavy N s' < heavy N s" using Release by (simp add: heavy_def report_due_def) (simp add: s' post_start_def)
      then show ?thesis by (rule quick [OF _ n]) (simp_all add: s' post_start_def)
    next
      case False
      have s': "s' = s\<lparr>y_main := Watch i t r\<rparr>" using assms(5) Release False by (simp add: main_step_def Let_def)
      have "heavy N s' < heavy N s" using Release
        by (simp add: s' heavy_def level_rank_def report_due_def thread_rank_def nthreads_ld_def)
      then show ?thesis by (rule quick) (simp_all add: s' nthreads_ld_def)
    qed
  next
    case (Watch i u r)
    then have "step_watch env i u r s = Inr s'" using assms(5) by (simp add: main_step_def Let_def)
    from watch_decreases [OF assms(2) Watch assms(4) this] show ?thesis by auto
  next
    case (Collect i k r)
    show ?thesis
    proof (cases "k < ?n")
      case True
      have s': "s' = s\<lparr>y_stop := (y_stop s)[k := y_stop s ! k - 1], y_main := Collect i (k + 1) r\<rparr>"
        using assms(5) Collect True by (auto simp: main_step_def wait_stop_def Let_def split: if_splits)
      have "heavy N s' < heavy N s" using Collect True
        by (simp add: s' heavy_def level_rank_def report_due_def thread_rank_def nthreads_ld_def)
      then show ?thesis by (rule quick) (simp_all add: s' nthreads_ld_def)
    next
      case False
      have s': "s' = s\<lparr>y_main := Summarise i r\<rparr>" using assms(5) Collect False by (simp add: main_step_def Let_def)
      have "k \<le> ?n" using q(4,6) Collect by simp
      then have "heavy N s' < heavy N s" using Collect
        by (simp add: s' heavy_def level_rank_def report_due_def thread_rank_def nthreads_ld_def)
      then show ?thesis by (rule quick) (simp_all add: s' nthreads_ld_def)
    qed
  qed (use assms(3) in simp_all)
qed

section \<open>Within a level\<close>

definition level_move :: "load_env \<Rightarrow> nat \<Rightarrow> lsys \<Rightarrow> lsys \<Rightarrow> bool" where
  "level_move env fuel s s' \<longleftrightarrow> working (y_main s) \<and> (\<exists>a. sys_step env fuel a s = Inr s')"

text \<open>Steps of \<open>n\<close> threads and the main thread within a level that is over after \<open>t\<close> readings of the clock.\<close>

definition level_steps :: "nat \<Rightarrow> nat \<Rightarrow> nat" where
  "level_steps n t = (n + 1) * (19 * n + 5 + t) + n"

lemma measure_bounded:
  assumes "sys_inv p ids s" "working (y_main s)"
  shows "level_measure N s \<le> level_steps (nthreads_ld s) (N - ticks (l_env (y_ls s)))"
proof -
  note q = sys_inv_parts [OF assms(1)]
  let ?n = "nthreads_ld s"
  have b: "barrier p ids (c_threads (l_cur (y_ls s))) (y_main s) (y_pcs s) (y_start s) (y_stop s)"
    using assms(1) by (simp add: sys_inv_def)
  have "thread_rank s j \<le> 11" if "j < ?n" for j
  proof -
    have "j < length ids" using that q(6) by simp
    from barrier_nth [OF b this] have "y_start s ! j \<le> 1" using assms(2)
      by (cases "y_main s") (auto simp: inside_t_def idle_t_def split: if_splits)
    moreover have "pc_rank (y_pcs s ! j) \<le> 5" by (cases "y_pcs s ! j") simp_all
    ultimately show ?thesis unfolding thread_rank_def by linarith
  qed
  then have "(\<Sum>j < ?n. thread_rank s j) \<le> (\<Sum>j < ?n. 11)" by (intro sum_mono) simp
  then have "(\<Sum>j < ?n. thread_rank s j) \<le> 11 * ?n" by simp
  moreover have "main_rank ?n (y_main s) \<le> 8 * ?n + 4" by (cases "y_main s") auto
  ultimately have "level_rank s \<le> 19 * ?n + 4" by (simp add: level_rank_def)
  moreover have "report_due s \<le> 1" by (simp add: report_due_def split: mpc.split)
  ultimately have "heavy N s \<le> 19 * ?n + 5 + (N - ticks (l_env (y_ls s)))" by (simp add: heavy_def)
  then have "(?n + 1) * heavy N s \<le> (?n + 1) * (19 * ?n + 5 + (N - ticks (l_env (y_ls s))))" by (rule mult_le_mono2)
  then show ?thesis using hot_few(1) [of s] unfolding level_measure_def level_steps_def by (rule add_le_mono)
qed

lemma move_decreases:
  assumes "level_move env fuel s s'" "sizes_fit cp its" "fuel_for its fuel" "run_ok cp its s" "sys_inv p ids s" "over_after N s"
  shows "level_measure N s' < level_measure N s \<and> over_after N s' \<and> nthreads_ld s' = nthreads_ld s
    \<and> (working (y_main s') \<or> (\<exists>i r. y_main s' = Summarise i r))"
proof -
  from assms(1) obtain a where a: "sys_step env fuel a s = Inr s'" and w: "working (y_main s)" by (auto simp: level_move_def)
  show ?thesis
  proof (cases a)
    case Main
    with a main_decreases [OF assms(5,4) w assms(6)] show ?thesis by (simp add: sys_step_def)
  next
    case (Thr j)
    with a have "j < nthreads_ld s" "thread_step_ld fuel j s = Inr s'" by (auto simp: sys_step_def split: if_splits)
    from thread_decreases [OF assms(2-4) this assms(6)] w show ?thesis by simp
  qed
qed

lemma moves_run:
  assumes "load_run env fuel s0 evs s" "(level_move env fuel ^^ k) s s'"
  shows "\<exists>evs'. load_run env fuel s0 evs' s'"
  using assms(2)
proof (induction k arbitrary: s')
  case 0
  with assms(1) show ?case by auto
next
  case (Suc k)
  then obtain s1 where 1: "(level_move env fuel ^^ k) s s1" "level_move env fuel s1 s'" by auto
  from Suc.IH [OF 1(1)] 1(2) show ?case by (auto simp: level_move_def intro: run_move)
qed

lemma main_files:
  assumes "load_main argv0 limit opn vm pst sleeps e args = Inr (opts, s0)"
  shows "\<exists>ls flist. s0 = start_load ls flist \<and> flist \<noteq> [] \<and> f_params_ld (hd flist) = lo_params opts
    \<and> (\<forall>t \<in> set (all_threads flist). 0 \<le> t_threadid t)"
proof -
  let ?lib = "iob_libinit argv0 usage_text_ld limit"
  from assms obtain files flist ls where c: "load_cmdline argv0 limit args = Inr (opts, files)"
    and f: "create_files_ld ?lib opn files (lo_params opts) (lo_itlist opts) = Inr flist" and s0: "s0 = start_load ls flist"
    by (auto simp: load_main_def init_threads_ld_def bind_res_Inr_iff Let_def)
  note r = create_files_ready [OF f]
  have "flist \<noteq> []" using r load_cmdline_ok [OF c] by auto
  moreover from this r have "f_params_ld (hd flist) = lo_params opts" by (simp add: ready_file_def)
  moreover have "0 \<le> t_threadid t" if "t \<in> set (all_threads flist)" for t
    using r that by (auto simp: all_threads_def ready_file_def in_set_conv_nth)
  ultimately show ?thesis using s0 by blast
qed

lemma level_reach:
  assumes "load_main argv0 limit opn vm pst sleeps e args = Inr (opts, s0)" "length vm = table_size" "length pst = table_size"
    and "plain_load (lo_params opts) (lo_itlist opts)" "kind_kernel sleeps e" "fuel_for (lo_itlist opts) fuel"
    and "levels_ok (lo_params opts)" "load_run env fuel s0 evs s" "working (y_main s)" "over_after N s" "(level_move env fuel ^^ k) s s'"
  shows "level_measure N s' + k \<le> level_measure N s \<and> over_after N s'
    \<and> (working (y_main s') \<or> (\<exists>i r. y_main s' = Summarise i r))"
  using assms(11)
proof (induction k arbitrary: s')
  case 0
  with assms(9,10) show ?case by simp
next
  case (Suc k)
  then obtain s1 where 1: "(level_move env fuel ^^ k) s s1" "level_move env fuel s1 s'" by auto
  from moves_run [OF assms(8) 1(1)] obtain evs1 where r: "load_run env fuel s0 evs1 s1" by blast
  note m = main_starts [OF assms(1-5)]
  from main_files [OF assms(1)] obtain ls flist where f: "s0 = start_load ls flist" "flist \<noteq> []"
    "f_params_ld (hd flist) = lo_params opts" "\<forall>t \<in> set (all_threads flist). 0 \<le> t_threadid t" by blast
  from reachable(1) [OF r [unfolded f(1)] f(2) _ f(4)] f(3) assms(7)
  have inv: "sys_inv (lo_params opts) (map t_threadid (all_threads flist)) s1" by simp
  note ih = Suc.IH [OF 1(1)]
  then have "over_after N s1" by blast
  from move_decreases [OF 1(2) m(1) assms(6) run_stays_ok [OF r m] inv this] ih show ?case by auto
qed

section \<open>Properties\<close>

text \<open>
  Property C26. The levels of a test end, for plain parameters on a kernel that completes every transfer (\<open>plain_load\<close>,
  \<open>kind_kernel\<close>, as in C25: so \<open>maxiosize\<close> is above 0), with sound levels (\<open>levels_ok\<close>: at least one thread in the first level, an
  increment that is not negative and does not carry the level beyond an \<open>int\<close>), and when no type repeats its writes and the fuel
  is enough for the largest I/O (\<open>fuel_for\<close>). Once the clock has reached the end of the level at its \<open>N\<close>-th reading, and no
  further status report is due, every schedule of \<open>runtest\<close> and the threads brings the level to its summary, after at most
  \<open>level_steps\<close> steps: within the level some thread can always go on, or the program exits with a message, and no thread goes on
  for ever.
\<close>

theorem level_ends:
  assumes "load_main argv0 limit opn vm pst sleeps e args = Inr (opts, s0)" and "length vm = table_size" and "length pst = table_size"
    and "plain_load (lo_params opts) (lo_itlist opts)" and "kind_kernel sleeps e" and "fuel_for (lo_itlist opts) fuel"
    and "levels_ok (lo_params opts)" and "load_run env fuel s0 evs s" and "working (y_main s)" and "over_after N s"
    and "(level_move env fuel ^^ k) s s'"
  shows "k \<le> level_steps (nthreads_ld s) (N - ticks (l_env (y_ls s)))
    \<and> ((\<exists>s''. level_move env fuel s' s'') \<or> (\<exists>i r. y_main s' = Summarise i r)
      \<or> (\<exists>st msgs. sys_step env fuel Main s' = Inl (Exited st msgs)))"
proof -
  note m = main_starts [OF assms(1-5)]
  from main_files [OF assms(1)] obtain ls flist where f: "s0 = start_load ls flist" "flist \<noteq> []"
    "f_params_ld (hd flist) = lo_params opts" "\<forall>t \<in> set (all_threads flist). 0 \<le> t_threadid t" by blast
  let ?ids = "map t_threadid (all_threads flist)"
  have inv: "sys_inv (lo_params opts) ?ids u" if "load_run env fuel s0 evs u" for evs u
    using reachable(1) [OF that [unfolded f(1)] f(2) _ f(4)] f(3) assms(7) by simp
  note l = level_reach [OF assms]
  have "k \<le> level_steps (nthreads_ld s) (N - ticks (l_env (y_ls s)))"
    using l measure_bounded [OF inv [OF assms(8)] assms(9), of N] by linarith
  moreover have "(\<exists>s''. level_move env fuel s' s'') \<or> (\<exists>st msgs. sys_step env fuel Main s' = Inl (Exited st msgs))"
    if w: "working (y_main s')"
  proof -
    from moves_run [OF assms(8,11)] obtain evs' where r: "load_run env fuel s0 evs' s'" by blast
    have ok: "run_ok (lo_params opts) (lo_itlist opts) s'" by (rule run_stays_ok [OF r m])
    have "y_main s' \<noteq> Finished" using w by auto
    from inv_not_stuck [OF inv [OF r] this] obtain a where a: "\<not> waits a s'" by blast
    show ?thesis
    proof (cases a)
      case Main
      with main_goes_on [OF ok, where fuel = fuel and env = env] a w show ?thesis by (auto simp: level_move_def)
    next
      case (Thr j)
      with thread_goes_on [OF m(1) ok, of j env fuel] a assms(6) w show ?thesis by (auto simp: level_move_def)
    qed
  qed
  ultimately show ?thesis using l by blast
qed

text \<open>The run of \<open>load_run_safe\<close>'s example, up to the point where the thread is in its loop.\<close>

lemma lone_level:
  assumes "f_ithreads f = [t]" "t_threadid t = 0" "f_params_ld f = lone_params" "t_params t = lone_params"
    and "\<And>n. clock_at ls n = of_nat (min n 1000) * 1000000000" "ticks (l_env ls) = 0"
  shows "\<exists>s. follow demo_run_env 5000 [Main, Thr 0, Main, Main, Main, Main, Main, Thr 0, Thr 0, Thr 0] (start_load ls [f])
      = Inr ([Start 1, Began 0], s) \<and> working (y_main s) \<and> over_after 1000 s"
proof -
  obtain s where s: "follow demo_run_env 5000 [Main, Thr 0, Main, Main, Main, Main, Main, Thr 0, Thr 0, Thr 0] (start_load ls [f])
      = Inr ([Start 1, Began 0], s)" "working (y_main s)" "p_status (run_params s) = 0" "clk (l_env (y_ls s)) = clk (l_env ls)"
    "c_finish (l_cur (y_ls s)) = clock_at ls 1 + (60 + 300 + 1) * IOB_NSEC_TO_SEC"
    using assms(1-4,6)
    by (auto simp: lone_params_def demo_run_defs step_defs begin_level_def seed_ld_def set_rng_ld_def tick_ld_eq Let_def clock_at_def)
  have c: "clock_at (y_ls s) n = of_nat (min n 1000) * 1000000000" for n
    using assms(5) [of n] s(4) by (simp add: clock_at_def)
  have "over_after 1000 s"
    using s(3,5) assms(5) [of 1] by (simp add: over_after_def status_due_def c min_absorb2)
  with s(1,2) show ?thesis by blast
qed

theorem level_ends_witness:
  "\<exists>s0 s. lone_main = Inr (lone_opts, s0) \<and> load_run demo_run_env 5000 s0 [Start 1, Began 0] s \<and> working (y_main s)
    \<and> (\<forall>k s'. (level_move demo_run_env 5000 ^^ k) s s' \<longrightarrow> k \<le> level_steps (nthreads_ld s) (1000 - ticks (l_env (y_ls s))))"
proof -
  from lone_start obtain ls f t where m: "lone_main = Inr (lone_opts, start_load ls [f])"
    and f: "f_ithreads f = [t]" "t_threadid t = 0" "f_params_ld f = lone_params" "t_params t = lone_params"
    and e: "clk (l_env ls) = clk lone_kernel" "ticks (l_env ls) = 0" by blast
  have "clock_at ls n = of_nat (min n 1000) * 1000000000" for n
    using e(1) by (simp add: clock_at_def lone_kernel_def timespec_ns_def)
  from lone_level [OF f this e(2)] obtain s where s: "follow demo_run_env 5000 [Main, Thr 0, Main, Main, Main, Main, Main, Thr 0, Thr 0, Thr 0]
      (start_load ls [f]) = Inr ([Start 1, Began 0], s)" "working (y_main s)" "over_after 1000 s" by blast
  note r = follow_begin [OF s(1)]
  have o: "plain_load (lo_params lone_opts) (lo_itlist lone_opts)" "fuel_for (lo_itlist lone_opts) 5000" "levels_ok (lo_params lone_opts)"
    using lone_plain by (simp_all add: lone_opts_def fuel_for_def defitype_def levels_ok_def lone_params_def defparams_ld_def)
  have "k \<le> level_steps (nthreads_ld s) (1000 - ticks (l_env (y_ls s)))" if "(level_move demo_run_env 5000 ^^ k) s s'" for k s'
    using level_ends [OF m length_replicate length_replicate o(1) lone_kind o(2,3) r s(2,3) that] by blast
  with m r s(2) show ?thesis by blast
qed

end
