(* ===== verification/Spec2Isabelle.thy ===== *)
theory Spec2Isabelle
  imports IobUscsi FillProgram FillInject LoadLevel
begin

text \<open>
  A model of blockbench, the block device benchmark: its library and its two programs, \<open>iofill\<close>, which writes a range of
  a device from end to end, and \<open>ioload\<close>, which puts a growing load on a range and measures latencies. Every C function is a
  definition of the same name, or of that name with a suffix where a name is taken (\<open>_ld\<close> for \<open>ioload\<close>'s, \<open>_sun\<close> for Solaris'); long
  functions are cut into a definition per step, composed as the code composes them.

  \<^bold>\<open>The program and its theories.\<close>

  \<^item> \<open>Prelude\<close>: machine types, the results of C code (\<open>'a res\<close>: \<open>Inr\<close> a value, or \<open>Inl\<close> of the way the process stops: \<open>Exited\<close> with
    a status and its error output, \<open>OutOfBounds\<close>, \<open>DivByZero\<close>, \<open>Blocked\<close> for a wait that does not return, \<open>OutOfFuel\<close>), byte buffers with checked accesses, counted loops, byte orders.
  \<^item> \<open>CLib\<close>: what the tools use of the C library: \<open>drand48\<close> and its family, \<open>strtoul\<close> and its relatives, \<open>getopt\<close>, \<open>getsubopt\<close>.
  \<^item> \<open>IobLib\<close> (lib/iob_lib.c, lib/iobenchlibext.h): start-up, error exits, allocation, clock, option values, data tables and
    generators, transfers. \<open>IobStats\<close> (lib/iob_stats.c): the table of long I/Os all threads share and its reports.
    \<open>IobScsi\<close> (lib/iob_scsi.c, Linux): the commands as the request blocks given to the \<open>SG_IO\<close> ioctl; \<open>IobUscsi\<close>: the same file on
    Solaris (\<open>USCSICMD\<close>), AIX, HP-UX and Cygwin.
  \<^item> \<open>iofill\<close> (src/iofill): \<open>FillTypes\<close> (iofill.h), \<open>FillMain\<close> (iof_main.c: options and usage), \<open>FillInit\<close> (iof_init.c), \<open>FillIo\<close>
    (iof_iotest.c: the functions an I/O thread calls), \<open>FillRun\<close> (the loop of \<open>io_thread\<close> as a step relation over the threads of
    a file), \<open>FillStart\<close> (from options through \<open>init_threads\<close> to that loop), \<open>FillTest\<close> (\<open>runtest\<close>, every \<open>file_thread\<close> and every
    \<open>io_thread\<close> of all files as one step relation), \<open>FillOrder\<close> (what the start gates give the whole),
    \<open>FillWhole\<close> (what the theorems about one file give the whole), \<open>FillProgram\<close> (\<open>main\<close>), \<open>FillInject\<close> (write injection
    when a thread has ended), \<open>FillOutput\<close> (iof_output.c).
  \<^item> \<open>ioload\<close> (src/ioload): \<open>LoadTypes\<close> (ioload.h), \<open>LoadMain\<close> (iol_main.c), \<open>LoadInit\<close> (iol_init.c), \<open>LoadIo\<close> (iol_iotest.c:
    \<open>do_io\<close> and below), \<open>LoadLoop\<close> (its loops), \<open>LoadRange\<close> (where its I/Os go and what is counted of them), \<open>LoadOutput\<close>
    (iol_output.c), \<open>LoadRun\<close> (\<open>runtest\<close> and the \<open>io_thread\<close>s as one step relation), \<open>LoadWhole\<close> (\<open>main\<close>, and what
    holds of a run from the command line on), \<open>LoadLevel\<close> (a test level comes to its end).
  \<^item> Shared by both: \<open>Reports\<close> (percentiles and histograms, with the interface \<open>bucket_totals\<close> that each tool's totals
    discharge) and \<open>Gate\<close> (the start gate as a contract, \<open>gate\<close>, interpreted for the files under \<open>runtest\<close> and for the threads
    under each \<open>file_thread\<close>).

  \<^bold>\<open>State.\<close> C structures are records with the members of the source; a pointer to a structure with one owner is containment,
  other pointers are indices. \<open>struct iothread\<close> holds its request, \<open>struct fthread\<close> its threads. Integers have the width of the
  source where they can wrap (sizes, offsets, counters, times); parsed \<open>int\<close> options are integers bounded by their parsers.
  The environment is a record: a clock that is a function of the number of its readings so far, the state of \<open>drand48\<close>, a device
  that answers a request by the number of requests before it, and the list of the requests made. Threads are sequences of steps,
  cut where the code touches what threads share; semaphores are counts and a wait on zero is \<open>Blocked\<close>. A step
  relation lets any thread that can step do so, in any order.

  \<^bold>\<open>What the lemmas show.\<close>

  \<^item> Options: whatever the command line, accepted options are within the bounds the rest relies on, and decimal sizes are read
    back (\<open>FillMain\<close>, \<open>LoadMain\<close>).
  \<^item> A fill: the invariants \<open>fill_inv\<close>, \<open>draw_inv\<close> and \<open>cover_inv\<close> of \<open>FillRun\<close> give that block numbers are drawn once, that the
    bytes written are the range, and that a run ends within four steps per block and thread; \<open>FillStart\<close> shows that the
    program starts in such a state. The gates of \<open>FillTest\<close> and \<open>FillOrder\<close> confine all I/O between the two readings of the clock and
    exclude a deadlock at a semaphore of a gate.
    \<open>FillWhole\<close> projects each file out of the whole (\<open>file_sys\<close>) and shows that \<open>fill_inv\<close> holds of every projection in every
    reachable state (\<open>whole_inv\<close>): every file is filled before the reports are made, no step faults, and a complete test takes
    exactly \<open>test_steps\<close> steps in every schedule.
    \<open>FillProgram\<close> states this of the program, from its command line on (\<open>fill_main\<close>). \<open>FillInject\<close> is about the one wait that
    is not a gate: a thread that injects waits for the others, and for ever when one of them has ended. No option of this
    version turns injection on.
  \<^item> Data: buffers are never overrun, and pages and sectors repeat as deduplication promises (\<open>IobLib\<close>).
  \<^item> A load test: \<open>runtest\<close> refines an abstract sequence of levels (\<open>accepts\<close>), every I/O lies inside a level, each I/O is
    tiled by its requests, the loops of \<open>do_io\<close> end when the clock passes the end of the test. From an accepted command line on
    (\<open>load_main\<close>), \<open>run_ok\<close> holds in every reachable state: all requests lie inside the test range and no step faults; and
    a level, once its time has passed, is over after at most \<open>level_steps\<close> steps of any schedule.
  \<^item> Reports: percentiles against the thresholds of the buckets, histograms that add up, the decision to halt, the reports of a
    test adding up to all that was counted.
  \<^item> Commands to drives: every request block is consistent in itself, with the extents the caller asked for.
  \<^item> Errors: the option values and sizes with which the code hangs, deadlocks or wraps around are theorems as well
    (\<open>initthreads=0\<close>, \<open>incrthreads=0\<close> and \<open>maxiosize=0\<close>, a range smaller than an I/O with a header, a level
    in which nothing was measured).

  \<^bold>\<open>Bounds and fuel.\<close> Loops with a count known on entry recur on it. The loops of \<open>do_io\<close> take fuel, since none need end:
  \<open>LoadLoop\<close> names an amount that is enough, the largest I/O size plus the readings of the clock until the end of the test.
  The wait of write injection for the other threads (\<open>io_stop\<close>) takes fuel for its polling loop; a fill without injection never
  uses it, and its theorems hold for every fuel. Step relations need none: that they end is a count of steps.
  Theorems about a fill assume a plain one (no seek, skip, spread or injection), sizes that do not wrap, transfers that
  succeed, a time limit that is not reached, and, where the whole test must end, a system that can create every thread; the
  defaults satisfy this. The data generators count their offsets in an \<open>int\<close> (\<open>int_off\<close>), and so do the levels of a load test
  (\<open>next_level\<close>): the theorems say up to where (\<open>2 ^ 31\<close> bytes; \<open>levels_ok\<close>) and what happens beyond. Those about a whole load test assume \<open>plain_load\<close>:
  no multiplier, sizes an \<open>int\<close> holds, room for the largest I/O, and transfers that succeed; the defaults with a single thread satisfy it.

  \<^bold>\<open>Not modelled.\<close> Build configurations and the documents. The headers of Solaris: their constants are parameters (\<open>sun_abi\<close>). The two arrays of lib/iob_vmdata.c and lib/iob_pstdata.c: 4,096,000 bytes each, a parameter of which only the size
  matters. Column widths, the text of \<open>ctime\<close>, infinite and NaN rates in reports: a printed line is its format and its arguments.
  The kernel, the device and the scheduler are parameters. The memory limit of \<open>iob_malloc\<close> bounds each allocation by
  itself, not their sum, and a status report of \<open>ioload\<close> reads all counters in one step. The functions \<open>iob_verifydata\<close> and others declared in the headers and defined nowhere have no model.
\<close>

end
